(* ===== verification/Prelude.thy ===== *)
theory Prelude
  imports Main "HOL-Library.Word" "HOL-Library.Multiset" "HOL-Library.List_Lexorder"
begin

unbundle bit_operations_syntax

section \<open>Prelude: machine integers, status codes and shared lemmas\<close>

text \<open>
  Shared vocabulary of the development.
  The fixed-width integers of the C sources are words of the same width; the 30-bit bit fields of
  \<open>struct cyanfs_extent\<close> (\<open>src/core/internal.h\<close>) are values of a 30-bit word type, so that storing
  a 32-bit extent id into such a field truncates here as it does there.
  \<open>cyanfs_status\<close> is an \<open>int\<close> that is 0 or a negated errno constant; the model keeps the constants
  the core uses as constructors.
  The outcome of the \<open>k\<close>-th \<open>cyanfs_malloc\<close> of a call is given by an argument of type \<open>malloc\<close>,
  since the allocator belongs to the platform.
\<close>

type_synonym u8 = "8 word"
type_synonym u16 = "16 word"
type_synonym u32 = "32 word"
type_synonym u64 = "64 word"
type_synonym bitfield30 = "30 word"

type_synonym malloc = "nat \<Rightarrow> bool"

datatype cyanfs_status = Ok | NOMEM | INVAL | BUSY | NOENT | EXIST | NOSPACE | IO

named_theorems frame_simps \<open>what an operation leaves unchanged\<close>
named_theorems codec_simps \<open>encoding followed by decoding\<close>

subsection \<open>Words read as natural numbers\<close>

lemma unat_bounds:
  "unat (w8 :: u8) < 2 ^ 8" "unat (w16 :: u16) < 2 ^ 16" "unat (w30 :: bitfield30) < 2 ^ 30"
  "unat (w32 :: u32) < 2 ^ 32" "unat (w64 :: u64) < 2 ^ 64"
  using unsigned_less [of w8, where 'a = nat] unsigned_less [of w16, where 'a = nat]
    unsigned_less [of w30, where 'a = nat] unsigned_less [of w32, where 'a = nat]
    unsigned_less [of w64, where 'a = nat]
  by simp_all

lemma unat_ucast_mod: "unat (ucast w :: 'b::len word) = unat w mod 2 ^ LENGTH('b)"
  for w :: "'a::len word"
  by (simp add: unsigned_ucast_eq take_bit_eq_mod)

lemma unat_add_no_wrap:
  "unat a + unat b < 2 ^ LENGTH('a) \<Longrightarrow> unat (a + b) = unat a + unat b" for a b :: "'a::len word"
  by (simp add: unat_word_ariths)

lemma unat_diff_no_wrap: "unat b \<le> unat a \<Longrightarrow> unat (a - b) = unat a - unat b"
  for a b :: "'a::len word"
  by (simp add: unat_sub_if')

subsection \<open>Lists and multisets\<close>

lemma sorted_wrt_less_distinct:
  fixes xs :: "'a::linorder list"
  shows "sorted_wrt (<) xs \<Longrightarrow> distinct xs"
  by (simp add: strict_sorted_iff)

lemma map_of_filter_key:
  "map_of (filter (\<lambda>p. P (fst p)) xs) k = (if P k then map_of xs k else None)"
  by (induction xs) auto

lemma map_fst_filter_key:
  "map fst (filter (\<lambda>p. P (fst p)) xs) = filter P (map fst xs)"
  by (induction xs) auto

lemma assoc_list_from_keys:
  "distinct (map fst xs) \<Longrightarrow> xs = map (\<lambda>k. (k, the (map_of xs k))) (map fst xs)"
proof (induction xs)
  case (Cons p xs)
  have "the (map_of (p # xs) (fst q)) = the (map_of xs (fst q))" if "q \<in> set xs" for q
    using Cons.prems that by (auto simp: rev_image_eqI)
  then have "map (\<lambda>q. (fst q, the (map_of (p # xs) (fst q)))) xs =
      map (\<lambda>q. (fst q, the (map_of xs (fst q)))) xs"
    by simp
  also have "\<dots> = xs"
    using Cons by (simp add: comp_def)
  finally show ?case
    by (simp add: comp_def)
qed simp

lemma strict_sorted_keys_unique:
  fixes xs ys :: "('k::linorder \<times> 'v) list"
  assumes "sorted_wrt (<) (map fst xs)" and "sorted_wrt (<) (map fst ys)"
    and "\<And>k. map_of xs k = map_of ys k"
  shows "xs = ys"
proof -
  have "fst ` set xs = fst ` set ys"
    using assms(3) by (metis dom_map_of_conv_image_fst domIff set_eqI)
  then have keys: "map fst xs = map fst ys"
    using assms(1,2) by (metis list.set_map strict_sorted_equal)
  have "xs = map (\<lambda>k. (k, the (map_of xs k))) (map fst xs)"
    using assms(1) by (intro assoc_list_from_keys sorted_wrt_less_distinct)
  also have "\<dots> = map (\<lambda>k. (k, the (map_of ys k))) (map fst ys)"
    by (simp add: keys assms(3) del: map_map)
  also have "\<dots> = ys"
    using assms(2) by (intro assoc_list_from_keys [symmetric] sorted_wrt_less_distinct)
  finally show ?thesis .
qed

end
