(* ===== verification/Bytes.thy ===== *)
theory Bytes
  imports Prelude
begin

section \<open>Bytes: the little-endian codecs and the checksum of \<open>src/core/base.h\<close>\<close>

text \<open>
  A \<open>cyanfs_put*\<close> function stores the bytes of its value at the cursor and advances it; a
  \<open>cyanfs_get*\<close> function reads them and advances. Here an encoder yields the bytes it stores, and a
  decoder takes the bytes from the cursor on and yields the value and the bytes from the advanced
  cursor on. The conversion to and from little endian makes the stored bytes independent of the
  host. The locale \<open>codec\<close> is the contract every such pair satisfies, and the record formats of
  \<open>src/core/journal.h\<close> are built from its instances.
\<close>

definition le_bytes :: "nat \<Rightarrow> 'a::len word \<Rightarrow> u8 list" where
  "le_bytes n v = map (\<lambda>i. ucast (drop_bit (8 * i) v)) [0..<n]"

fun le_value :: "u8 list \<Rightarrow> 'a::len word" where
  "le_value [] = 0"
| "le_value (b # bs) = ucast b OR push_bit 8 (le_value bs)"

definition cyanfs_put_generic :: "u8 list \<Rightarrow> u8 list" where
  "cyanfs_put_generic s = s"

definition cyanfs_get_generic :: "nat \<Rightarrow> u8 list \<Rightarrow> u8 list \<times> u8 list" where
  "cyanfs_get_generic n p = (take n p, drop n p)"

definition cyanfs_put64 :: "u64 \<Rightarrow> u8 list" where
  "cyanfs_put64 v = cyanfs_put_generic (le_bytes 8 v)"

definition cyanfs_get64 :: "u8 list \<Rightarrow> u64 \<times> u8 list" where
  "cyanfs_get64 p = (let (b, p') = cyanfs_get_generic 8 p in (le_value b, p'))"

definition cyanfs_put32 :: "u32 \<Rightarrow> u8 list" where
  "cyanfs_put32 v = cyanfs_put_generic (le_bytes 4 v)"

definition cyanfs_get32 :: "u8 list \<Rightarrow> u32 \<times> u8 list" where
  "cyanfs_get32 p = (let (b, p') = cyanfs_get_generic 4 p in (le_value b, p'))"

definition cyanfs_put16 :: "u16 \<Rightarrow> u8 list" where
  "cyanfs_put16 v = cyanfs_put_generic (le_bytes 2 v)"

definition cyanfs_get16 :: "u8 list \<Rightarrow> u16 \<times> u8 list" where
  "cyanfs_get16 p = (let (b, p') = cyanfs_get_generic 2 p in (le_value b, p'))"

definition cyanfs_put8 :: "u8 \<Rightarrow> u8 list" where
  "cyanfs_put8 v = [v]"

definition cyanfs_get8 :: "u8 list \<Rightarrow> u8 \<times> u8 list" where
  "cyanfs_get8 p = (case p of [] \<Rightarrow> (0, []) | v # p' \<Rightarrow> (v, p'))"

text \<open>The checksum: one step per bit, eight per byte, over the bytes in order.\<close>

definition crc32_bit :: "u32 \<Rightarrow> u32" where
  "crc32_bit crc = drop_bit 1 crc XOR (if crc AND 1 \<noteq> 0 then 0xEDB88320 else 0)"

definition crc32_byte :: "u32 \<Rightarrow> u8 \<Rightarrow> u32" where
  "crc32_byte crc b = (crc32_bit ^^ 8) (crc XOR ucast b)"

definition cyanfs_crc32 :: "u32 \<Rightarrow> u8 list \<Rightarrow> u32" where
  "cyanfs_crc32 crc data = foldl crc32_byte crc data"

subsection \<open>The contract of an encoder and its decoder\<close>

locale codec =
  fixes enc :: "'a \<Rightarrow> u8 list"
    and dec :: "u8 list \<Rightarrow> 'a \<times> u8 list"
    and width :: nat
  assumes length_enc: "length (enc x) = width"
    and dec_enc: "dec (enc x @ rest) = (x, rest)"
    and dec_rest: "width \<le> length p \<Longrightarrow> snd (dec p) = drop width p"
    and enc_dec: "width \<le> length p \<Longrightarrow> enc (fst (dec p)) = take width p"
begin

lemma enc_inject: "enc x = enc y \<longleftrightarrow> x = y"
  by (metis dec_enc fst_conv)

lemma dec_iff:
  assumes "width \<le> length p"
  shows "dec p = (x, rest) \<longleftrightarrow> p = enc x @ rest"
proof
  assume "dec p = (x, rest)"
  then show "p = enc x @ rest"
    using dec_rest [OF assms] enc_dec [OF assms] by (metis append_take_drop_id fst_conv snd_conv)
qed (simp add: dec_enc)

end

subsection \<open>Little-endian words\<close>

lemma length_le_bytes [simp]: "length (le_bytes n v) = n"
  by (simp add: le_bytes_def)

lemma bit_le_bytes: "j < n \<Longrightarrow> i < 8 \<Longrightarrow> bit (le_bytes n v ! j) i = bit v (8 * j + i)"
  for v :: "'a::len word"
  by (auto simp: le_bytes_def bit_simps dest: bit_imp_le_length)

lemma bit_le_value:
  "bit (le_value bs :: 'a::len word) i \<longleftrightarrow>
     i < LENGTH('a) \<and> i div 8 < length bs \<and> bit (bs ! (i div 8)) (i mod 8)"
proof (induction bs arbitrary: i)
  case (Cons b bs)
  show ?case
  proof (cases "i < 8")
    case True
    then show ?thesis by (auto simp: bit_simps)
  next
    case False
    have "bit (ucast b :: 'a word) i = False"
      using False by (auto simp: bit_simps dest: bit_imp_le_length)
    moreover have "i div 8 = Suc ((i - 8) div 8)" "(i - 8) mod 8 = i mod 8"
      using False by (simp_all add: le_div_geq le_mod_geq)
    ultimately show ?thesis
      using False Cons.IH [of "i - 8"] by (auto simp: bit_simps)
  qed
qed simp

lemma le_value_le_bytes: "8 * n = LENGTH('a) \<Longrightarrow> le_value (le_bytes n v) = v" for v :: "'a::len word"
proof (rule bit_word_eqI)
  fix i assume n: "8 * n = LENGTH('a)" and i: "i < LENGTH('a)"
  have "i div 8 < n" using n i by (simp add: less_mult_imp_div_less mult.commute)
  then show "bit (le_value (le_bytes n v) :: 'a word) i = bit v i"
    using i by (simp add: bit_le_value bit_le_bytes)
qed

lemma le_bytes_le_value:
  assumes n: "8 * length bs = LENGTH('a)"
  shows "le_bytes (length bs) (le_value bs :: 'a::len word) = bs"
proof (rule nth_equalityI)
  fix j assume "j < length (le_bytes (length bs) (le_value bs :: 'a word))"
  then have j: "j < length bs" by simp
  show "le_bytes (length bs) (le_value bs :: 'a word) ! j = bs ! j"
  proof (rule bit_word_eqI)
    fix i assume "i < LENGTH(8)"
    then have i: "i < 8" by simp
    moreover have "8 * j + i < LENGTH('a)" using n j i by linarith
    ultimately show "bit (le_bytes (length bs) (le_value bs :: 'a word) ! j) i = bit (bs ! j) i"
      using j by (simp add: bit_le_bytes bit_le_value)
  qed
qed simp

lemma le_codec:
  fixes enc :: "'a::len word \<Rightarrow> u8 list"
  assumes "8 * n = LENGTH('a)"
    and "\<And>v. enc v = le_bytes n v"
    and "\<And>p. dec p = (le_value (take n p), drop n p)"
  shows "codec enc dec n"
proof
  fix p :: "u8 list" assume "n \<le> length p"
  then have "length (take n p) = n" by simp
  then show "enc (fst (dec p)) = take n p"
    using le_bytes_le_value [where 'a = 'a, of "take n p"] assms by simp
qed (simp_all add: assms le_value_le_bytes)

interpretation c64: codec cyanfs_put64 cyanfs_get64 8
  by (rule le_codec)
    (simp_all add: cyanfs_put64_def cyanfs_get64_def cyanfs_put_generic_def cyanfs_get_generic_def)

interpretation c32: codec cyanfs_put32 cyanfs_get32 4
  by (rule le_codec)
    (simp_all add: cyanfs_put32_def cyanfs_get32_def cyanfs_put_generic_def cyanfs_get_generic_def)

interpretation c16: codec cyanfs_put16 cyanfs_get16 2
  by (rule le_codec)
    (simp_all add: cyanfs_put16_def cyanfs_get16_def cyanfs_put_generic_def cyanfs_get_generic_def)

interpretation c8: codec cyanfs_put8 cyanfs_get8 1
  by unfold_locales
    (auto simp: cyanfs_put8_def cyanfs_get8_def Suc_le_length_iff split: list.splits)

lemmas put_length [simp] = c64.length_enc c32.length_enc c16.length_enc c8.length_enc
lemmas get_put [codec_simps] = c64.dec_enc c32.dec_enc c16.dec_enc c8.dec_enc

lemma get_generic_append [codec_simps]:
  "length s = n \<Longrightarrow> cyanfs_get_generic n (cyanfs_put_generic s @ rest) = (s, rest)"
  by (simp add: cyanfs_get_generic_def cyanfs_put_generic_def)

lemma length_put_generic [simp]: "length (cyanfs_put_generic s) = length s"
  by (simp add: cyanfs_put_generic_def)

subsection \<open>The checksum separates neighbouring byte strings\<close>

lemma word_xor_cancel:
  fixes a b c :: "'a::len word"
  shows "a XOR c = b XOR c \<longleftrightarrow> a = b" and "c XOR a = c XOR b \<longleftrightarrow> a = b"
  by (auto simp: bit_eq_iff bit_xor_iff)

lemma crc32_bit_low: "crc AND 1 \<noteq> 0 \<longleftrightarrow> bit crc 0" for crc :: u32
  by (simp add: and_one_eq bit_0 even_iff_mod_2_eq_zero)

lemma crc32_bit_top: "bit (crc32_bit c) 31 = bit c 0"
proof -
  have top: "bit (0xEDB88320 :: u32) 31" by simp
  have "\<not> bit c 32" using bit_imp_le_length [of c 32] by auto
  then show ?thesis
    unfolding crc32_bit_def crc32_bit_low bit_xor_iff using top by (simp add: bit_drop_bit_eq)
qed

lemma crc32_bit_inj: "inj crc32_bit"
proof (rule injI)
  fix a b assume eq: "crc32_bit a = crc32_bit b"
  have b0: "bit a 0 = bit b 0" using crc32_bit_top [of a] crc32_bit_top [of b] eq by simp
  then have d: "drop_bit 1 a = drop_bit 1 b"
    using eq unfolding crc32_bit_def crc32_bit_low by (simp add: word_xor_cancel)
  show "a = b"
  proof (rule bit_word_eqI)
    fix i assume "i < LENGTH(32)"
    show "bit a i = bit b i"
    proof (cases i)
      case 0 then show ?thesis using b0 by simp
    next
      case (Suc j)
      then show ?thesis using arg_cong [OF d, of "\<lambda>w. bit w j"] by (simp add: bit_drop_bit_eq)
    qed
  qed
qed

lemma crc32_byte_inj_crc: "crc32_byte c b = crc32_byte d b \<Longrightarrow> c = d"
  using inj_fn [OF crc32_bit_inj, of 8] unfolding crc32_byte_def
  by (auto dest!: injD simp: word_xor_cancel)

lemma crc32_byte_inj_data: "crc32_byte c a = crc32_byte c b \<Longrightarrow> a = b"
proof -
  assume "crc32_byte c a = crc32_byte c b"
  then have "(ucast a :: u32) = ucast b"
    using inj_fn [OF crc32_bit_inj, of 8] unfolding crc32_byte_def
    by (auto dest!: injD simp: word_xor_cancel)
  then show "a = b"
    by (auto simp: bit_eq_iff bit_ucast_iff dest: bit_imp_le_length)
qed

lemma crc32_inj_crc: "cyanfs_crc32 c data = cyanfs_crc32 d data \<Longrightarrow> c = d"
  unfolding cyanfs_crc32_def
  by (induction data arbitrary: c d) (auto dest: crc32_byte_inj_crc)

lemma crc32_append: "cyanfs_crc32 c (xs @ ys) = cyanfs_crc32 (cyanfs_crc32 c xs) ys"
  by (simp add: cyanfs_crc32_def)

end
