(* ===== verification/Layout.thy ===== *)
theory Layout
  imports Bytes
begin

section \<open>Layout: extents, offsets, sizes and names\<close>

text \<open>
  The constants of \<open>src/core/core.h\<close> and the address arithmetic of \<open>src/core/internal.h\<close>: a device is
  two 4096-byte super headers followed by extents of 1 MiB; a file is a sequence of extents with
  30-bit indexes. Offsets and sizes are 64-bit, extent ids 32-bit.
\<close>

definition CYANFS_SUPER_HEADER_SIZE :: u64 where "CYANFS_SUPER_HEADER_SIZE = 4096"
definition CYANFS_SUPER_BLOCK_SIZE :: u64 where "CYANFS_SUPER_BLOCK_SIZE = 2 * CYANFS_SUPER_HEADER_SIZE"
definition CYANFS_EXTENT_SIZE :: u64 where "CYANFS_EXTENT_SIZE = push_bit 20 1"
definition CYANFS_EXTENT_MASK :: u64 where "CYANFS_EXTENT_MASK = CYANFS_EXTENT_SIZE - 1"
definition CYANFS_EXTENT_COUNT_MAX :: u64 where "CYANFS_EXTENT_COUNT_MAX = push_bit 30 1"
definition CYANFS_EXTENT_INDEX_MAX :: u64 where "CYANFS_EXTENT_INDEX_MAX = CYANFS_EXTENT_COUNT_MAX - 1"
definition CYANFS_FILE_MAX_SIZE :: u64 where
  "CYANFS_FILE_MAX_SIZE = push_bit 20 CYANFS_EXTENT_COUNT_MAX"
definition CYANFS_FILE_ALIGN_MASK :: u64 where "CYANFS_FILE_ALIGN_MASK = push_bit 12 1 - 1"

type_synonym cyanfs_extent_id = u32
type_synonym cyanfs_file_id_t = u64

definition cyanfs_extent_id_invalid :: cyanfs_extent_id where "cyanfs_extent_id_invalid = NOT 0"

definition cyanfs_extent_begin :: "cyanfs_extent_id \<Rightarrow> u64" where
  "cyanfs_extent_begin i = push_bit 20 (ucast i)"

definition cyanfs_extent_end :: "cyanfs_extent_id \<Rightarrow> u64" where
  "cyanfs_extent_end i = cyanfs_extent_begin i + CYANFS_EXTENT_SIZE"

definition cyanfs_extent_from :: "u64 \<Rightarrow> cyanfs_extent_id" where
  "cyanfs_extent_from off = ucast (drop_bit 20 off)"

definition cyanfs_file_size_validate :: "u64 \<Rightarrow> cyanfs_status" where
  "cyanfs_file_size_validate sz =
     (let extent_count = sz div CYANFS_EXTENT_SIZE;
          extent_count = (if sz mod CYANFS_EXTENT_SIZE \<noteq> 0 then extent_count + 1 else extent_count)
      in if sz AND CYANFS_FILE_ALIGN_MASK \<noteq> 0 \<or> extent_count > CYANFS_EXTENT_COUNT_MAX
         then INVAL else Ok)"

definition cyanfs_map_extent_space :: "u64 \<Rightarrow> u64 \<Rightarrow> u64" where
  "cyanfs_map_extent_space f_off len =
     (let extent_space = cyanfs_extent_end (cyanfs_extent_from f_off) - f_off
      in if extent_space > len then len else extent_space)"

definition cyanfs_map_extent_offset :: "cyanfs_extent_id \<Rightarrow> u64 \<Rightarrow> u64" where
  "cyanfs_map_extent_offset b_id f_off =
     CYANFS_SUPER_BLOCK_SIZE + cyanfs_extent_begin b_id + (f_off AND CYANFS_EXTENT_MASK)"

definition cyanfs_extent_alloc_hash :: "cyanfs_file_id_t \<Rightarrow> u64 \<Rightarrow> u32" where
  "cyanfs_extent_alloc_hash file_id f_off =
     cyanfs_crc32 (NOT 0) (le_bytes 8 file_id @ le_bytes 8 f_off)"

definition cyanfs_map_extent_from :: "u64 \<Rightarrow> cyanfs_extent_id" where
  "cyanfs_map_extent_from b_off = cyanfs_extent_from (b_off - CYANFS_SUPER_BLOCK_SIZE)"

text \<open>
  File names are 127 bytes and a final zero byte. \<open>memcmp\<close> over the 128 bytes compares them
  lexicographically as unsigned bytes, which is the order of the name index.
\<close>

datatype file_name = File_Name (fn_data: "u8 list") (fn_zero: u8)

definition name_bytes :: "file_name \<Rightarrow> u8 list" where
  "name_bytes n = fn_data n @ [fn_zero n]"

fun clear_after_nul :: "u8 list \<Rightarrow> u8 list" where
  "clear_after_nul [] = []"
| "clear_after_nul (b # bs) =
     (if b = 0 then replicate (Suc (length bs)) 0 else b # clear_after_nul bs)"

definition cyanfs_file_name_normalize :: "file_name \<Rightarrow> file_name option" where
  "cyanfs_file_name_normalize name =
     (case fn_data name of
        [] \<Rightarrow> None
      | b # _ \<Rightarrow>
          if b = 0 \<or> fn_zero name \<noteq> 0 then None
          else Some (File_Name (clear_after_nul (fn_data name)) 0))"

instantiation file_name :: linorder
begin

definition less_eq_file_name :: "file_name \<Rightarrow> file_name \<Rightarrow> bool" where
  "less_eq_file_name a b \<longleftrightarrow> name_bytes a \<le> name_bytes b"

definition less_file_name :: "file_name \<Rightarrow> file_name \<Rightarrow> bool" where
  "less_file_name a b \<longleftrightarrow> name_bytes a < name_bytes b"

instance
proof
  fix a b c :: file_name
  show "(a < b) = (a \<le> b \<and> \<not> b \<le> a)"
    by (auto simp: less_eq_file_name_def less_file_name_def)
  show "a \<le> a" by (simp add: less_eq_file_name_def)
  show "a \<le> b \<Longrightarrow> b \<le> c \<Longrightarrow> a \<le> c" by (auto simp: less_eq_file_name_def)
  show "a \<le> b \<Longrightarrow> b \<le> a \<Longrightarrow> a = b"
    by (cases a; cases b) (auto simp: less_eq_file_name_def name_bytes_def)
  show "a \<le> b \<or> b \<le> a" by (auto simp: less_eq_file_name_def)
qed

end

subsection \<open>Arithmetic of extents\<close>

lemmas size_defs = CYANFS_SUPER_HEADER_SIZE_def CYANFS_SUPER_BLOCK_SIZE_def CYANFS_EXTENT_SIZE_def
  CYANFS_EXTENT_MASK_def CYANFS_EXTENT_COUNT_MAX_def CYANFS_EXTENT_INDEX_MAX_def
  CYANFS_FILE_MAX_SIZE_def CYANFS_FILE_ALIGN_MASK_def

lemma size_values:
  "CYANFS_SUPER_HEADER_SIZE = 4096" "CYANFS_SUPER_BLOCK_SIZE = 8192" "CYANFS_EXTENT_SIZE = 1048576"
  "CYANFS_EXTENT_MASK = mask 20" "CYANFS_EXTENT_COUNT_MAX = 1073741824"
  "CYANFS_EXTENT_INDEX_MAX = 1073741823" "CYANFS_FILE_MAX_SIZE = 1125899906842624"
  "CYANFS_FILE_ALIGN_MASK = mask 12"
  by (simp_all add: size_defs mask_numeral)

lemma unat_extent_begin: "unat (cyanfs_extent_begin i) = unat i * 2 ^ 20"
  using unat_bounds(4) [of i]
  by (simp add: cyanfs_extent_begin_def unat_ucast_mod push_bit_eq_mult unat_word_ariths)

lemma unat_extent_end: "unat (cyanfs_extent_end i) = Suc (unat i) * 2 ^ 20"
  unfolding cyanfs_extent_end_def size_values using unat_bounds(4) [of i]
  by (subst unat_add_no_wrap) (simp_all add: unat_extent_begin)

lemma unat_extent_from: "unat (cyanfs_extent_from off) = (unat off div 2 ^ 20) mod 2 ^ 32"
  by (simp add: cyanfs_extent_from_def unat_ucast_mod drop_bit_eq_div unat_div)

lemma unat_extent_from_small:
  "unat off < 2 ^ 52 \<Longrightarrow> unat (cyanfs_extent_from off) = unat off div 2 ^ 20"
  by (simp add: unat_extent_from)

lemma extent_from_begin [simp]: "cyanfs_extent_from (cyanfs_extent_begin i) = i"
  using unat_bounds(4) [of i]
  by (simp add: word_unat_eq_iff unat_extent_from unat_extent_begin)

lemma extent_begin_le: "unat off < 2 ^ 52 \<Longrightarrow> unat (cyanfs_extent_begin (cyanfs_extent_from off)) \<le> unat off"
  by (simp add: unat_extent_begin unat_extent_from_small)

lemma extent_end_gt: "unat off < 2 ^ 52 \<Longrightarrow> unat off < unat (cyanfs_extent_end (cyanfs_extent_from off))"
  unfolding unat_extent_end
  by (simp add: unat_extent_from_small)

lemma extent_begin_mono: "cyanfs_extent_begin i < cyanfs_extent_begin j \<longleftrightarrow> i < j"
  by (simp add: word_less_nat_alt unat_extent_begin)

lemma extent_begin_inject [simp]: "cyanfs_extent_begin i = cyanfs_extent_begin j \<longleftrightarrow> i = j"
  by (metis extent_from_begin)

lemma unat_map_extent_space:
  assumes "unat off < 2 ^ 52"
  shows "unat (cyanfs_map_extent_space off len) =
    min (unat len) ((unat off div 2 ^ 20 + 1) * 2 ^ 20 - unat off)"
proof -
  have le: "off \<le> cyanfs_extent_end (cyanfs_extent_from off)"
    using extent_end_gt [OF assms] by (simp add: word_le_nat_alt)
  have "unat (cyanfs_extent_end (cyanfs_extent_from off) - off) =
      (unat off div 2 ^ 20 + 1) * 2 ^ 20 - unat off"
    using assms by (simp add: unat_diff_no_wrap [OF le [unfolded word_le_nat_alt]] unat_extent_end unat_extent_from_small)
  then show ?thesis
    by (simp add: cyanfs_map_extent_space_def Let_def word_less_nat_alt min_def)
qed

lemma align_mask_iff: "sz AND CYANFS_FILE_ALIGN_MASK = 0 \<longleftrightarrow> unat sz mod 4096 = 0"
proof -
  have "unat (sz AND CYANFS_FILE_ALIGN_MASK) = unat sz mod 4096"
    by (simp add: size_values take_bit_eq_mod unat_mod flip: take_bit_eq_mask)
  then show ?thesis by (metis unat_0_iff)
qed

lemma file_size_validate_Ok:
  "cyanfs_file_size_validate sz = Ok \<longleftrightarrow> unat sz mod 4096 = 0 \<and> unat sz \<le> 2 ^ 50"
proof -
  define q where "q = unat sz div 2 ^ 20"
  define r where "r = unat sz mod 2 ^ 20"
  have sz: "unat sz = q * 2 ^ 20 + r" "r < 2 ^ 20" "q < 2 ^ 44"
    using unat_bounds(5) [of sz] by (simp_all add: q_def r_def div_mult_mod_eq less_mult_imp_div_less)
  have q: "unat (sz div CYANFS_EXTENT_SIZE) = q" and r: "sz mod CYANFS_EXTENT_SIZE \<noteq> 0 \<longleftrightarrow> r \<noteq> 0"
    by (simp_all add: size_values q_def r_def unat_div unat_mod flip: unat_0_iff)
  have q1: "unat (sz div CYANFS_EXTENT_SIZE + 1) = q + 1"
    using sz(3) q by (subst unat_add_no_wrap) simp_all
  show ?thesis
    using sz q q1 r
    by (auto simp: cyanfs_file_size_validate_def Let_def align_mask_iff word_less_nat_alt
        size_values(5))
qed

lemma map_extent_offset_nat:
  "unat (cyanfs_map_extent_offset b off) = 8192 + unat b * 2 ^ 20 + unat off mod 2 ^ 20"
proof -
  have b: "unat b < 2 ^ 32" by (rule unat_bounds)
  have m: "unat (off AND CYANFS_EXTENT_MASK) = unat off mod 2 ^ 20"
    by (simp add: size_values take_bit_eq_mod unat_mod flip: take_bit_eq_mask)
  have 1: "unat (8192 + cyanfs_extent_begin b) = 8192 + unat b * 2 ^ 20"
    using b by (subst unat_add_no_wrap) (simp_all add: unat_extent_begin)
  moreover have "unat off mod 2 ^ 20 < 2 ^ 20" by simp
  ultimately show ?thesis
    unfolding cyanfs_map_extent_offset_def size_values(2) using b m
    by (subst unat_add_no_wrap) (simp_all)
qed

subsection \<open>Names\<close>

lemma length_clear_after_nul [simp]: "length (clear_after_nul bs) = length bs"
  by (induction bs) auto

lemma clear_after_nul_idem [simp]: "clear_after_nul (clear_after_nul bs) = clear_after_nul bs"
  by (induction bs) auto

lemma normalize_idem:
  "cyanfs_file_name_normalize n = Some m \<Longrightarrow> cyanfs_file_name_normalize m = Some m"
  by (auto simp: cyanfs_file_name_normalize_def split: list.splits if_splits)

lemma normalize_takeWhile:
  "clear_after_nul bs =
     takeWhile (\<lambda>b. b \<noteq> 0) bs @ replicate (length bs - length (takeWhile (\<lambda>b. b \<noteq> 0) bs)) 0"
  by (induction bs) auto

end
