(* ===== verification/Journal_Format.thy ===== *)
theory Journal_Format
  imports Layout
begin

section \<open>The on-disk formats: super headers, journal headers and journal entries\<close>

text \<open>
  The encoders and decoders of \<open>src/core/journal.h\<close> and the super block functions
  \<open>cyanfs_super_parse\<close> and \<open>cyanfs_super_make\<close> of \<open>src/core/journal.c\<close>. A buffer is the list of its
  bytes from the cursor on; an encoder with a buffer argument overwrites the bytes it stores and
  keeps the rest. The uuid is its 16 raw bytes, as \<open>memcpy\<close> stores it; \<open>le32toh\<close> of its first word
  is the little-endian value of the first four of them, whatever the host is.
\<close>

type_synonym cyanfs_uuid_t = "u8 list"

definition uuid_word0 :: "cyanfs_uuid_t \<Rightarrow> u32" where
  "uuid_word0 u = le_value (take 4 u)"

definition CYANFS_SUPER_MAGIC :: u32 where "CYANFS_SUPER_MAGIC = 0x23032420"

record super_header =
  sh_uuid :: cyanfs_uuid_t
  sh_magic :: u32
  sh_crc32 :: u32
  sh_version :: u64
  sh_journal_id :: cyanfs_extent_id
  sh_journal_seq :: u64

definition cyanfs_super_encode_header :: "u8 list \<Rightarrow> super_header \<Rightarrow> u8 list" where
  "cyanfs_super_encode_header p h =
     (let b = cyanfs_put32 (sh_crc32 h) @ cyanfs_put32 (sh_magic h) @ cyanfs_put_generic (sh_uuid h)
              @ cyanfs_put64 (sh_version h) @ cyanfs_put64 (ucast (sh_journal_id h))
              @ cyanfs_put64 (sh_journal_seq h)
      in b @ drop (length b) p)"

definition cyanfs_super_decode_header :: "u8 list \<Rightarrow> super_header \<times> u64" where
  "cyanfs_super_decode_header p =
     (let (crc32, p) = cyanfs_get32 p;
          (magic, p) = cyanfs_get32 p;
          (uuid, p) = cyanfs_get_generic 16 p;
          (version, p) = cyanfs_get64 p;
          (journal_id, p) = cyanfs_get64 p;
          (journal_seq, p) = cyanfs_get64 p
      in (\<lparr>sh_uuid = uuid, sh_magic = magic, sh_crc32 = crc32, sh_version = version,
           sh_journal_id = 0, sh_journal_seq = journal_seq\<rparr>, journal_id))"

definition super_header_sum :: "u8 list \<Rightarrow> u32" where
  "super_header_sum p = cyanfs_crc32 (NOT 0) (take (unat CYANFS_SUPER_HEADER_SIZE - 4) (drop 4 p))"

definition cyanfs_super_parse :: "u8 list \<Rightarrow> super_header option" where
  "cyanfs_super_parse super_block =
     (let p1 = super_block; p2 = drop (unat CYANFS_SUPER_HEADER_SIZE) p1;
          (h1, journal_id1) = cyanfs_super_decode_header p1;
          s1 = super_header_sum p1;
          (h2, journal_id2) = cyanfs_super_decode_header p2;
          s2 = super_header_sum p2;
          chosen =
            (if sh_crc32 h1 = s1 \<and> sh_crc32 h2 = s2 then
               (if sh_version h2 > sh_version h1 then Some (h2, journal_id2)
                else Some (h1, journal_id1))
             else if sh_crc32 h1 = s1 then Some (h1, journal_id1)
             else if sh_crc32 h2 = s2 then Some (h2, journal_id2)
             else None)
      in case chosen of
           None \<Rightarrow> None
         | Some (h, journal_id) \<Rightarrow>
             if sh_magic h \<noteq> CYANFS_SUPER_MAGIC \<or> journal_id \<ge> ucast cyanfs_extent_id_invalid then None
             else Some (h\<lparr>sh_journal_id := ucast journal_id\<rparr>))"

text \<open>
  Storing a header: encode it, checksum the 4096 bytes after the checksum field, encode it again.
  \<open>cyanfs_super_make\<close> and \<open>cyanfs_journal_compact_write_super\<close> both contain this sequence.
\<close>

definition super_store :: "u8 list \<Rightarrow> super_header \<Rightarrow> u8 list \<times> super_header" where
  "super_store p h =
     (let p = cyanfs_super_encode_header p h;
          h = h\<lparr>sh_crc32 := super_header_sum p\<rparr>
      in (cyanfs_super_encode_header p h, h))"

definition cyanfs_super_make :: "cyanfs_uuid_t \<Rightarrow> u8 list" where
  "cyanfs_super_make uuid =
     (let h1 = replicate (unat CYANFS_SUPER_HEADER_SIZE) 0;
          h2 = replicate (unat CYANFS_SUPER_HEADER_SIZE) 0;
          h = \<lparr>sh_uuid = uuid, sh_magic = CYANFS_SUPER_MAGIC, sh_crc32 = 0, sh_version = 0,
               sh_journal_id = 0, sh_journal_seq = 0\<rparr>;
          (h1, h) = super_store h1 h;
          (h2, h) = super_store h2 (h\<lparr>sh_version := 1\<rparr>)
      in h1 @ h2)"

subsection \<open>Journal headers and entries\<close>

definition CYANFS_JOURNAL_BLOCK_SIZE :: u64 where "CYANFS_JOURNAL_BLOCK_SIZE = push_bit 9 1"
definition CYANFS_JOURNAL_BLOCK_MASK :: u64 where
  "CYANFS_JOURNAL_BLOCK_MASK = CYANFS_JOURNAL_BLOCK_SIZE - 1"
definition CYANFS_JOURNAL_PAGE_SIZE :: u64 where
  "CYANFS_JOURNAL_PAGE_SIZE = CYANFS_JOURNAL_BLOCK_SIZE * 128"
definition CYANFS_JOURNAL_HEADER_SIZE :: u64 where "CYANFS_JOURNAL_HEADER_SIZE = 15"

record journal_header =
  jh_crc32 :: u32
  jh_seq :: u64
  jh_size :: u64
  jh_count :: u16

definition cyanfs_journal_encode_header :: "u8 list \<Rightarrow> journal_header \<Rightarrow> u8 list" where
  "cyanfs_journal_encode_header p h =
     (let b = cyanfs_put32 (jh_crc32 h) @ cyanfs_put64 (jh_seq h) @ cyanfs_put16 (jh_count h)
              @ cyanfs_put8 (ucast (drop_bit 9 (jh_size h)))
      in b @ drop (length b) p)"

definition cyanfs_journal_decode_header_checked :: "u8 list \<Rightarrow> journal_header option" where
  "cyanfs_journal_decode_header_checked p =
     (if length p < unat CYANFS_JOURNAL_HEADER_SIZE then None
      else
        (let (crc32, p) = cyanfs_get32 p;
             (seq, p) = cyanfs_get64 p;
             (count, p) = cyanfs_get16 p;
             (blocks, p) = cyanfs_get8 p
         in Some \<lparr>jh_crc32 = crc32, jh_seq = seq, jh_size = push_bit 9 (ucast blocks),
                  jh_count = count\<rparr>))"

datatype journal_entry =
    JNEXT cyanfs_extent_id
  | JCREATE file_name cyanfs_file_id_t
  | JTRUNCATE cyanfs_file_id_t u64
  | JFORK file_name cyanfs_file_id_t cyanfs_file_id_t
  | JDELETE cyanfs_file_id_t
  | JBIND cyanfs_file_id_t cyanfs_extent_id cyanfs_extent_id
  | JUNBIND cyanfs_file_id_t cyanfs_extent_id
  | JRENAME file_name cyanfs_file_id_t

text \<open>
  \<open>JFORK\<close> has the name, the id and the parent id; \<open>JBIND\<close> the file id, the extent index in the file
  and the backend extent; the type code is the position in \<open>cyanfs_journal_entry_type\<close>.
\<close>

fun journal_entry_type :: "journal_entry \<Rightarrow> u8" where
  "journal_entry_type (JNEXT _) = 0"
| "journal_entry_type (JCREATE _ _) = 1"
| "journal_entry_type (JTRUNCATE _ _) = 2"
| "journal_entry_type (JFORK _ _ _) = 3"
| "journal_entry_type (JDELETE _) = 4"
| "journal_entry_type (JBIND _ _ _) = 5"
| "journal_entry_type (JUNBIND _ _) = 6"
| "journal_entry_type (JRENAME _ _) = 7"

definition cyanfs_journal_entry_size :: "u8 \<Rightarrow> u64" where
  "cyanfs_journal_entry_size t =
     (if t = 0 then 1 + 4
      else if t = 1 then 1 + 8 + 128
      else if t = 2 then 1 + 8 + 8
      else if t = 3 then 1 + 8 + 8 + 128
      else if t = 4 then 1 + 8
      else if t = 5 then 1 + 8 + 4 + 4
      else if t = 6 then 1 + 8 + 4
      else if t = 7 then 1 + 8 + 128
      else 0)"

fun cyanfs_journal_encode_entry :: "journal_entry \<Rightarrow> u8 list" where
  "cyanfs_journal_encode_entry (JNEXT backend) = cyanfs_put8 0 @ cyanfs_put32 backend"
| "cyanfs_journal_encode_entry (JCREATE name i) =
     cyanfs_put8 1 @ cyanfs_put64 i @ cyanfs_put_generic (name_bytes name)"
| "cyanfs_journal_encode_entry (JTRUNCATE i sz) = cyanfs_put8 2 @ cyanfs_put64 i @ cyanfs_put64 sz"
| "cyanfs_journal_encode_entry (JFORK name i pid) =
     cyanfs_put8 3 @ cyanfs_put64 i @ cyanfs_put64 pid @ cyanfs_put_generic (name_bytes name)"
| "cyanfs_journal_encode_entry (JDELETE i) = cyanfs_put8 4 @ cyanfs_put64 i"
| "cyanfs_journal_encode_entry (JBIND i file backend) =
     cyanfs_put8 5 @ cyanfs_put64 i @ cyanfs_put32 file @ cyanfs_put32 backend"
| "cyanfs_journal_encode_entry (JUNBIND i file) = cyanfs_put8 6 @ cyanfs_put64 i @ cyanfs_put32 file"
| "cyanfs_journal_encode_entry (JRENAME name i) =
     cyanfs_put8 7 @ cyanfs_put64 i @ cyanfs_put_generic (name_bytes name)"

definition get_name :: "u8 list \<Rightarrow> file_name \<times> u8 list" where
  "get_name p = (let (b, p) = cyanfs_get_generic 128 p in (File_Name (butlast b) (last b), p))"

definition cyanfs_journal_decode_entry_checked :: "u8 list \<Rightarrow> (journal_entry \<times> u8 list) option" where
  "cyanfs_journal_decode_entry_checked p =
     (if p = [] then None
      else
        (let (t, cursor) = cyanfs_get8 p; sz = cyanfs_journal_entry_size t
         in if sz = 0 \<or> unat sz > length p then None
            else if t = 0 then
              (let (backend, c) = cyanfs_get32 cursor in Some (JNEXT backend, c))
            else if t = 1 then
              (let (i, c) = cyanfs_get64 cursor; (name, c) = get_name c in Some (JCREATE name i, c))
            else if t = 2 then
              (let (i, c) = cyanfs_get64 cursor; (size', c) = cyanfs_get64 c
               in Some (JTRUNCATE i size', c))
            else if t = 3 then
              (let (i, c) = cyanfs_get64 cursor; (pid, c) = cyanfs_get64 c; (name, c) = get_name c
               in Some (JFORK name i pid, c))
            else if t = 4 then
              (let (i, c) = cyanfs_get64 cursor in Some (JDELETE i, c))
            else if t = 5 then
              (let (i, c) = cyanfs_get64 cursor; (file, c) = cyanfs_get32 c;
                   (backend, c) = cyanfs_get32 c
               in Some (JBIND i file backend, c))
            else if t = 6 then
              (let (i, c) = cyanfs_get64 cursor; (file, c) = cyanfs_get32 c
               in Some (JUNBIND i file, c))
            else
              (let (i, c) = cyanfs_get64 cursor; (name, c) = get_name c in Some (JRENAME name i, c))))"

text \<open>An entry in memory holds a complete \<open>cyanfs_file_name_t\<close>.\<close>

definition name_wf :: "file_name \<Rightarrow> bool" where
  "name_wf n \<longleftrightarrow> length (fn_data n) = 127"

fun entry_wf :: "journal_entry \<Rightarrow> bool" where
  "entry_wf (JCREATE n _) = name_wf n"
| "entry_wf (JFORK n _ _) = name_wf n"
| "entry_wf (JRENAME n _) = name_wf n"
| "entry_wf _ = True"

subsection \<open>Decoding what was encoded\<close>

lemma get_name_append [codec_simps]:
  "name_wf n \<Longrightarrow> get_name (cyanfs_put_generic (name_bytes n) @ rest) = (n, rest)"
  by (cases n) (simp add: get_name_def name_wf_def name_bytes_def cyanfs_get_generic_def
      cyanfs_put_generic_def)

lemma get_name_append_Nil [codec_simps]:
  "name_wf n \<Longrightarrow> get_name (cyanfs_put_generic (name_bytes n)) = (n, [])"
  using get_name_append [of n "[]"] by simp

lemma length_name_bytes [simp]: "name_wf n \<Longrightarrow> length (name_bytes n) = 128"
  by (simp add: name_wf_def name_bytes_def)

lemma length_encode_entry:
  "entry_wf j \<Longrightarrow>
     length (cyanfs_journal_encode_entry j) = unat (cyanfs_journal_entry_size (journal_entry_type j))"
  by (cases j) (simp_all add: cyanfs_journal_entry_size_def)

lemma put8_Cons: "cyanfs_put8 b @ p = b # p"
  by (simp add: cyanfs_put8_def)

lemma get8_Cons: "cyanfs_get8 (b # p) = (b, p)"
  by (simp add: cyanfs_get8_def)

lemma decode_encode_entry:
  assumes "entry_wf j"
  shows "cyanfs_journal_decode_entry_checked (cyanfs_journal_encode_entry j @ rest) = Some (j, rest)"
  using assms length_encode_entry [OF assms]
  by (cases j) (simp_all add: cyanfs_journal_decode_entry_checked_def put8_Cons get8_Cons
      cyanfs_journal_entry_size_def codec_simps)

lemma put8_1: "cyanfs_put8 b = [b]"
  by (simp add: cyanfs_put8_def)

lemma bytes_split64: "8 \<le> length p \<Longrightarrow> \<exists>x r. p = cyanfs_put64 x @ r"
  using c64.enc_dec by (metis append_take_drop_id)

lemma bytes_split32: "4 \<le> length p \<Longrightarrow> \<exists>x r. p = cyanfs_put32 x @ r"
  using c32.enc_dec by (metis append_take_drop_id)

lemma bytes_split_name:
  assumes "128 \<le> length p"
  shows "\<exists>n r. name_wf n \<and> p = cyanfs_put_generic (name_bytes n) @ r"
proof -
  have "take 128 p \<noteq> []" using assms by auto
  then have "p = cyanfs_put_generic (name_bytes (File_Name (butlast (take 128 p)) (last (take 128 p))))
      @ drop 128 p"
    by (simp add: cyanfs_put_generic_def name_bytes_def)
  moreover have "name_wf (File_Name (butlast (take 128 p)) (last (take 128 p)))"
    using assms by (simp add: name_wf_def)
  ultimately show ?thesis by blast
qed

lemma entry_bytes_exist:
  assumes "cyanfs_journal_entry_size t \<noteq> 0"
    and "unat (cyanfs_journal_entry_size t) \<le> length (t # c)"
  shows "\<exists>j rest. entry_wf j \<and> t # c = cyanfs_journal_encode_entry j @ rest"
proof -
  consider "t = 0" "4 \<le> length c" | "t = 1" "136 \<le> length c" | "t = 2" "16 \<le> length c"
    | "t = 3" "144 \<le> length c" | "t = 4" "8 \<le> length c" | "t = 5" "16 \<le> length c"
    | "t = 6" "12 \<le> length c" | "t = 7" "136 \<le> length c"
    using assms by (auto simp: cyanfs_journal_entry_size_def split: if_splits)
  then show ?thesis
  proof cases
    case 1
    then obtain x r where "c = cyanfs_put32 x @ r" using bytes_split32 by blast
    then show ?thesis using 1 by (intro exI [of _ "JNEXT x"]) (simp add: put8_Cons)
  next
    case 2
    then obtain i r where c: "c = cyanfs_put64 i @ r" using bytes_split64 [of c] by auto
    then have "128 \<le> length r" using 2 by simp
    then obtain n r' where "name_wf n" "r = cyanfs_put_generic (name_bytes n) @ r'"
      using bytes_split_name by blast
    then show ?thesis using 2 c by (intro exI [of _ "JCREATE n i"]) (simp add: put8_Cons)
  next
    case 3
    then obtain i r where c: "c = cyanfs_put64 i @ r" using bytes_split64 [of c] by auto
    then have "8 \<le> length r" using 3 by simp
    then obtain z r' where "r = cyanfs_put64 z @ r'" using bytes_split64 by blast
    then show ?thesis using 3 c by (intro exI [of _ "JTRUNCATE i z"]) (simp add: put8_Cons)
  next
    case 4
    then obtain i r where c: "c = cyanfs_put64 i @ r" using bytes_split64 [of c] by auto
    then have "136 \<le> length r" using 4 by simp
    then obtain q r' where r: "r = cyanfs_put64 q @ r'" using bytes_split64 [of r] by auto
    then have "128 \<le> length r'" using 4 c by simp
    then obtain n r'' where "name_wf n" "r' = cyanfs_put_generic (name_bytes n) @ r''"
      using bytes_split_name by blast
    then show ?thesis using 4 c r by (intro exI [of _ "JFORK n i q"]) (simp add: put8_Cons)
  next
    case 5
    then obtain i r where "c = cyanfs_put64 i @ r" using bytes_split64 by blast
    then show ?thesis using 5 by (intro exI [of _ "JDELETE i"]) (simp add: put8_Cons)
  next
    case 6
    then obtain i r where c: "c = cyanfs_put64 i @ r" using bytes_split64 [of c] by auto
    then have "8 \<le> length r" using 6 by simp
    then obtain f r' where r: "r = cyanfs_put32 f @ r'" using bytes_split32 [of r] by auto
    then have "4 \<le> length r'" using 6 c by simp
    then obtain b r'' where "r' = cyanfs_put32 b @ r''" using bytes_split32 by blast
    then show ?thesis using 6 c r by (intro exI [of _ "JBIND i f b"]) (simp add: put8_Cons)
  next
    case 7
    then obtain i r where c: "c = cyanfs_put64 i @ r" using bytes_split64 [of c] by auto
    then have "4 \<le> length r" using 7 by simp
    then obtain f r' where "r = cyanfs_put32 f @ r'" using bytes_split32 by blast
    then show ?thesis using 7 c by (intro exI [of _ "JUNBIND i f"]) (simp add: put8_Cons)
  next
    case 8
    then obtain i r where c: "c = cyanfs_put64 i @ r" using bytes_split64 [of c] by auto
    then have "128 \<le> length r" using 8 by simp
    then obtain n r' where "name_wf n" "r = cyanfs_put_generic (name_bytes n) @ r'"
      using bytes_split_name by blast
    then show ?thesis using 8 c by (intro exI [of _ "JRENAME n i"]) (simp add: put8_Cons)
  qed
qed

lemma decode_entry_canonical:
  assumes "cyanfs_journal_decode_entry_checked p = Some (j, rest)"
  shows "entry_wf j" and "p = cyanfs_journal_encode_entry j @ rest"
proof -
  obtain t c where p: "p = t # c"
    using assms by (cases p) (auto simp: cyanfs_journal_decode_entry_checked_def)
  have "cyanfs_journal_entry_size t \<noteq> 0 \<and> unat (cyanfs_journal_entry_size t) \<le> length (t # c)"
    using assms unfolding p cyanfs_journal_decode_entry_checked_def
    by (simp only: get8_Cons Let_def split_conv list.distinct if_False not_less split: if_splits)
      auto
  then obtain j' r' where j': "entry_wf j'" "p = cyanfs_journal_encode_entry j' @ r'"
    using entry_bytes_exist [of t c] unfolding p by blast
  then have "j' = j" "r' = rest"
    using assms decode_encode_entry [OF j'(1), of r'] by auto
  then show "entry_wf j" "p = cyanfs_journal_encode_entry j @ rest"
    using j' by auto
qed

lemma decode_encode_journal_header:
  "cyanfs_journal_decode_header_checked (cyanfs_journal_encode_header p h) =
     Some (h\<lparr>jh_size := push_bit 9 (ucast (ucast (drop_bit 9 (jh_size h)) :: u8))\<rparr>)"
  by (simp add: cyanfs_journal_encode_header_def cyanfs_journal_decode_header_checked_def Let_def
      CYANFS_JOURNAL_HEADER_SIZE_def codec_simps)

lemma length_super_encode:
  "length (sh_uuid h) = 16 \<Longrightarrow> 48 \<le> length p \<Longrightarrow> length (cyanfs_super_encode_header p h) = length p"
  by (simp add: cyanfs_super_encode_header_def Let_def)

lemma decode_encode_super_header:
  assumes "length (sh_uuid h) = 16"
  shows "cyanfs_super_decode_header (cyanfs_super_encode_header p h @ q) =
    (h\<lparr>sh_journal_id := 0\<rparr>, ucast (sh_journal_id h))"
  using assms
  by (simp add: cyanfs_super_encode_header_def cyanfs_super_decode_header_def Let_def codec_simps)

lemma super_encode_drop4:
  assumes "length (sh_uuid h) = 16"
  shows "drop 4 (cyanfs_super_encode_header (cyanfs_super_encode_header p (h\<lparr>sh_crc32 := c\<rparr>))
      (h\<lparr>sh_crc32 := d\<rparr>)) = drop 4 (cyanfs_super_encode_header p (h\<lparr>sh_crc32 := e\<rparr>))"
  using assms by (simp add: cyanfs_super_encode_header_def Let_def)

subsection \<open>The two copies of the super header\<close>

definition super_copy_ok :: "u8 list \<Rightarrow> bool" where
  "super_copy_ok p \<longleftrightarrow> sh_crc32 (fst (cyanfs_super_decode_header p)) = super_header_sum p"

lemma super_header_sum_append:
  "length p = 4096 \<Longrightarrow> super_header_sum (p @ q) = super_header_sum p"
  by (simp add: super_header_sum_def size_values)

lemma super_decode_append:
  assumes "length p = 4096"
  shows "cyanfs_super_decode_header (p @ q) = cyanfs_super_decode_header p"
  using assms
  by (simp add: cyanfs_super_decode_header_def cyanfs_get32_def cyanfs_get64_def
      cyanfs_get_generic_def Let_def)

lemma super_store_copy:
  assumes "length p = 4096" "length (sh_uuid h) = 16" "super_store p h = (b, h')"
  shows "length b = 4096" and "super_copy_ok b"
    and "cyanfs_super_decode_header b = (h'\<lparr>sh_journal_id := 0\<rparr>, ucast (sh_journal_id h'))"
    and "h' = h\<lparr>sh_crc32 := sh_crc32 h'\<rparr>"
proof -
  define q where "q = cyanfs_super_encode_header p h"
  have h': "h' = h\<lparr>sh_crc32 := super_header_sum q\<rparr>" and b: "b = cyanfs_super_encode_header q h'"
    using assms(3) by (auto simp: super_store_def Let_def q_def)
  have q: "length q = 4096" using assms by (simp add: q_def length_super_encode)
  show l: "length b = 4096" using assms q h' by (simp add: b length_super_encode)
  show d: "cyanfs_super_decode_header b = (h'\<lparr>sh_journal_id := 0\<rparr>, ucast (sh_journal_id h'))"
    using decode_encode_super_header [of h' q "[]"] assms(2) h' by (simp add: b)
  have "drop 4 b = drop 4 q"
    using assms(2) super_encode_drop4 [of h p "sh_crc32 h" "super_header_sum q" "sh_crc32 h"]
    by (simp add: b q_def h')
  then have "super_header_sum b = super_header_sum q" by (simp add: super_header_sum_def)
  then show "super_copy_ok b" by (simp add: super_copy_ok_def d h')
  show "h' = h\<lparr>sh_crc32 := sh_crc32 h'\<rparr>" by (simp add: h')
qed

lemma super_parse_copies:
  assumes "length a = 4096" "length b = 4096"
  shows "cyanfs_super_parse (a @ b) =
    (let pick = (if super_copy_ok a \<and> (super_copy_ok b \<longrightarrow>
                      sh_version (fst (cyanfs_super_decode_header b))
                        \<le> sh_version (fst (cyanfs_super_decode_header a)))
                 then Some (cyanfs_super_decode_header a)
                 else if super_copy_ok b then Some (cyanfs_super_decode_header b) else None)
     in case pick of
          None \<Rightarrow> None
        | Some (h, journal_id) \<Rightarrow>
            if sh_magic h \<noteq> CYANFS_SUPER_MAGIC \<or> journal_id \<ge> ucast cyanfs_extent_id_invalid then None
            else Some (h\<lparr>sh_journal_id := ucast journal_id\<rparr>))"
  using assms
  by (cases "cyanfs_super_decode_header a"; cases "cyanfs_super_decode_header b")
    (auto simp: cyanfs_super_parse_def Let_def super_copy_ok_def super_header_sum_append
      super_decode_append size_values not_less split: option.splits)

text \<open>A slot of the super block that holds a header, and which of two is chosen.\<close>

definition super_slot :: "u8 list \<Rightarrow> super_header \<Rightarrow> bool" where
  "super_slot p h \<longleftrightarrow>
     length p = 4096 \<and> super_copy_ok p \<and>
     cyanfs_super_decode_header p = (h\<lparr>sh_journal_id := 0\<rparr>, ucast (sh_journal_id h)) \<and>
     sh_magic h = CYANFS_SUPER_MAGIC \<and> sh_journal_id h \<noteq> cyanfs_extent_id_invalid"

lemma journal_id_valid:
  "(ucast i :: u64) \<ge> ucast cyanfs_extent_id_invalid \<longleftrightarrow> i = cyanfs_extent_id_invalid" for i :: cyanfs_extent_id
proof -
  have "unat i \<le> unat cyanfs_extent_id_invalid"
    using unat_bounds(4) [of i] by (simp add: cyanfs_extent_id_invalid_def unsigned_minus_1_eq_mask mask_numeral)
  moreover have "unat (ucast j :: u64) = unat j" for j :: cyanfs_extent_id
    using unat_bounds(4) [of j] by (simp add: unat_ucast_mod)
  ultimately show ?thesis by (auto simp: word_le_nat_alt word_unat_eq_iff)
qed

lemma super_slot_store:
  assumes "length p = 4096" "length (sh_uuid h) = 16" "super_store p h = (b, h')"
    and "sh_magic h = CYANFS_SUPER_MAGIC" "sh_journal_id h \<noteq> cyanfs_extent_id_invalid"
  shows "super_slot b h'"
proof -
  note c = super_store_copy [OF assms(1-3)]
  have "sh_magic h' = sh_magic h" "sh_journal_id h' = sh_journal_id h" by (subst c(4), simp)+
  then show ?thesis using c(1-3) assms(4,5) by (simp add: super_slot_def)
qed

lemma super_parse_slots:
  shows "super_slot a h \<Longrightarrow> super_slot b g \<Longrightarrow>
      cyanfs_super_parse (a @ b) = Some (if sh_version g > sh_version h then g else h)"
    and "super_slot a h \<Longrightarrow> length b = 4096 \<Longrightarrow> \<not> super_copy_ok b \<Longrightarrow> cyanfs_super_parse (a @ b) = Some h"
    and "length a = 4096 \<Longrightarrow> \<not> super_copy_ok a \<Longrightarrow> super_slot b g \<Longrightarrow> cyanfs_super_parse (a @ b) = Some g"
proof -
  have up: "(ucast (ucast i :: u64) :: cyanfs_extent_id) = i" for i :: cyanfs_extent_id
    using unat_bounds(4) [of i] by (simp add: word_unat_eq_iff unat_ucast_mod)
  have id: "h\<lparr>sh_journal_id := ucast (ucast (sh_journal_id h) :: u64)\<rparr> = h" for h :: super_header
    by (simp add: up)
  show "super_slot a h \<Longrightarrow> super_slot b g \<Longrightarrow>
      cyanfs_super_parse (a @ b) = Some (if sh_version g > sh_version h then g else h)"
    and "super_slot a h \<Longrightarrow> length b = 4096 \<Longrightarrow> \<not> super_copy_ok b \<Longrightarrow> cyanfs_super_parse (a @ b) = Some h"
    and "length a = 4096 \<Longrightarrow> \<not> super_copy_ok a \<Longrightarrow> super_slot b g \<Longrightarrow> cyanfs_super_parse (a @ b) = Some g"
    by (auto simp: super_slot_def super_parse_copies Let_def journal_id_valid id)
qed

end
