(* ===== verification/Format_Properties.thy ===== *)
theory Format_Properties
  imports Journal_Format
begin

section \<open>Properties of the layout and of the on-disk formats\<close>

text \<open>
  What the arithmetic of extents and the encoders and decoders guarantee: sizes and offsets in bounds,
  names in normal form, entries and headers that decode to what was encoded, super headers of which
  one copy survives a torn write.
\<close>

subsection \<open>Layout\<close>

text \<open>C21: \<open>cyanfs_file_size_validate\<close> accepts exactly the multiples of 4096 up to the maximal file size
  of one PiB, for every 64-bit value: the rounding up of the extent count does not wrap.\<close>

theorem file_size_validate_iff:
  "cyanfs_file_size_validate sz = (if unat sz mod 4096 = 0 \<and> unat sz \<le> 2 ^ 50 then Ok else INVAL)"
proof -
  have "cyanfs_file_size_validate sz \<in> {Ok, INVAL}" by (simp add: cyanfs_file_size_validate_def Let_def)
  then show ?thesis using file_size_validate_Ok [of sz] by auto
qed

text \<open>C20: two bytes of two extents are at the same device offset only if it is the same extent and the
  same offset in it, and every one of them lies behind the two super headers: the mapping does not
  wrap, and no data byte overlaps a super header.\<close>

theorem map_extent_offset_inj:
  "(cyanfs_map_extent_offset b off = cyanfs_map_extent_offset c off') =
     (b = c \<and> unat off mod 2 ^ 20 = unat off' mod 2 ^ 20) \<and>
   CYANFS_SUPER_BLOCK_SIZE \<le> cyanfs_map_extent_offset b off"
proof -
  have "8192 + unat b * 2 ^ 20 + unat off mod 2 ^ 20 = 8192 + unat c * 2 ^ 20 + unat off' mod 2 ^ 20 \<longleftrightarrow>
      unat b = unat c \<and> unat off mod 2 ^ 20 = unat off' mod 2 ^ 20"
  proof
    let ?m = "2 ^ 20 :: nat"
    assume "8192 + unat b * ?m + unat off mod ?m = 8192 + unat c * ?m + unat off' mod ?m"
    then have eq: "unat off mod ?m + ?m * unat b = unat off' mod ?m + ?m * unat c" by (simp add: algebra_simps)
    have "(unat off mod ?m + ?m * unat b) div ?m = unat b" "(unat off' mod ?m + ?m * unat c) div ?m = unat c"
      by (simp_all add: div_mult_self2)
    with eq have "unat b = unat c" by metis
    with eq show "unat b = unat c \<and> unat off mod ?m = unat off' mod ?m" by simp
  qed simp
  then show ?thesis
    by (auto simp: word_unat_eq_iff [of "cyanfs_map_extent_offset b off"] word_unat_eq_iff [of b c]
        map_extent_offset_nat word_le_nat_alt size_values(2))
qed

text \<open>C22: normalizing a file name answers with an error for an empty name and for one without a final
  zero, and otherwise cuts the name at its first zero byte and fills it with zeros; normalizing again
  changes nothing, and the length stays.\<close>

theorem file_name_normalize_spec:
  "cyanfs_file_name_normalize (File_Name (b # bs) z) =
     (if b = 0 then None
      else if z = 0 then Some (File_Name (takeWhile (\<lambda>c. c \<noteq> 0) (b # bs) @
        replicate (Suc (length bs) - length (takeWhile (\<lambda>c. c \<noteq> 0) (b # bs))) 0) 0)
      else None) \<and>
   Option.bind (cyanfs_file_name_normalize n) cyanfs_file_name_normalize = cyanfs_file_name_normalize n"
proof
  show "Option.bind (cyanfs_file_name_normalize n) cyanfs_file_name_normalize = cyanfs_file_name_normalize n"
    using normalize_idem by (cases "cyanfs_file_name_normalize n") auto
  show "cyanfs_file_name_normalize (File_Name (b # bs) z) =
     (if b = 0 then None
      else if z = 0 then Some (File_Name (takeWhile (\<lambda>c. c \<noteq> 0) (b # bs) @
        replicate (Suc (length bs) - length (takeWhile (\<lambda>c. c \<noteq> 0) (b # bs))) 0) 0)
      else None)"
    by (simp add: cyanfs_file_name_normalize_def) (metis normalize_takeWhile)
qed

subsection \<open>Journal entries and super headers\<close>

text \<open>C17: decoding a byte string yields an entry and a rest exactly when the string starts with the
  encoding of that entry: what was encoded is decoded, nothing else is accepted, and a truncated or
  unknown entry is refused.\<close>

theorem journal_entry_roundtrip:
  "(cyanfs_journal_decode_entry_checked p = Some (j, rest)) =
     (entry_wf j \<and> p = cyanfs_journal_encode_entry j @ rest)"
  using decode_encode_entry decode_entry_canonical by blast

definition made_header :: "cyanfs_uuid_t \<Rightarrow> u64 \<Rightarrow> u32 \<Rightarrow> super_header" where
  "made_header uuid version crc =
     \<lparr>sh_uuid = uuid, sh_magic = CYANFS_SUPER_MAGIC, sh_crc32 = crc, sh_version = version,
      sh_journal_id = 0, sh_journal_seq = 0\<rparr>"

lemma super_make_slots:
  assumes "length uuid = 16"
  obtains a b c d where "cyanfs_super_make uuid = a @ b" "super_slot a (made_header uuid 0 c)"
    "super_slot b (made_header uuid 1 d)"
proof -
  let ?z = "replicate (unat CYANFS_SUPER_HEADER_SIZE) (0 :: u8)"
  let ?h = "\<lambda>v crc. \<lparr>sh_uuid = uuid, sh_magic = CYANFS_SUPER_MAGIC, sh_crc32 = crc, sh_version = v,
               sh_journal_id = 0, sh_journal_seq = 0\<rparr>"
  have lz: "length ?z = 4096" by (simp add: size_values)
  have valid: "(0 :: cyanfs_extent_id) \<noteq> cyanfs_extent_id_invalid" by (simp add: cyanfs_extent_id_invalid_def)
  have store: "\<exists>b crc'. super_store ?z (?h v crc) = (b, ?h v crc') \<and> super_slot b (?h v crc')" for v crc
  proof -
    obtain b g where s: "super_store ?z (?h v crc) = (b, g)" by fastforce
    then have "g = ?h v (sh_crc32 g)" using super_store_copy(4) [OF lz _ s] assms by simp
    then show ?thesis using super_slot_store [OF lz _ s] s assms valid by (metis super_header.select_convs(1,2,5))
  qed
  obtain a c where a: "super_store ?z (?h 0 0) = (a, ?h 0 c)" "super_slot a (?h 0 c)" using store by blast
  obtain b d where b: "super_store ?z (?h 1 c) = (b, ?h 1 d)" "super_slot b (?h 1 d)" using store by blast
  have "cyanfs_super_make uuid = a @ b"
    by (simp add: cyanfs_super_make_def Let_def a b)
  then show ?thesis using that a(2) b(2) by (simp add: made_header_def)
qed

text \<open>C18: a super block that \<open>cyanfs_super_make\<close> formats is accepted, and the parser finds version 1,
  the given uuid, journal extent 0 and sequence number 0.\<close>

theorem super_make_parse:
  assumes "length uuid = 16"
  shows "\<exists>crc. cyanfs_super_parse (cyanfs_super_make uuid) =
    Some \<lparr>sh_uuid = uuid, sh_magic = CYANFS_SUPER_MAGIC, sh_crc32 = crc, sh_version = 1,
          sh_journal_id = 0, sh_journal_seq = 0\<rparr>"
proof -
  obtain a b c d where s: "cyanfs_super_make uuid = a @ b" "super_slot a (made_header uuid 0 c)"
      "super_slot b (made_header uuid 1 d)"
    using super_make_slots [OF assms] .
  then show ?thesis using super_parse_slots(1) [OF s(2,3)] by (auto simp: made_header_def)
qed

theorem super_make_parse_witness:
  "\<exists>crc. cyanfs_super_parse (cyanfs_super_make (replicate 16 7)) =
    Some \<lparr>sh_uuid = replicate 16 7, sh_magic = CYANFS_SUPER_MAGIC, sh_crc32 = crc, sh_version = 1,
          sh_journal_id = 0, sh_journal_seq = 0\<rparr>"
  by (rule super_make_parse) simp

end
