(* ===== verification/Ordered_Index.thy ===== *)
theory Ordered_Index
  imports Prelude
begin

section \<open>Ordered indexes: the contract of the red-black trees\<close>

text \<open>
  Every container of the core is an intrusive red-black tree generated by
  \<open>src/core/misc/rb_tree.h\<close>: files by id, files by name, the extents of a file by file extent id, and
  the extents of the super block by backend extent id. The clients use \<open>RB_FIND\<close>, \<open>RB_NFIND\<close>,
  \<open>RB_MIN\<close>, \<open>RB_NEXT\<close>, \<open>RB_INSERT\<close>, \<open>RB_REMOVE\<close> and the \<open>FOREACH\<close> loops, all of which depend on the
  tree through its in-order sequence only. The locale \<open>ordered_map\<close> states that contract, with the
  in-order sequence \<open>items\<close> as the abstract value; the type \<open>index\<close> is its canonical instance, in
  which the components keep their trees: the sequences of keys and elements with strictly increasing
  keys.
\<close>

subsection \<open>The interface\<close>

locale ordered_map =
  fixes invar :: "'t \<Rightarrow> bool"
    and items :: "'t \<Rightarrow> ('k::linorder \<times> 'v) list"
    and empty :: "'t"
    and find :: "'t \<Rightarrow> 'k \<Rightarrow> 'v option"
    and nfind :: "'t \<Rightarrow> 'k \<Rightarrow> ('k \<times> 'v) option"
    and put :: "'k \<Rightarrow> 'v \<Rightarrow> 't \<Rightarrow> 't"
    and remove :: "'k \<Rightarrow> 't \<Rightarrow> 't"
  assumes items_sorted: "invar t \<Longrightarrow> sorted_wrt (<) (map fst (items t))"
    and invar_empty: "invar empty"
    and items_empty: "items empty = []"
    and find_items: "invar t \<Longrightarrow> find t k = map_of (items t) k"
    and nfind_items: "invar t \<Longrightarrow> nfind t k = List.find (\<lambda>p. k \<le> fst p) (items t)"
    and invar_put: "invar t \<Longrightarrow> invar (put k v t)"
    and items_put: "invar t \<Longrightarrow> items (put k v t) =
      filter (\<lambda>p. fst p < k) (items t) @ (k, v) # filter (\<lambda>p. k < fst p) (items t)"
    and invar_remove: "invar t \<Longrightarrow> invar (remove k t)"
    and items_remove: "invar t \<Longrightarrow> items (remove k t) = filter (\<lambda>p. fst p \<noteq> k) (items t)"
begin

lemma keys_distinct: "invar t \<Longrightarrow> distinct (map fst (items t))"
  by (intro sorted_wrt_less_distinct items_sorted)

lemma find_empty: "find empty k = None"
  by (simp add: find_items invar_empty items_empty)

lemma find_put: "invar t \<Longrightarrow> find (put k v t) k' = (if k' = k then Some v else find t k')"
  by (auto simp: find_items invar_put items_put map_add_def
      map_of_filter_key [where P = "\<lambda>x. x < k"] map_of_filter_key [where P = "\<lambda>x. k < x"]
      split: option.splits)

lemma find_remove: "invar t \<Longrightarrow> find (remove k t) k' = (if k' = k then None else find t k')"
  by (simp add: find_items invar_remove items_remove map_of_filter_key [where P = "\<lambda>x. x \<noteq> k"])

lemma find_in_items: "invar t \<Longrightarrow> find t k = Some v \<longleftrightarrow> (k, v) \<in> set (items t)"
  by (simp add: find_items keys_distinct)

lemma find_None_items: "invar t \<Longrightarrow> find t k = None \<longleftrightarrow> k \<notin> fst ` set (items t)"
  by (simp add: find_items map_of_eq_None_iff)

lemma items_eqI:
  assumes "invar t" "invar u" "\<And>k. find t k = find u k"
  shows "items t = items u"
  using assms by (intro strict_sorted_keys_unique) (auto simp: items_sorted find_items)

lemma items_remove_absent: "invar t \<Longrightarrow> find t k = None \<Longrightarrow> items (remove k t) = items t"
  by (auto simp: items_remove find_None_items filter_id_conv)

lemma mset_items_put:
  assumes "invar t"
  shows "mset (items (put k v t)) = add_mset (k, v) (mset (items (remove k t)))"
proof -
  have "mset (filter (\<lambda>p. fst p \<noteq> k) xs) =
      mset (filter (\<lambda>p. fst p < k) xs) + mset (filter (\<lambda>p. k < fst p) xs)" for xs :: "('k \<times> 'v) list"
    by (induction xs) (auto simp: neq_iff)
  then show ?thesis
    using assms by (simp add: items_put items_remove)
qed

lemma mset_items_remove:
  assumes "invar t" "find t k = Some v"
  shows "mset (items t) = add_mset (k, v) (mset (items (remove k t)))"
proof -
  have "distinct (map fst xs) \<Longrightarrow> (k, v) \<in> set xs \<Longrightarrow>
      mset xs = add_mset (k, v) (mset (filter (\<lambda>p. fst p \<noteq> k) xs))" for xs :: "('k \<times> 'v) list"
  proof (induction xs)
    case (Cons p xs)
    show ?case
    proof (cases "fst p = k")
      case True
      then have "filter (\<lambda>p. fst p \<noteq> k) xs = xs" and "p = (k, v)"
        using Cons.prems by (auto simp: filter_id_conv rev_image_eqI)
      then show ?thesis by simp
    next
      case False
      then show ?thesis using Cons by auto
    qed
  qed simp
  then show ?thesis
    using assms by (simp add: items_remove keys_distinct flip: find_in_items)
qed

lemma nfind_Some:
  assumes "invar t" "nfind t k = Some (k', v)"
  shows "find t k' = Some v" and "k \<le> k'"
    and "k \<le> l \<Longrightarrow> l < k' \<Longrightarrow> find t l = None"
proof -
  have f: "List.find (\<lambda>p. k \<le> fst p) (items t) = Some (k', v)"
    using assms by (simp add: nfind_items)
  obtain i where i: "i < length (items t)" "items t ! i = (k', v)" "k \<le> k'"
      "\<And>j. j < i \<Longrightarrow> \<not> k \<le> fst (items t ! j)"
    using f unfolding find_Some_iff by (metis fst_conv)
  show "find t k' = Some v"
    using i assms(1) by (metis find_in_items nth_mem)
  show "k \<le> k'" by (rule i(3))
  assume l: "k \<le> l" "l < k'"
  have "j < length (items t) \<Longrightarrow> fst (items t ! j) \<noteq> l" for j
  proof (cases "j < i")
    case True
    then show ?thesis using i(4) l(1) by force
  next
    case False
    assume j: "j < length (items t)"
    have "fst (items t ! i) \<le> fst (items t ! j)"
      using False j items_sorted [OF assms(1)]
      by (cases "i = j") (simp_all add: sorted_wrt_iff_nth_less less_imp_le)
    then show ?thesis using i(2) l(2) by auto
  qed
  then have "l \<notin> fst ` set (items t)"
    by (metis imageE in_set_conv_nth)
  then show "find t l = None" using assms(1) by (simp add: find_None_items)
qed

lemma nfind_None:
  assumes "invar t"
  shows "nfind t k = None \<longleftrightarrow> (\<forall>l. k \<le> l \<longrightarrow> find t l = None)"
  using assms by (force simp: nfind_items find_None_iff find_None_items)

end

subsection \<open>The canonical instance\<close>

typedef (overloaded) ('k::linorder, 'v) index =
  "{xs :: ('k \<times> 'v) list. sorted_wrt (<) (map fst xs)}"
  morphisms idx_items Index
  by (rule exI [of _ "[]"]) simp

setup_lifting type_definition_index

lift_definition idx_empty :: "('k::linorder, 'v) index" is "[]"
  by simp

lift_definition idx_find :: "('k::linorder, 'v) index \<Rightarrow> 'k \<Rightarrow> 'v option" is map_of .

lift_definition idx_nfind :: "('k::linorder, 'v) index \<Rightarrow> 'k \<Rightarrow> ('k \<times> 'v) option"
  is "\<lambda>xs k. List.find (\<lambda>p. k \<le> fst p) xs" .

lift_definition idx_put :: "'k::linorder \<Rightarrow> 'v \<Rightarrow> ('k, 'v) index \<Rightarrow> ('k, 'v) index"
  is "\<lambda>k v xs. filter (\<lambda>p. fst p < k) xs @ (k, v) # filter (\<lambda>p. k < fst p) xs"
  by (auto simp: sorted_wrt_append sorted_wrt_map sorted_wrt_filter)

lift_definition idx_remove :: "'k::linorder \<Rightarrow> ('k, 'v) index \<Rightarrow> ('k, 'v) index"
  is "\<lambda>k. filter (\<lambda>p. fst p \<noteq> k)"
  by (simp add: sorted_wrt_map sorted_wrt_filter)

definition idx_min :: "('k::linorder, 'v) index \<Rightarrow> ('k \<times> 'v) option" where
  "idx_min t = (case idx_items t of [] \<Rightarrow> None | p # _ \<Rightarrow> Some p)"

text \<open>\<open>RB_INSERT\<close> leaves the tree alone and returns the element that already has the key, if any.\<close>

definition idx_insert :: "'k::linorder \<Rightarrow> 'v \<Rightarrow> ('k, 'v) index \<Rightarrow> 'v option \<times> ('k, 'v) index" where
  "idx_insert k v t = (case idx_find t k of Some w \<Rightarrow> (Some w, t) | None \<Rightarrow> (None, idx_put k v t))"

definition idx_is_empty :: "('k::linorder, 'v) index \<Rightarrow> bool" where
  "idx_is_empty t \<longleftrightarrow> idx_items t = []"

definition idx_size :: "('k::linorder, 'v) index \<Rightarrow> nat" where
  "idx_size t = length (idx_items t)"

interpretation idx: ordered_map "\<lambda>_. True" idx_items idx_empty idx_find idx_nfind idx_put idx_remove
proof unfold_locales
  fix t :: "('k::linorder, 'v) index" and k :: 'k and v :: 'v
  show "sorted_wrt (<) (map fst (idx_items t))"
    using idx_items by blast
qed (simp_all add: idx_empty.rep_eq idx_find.rep_eq idx_nfind.rep_eq idx_put.rep_eq idx_remove.rep_eq)

lemmas idx_find_empty [simp] = idx.find_empty
lemmas idx_find_put [simp] = idx.find_put [OF TrueI]
lemmas idx_find_remove [simp] = idx.find_remove [OF TrueI]
lemmas idx_nfind_Some = idx.nfind_Some [OF TrueI]
lemmas idx_nfind_None = idx.nfind_None [OF TrueI]
lemmas idx_find_in_items = idx.find_in_items [OF TrueI]

lemma idx_items_empty [simp]: "idx_items idx_empty = []"
  by (rule idx.items_empty)

lemma idx_eqI: "(\<And>k. idx_find t k = idx_find u k) \<Longrightarrow> t = u"
  by (metis idx.items_eqI idx_items_inject)

lemma idx_insert_fresh [simp]: "idx_find t k = None \<Longrightarrow> idx_insert k v t = (None, idx_put k v t)"
  by (simp add: idx_insert_def)

lemma idx_insert_present [simp]: "idx_find t k = Some w \<Longrightarrow> idx_insert k v t = (Some w, t)"
  by (simp add: idx_insert_def)

lemma idx_min_nfind: "\<forall>k. b \<le> k \<Longrightarrow> idx_min t = idx_nfind t b"
  by (cases "idx_items t") (auto simp: idx_min_def idx_nfind.rep_eq)

lemma idx_min_Some: "idx_min t = Some (k, v) \<Longrightarrow> idx_find t k = Some v"
  by (auto simp: idx_min_def idx_find_in_items split: list.splits)

lemma idx_min_None: "idx_min t = None \<longleftrightarrow> t = idx_empty"
  by (cases "idx_items t")
    (auto simp: idx_min_def idx_items_inject [symmetric])

lemma idx_is_empty_iff [simp]: "idx_is_empty t \<longleftrightarrow> t = idx_empty"
  by (auto simp: idx_is_empty_def idx_items_inject [symmetric])

lemma idx_size_empty [simp]: "idx_size idx_empty = 0"
  by (simp add: idx_size_def)

lemma idx_size_remove: "idx_find t k = Some v \<Longrightarrow> idx_size t = Suc (idx_size (idx_remove k t))"
  using idx.mset_items_remove [OF TrueI, of t k v] by (metis idx_size_def size_mset size_add_mset)

lemma idx_size_put_fresh: "idx_find t k = None \<Longrightarrow> idx_size (idx_put k v t) = Suc (idx_size t)"
  using idx.mset_items_put [OF TrueI, of k v t] idx.items_remove_absent [OF TrueI, of t k]
  by (metis idx_size_def size_mset size_add_mset)

lemma idx_size_put_present: "idx_find t k = Some w \<Longrightarrow> idx_size (idx_put k v t) = idx_size t"
  using idx.mset_items_put [OF TrueI, of k v t] idx_size_remove [of t k w]
  by (metis idx_size_def size_mset size_add_mset)

lemma idx_size_card: "idx_size t = card {k. idx_find t k \<noteq> None}"
proof -
  have "{k. idx_find t k \<noteq> None} = set (map fst (idx_items t))"
    using idx.find_None_items [OF TrueI, of t] by auto
  then show ?thesis
    using distinct_card [OF idx.keys_distinct [OF TrueI, of t]]
    by (simp only: idx_size_def length_map)
qed

lemma idx_finite: "finite {k. idx_find t k \<noteq> None}"
proof -
  have "{k. idx_find t k \<noteq> None} = set (map fst (idx_items t))"
    using idx.find_None_items [OF TrueI, of t] by auto
  then show ?thesis by simp
qed

lemma idx_put_put [simp]: "idx_put k v (idx_put k w t) = idx_put k v t"
  by (rule idx_eqI) simp

lemma idx_remove_put [simp]: "idx_remove k (idx_put k v t) = idx_remove k t"
  by (rule idx_eqI) simp

lemma idx_remove_absent: "idx_find t k = None \<Longrightarrow> idx_remove k t = t"
  by (rule idx_eqI) auto

lemma idx_put_same: "idx_find t k = Some v \<Longrightarrow> idx_put k v t = t"
  by (rule idx_eqI) auto

lemma idx_find_None_set: "idx_find t k = None \<longleftrightarrow> k \<notin> fst ` set (idx_items t)"
  by (rule idx.find_None_items [OF TrueI])

lemma idx_nfind_empty [simp]: "idx_nfind idx_empty k = None"
  by (simp add: idx_nfind_None)

subsection \<open>Summing over the elements\<close>

definition idx_sum :: "('v \<Rightarrow> nat) \<Rightarrow> ('k::linorder, 'v) index \<Rightarrow> nat" where
  "idx_sum g t = sum_list (map (\<lambda>p. g (snd p)) (idx_items t))"

lemma idx_sum_empty [simp]: "idx_sum g idx_empty = 0"
  by (simp add: idx_sum_def)

lemma idx_sum_mset: "idx_sum g t = sum_mset (image_mset (\<lambda>p. g (snd p)) (mset (idx_items t)))"
  by (simp add: idx_sum_def sum_mset_sum_list flip: mset_map)

lemma idx_sum_remove:
  "idx_find t k = Some v \<Longrightarrow> idx_sum g t = g v + idx_sum g (idx_remove k t)"
  using idx.mset_items_remove [OF TrueI, of t k v] by (simp add: idx_sum_mset)

lemma idx_sum_put: "idx_sum g (idx_put k v t) = g v + idx_sum g (idx_remove k t)"
  using idx.mset_items_put [OF TrueI, of k v t] by (simp add: idx_sum_mset)

lemma idx_sum_put_fresh: "idx_find t k = None \<Longrightarrow> idx_sum g (idx_put k v t) = g v + idx_sum g t"
  by (simp add: idx_sum_put idx_remove_absent)

lemma idx_sum_put_same: "idx_find t k = Some w \<Longrightarrow> g v = g w \<Longrightarrow> idx_sum g (idx_put k v t) = idx_sum g t"
  using idx_sum_remove [of t k w g] by (simp add: idx_sum_put)

end
