(* ===== verification/Super_State.thy ===== *)
theory Super_State
  imports Ordered_Index Journal_Format
begin

section \<open>The state of a file system\<close>

text \<open>
  The structures of \<open>src/core/internal.h\<close>, \<open>src/core/core.h\<close> and \<open>src/core/journal.h\<close> that make up
  \<open>struct cyanfs_super\<close>, with the task queue and the small state helpers. A red-black tree is an
  ordered index of its elements. A pointer to a \<open>struct cyanfs_file\<close> is the id of the file, since the
  file objects are exactly the elements of \<open>files_by_id\<close>; following a pointer to a file that is gone,
  and \<open>CYANFS_BUG_ON\<close>, set the flag \<open>panicked\<close>, after which the state has no meaning. A pointer to a
  tree of extents is a \<open>tree_id\<close>: one of the six trees of the super block, or the tree of unused
  extents that a flusher task object carries. Task objects are known by the number of the allocation
  that made them. Two fields only record what happened: \<open>new_task_calls\<close> counts the calls of the
  registered callback, and \<open>journal_log\<close> is the sequence of all entries appended to the journal.
\<close>

subsection \<open>Extents and files\<close>

record extent =
  ext_backend :: bitfield30
  ext_map :: bool
  ext_pending :: bool
  ext_file :: bitfield30
  ext_error :: bool

record file_meta =
  fm_id :: cyanfs_file_id_t
  fm_parent_id :: cyanfs_file_id_t
  fm_name :: file_name
  fm_size :: u64
  fm_extents :: u32
  fm_children :: u32

datatype open_type = FILE_CLOSED | FILE_READONLY | FILE_READWRITE

record cyanfs_file =
  f_parent :: "cyanfs_file_id_t option"
  f_meta :: file_meta
  f_extents :: "(bitfield30, extent) index"
  f_open_type :: open_type
  f_reader :: int

subsection \<open>Tasks\<close>

datatype task_ref =
    Discard_Task
  | Flusher_Before nat | Flusher_After nat | Flusher_Free nat | Flusher_Writer nat
  | Cow_Task nat
  | Requeue_Task nat
  | Loader_Task nat
  | Compact_Task nat | Compact_Writer nat | Compact_Loader nat

datatype task_type =
    TASK_NOP
  | TASK_READ u64 u64
  | TASK_WRITE u64 u64
  | TASK_COPY u64 u64 u64
  | TASK_FLUSH
  | TASK_DISCARD u64 u64
  | TASK_REQUEUE cyanfs_file_id_t nat

text \<open>
  \<open>TASK_READ\<close>, \<open>TASK_WRITE\<close> and \<open>TASK_DISCARD\<close> have the backend offset and the length, \<open>TASK_COPY\<close> the
  source offset, the destination offset and the length, \<open>TASK_REQUEUE\<close> the file and the caller's
  context. The completion function of a task is one of these.
\<close>

datatype task_done =
    Discard_Extents_Begin | Discard_Extents_Done
  | Flusher_Free_Done | Flusher_After_Flush | Flusher_Before_Flush
  | Flusher_Before_Write_Flush | Flusher_Before_Write_Flush_Done
  | Journal_Writer_Encode
  | Copy_On_Write_Done
  | Task_Free_Done
  | Journal_Loader_Parser_Header | Journal_Loader_Parser_Page
  | Journal_Compact_Write_Super | Journal_Compact_Flush_Super | Journal_Compact_Finish

record cyanfs_task =
  t_done :: task_done
  t_type :: task_type

record journal_node =
  jn_entry :: journal_entry
  jn_flush :: bool

record flusher =
  fl_flush_before_write :: bool
  fl_ondisk :: bool
  fl_writer_head :: "journal_node list"

text \<open>A copy-on-write task keeps its journal entry and the extent node, here as file and index.\<close>

record copy_on_write =
  cow_journal :: journal_node
  cow_file :: cyanfs_file_id_t
  cow_extent :: bitfield30

subsection \<open>The super block\<close>

datatype tree_id =
    Free_Extents | Discard_Extents | Wait_Discard_Extents | Flush_Extents | Unused_Extents
  | Journal_Extents
  | Flusher_Unused nat

record super_meta =
  sm_uuid :: cyanfs_uuid_t
  sm_total_extents :: u32
  sm_free_extents :: u32
  sm_journal_extents :: u32
  sm_data_extents :: u32
  sm_reserved_extents :: u32
  sm_size :: u64
  sm_files :: u32

record journal_cursor =
  jc_page :: "u8 list"
  jc_extent_off :: u64
  jc_extent_id :: cyanfs_extent_id
  jc_extent_id_flush :: cyanfs_extent_id
  jc_extent_id_ondisk :: cyanfs_extent_id
  jc_seq :: u64

record super =
  files_by_id :: "(cyanfs_file_id_t, cyanfs_file) index"
  files_by_name :: "(file_name, cyanfs_file_id_t) index"
  meta :: super_meta
  trees :: "tree_id \<Rightarrow> (bitfield30, extent) index"
  journal_head :: "journal_node list"
  journal_count :: u32
  max_file_id :: cyanfs_file_id_t
  flags :: u32
  writers :: "bool \<Rightarrow> int"
  writer_current_id :: bool
  journal_cursor :: journal_cursor
  task_head :: "task_ref list"
  active_tasks :: u32
  new_task :: "nat option"
  new_task_calls :: nat
  task_at :: "task_ref \<Rightarrow> cyanfs_task"
  flusher_at :: "nat \<Rightarrow> flusher"
  cow_at :: "nat \<Rightarrow> copy_on_write"
  next_address :: nat
  journal_log :: "journal_entry list"
  panicked :: bool

text \<open>An allocated buffer has \<open>n\<close> bytes of any content, here the given one.\<close>

definition malloc_bytes :: "nat \<Rightarrow> u8 list \<Rightarrow> u8 list" where
  "malloc_bytes n content = take n (content @ replicate n 0)"

lemma length_malloc_bytes [simp]: "length (malloc_bytes n xs) = n"
  by (simp add: malloc_bytes_def)

definition CYANFS_EXTENT_MAX_INFLIGHT :: u32 where "CYANFS_EXTENT_MAX_INFLIGHT = 256"
definition CYANFS_EXTENT_CONTINUOUS :: u32 where "CYANFS_EXTENT_CONTINUOUS = 16"
definition CYANFS_SUPER_MAX_FILES :: u32 where "CYANFS_SUPER_MAX_FILES = 4096"
definition CYANFS_SUPER_MAX_INFLIGHT_JOURNAL :: u32 where "CYANFS_SUPER_MAX_INFLIGHT_JOURNAL = 10000"

definition FLAG_READY :: u32 where "FLAG_READY = push_bit 0 1"
definition FLAG_FLUSH :: u32 where "FLAG_FLUSH = push_bit 1 1"
definition FLAG_ERROR :: u32 where "FLAG_ERROR = push_bit 2 1"
definition FLAG_DISCARD_ENABLED :: u32 where "FLAG_DISCARD_ENABLED = push_bit 3 1"
definition FLAG_DISCARD_WORKING :: u32 where "FLAG_DISCARD_WORKING = push_bit 4 1"
definition FLAG_COMPACT_ENABLED :: u32 where "FLAG_COMPACT_ENABLED = push_bit 5 1"
definition FLAG_COMPACT_WORKING :: u32 where "FLAG_COMPACT_WORKING = push_bit 6 1"

definition has_flag :: "super \<Rightarrow> u32 \<Rightarrow> bool" where
  "has_flag s m \<longleftrightarrow> flags s AND m \<noteq> 0"

definition set_flag :: "u32 \<Rightarrow> super \<Rightarrow> super" where
  "set_flag m s = s\<lparr>flags := flags s OR m\<rparr>"

definition clear_flag :: "u32 \<Rightarrow> super \<Rightarrow> super" where
  "clear_flag m s = s\<lparr>flags := flags s AND NOT m\<rparr>"

definition ensure_status :: "super \<Rightarrow> cyanfs_status" where
  "ensure_status s =
     (if has_flag s FLAG_ERROR then IO else if \<not> has_flag s FLAG_READY then BUSY else Ok)"

definition mark_error :: "super \<Rightarrow> super" where
  "mark_error s = set_flag FLAG_ERROR s"

definition panic :: "super \<Rightarrow> super" where
  "panic s = s\<lparr>panicked := True\<rparr>"

definition task_init :: "task_ref \<Rightarrow> task_type \<Rightarrow> task_done \<Rightarrow> super \<Rightarrow> super" where
  "task_init t ty fn s = s\<lparr>task_at := (task_at s)(t := \<lparr>t_done = fn, t_type = ty\<rparr>)\<rparr>"

definition super_new_task :: "super \<Rightarrow> super" where
  "super_new_task s =
     (case new_task s of None \<Rightarrow> s | Some ctx \<Rightarrow> s\<lparr>new_task_calls := new_task_calls s + 1\<rparr>)"

definition task_add_head :: "task_ref \<Rightarrow> super \<Rightarrow> bool \<times> super" where
  "task_add_head t s = (task_head s = [], s\<lparr>task_head := t # task_head s\<rparr>)"

definition task_add_tail :: "task_ref \<Rightarrow> super \<Rightarrow> bool \<times> super" where
  "task_add_tail t s = (task_head s = [], s\<lparr>task_head := task_head s @ [t]\<rparr>)"

subsection \<open>Flags\<close>

lemma flag_bit: "w AND push_bit n 1 \<noteq> 0 \<longleftrightarrow> bit w n" for w :: "'a::len word"
proof -
  have "bit (w AND push_bit n 1) m \<longleftrightarrow> m = n \<and> bit w n" for m
    by (auto simp: bit_simps dest: bit_imp_le_length)
  then show ?thesis
    by (metis bit_eqI bit_0_eq bot_apply bot_bool_def)
qed

lemmas flag_defs = FLAG_READY_def FLAG_FLUSH_def FLAG_ERROR_def FLAG_DISCARD_ENABLED_def
  FLAG_DISCARD_WORKING_def FLAG_COMPACT_ENABLED_def FLAG_COMPACT_WORKING_def

lemma has_flag_simps:
  "has_flag s FLAG_READY \<longleftrightarrow> bit (flags s) 0" "has_flag s FLAG_FLUSH \<longleftrightarrow> bit (flags s) 1"
  "has_flag s FLAG_ERROR \<longleftrightarrow> bit (flags s) 2" "has_flag s FLAG_DISCARD_ENABLED \<longleftrightarrow> bit (flags s) 3"
  "has_flag s FLAG_DISCARD_WORKING \<longleftrightarrow> bit (flags s) 4" "has_flag s FLAG_COMPACT_ENABLED \<longleftrightarrow> bit (flags s) 5"
  "has_flag s FLAG_COMPACT_WORKING \<longleftrightarrow> bit (flags s) 6"
  by (simp_all only: has_flag_def flag_defs flag_bit)

lemma bit_or_flag: "bit (w OR push_bit n 1) m \<longleftrightarrow> bit w m \<or> (m = n \<and> n < LENGTH('a))"
  for w :: "'a::len word"
  by (auto simp: bit_simps)

lemma bit_clear_flag: "bit (w AND NOT (push_bit n 1)) m \<longleftrightarrow> bit w m \<and> m \<noteq> n"
  for w :: "'a::len word"
  by (auto simp: bit_simps dest: bit_imp_le_length)

lemma flags_frame [simp]:
  "flags (set_flag m s) = flags s OR m" "flags (clear_flag m s) = flags s AND NOT m"
  "flags (panic s) = flags s" "flags (task_init t ty fn s) = flags s"
  "flags (super_new_task s) = flags s"
  by (simp_all add: set_flag_def clear_flag_def panic_def task_init_def super_new_task_def
      split: option.split)

end
