(* ===== verification/Extents.thy ===== *)
theory Extents
  imports Super_State
begin

section \<open>Extents: moving, mapping, allocating and truncating\<close>

text \<open>
  The extent operations of \<open>src/core/internal.h\<close> and of the first part of \<open>src/core/super.c\<close>. Every
  1 MiB extent of the device is one node that is at any time in exactly one tree: in a tree of the
  super block, keyed by its backend id, or in the tree of a file, keyed by its index in the file.
\<close>

subsection \<open>Access to files and trees\<close>

definition get_file :: "super \<Rightarrow> cyanfs_file_id_t \<Rightarrow> cyanfs_file option" where
  "get_file s i = idx_find (files_by_id s) i"

definition put_file :: "cyanfs_file_id_t \<Rightarrow> cyanfs_file \<Rightarrow> super \<Rightarrow> super" where
  "put_file i f s = s\<lparr>files_by_id := idx_put i f (files_by_id s)\<rparr>"

definition tree_remove :: "tree_id \<Rightarrow> extent \<Rightarrow> super \<Rightarrow> super" where
  "tree_remove T n s = s\<lparr>trees := (trees s)(T := idx_remove (ext_backend n) (trees s T))\<rparr>"

definition tree_insert :: "tree_id \<Rightarrow> extent \<Rightarrow> super \<Rightarrow> super" where
  "tree_insert T n s =
     s\<lparr>trees := (trees s)(T := snd (idx_insert (ext_backend n) n (trees s T)))\<rparr>"

definition add_free :: "u32 \<Rightarrow> super \<Rightarrow> super" where
  "add_free v s = s\<lparr>meta := (meta s)\<lparr>sm_free_extents := sm_free_extents (meta s) + v\<rparr>\<rparr>"

definition add_journal :: "u32 \<Rightarrow> super \<Rightarrow> super" where
  "add_journal v s = s\<lparr>meta := (meta s)\<lparr>sm_journal_extents := sm_journal_extents (meta s) + v\<rparr>\<rparr>"

definition add_data :: "u32 \<Rightarrow> super \<Rightarrow> super" where
  "add_data v s = s\<lparr>meta := (meta s)\<lparr>sm_data_extents := sm_data_extents (meta s) + v\<rparr>\<rparr>"

definition super_stat_add :: "tree_id \<Rightarrow> u32 \<Rightarrow> super \<Rightarrow> super" where
  "super_stat_add T v s =
     (if T = Free_Extents then add_free v s
      else if T = Journal_Extents then add_journal v s
      else s)"

definition file_add_extents :: "u32 \<Rightarrow> cyanfs_file \<Rightarrow> cyanfs_file" where
  "file_add_extents v f = f\<lparr>f_meta := (f_meta f)\<lparr>fm_extents := fm_extents (f_meta f) + v\<rparr>\<rparr>"

subsection \<open>Moving a node between trees\<close>

definition extent_super_to_super :: "extent \<Rightarrow> tree_id \<Rightarrow> tree_id \<Rightarrow> super \<Rightarrow> super" where
  "extent_super_to_super n from to s =
     (let s = super_stat_add from (- 1) s;
          s = tree_remove from n s;
          s = tree_insert to n s
      in super_stat_add to 1 s)"

definition extent_file_to_super :: "cyanfs_file_id_t \<Rightarrow> extent \<Rightarrow> tree_id \<Rightarrow> super \<Rightarrow> super" where
  "extent_file_to_super i n to s =
     (case get_file s i of
        None \<Rightarrow> panic s
      | Some f \<Rightarrow>
          (let f = file_add_extents (- 1) f;
               s = add_data (- 1) s;
               s = put_file i (f\<lparr>f_extents := idx_remove (ext_file n) (f_extents f)\<rparr>) s;
               s = tree_insert to n s
           in super_stat_add to 1 s))"

definition extent_super_to_file :: "cyanfs_file_id_t \<Rightarrow> extent \<Rightarrow> tree_id \<Rightarrow> super \<Rightarrow> super" where
  "extent_super_to_file i n from s =
     (case get_file s i of
        None \<Rightarrow> panic s
      | Some f \<Rightarrow>
          (let s = super_stat_add from (- 1) s;
               s = tree_remove from n s;
               (old, t) = idx_insert (ext_file n) n (f_extents f)
           in if old \<noteq> None then panic s
              else add_data 1 (put_file i (file_add_extents 1 (f\<lparr>f_extents := t\<rparr>)) s)))"

text \<open>Assigning to a field of a node that is in the tree of a file.\<close>

definition update_extent ::
    "cyanfs_file_id_t \<Rightarrow> bitfield30 \<Rightarrow> (extent \<Rightarrow> extent) \<Rightarrow> super \<Rightarrow> super" where
  "update_extent i k g s =
     (case get_file s i of
        None \<Rightarrow> panic s
      | Some f \<Rightarrow>
          (case idx_find (f_extents f) k of
             None \<Rightarrow> panic s
           | Some n \<Rightarrow> put_file i (f\<lparr>f_extents := idx_put k (g n) (f_extents f)\<rparr>) s))"

subsection \<open>Finding and mapping\<close>

definition super_find_nearly_extent :: "super \<Rightarrow> cyanfs_extent_id \<Rightarrow> extent option" where
  "super_find_nearly_extent s id_from =
     (case (if ucast id_from \<le> CYANFS_EXTENT_INDEX_MAX
            then idx_nfind (trees s Free_Extents) (ucast id_from) else None) of
        Some (_, n) \<Rightarrow> Some n
      | None \<Rightarrow> map_option snd (idx_min (trees s Free_Extents)))"

definition super_find_extent :: "super \<Rightarrow> cyanfs_extent_id \<Rightarrow> extent option" where
  "super_find_extent s i =
     (if ucast i > CYANFS_EXTENT_INDEX_MAX then None
      else idx_find (trees s Free_Extents) (ucast i))"

definition file_find_extent :: "cyanfs_file \<Rightarrow> u64 \<Rightarrow> extent option" where
  "file_find_extent f f_off = idx_find (f_extents f) (ucast (cyanfs_extent_from f_off))"

definition file_map_extent ::
    "cyanfs_file_id_t \<Rightarrow> extent \<Rightarrow> cyanfs_extent_id \<Rightarrow> super \<Rightarrow> cyanfs_status \<times> super" where
  "file_map_extent i n f_id s =
     (case get_file s i of
        None \<Rightarrow> (INVAL, panic s)
      | Some f \<Rightarrow>
          if file_find_extent f (cyanfs_extent_begin f_id) \<noteq> None then (INVAL, s)
          else
            (let n = n\<lparr>ext_file := ucast f_id\<rparr>;
                 s = extent_super_to_file i n Free_Extents s;
                 s = update_extent i (ext_file n) (\<lambda>n. n\<lparr>ext_map := True\<rparr>) s
             in (Ok, s)))"

definition file_unmap_extent :: "cyanfs_file_id_t \<Rightarrow> extent \<Rightarrow> super \<Rightarrow> super" where
  "file_unmap_extent i n s =
     (if ext_pending n then panic s
      else
        (let n = n\<lparr>ext_map := False, ext_pending := False, ext_error := False\<rparr>
         in if has_flag s FLAG_READY then extent_file_to_super i n Unused_Extents s
            else extent_file_to_super i n Free_Extents s))"

text \<open>
  The walk to the ancestors. The result \<open>None\<close> is a walk that does not end or that meets a file that
  is gone; \<open>Some None\<close> is the null pointer.
\<close>

partial_function (option) file_find_extent_follow ::
    "super \<Rightarrow> cyanfs_file_id_t option \<Rightarrow> u64 \<Rightarrow> extent option option" where
  "file_find_extent_follow s f f_off =
     (case f of
        None \<Rightarrow> Some None
      | Some i \<Rightarrow>
          (case get_file s i of
             None \<Rightarrow> None
           | Some f \<Rightarrow>
               if cyanfs_extent_begin (cyanfs_extent_from f_off) < fm_size (f_meta f) then
                 (case file_find_extent f f_off of
                    Some n \<Rightarrow> Some (Some n)
                  | None \<Rightarrow> file_find_extent_follow s (f_parent f) f_off)
               else Some None))"

text \<open>
  Where the search for a free extent starts: after the extents that the file has near the index, so
  that a file is laid out in sequence, or at a hash of the file and the offset.
\<close>

definition alloc_id_from :: "cyanfs_file \<Rightarrow> u64 \<Rightarrow> super \<Rightarrow> cyanfs_extent_id" where
  "alloc_id_from f f_off s =
     (let id = cyanfs_extent_from f_off;
          tmp = (if id < CYANFS_EXTENT_CONTINUOUS then 0 else id - CYANFS_EXTENT_CONTINUOUS);
          hashed = cyanfs_extent_alloc_hash (fm_id (f_meta f)) f_off mod sm_total_extents (meta s)
      in case idx_nfind (f_extents f) (ucast tmp) of
           Some (_, n) \<Rightarrow>
             if ucast (ext_file n) \<le> id + CYANFS_EXTENT_CONTINUOUS
             then ucast (ext_backend n) + id - ucast (ext_file n)
             else hashed
         | None \<Rightarrow> hashed)"

definition file_alloc_extent :: "cyanfs_file_id_t \<Rightarrow> u64 \<Rightarrow> super \<Rightarrow> extent option \<times> super" where
  "file_alloc_extent i f_off s =
     (case get_file s i of
        None \<Rightarrow> (None, panic s)
      | Some f \<Rightarrow>
          if sm_free_extents (meta s) \<le> sm_reserved_extents (meta s) then (None, s)
          else
            (let id = cyanfs_extent_from f_off
             in case super_find_nearly_extent s (alloc_id_from f f_off s) of
                  None \<Rightarrow> (None, s)
                | Some n \<Rightarrow>
                    (let (err, s) = file_map_extent i n id s
                     in (if err \<noteq> Ok then None else Some (n\<lparr>ext_file := ucast id, ext_map := True\<rparr>),
                         s))))"

definition file_bind_extent ::
    "cyanfs_file_id_t \<Rightarrow> cyanfs_extent_id \<Rightarrow> cyanfs_extent_id \<Rightarrow> super \<Rightarrow> cyanfs_status \<times> super" where
  "file_bind_extent i f_id b_id s =
     (case get_file s i of
        None \<Rightarrow> (INVAL, panic s)
      | Some f \<Rightarrow>
          if ucast f_id > CYANFS_EXTENT_INDEX_MAX \<or> cyanfs_extent_begin f_id \<ge> fm_size (f_meta f)
          then (INVAL, s)
          else (case super_find_extent s b_id of
                  None \<Rightarrow> (INVAL, s)
                | Some n \<Rightarrow> file_map_extent i n f_id s))"

definition file_unbind_extent ::
    "cyanfs_file_id_t \<Rightarrow> cyanfs_extent_id \<Rightarrow> super \<Rightarrow> cyanfs_status \<times> super" where
  "file_unbind_extent i f_id s =
     (case get_file s i of
        None \<Rightarrow> (INVAL, panic s)
      | Some f \<Rightarrow>
          if ucast f_id > CYANFS_EXTENT_INDEX_MAX \<or> cyanfs_extent_begin f_id \<ge> fm_size (f_meta f)
          then (INVAL, s)
          else (case file_find_extent f (cyanfs_extent_begin f_id) of
                  None \<Rightarrow> (INVAL, s)
                | Some n \<Rightarrow> (Ok, file_unmap_extent i n s)))"

subsection \<open>Truncating\<close>

text \<open>
  The nodes that \<open>RB_NFIND\<close> and then \<open>RB_NEXT\<close> visit are the elements with keys from the given one
  on; taking the visited node out of the tree does not change the successors that follow.
\<close>

definition idx_from :: "('k::linorder, 'v) index \<Rightarrow> 'k \<Rightarrow> ('k \<times> 'v) list" where
  "idx_from t k = filter (\<lambda>p. k \<le> fst p) (idx_items t)"

definition file_set_size :: "cyanfs_file_id_t \<Rightarrow> u64 \<Rightarrow> super \<Rightarrow> super" where
  "file_set_size i sz s =
     (case get_file s i of
        None \<Rightarrow> panic s
      | Some f \<Rightarrow> put_file i (f\<lparr>f_meta := (f_meta f)\<lparr>fm_size := sz\<rparr>\<rparr>) s)"

definition file_truncate :: "cyanfs_file_id_t \<Rightarrow> u64 \<Rightarrow> super \<Rightarrow> cyanfs_status \<times> super" where
  "file_truncate i sz s =
     (case get_file s i of
        None \<Rightarrow> (INVAL, panic s)
      | Some f \<Rightarrow>
          (let s =
             (if sz \<noteq> 0 then
                (let tmp = ucast (cyanfs_extent_from (sz - 1)) :: bitfield30
                 in fold (\<lambda>(_, n) s. if ext_file n > tmp then file_unmap_extent i n s else s)
                      (idx_from (f_extents f) tmp) s)
              else fold (\<lambda>(_, n) s. file_unmap_extent i n s) (idx_items (f_extents f)) s)
           in (Ok, file_set_size i sz s)))"

end
