(* ===== verification/Files.thy ===== *)
theory Files
  imports Extents
begin

section \<open>Files: the two indexes, the journal list and its replay\<close>

text \<open>
  The functions of \<open>src/core/super.c\<close> that keep the files by id and by name, append an entry to the
  journal in memory, and replay an entry that was read back. The argument of type \<open>malloc\<close> of the
  replay says whether its one allocation succeeds.
\<close>

definition lookup_file_by_name :: "super \<Rightarrow> file_name \<Rightarrow> cyanfs_file_id_t option" where
  "lookup_file_by_name s name = idx_find (files_by_name s) name"

definition lookup_file_by_id :: "super \<Rightarrow> cyanfs_file_id_t \<Rightarrow> cyanfs_file option" where
  "lookup_file_by_id s i = get_file s i"

definition add_children :: "cyanfs_file_id_t \<Rightarrow> u32 \<Rightarrow> super \<Rightarrow> super" where
  "add_children p v s =
     (case get_file s p of
        None \<Rightarrow> panic s
      | Some f \<Rightarrow>
          put_file p (f\<lparr>f_meta := (f_meta f)\<lparr>fm_children := fm_children (f_meta f) + v\<rparr>\<rparr>) s)"

definition add_files :: "u32 \<Rightarrow> super \<Rightarrow> super" where
  "add_files v s = s\<lparr>meta := (meta s)\<lparr>sm_files := sm_files (meta s) + v\<rparr>\<rparr>"

definition new_file ::
    "file_name \<Rightarrow> cyanfs_file_id_t \<Rightarrow> (cyanfs_file_id_t \<times> cyanfs_file) option \<Rightarrow> cyanfs_file" where
  "new_file name i parent =
     \<lparr>f_parent = map_option fst parent,
      f_meta =
        \<lparr>fm_id = i,
         fm_parent_id = (case parent of None \<Rightarrow> 0 | Some (_, p) \<Rightarrow> fm_id (f_meta p)),
         fm_name = name,
         fm_size = (case parent of None \<Rightarrow> 0 | Some (_, p) \<Rightarrow> fm_size (f_meta p)),
         fm_extents = 0, fm_children = 0\<rparr>,
      f_extents = idx_empty, f_open_type = FILE_CLOSED, f_reader = 0\<rparr>"

definition init_file ::
    "file_name \<Rightarrow> cyanfs_file_id_t \<Rightarrow> (cyanfs_file_id_t \<times> cyanfs_file) option \<Rightarrow> super
     \<Rightarrow> cyanfs_status \<times> super" where
  "init_file name i parent s =
     (case idx_insert i (new_file name i parent) (files_by_id s) of
        (Some _, _) \<Rightarrow> (INVAL, s)
      | (None, t) \<Rightarrow>
          (let s = s\<lparr>files_by_id := t\<rparr>
           in case idx_insert name i (files_by_name s) of
                (Some _, _) \<Rightarrow> (INVAL, s\<lparr>files_by_id := idx_remove i (files_by_id s)\<rparr>)
              | (None, t) \<Rightarrow>
                  (let s = s\<lparr>files_by_name := t\<rparr>;
                       s = (case parent of None \<Rightarrow> s | Some (p, _) \<Rightarrow> add_children p 1 s);
                       s = (if i > max_file_id s then s\<lparr>max_file_id := i\<rparr> else s)
                   in (Ok, add_files 1 s))))"

definition rename_file :: "cyanfs_file_id_t \<Rightarrow> file_name \<Rightarrow> super \<Rightarrow> cyanfs_status \<times> super" where
  "rename_file i name s =
     (case get_file s i of
        None \<Rightarrow> (INVAL, panic s)
      | Some f \<Rightarrow>
          (let s = s\<lparr>files_by_name := idx_remove (fm_name (f_meta f)) (files_by_name s)\<rparr>;
               s = put_file i (f\<lparr>f_meta := (f_meta f)\<lparr>fm_name := name\<rparr>\<rparr>) s
           in (Ok, s\<lparr>files_by_name := snd (idx_insert name i (files_by_name s))\<rparr>)))"

definition delete_file :: "cyanfs_file_id_t \<Rightarrow> super \<Rightarrow> cyanfs_status \<times> super" where
  "delete_file i s =
     (case file_truncate i 0 s of
        (Ok, s) \<Rightarrow>
          (case get_file s i of
             None \<Rightarrow> (INVAL, panic s)
           | Some f \<Rightarrow>
               (let s = s\<lparr>files_by_id := idx_remove i (files_by_id s)\<rparr>;
                    s = s\<lparr>files_by_name := idx_remove (fm_name (f_meta f)) (files_by_name s)\<rparr>;
                    s = add_files (- 1) s
                in (Ok, case f_parent f of None \<Rightarrow> s | Some p \<Rightarrow> add_children p (- 1) s)))
      | (err, s) \<Rightarrow> (err, s))"

definition journal_append :: "journal_node \<Rightarrow> super \<Rightarrow> super" where
  "journal_append j s =
     s\<lparr>journal_head := journal_head s @ [j], journal_count := journal_count s + 1,
       journal_log := journal_log s @ [jn_entry j]\<rparr>"

fun journal_replay :: "malloc \<Rightarrow> journal_entry \<Rightarrow> super \<Rightarrow> cyanfs_status \<times> super" where
  "journal_replay mem (JCREATE n i) s =
     (case cyanfs_file_name_normalize n of
        None \<Rightarrow> (INVAL, s)
      | Some name \<Rightarrow>
          if i = 0 \<or> lookup_file_by_id s i \<noteq> None \<or> lookup_file_by_name s name \<noteq> None then (INVAL, s)
          else if sm_files (meta s) \<ge> CYANFS_SUPER_MAX_FILES then (NOSPACE, s)
          else if \<not> mem 0 then (NOMEM, s)
          else init_file name i None s)"
| "journal_replay mem (JTRUNCATE i sz) s =
     (if cyanfs_file_size_validate sz \<noteq> Ok then (cyanfs_file_size_validate sz, s)
      else case lookup_file_by_id s i of
             None \<Rightarrow> (INVAL, s)
           | Some f \<Rightarrow> if fm_children (f_meta f) \<noteq> 0 then (INVAL, s) else file_truncate i sz s)"
| "journal_replay mem (JFORK n i pid) s =
     (case cyanfs_file_name_normalize n of
        None \<Rightarrow> (INVAL, s)
      | Some name \<Rightarrow>
          if i = 0 \<or> i \<le> pid \<or> lookup_file_by_id s i \<noteq> None \<or> lookup_file_by_name s name \<noteq> None
          then (INVAL, s)
          else if sm_files (meta s) \<ge> CYANFS_SUPER_MAX_FILES then (NOSPACE, s)
          else (case lookup_file_by_id s pid of
                  None \<Rightarrow> (INVAL, s)
                | Some p \<Rightarrow> if \<not> mem 0 then (NOMEM, s) else init_file name i (Some (pid, p)) s))"
| "journal_replay mem (JDELETE i) s =
     (case lookup_file_by_id s i of
        None \<Rightarrow> (INVAL, s)
      | Some f \<Rightarrow> if fm_children (f_meta f) \<noteq> 0 then (INVAL, s) else delete_file i s)"
| "journal_replay mem (JBIND i file backend) s =
     (case lookup_file_by_id s i of
        None \<Rightarrow> (INVAL, s)
      | Some f \<Rightarrow> file_bind_extent i file backend s)"
| "journal_replay mem (JUNBIND i file) s =
     (case lookup_file_by_id s i of
        None \<Rightarrow> (INVAL, s)
      | Some f \<Rightarrow> file_unbind_extent i file s)"
| "journal_replay mem (JRENAME n i) s =
     (case cyanfs_file_name_normalize n of
        None \<Rightarrow> (INVAL, s)
      | Some name \<Rightarrow>
          (case lookup_file_by_id s i of
             None \<Rightarrow> (INVAL, s)
           | Some f \<Rightarrow>
               (case lookup_file_by_name s name of
                  Some p \<Rightarrow> if p \<noteq> i then (INVAL, s) else rename_file i name s
                | None \<Rightarrow> rename_file i name s)))"
| "journal_replay mem (JNEXT backend) s =
     (case super_find_extent s backend of
        None \<Rightarrow> (INVAL, s)
      | Some n \<Rightarrow> (Ok, extent_super_to_super n Free_Extents Journal_Extents s))"

end
