(* ===== verification/Flusher.thy ===== *)
theory Flusher
  imports Files
begin

section \<open>The flusher: discarding extents and starting a flush\<close>

text \<open>
  \<open>src/core/flusher.c\<close>. Extents that a file gave up are first unused, then wait for the journal entry
  that gave them up to be on disk (flush), then for the device discard, and only then become free.
  A flusher object carries the unused extents and the journal entries it took from the super block
  and three tasks: \<open>before\<close>, \<open>after\<close> and \<open>free\<close>, besides the journal writer.
\<close>

subsection \<open>Discarding\<close>

definition super_discard_extent :: "extent \<Rightarrow> tree_id \<Rightarrow> super \<Rightarrow> super" where
  "super_discard_extent n root s =
     (if has_flag s FLAG_DISCARD_ENABLED then
        (let s = extent_super_to_super n root Wait_Discard_Extents s
         in if \<not> has_flag s FLAG_DISCARD_WORKING then
              (let s = set_flag FLAG_DISCARD_WORKING s;
                   s = task_init Discard_Task TASK_NOP Discard_Extents_Begin s
               in snd (task_add_tail Discard_Task s))
            else s)
      else extent_super_to_super n root Free_Extents s)"

text \<open>
  The loop of \<open>cyanfs_super_discard_extents_begin\<close> takes a run of consecutive backend ids from the
  front of the waiting tree; the comparison with the next id is made in \<open>int\<close>, so it does not wrap.
\<close>

fun discard_run :: "(bitfield30 \<times> extent) list \<Rightarrow> extent list" where
  "discard_run [] = []"
| "discard_run [(_, n)] = [n]"
| "discard_run ((_, n) # (k, m) # ns) =
     (if unat (ext_backend m) \<noteq> unat (ext_backend n) + 1 then [n] else n # discard_run ((k, m) # ns))"

definition discard_extents_begin :: "super \<Rightarrow> super" where
  "discard_extents_begin s =
     (case idx_items (trees s Wait_Discard_Extents) of
        [] \<Rightarrow> clear_flag FLAG_DISCARD_WORKING s
      | (_, n) # _ \<Rightarrow>
          (let run = discard_run (idx_items (trees s Wait_Discard_Extents));
               s = fold (\<lambda>n s. tree_insert Discard_Extents n (tree_remove Wait_Discard_Extents n s)) run s;
               s = task_init Discard_Task
                     (TASK_DISCARD (cyanfs_map_extent_offset (ucast (ext_backend n)) 0)
                       (of_nat (length run) * CYANFS_EXTENT_SIZE))
                     Discard_Extents_Done s
           in snd (task_add_tail Discard_Task s)))"

definition discard_extents_done :: "super \<Rightarrow> super" where
  "discard_extents_done s =
     (let s = fold (\<lambda>(_, n) s. extent_super_to_super n Discard_Extents Free_Extents s)
                (idx_items (trees s Discard_Extents)) s
      in discard_extents_begin s)"

subsection \<open>The tasks of a flusher\<close>

definition flusher_free :: "nat \<Rightarrow> super \<Rightarrow> super" where
  "flusher_free a s =
     (if idx_is_empty (trees s (Flusher_Unused a)) then s
      else
        (let s = set_flag FLAG_FLUSH s
         in if idx_is_empty (trees s Unused_Extents) then
              s\<lparr>trees := (trees s)(Unused_Extents := trees s (Flusher_Unused a),
                                   Flusher_Unused a := idx_empty)\<rparr>
            else
              fold (\<lambda>(_, n) s. extent_super_to_super n (Flusher_Unused a) Unused_Extents s)
                (idx_items (trees s (Flusher_Unused a))) s))"

definition flusher_after_flush :: "cyanfs_status \<Rightarrow> super \<Rightarrow> super" where
  "flusher_after_flush err s =
     (if err \<noteq> Ok then mark_error s
      else if has_flag s FLAG_ERROR then s
      else
        (let s =
           (if \<not> idx_is_empty (trees s Flush_Extents) then
              (if writers s (\<not> writer_current_id s) \<noteq> 0 then set_flag FLAG_FLUSH s
               else fold (\<lambda>(_, n) s. super_discard_extent n Flush_Extents s)
                      (idx_items (trees s Flush_Extents)) s)
            else s)
         in s\<lparr>journal_cursor := (journal_cursor s)
                \<lparr>jc_extent_id_ondisk := jc_extent_id_flush (journal_cursor s)\<rparr>\<rparr>))"

text \<open>The step that the two flush tasks share: the flusher's unused extents become the flushed ones.\<close>

definition flusher_take_flush :: "nat \<Rightarrow> super \<Rightarrow> super" where
  "flusher_take_flush a s =
     (if idx_is_empty (trees s Flush_Extents) \<and> \<not> idx_is_empty (trees s (Flusher_Unused a)) then
        s\<lparr>trees := (trees s)(Flush_Extents := trees s (Flusher_Unused a),
                             Flusher_Unused a := idx_empty),
          writer_current_id := \<not> writer_current_id s\<rparr>
      else s)"

definition flusher_before_flush :: "nat \<Rightarrow> super \<Rightarrow> super" where
  "flusher_before_flush a s =
     (if has_flag s FLAG_ERROR then s
      else
        (let s = flusher_take_flush a s;
             s = s\<lparr>journal_cursor := (journal_cursor s)
                     \<lparr>jc_extent_id_flush := jc_extent_id (journal_cursor s)\<rparr>\<rparr>;
             s = task_init (Flusher_After a) TASK_FLUSH Flusher_After_Flush s
         in snd (task_add_head (Flusher_After a) s)))"

definition task_set_nop :: "task_ref \<Rightarrow> super \<Rightarrow> super" where
  "task_set_nop t s = s\<lparr>task_at := (task_at s)(t := (task_at s t)\<lparr>t_type := TASK_NOP\<rparr>)\<rparr>"

definition flusher_before_write_flush_done :: "nat \<Rightarrow> cyanfs_status \<Rightarrow> super \<Rightarrow> super" where
  "flusher_before_write_flush_done a err s =
     (let s = (if err \<noteq> Ok then mark_error s else s)
      in if has_flag s FLAG_ERROR then task_set_nop (Flusher_Writer a) s else s)"

definition flusher_before_write_flush :: "nat \<Rightarrow> super \<Rightarrow> super" where
  "flusher_before_write_flush a s =
     (if has_flag s FLAG_ERROR then task_set_nop (Flusher_Writer a) s
      else
        (let s = flusher_take_flush a s;
             s = task_init (Flusher_Before a) TASK_FLUSH Flusher_Before_Write_Flush_Done s
         in snd (task_add_head (Flusher_Before a) s)))"

definition flusher_write_error :: "nat \<Rightarrow> super \<Rightarrow> super" where
  "flusher_write_error a s =
     (let s = mark_error s
      in s\<lparr>flusher_at := (flusher_at s)(a := (flusher_at s a)\<lparr>fl_writer_head := []\<rparr>)\<rparr>)"

definition flusher_flush_before_write :: "nat \<Rightarrow> super \<Rightarrow> super" where
  "flusher_flush_before_write a s =
     (if fl_flush_before_write (flusher_at s a) then s
      else
        (let s = s\<lparr>flusher_at := (flusher_at s)(a := (flusher_at s a)\<lparr>fl_flush_before_write := True\<rparr>)\<rparr>;
             s = task_init (Flusher_Before a) TASK_NOP Flusher_Before_Write_Flush s
         in snd (task_add_head (Flusher_Before a) s)))"

definition journal_writer_start :: "task_ref \<Rightarrow> super \<Rightarrow> bool \<times> super" where
  "journal_writer_start t s = task_add_tail t (task_init t TASK_NOP Journal_Writer_Encode s)"

subsection \<open>Starting a flush\<close>

text \<open>
  The decision under the read lock, then the rest under the write lock. The first argument is the
  outcome of the allocation of the flusher object.
\<close>

definition flusher_start_locked :: "nat \<Rightarrow> bool \<Rightarrow> super \<Rightarrow> bool \<times> super" where
  "flusher_start_locked a ondisk s =
     (let no_journal = (journal_head s = []);
          s = (if ondisk \<or> \<not> no_journal then
                 s\<lparr>trees := (trees s)(Flusher_Unused a := trees s Unused_Extents,
                                      Unused_Extents := idx_empty)\<rparr>
               else s);
          (call1, s) =
            (if \<not> no_journal then
               (let s = s\<lparr>flusher_at := (flusher_at s)(a := (flusher_at s a)
                            \<lparr>fl_writer_head := journal_head s\<rparr>),
                          journal_head := [], journal_count := 0\<rparr>
                in journal_writer_start (Flusher_Writer a) s)
             else (False, s));
          (call2, s) =
            (if ondisk then
               task_add_tail (Flusher_After a)
                 (task_init (Flusher_After a) TASK_NOP Flusher_Before_Flush (clear_flag FLAG_FLUSH s))
             else (False, s));
          (call3, s) =
            (if ondisk \<or> \<not> no_journal then
               task_add_tail (Flusher_Free a)
                 (task_init (Flusher_Free a) TASK_NOP Flusher_Free_Done s)
             else (False, s))
      in (call1 \<or> call2 \<or> call3, s))"

definition flusher_start :: "bool \<Rightarrow> u32 \<Rightarrow> bool \<Rightarrow> super \<Rightarrow> cyanfs_status \<times> super" where
  "flusher_start mem min_journal_count ondisk s =
     (let err = ensure_status s;
          no_journal = (journal_count s \<le> min_journal_count);
          ondisk = (ondisk \<or> has_flag s FLAG_FLUSH)
      in if err \<noteq> Ok \<or> no_journal \<and> \<not> ondisk then (err, s)
         else if \<not> mem then (NOMEM, s)
         else
           (let a = next_address s;
                s = s\<lparr>next_address := a + 1,
                      flusher_at := (flusher_at s)(a := \<lparr>fl_flush_before_write = False,
                        fl_ondisk = ondisk, fl_writer_head = []\<rparr>),
                      trees := (trees s)(Flusher_Unused a := idx_empty)\<rparr>;
                (call_new_task, s) = flusher_start_locked a ondisk s
            in (Ok, if call_new_task then super_new_task s else s)))"

definition super_flush_new_journal :: "bool \<Rightarrow> super \<Rightarrow> super" where
  "super_flush_new_journal mem s = snd (flusher_start mem CYANFS_SUPER_MAX_INFLIGHT_JOURNAL False s)"

definition super_flush :: "bool \<Rightarrow> bool \<Rightarrow> super \<Rightarrow> cyanfs_status \<times> super" where
  "super_flush mem ondisk s = flusher_start mem 0 ondisk s"

end
