(* ===== verification/Journal_Writer.thy ===== *)
theory Journal_Writer
  imports Flusher
begin

section \<open>The journal writer\<close>

text \<open>
  \<open>cyanfs_journal_writer_encode\<close> of \<open>src/core/journal.c\<close>: one completion of the writer task packs as
  many entries as fit into one record, links the next extent when the record ends its extent, and
  queues the write. The pointer to the cursor is the value of the cursor, which the caller puts back;
  the cursor and its page are never null, since both callers set them before the writer starts. The
  flag \<open>jw_has_flush\<close> says that the operation \<open>flush\<close> is set, which tells the journal of the mounted
  file system from the one a compaction writes.
\<close>

definition CYANFS_JOURNAL_TAIL_SIZE :: u64 where
  "CYANFS_JOURNAL_TAIL_SIZE = cyanfs_journal_entry_size 0"

record journal_writer =
  jw_head :: "journal_node list"
  jw_cursor :: journal_cursor
  jw_next_id :: cyanfs_extent_id
  jw_has_flush :: bool

definition cyanfs_journal_writer_init :: "journal_cursor \<Rightarrow> journal_writer" where
  "cyanfs_journal_writer_init c =
     \<lparr>jw_head = [], jw_cursor = c, jw_next_id = cyanfs_extent_id_invalid, jw_has_flush = False\<rparr>"

subsection \<open>Which entries fit, and the size of the record\<close>

definition is_next_type :: "journal_entry \<Rightarrow> bool" where
  "is_next_type j \<longleftrightarrow> journal_entry_type j = 0"

text \<open>
  The loop over the entries: the bytes used, the number of entries taken, whether one of them demands
  a flush, and whether the list was exhausted. \<open>None\<close> is an entry that a writer must not get.
\<close>

fun writer_select ::
    "u64 \<Rightarrow> u64 \<Rightarrow> u16 \<Rightarrow> bool \<Rightarrow> journal_node list \<Rightarrow> (u64 \<times> u16 \<times> bool \<times> bool) option" where
  "writer_select payload_limit used regular_count flush [] = Some (used, regular_count, flush, True)"
| "writer_select payload_limit used regular_count flush (j # js) =
     (let entry_size = cyanfs_journal_entry_size (journal_entry_type (jn_entry j))
      in if entry_size = 0 \<or> is_next_type (jn_entry j) then None
         else if used > payload_limit \<or> entry_size > payload_limit - used
         then Some (used, regular_count, flush, False)
         else writer_select payload_limit (used + entry_size) (regular_count + 1) (flush \<or> jn_flush j) js)"

definition writer_padding :: "u64 \<Rightarrow> u64" where
  "writer_padding used =
     (CYANFS_JOURNAL_BLOCK_SIZE - (used AND CYANFS_JOURNAL_BLOCK_MASK)) AND CYANFS_JOURNAL_BLOCK_MASK"

record writer_plan =
  wp_regular_count :: u16
  wp_flush :: bool
  wp_final_link :: bool
  wp_need_next :: bool
  wp_size :: u64

text \<open>The end of the record: its padding, and the link it needs when it ends the extent or the journal.\<close>

definition writer_fit :: "cyanfs_extent_id \<Rightarrow> u64 \<Rightarrow> u64 \<Rightarrow> u64 \<times> u16 \<times> bool \<times> bool \<Rightarrow> writer_plan option" where
  "writer_fit next_id record_capacity extent_remaining selected =
     (let (used, regular_count, flush, all_entries_selected) = selected;
          padding = writer_padding used
      in if used > record_capacity \<or> padding > record_capacity - used then None
         else
           (let at_extent_end = (used + padding = extent_remaining);
                final_link = (all_entries_selected \<and> next_id \<noteq> cyanfs_extent_id_invalid);
                need_next = (at_extent_end \<or> final_link)
            in if need_next \<and> CYANFS_JOURNAL_TAIL_SIZE > record_capacity - used then None
               else
                 (let final_used = (if need_next then used + CYANFS_JOURNAL_TAIL_SIZE else used);
                      padding = writer_padding final_used
                  in if padding > record_capacity - final_used then None
                     else Some \<lparr>wp_regular_count = regular_count, wp_flush = flush,
                                wp_final_link = final_link, wp_need_next = need_next,
                                wp_size = final_used + padding\<rparr>)))"

definition writer_layout :: "journal_writer \<Rightarrow> writer_plan option" where
  "writer_layout t =
     (let extent_off = jc_extent_off (jw_cursor t)
      in if extent_off \<ge> CYANFS_EXTENT_SIZE \<or> extent_off AND CYANFS_JOURNAL_BLOCK_MASK \<noteq> 0 then None
         else
           (let extent_remaining = CYANFS_EXTENT_SIZE - extent_off;
                record_capacity =
                  (if extent_remaining > CYANFS_JOURNAL_PAGE_SIZE then CYANFS_JOURNAL_PAGE_SIZE
                   else extent_remaining)
            in if record_capacity < CYANFS_JOURNAL_BLOCK_SIZE \<or> record_capacity < CYANFS_JOURNAL_TAIL_SIZE
               then None
               else
                 (case writer_select (record_capacity - CYANFS_JOURNAL_TAIL_SIZE)
                         CYANFS_JOURNAL_HEADER_SIZE 0 False (jw_head t) of
                    None \<Rightarrow> None
                  | Some (used, regular_count, flush, all_entries_selected) \<Rightarrow>
                      if regular_count = 0 then None
                      else if ucast regular_count > NOT 0 - jc_seq (jw_cursor t) then None
                      else writer_fit (jw_next_id t) record_capacity extent_remaining
                             (used, regular_count, flush, all_entries_selected))))"

subsection \<open>The record\<close>

text \<open>The extent that the record links: the one given, or a free one. \<open>None\<close> means there is none left.\<close>

definition writer_next_extent ::
    "journal_writer \<Rightarrow> writer_plan \<Rightarrow> super \<Rightarrow> cyanfs_extent_id option \<times> super" where
  "writer_next_extent t w s =
     (if \<not> wp_need_next w then (Some cyanfs_extent_id_invalid, s)
      else if wp_final_link w then (Some (jw_next_id t), s)
      else case super_find_nearly_extent s 0 of
             None \<Rightarrow> (None, mark_error s)
           | Some n \<Rightarrow> (Some (ucast (ext_backend n)), extent_super_to_super n Free_Extents Journal_Extents s))"

definition writer_entries :: "journal_writer \<Rightarrow> writer_plan \<Rightarrow> cyanfs_extent_id \<Rightarrow> journal_entry list" where
  "writer_entries t w new_extent =
     map jn_entry (take (unat (wp_regular_count w)) (jw_head t)) @
     (if wp_need_next w then [JNEXT new_extent] else [])"

definition writer_page ::
    "cyanfs_uuid_t \<Rightarrow> journal_writer \<Rightarrow> writer_plan \<Rightarrow> cyanfs_extent_id \<Rightarrow> u8 list" where
  "writer_page uuid t w new_extent =
     (let page = jc_page (jw_cursor t);
          hd = unat CYANFS_JOURNAL_HEADER_SIZE;
          p = concat (map cyanfs_journal_encode_entry (writer_entries t w new_extent));
          page = take hd page @ p @ drop (hd + length p) page;
          h = \<lparr>jh_crc32 = 0, jh_seq = jc_seq (jw_cursor t), jh_size = wp_size w,
               jh_count = wp_regular_count w + (if wp_need_next w then 1 else 0)\<rparr>;
          page = cyanfs_journal_encode_header page h;
          h = h\<lparr>jh_crc32 := cyanfs_crc32 (uuid_word0 uuid) (take (unat (wp_size w) - 4) (drop 4 page))\<rparr>
      in cyanfs_journal_encode_header page h)"

definition writer_advance ::
    "cyanfs_uuid_t \<Rightarrow> journal_writer \<Rightarrow> writer_plan \<Rightarrow> cyanfs_extent_id \<Rightarrow> journal_writer" where
  "writer_advance uuid t w new_extent =
     (let c = (jw_cursor t)\<lparr>jc_page := writer_page uuid t w new_extent,
                            jc_seq := jc_seq (jw_cursor t) + ucast (wp_regular_count w)\<rparr>;
          c = (if new_extent \<noteq> cyanfs_extent_id_invalid
               then c\<lparr>jc_extent_id := new_extent, jc_extent_off := 0\<rparr>
               else c\<lparr>jc_extent_off := jc_extent_off c + wp_size w\<rparr>)
      in t\<lparr>jw_head := drop (unat (wp_regular_count w)) (jw_head t), jw_cursor := c\<rparr>)"

subsection \<open>One completion of the writer task\<close>

datatype writer_result =
    Writer_Error
  | Writer_Finish
  | Writer_Write u64 u64 bool journal_writer

text \<open>
  \<open>Writer_Write\<close> has the backend offset and the length of the write, whose bytes are the start of the
  page, whether an entry of the record demands a flush before, and the writer afterwards.
\<close>

definition journal_writer_encode ::
    "cyanfs_status \<Rightarrow> journal_writer \<Rightarrow> super \<Rightarrow> writer_result \<times> super" where
  "journal_writer_encode err t s =
     (if err \<noteq> Ok \<or> has_flag s FLAG_ERROR then (Writer_Error, s)
      else if jw_head t = [] then (Writer_Finish, s)
      else case writer_layout t of
             None \<Rightarrow> (Writer_Error, s)
           | Some w \<Rightarrow>
               (case writer_next_extent t w s of
                  (None, s) \<Rightarrow> (Writer_Error, s)
                | (Some new_extent, s) \<Rightarrow>
                    (Writer_Write
                       (cyanfs_map_extent_offset (jc_extent_id (jw_cursor t)) (jc_extent_off (jw_cursor t)))
                       (wp_size w) (wp_flush w) (writer_advance (sm_uuid (meta s)) t w new_extent), s)))"

subsection \<open>The writer of a flusher\<close>

text \<open>
  The flusher's writer works on the cursor of the super block. Its write goes to the front of the
  queue, behind the flush that an entry demands. The first component of the result says that the
  writer has finished, which is followed by \<open>cyanfs_super_flusher_write_finish\<close>.
\<close>

definition flusher_writer :: "nat \<Rightarrow> super \<Rightarrow> journal_writer" where
  "flusher_writer a s =
     (cyanfs_journal_writer_init (journal_cursor s))
       \<lparr>jw_head := fl_writer_head (flusher_at s a), jw_has_flush := True\<rparr>"

definition flusher_writer_put :: "nat \<Rightarrow> journal_writer \<Rightarrow> super \<Rightarrow> super" where
  "flusher_writer_put a t s =
     s\<lparr>flusher_at := (flusher_at s)(a := (flusher_at s a)\<lparr>fl_writer_head := jw_head t\<rparr>),
       journal_cursor := jw_cursor t\<rparr>"

definition flusher_writer_encode :: "nat \<Rightarrow> cyanfs_status \<Rightarrow> super \<Rightarrow> bool \<times> super" where
  "flusher_writer_encode a err s =
     (case journal_writer_encode err (flusher_writer a s) s of
        (Writer_Error, s) \<Rightarrow> (False, flusher_write_error a s)
      | (Writer_Finish, s) \<Rightarrow> (True, s)
      | (Writer_Write b_off len flush t, s) \<Rightarrow>
          (let s = flusher_writer_put a t s;
               s = task_init (Flusher_Writer a) (TASK_WRITE b_off len) Journal_Writer_Encode s;
               s = snd (task_add_head (Flusher_Writer a) s)
           in (False, if flush then flusher_flush_before_write a s else s)))"

end
