(* ===== verification/Journal_Loader.thy ===== *)
theory Journal_Loader
  imports Super_State
begin

section \<open>The journal loader\<close>

text \<open>
  The loader of \<open>src/core/journal.c\<close> reads the super block, follows the chain of journal extents from
  the one the super header names, reads each extent page by page, checks the records and hands their
  entries to a parser; at the end it hands the extents it visited to the parser as NEXT entries. The
  parser and its state are arguments: \<open>cyanfs_super_open\<close> and the compaction give different ones.
  A completion function of the loader task returns what the loader does next: another read, the
  operation \<open>finish\<close> or the operation \<open>error\<close>, or the panic of \<open>CYANFS_BUG_ON\<close>. The pointer to the cursor is
  the value of the cursor, which no one else uses while the journal is loaded. The argument \<open>mem\<close> gives
  the outcome of the allocations of the loader, which counts them.
\<close>

definition CYANFS_EXTENT_SET_LIIMT :: nat where "CYANFS_EXTENT_SET_LIIMT = 200"

record journal_loader =
  ld_cursor :: journal_cursor
  ld_header :: super_header
  ld_end_id :: cyanfs_extent_id
  ld_journals :: "cyanfs_extent_id list list"
  ld_visited :: "(cyanfs_extent_id, unit) index"
  ld_allocs :: nat

type_synonym 'a loader_parser = "journal_entry \<Rightarrow> 'a \<Rightarrow> cyanfs_status \<times> 'a"

datatype 'a loader_result =
    Loader_Read u64 u64 journal_loader 'a
  | Loader_Finish journal_loader 'a
  | Loader_Error journal_loader 'a
  | Loader_Panic

text \<open>A loader starts with the cursor and a header of any content; the first extent set is static.\<close>

definition cyanfs_journal_loader_init :: "journal_cursor \<Rightarrow> super_header \<Rightarrow> journal_loader" where
  "cyanfs_journal_loader_init c h =
     \<lparr>ld_cursor = c, ld_header = h, ld_end_id = cyanfs_extent_id_invalid, ld_journals = [[]],
      ld_visited = idx_empty, ld_allocs = 0\<rparr>"

subsection \<open>The end of loading\<close>

fun loader_link :: "'a loader_parser \<Rightarrow> cyanfs_extent_id list \<Rightarrow> 'a \<Rightarrow> bool \<times> 'a" where
  "loader_link parser [] a = (True, a)"
| "loader_link parser (i # is) a =
     (case parser (JNEXT i) a of
        (Ok, a) \<Rightarrow> loader_link parser is a
      | (_, a) \<Rightarrow> (False, a))"

definition journal_loader_end :: "'a loader_parser \<Rightarrow> bool \<Rightarrow> journal_loader \<Rightarrow> 'a \<Rightarrow> 'a loader_result" where
  "journal_loader_end parser err t a =
     (let (linked, a) = (if err then (False, a) else loader_link parser (concat (ld_journals t)) a);
          t = t\<lparr>ld_visited := idx_empty, ld_journals := []\<rparr>
      in if linked then Loader_Finish t a else Loader_Error t a)"

subsection \<open>Following the chain of extents\<close>

definition journal_loader_read_page :: "journal_loader \<Rightarrow> 'a \<Rightarrow> 'a loader_result" where
  "journal_loader_read_page t a =
     (let c = ld_cursor t;
          len = CYANFS_EXTENT_SIZE - jc_extent_off c;
          len = (if len > CYANFS_JOURNAL_PAGE_SIZE then CYANFS_JOURNAL_PAGE_SIZE else len)
      in Loader_Read (cyanfs_map_extent_offset (jc_extent_id c) (jc_extent_off c)) len t a)"

text \<open>The second component of the result says that a new extent set was allocated.\<close>

definition journal_loader_prepare_extent ::
    "malloc \<Rightarrow> u32 \<Rightarrow> cyanfs_extent_id \<Rightarrow> journal_loader \<Rightarrow> cyanfs_status \<times> bool \<times> journal_loader" where
  "journal_loader_prepare_extent mem total_extents b_id t =
     (if b_id = cyanfs_extent_id_invalid \<or> b_id \<ge> total_extents then (INVAL, False, t)
      else if idx_find (ld_visited t) b_id \<noteq> None then (INVAL, False, t)
      else if \<not> mem (ld_allocs t) then (NOMEM, False, t\<lparr>ld_allocs := ld_allocs t + 1\<rparr>)
      else
        (let t = t\<lparr>ld_allocs := ld_allocs t + 1\<rparr>
         in if length (last (ld_journals t)) \<ge> CYANFS_EXTENT_SET_LIIMT then
              (if \<not> mem (ld_allocs t) then (NOMEM, False, t\<lparr>ld_allocs := ld_allocs t + 1\<rparr>)
               else (Ok, True, t\<lparr>ld_allocs := ld_allocs t + 1\<rparr>))
            else (Ok, False, t)))"

definition journal_loader_commit_extent ::
    "cyanfs_extent_id \<Rightarrow> bool \<Rightarrow> journal_loader \<Rightarrow> 'a \<Rightarrow> 'a loader_result" where
  "journal_loader_commit_extent b_id new_set t a =
     (case idx_insert b_id () (ld_visited t) of
        (Some _, _) \<Rightarrow> Loader_Panic
      | (None, visited) \<Rightarrow>
          (let sets = (if new_set then ld_journals t @ [[]] else ld_journals t);
               t = t\<lparr>ld_visited := visited, ld_journals := butlast sets @ [last sets @ [b_id]],
                     ld_cursor := (ld_cursor t)\<lparr>jc_extent_off := 0, jc_extent_id := b_id\<rparr>\<rparr>
           in journal_loader_read_page t a))"

subsection \<open>One record\<close>

text \<open>
  The entries of a record without the bytes before them: the number of regular entries, the extent
  that a final NEXT entry names, and the bytes that are left.
\<close>

fun validate_entries ::
    "nat \<Rightarrow> u16 \<Rightarrow> u8 list \<Rightarrow> (u16 \<times> cyanfs_extent_id option \<times> u8 list) option" where
  "validate_entries 0 regular_count p = Some (regular_count, None, p)"
| "validate_entries (Suc left) regular_count p =
     (case cyanfs_journal_decode_entry_checked p of
        None \<Rightarrow> None
      | Some (JNEXT backend, p) \<Rightarrow> if left \<noteq> 0 then None else Some (regular_count, Some backend, p)
      | Some (_, p) \<Rightarrow> validate_entries left (regular_count + 1) p)"

definition cyanfs_journal_validate_record ::
    "u8 list \<Rightarrow> u16 \<Rightarrow> (u16 \<times> cyanfs_extent_id option) option" where
  "cyanfs_journal_validate_record p entry_count =
     (if entry_count = 0 then None
      else case validate_entries (unat entry_count) 0 p of
             None \<Rightarrow> None
           | Some (regular_count, next, rest) \<Rightarrow>
               if length rest \<ge> unat CYANFS_JOURNAL_BLOCK_SIZE then None else Some (regular_count, next))"

fun loader_entries :: "'a loader_parser \<Rightarrow> nat \<Rightarrow> u8 list \<Rightarrow> 'a \<Rightarrow> bool \<times> 'a" where
  "loader_entries parser 0 p a = (True, a)"
| "loader_entries parser (Suc n) p a =
     (case cyanfs_journal_decode_entry_checked p of
        None \<Rightarrow> (False, a)
      | Some (JNEXT _, p) \<Rightarrow> loader_entries parser n p a
      | Some (j, p) \<Rightarrow>
          (case parser j a of
             (Ok, a) \<Rightarrow> loader_entries parser n p a
           | (_, a) \<Rightarrow> (False, a)))"

definition record_sum :: "cyanfs_uuid_t \<Rightarrow> u8 list \<Rightarrow> u64 \<Rightarrow> u32" where
  "record_sum uuid p sz = cyanfs_crc32 (uuid_word0 uuid) (take (unat sz - 4) (drop 4 p))"

text \<open>What the loader does when the records end: an error when it had to reach the end extent.\<close>

definition loader_stop :: "'a loader_parser \<Rightarrow> journal_loader \<Rightarrow> 'a \<Rightarrow> 'a loader_result" where
  "loader_stop parser t a = journal_loader_end parser (ld_end_id t \<noteq> cyanfs_extent_id_invalid) t a"

subsection \<open>The records of a page\<close>

text \<open>One round of the loop over the records of a page: what the loader does next, or the next round.\<close>

definition loader_record ::
    "'a loader_parser \<Rightarrow> malloc \<Rightarrow> u32 \<Rightarrow> u8 list \<Rightarrow> nat \<Rightarrow> journal_loader \<Rightarrow> 'a \<Rightarrow>
       'a loader_result + nat \<times> journal_loader \<times> 'a" where
  "loader_record parser mem total_extents page offset_in_page t a =
     (let p = drop offset_in_page page; c = ld_cursor t
      in case (if p = [] then None else cyanfs_journal_decode_header_checked p) of
           None \<Rightarrow> Inl (loader_stop parser t a)
         | Some h \<Rightarrow>
             if jh_size h < CYANFS_JOURNAL_HEADER_SIZE \<or> jh_size h > CYANFS_JOURNAL_PAGE_SIZE \<or>
                jc_extent_off c + jh_size h > CYANFS_EXTENT_SIZE
             then Inl (loader_stop parser t a)
             else if unat (jh_size h) > length p then
               Inl (if offset_in_page = 0 then loader_stop parser t a else journal_loader_read_page t a)
             else if record_sum (sh_uuid (ld_header t)) p (jh_size h) \<noteq> jh_crc32 h then
               Inl (loader_stop parser t a)
             else if jh_seq h \<noteq> jc_seq c then Inl (loader_stop parser t a)
             else
               (let body = drop (unat CYANFS_JOURNAL_HEADER_SIZE) (take (unat (jh_size h)) p)
                in case cyanfs_journal_validate_record body (jh_count h) of
                     None \<Rightarrow> Inl (journal_loader_end parser True t a)
                   | Some (regular_count, next) \<Rightarrow>
                       if next = None \<and> jh_size h = CYANFS_EXTENT_SIZE - jc_extent_off c
                       then Inl (journal_loader_end parser True t a)
                       else if ucast regular_count > NOT 0 - jc_seq c
                       then Inl (journal_loader_end parser True t a)
                       else
                         (let follow_end =
                                (case next of
                                   None \<Rightarrow> False
                                 | Some b \<Rightarrow> ld_end_id t \<noteq> cyanfs_extent_id_invalid \<and> b = ld_end_id t);
                              (err, new_set, t) =
                                (case next of
                                   None \<Rightarrow> (Ok, False, t)
                                 | Some b \<Rightarrow>
                                     if follow_end then (Ok, False, t)
                                     else journal_loader_prepare_extent mem total_extents b t)
                          in if err \<noteq> Ok then Inl (journal_loader_end parser True t a)
                             else
                               (let (parsed, a) = loader_entries parser (unat (jh_count h)) body a
                                in if \<not> parsed then Inl (journal_loader_end parser True t a)
                                   else
                                     (let t = t\<lparr>ld_cursor := (ld_cursor t)
                                                \<lparr>jc_seq := jc_seq (ld_cursor t) + ucast regular_count\<rparr>\<rparr>
                                      in case next of
                                           Some b \<Rightarrow>
                                             Inl (if follow_end then journal_loader_end parser False t a
                                                  else journal_loader_commit_extent b new_set t a)
                                         | None \<Rightarrow>
                                             (let t = t\<lparr>ld_cursor := (ld_cursor t)
                                                        \<lparr>jc_extent_off := jc_extent_off (ld_cursor t) + jh_size h\<rparr>\<rparr>;
                                                  offset_in_page = offset_in_page + unat (jh_size h)
                                              in if offset_in_page = unat CYANFS_JOURNAL_PAGE_SIZE
                                                 then Inl (journal_loader_read_page t a)
                                                 else Inr (offset_in_page, t, a)))))))"

lemma header_size_pos: "\<not> sz < CYANFS_JOURNAL_HEADER_SIZE \<Longrightarrow> 0 < unat sz"
  by (auto simp: CYANFS_JOURNAL_HEADER_SIZE_def word_less_nat_alt)

text \<open>A record that the loader goes on after, and what the round did then.\<close>

lemma loader_record_next:
  assumes "loader_record parser mem n page off t a = Inr (off', t', a')"
  obtains h where "cyanfs_journal_decode_header_checked (drop off page) = Some h"
    "0 < unat (jh_size h)" "off' = off + unat (jh_size h)" "off' \<le> length page"
    "jc_extent_off (ld_cursor t) + jh_size h \<le> CYANFS_EXTENT_SIZE"
    "ld_cursor t' = (ld_cursor t)\<lparr>jc_seq := jc_seq (ld_cursor t'),
       jc_extent_off := jc_extent_off (ld_cursor t) + jh_size h\<rparr>"
    "ld_header t' = ld_header t" "ld_end_id t' = ld_end_id t" "ld_journals t' = ld_journals t"
    "ld_visited t' = ld_visited t" "ld_allocs t' = ld_allocs t"
  using assms
  by (auto simp: loader_record_def Let_def not_less dest!: header_size_pos [unfolded not_less]
      split: option.splits if_splits prod.splits)

function loader_records ::
    "'a loader_parser \<Rightarrow> malloc \<Rightarrow> u32 \<Rightarrow> u8 list \<Rightarrow> nat \<Rightarrow> journal_loader \<Rightarrow> 'a \<Rightarrow> 'a loader_result" where
  "loader_records parser mem total_extents page offset_in_page t a =
     (case loader_record parser mem total_extents page offset_in_page t a of
        Inl r \<Rightarrow> r
      | Inr (offset_in_page, t, a) \<Rightarrow> loader_records parser mem total_extents page offset_in_page t a)"
  by pat_completeness auto

termination
  by (relation "measure (\<lambda>(parser, mem, n, page, off, t, a). length page - off)")
    (auto elim!: loader_record_next)

declare loader_records.simps [simp del]

definition journal_loader_parser_page ::
    "'a loader_parser \<Rightarrow> malloc \<Rightarrow> u32 \<Rightarrow> cyanfs_status \<Rightarrow> u8 list \<Rightarrow> journal_loader \<Rightarrow> 'a \<Rightarrow> 'a loader_result" where
  "journal_loader_parser_page parser mem total_extents err bytes t a =
     (if err \<noteq> Ok then journal_loader_end parser True t a
      else
        (let t = t\<lparr>ld_cursor := (ld_cursor t)
                   \<lparr>jc_page := bytes @ drop (length bytes) (jc_page (ld_cursor t))\<rparr>\<rparr>
         in loader_records parser mem total_extents bytes 0 t a))"

subsection \<open>The super header\<close>

definition journal_loader_parser_header ::
    "'a loader_parser \<Rightarrow> malloc \<Rightarrow> u32 \<Rightarrow> cyanfs_status \<Rightarrow> u8 list \<Rightarrow> journal_loader \<Rightarrow> 'a \<Rightarrow> 'a loader_result" where
  "journal_loader_parser_header parser mem total_extents err bytes t a =
     (if err \<noteq> Ok then journal_loader_end parser True t a
      else
        (let t = t\<lparr>ld_cursor := (ld_cursor t)
                   \<lparr>jc_page := bytes @ drop (length bytes) (jc_page (ld_cursor t))\<rparr>\<rparr>
         in case cyanfs_super_parse bytes of
              None \<Rightarrow> journal_loader_end parser True t a
            | Some h \<Rightarrow>
                (let t = t\<lparr>ld_header := h,
                           ld_cursor := (ld_cursor t)\<lparr>jc_seq := sh_journal_seq h\<rparr>\<rparr>
                 in if ld_end_id t \<noteq> cyanfs_extent_id_invalid \<and> sh_journal_id h = ld_end_id t
                    then journal_loader_end parser False t a
                    else
                      (let (err, new_set, t) =
                             journal_loader_prepare_extent mem total_extents (sh_journal_id h) t
                       in if err \<noteq> Ok then journal_loader_end parser True t a
                          else journal_loader_commit_extent (sh_journal_id h) new_set t a))))"

subsection \<open>Loading a journal\<close>

text \<open>
  The read tasks of the loader, executed one after the other. The device answers the \<open>k\<close>-th read with
  a status and bytes, which may be anything.
\<close>

type_synonym device_io = "nat \<Rightarrow> u64 \<Rightarrow> u64 \<Rightarrow> cyanfs_status \<times> u8 list"

partial_function (option) loader_run ::
    "'a loader_parser \<Rightarrow> malloc \<Rightarrow> u32 \<Rightarrow> device_io \<Rightarrow> nat \<Rightarrow> 'a loader_result \<Rightarrow> 'a loader_result option" where
  "loader_run parser mem total_extents io k r =
     (case r of
        Loader_Read b_off len t a \<Rightarrow>
          (let (err, bytes) = io k b_off len
           in loader_run parser mem total_extents io (Suc k)
                (journal_loader_parser_page parser mem total_extents err bytes t a))
      | _ \<Rightarrow> Some r)"

definition journal_load ::
    "'a loader_parser \<Rightarrow> malloc \<Rightarrow> u32 \<Rightarrow> device_io \<Rightarrow> journal_loader \<Rightarrow> 'a \<Rightarrow> 'a loader_result option" where
  "journal_load parser mem total_extents io t a =
     (let (err, bytes) = io 0 0 CYANFS_SUPER_BLOCK_SIZE
      in loader_run parser mem total_extents io 1
           (journal_loader_parser_header parser mem total_extents err bytes t a))"

end
