(* ===== verification/Super_Api.thy ===== *)
theory Super_Api
  imports Flusher
begin

section \<open>The interface of a super block\<close>

text \<open>
  The exported functions of \<open>src/core/super.c\<close>. A function that takes the files lock is the sequence
  of its critical sections; the section of an operation that changes files is a definition of its
  own, named \<open>..._locked\<close>. The argument of type \<open>malloc\<close> gives the outcome of the allocations of the
  call in order. Results through pointers are further components of the result.
\<close>

definition super_set_new_task_callback :: "nat option \<Rightarrow> super \<Rightarrow> super" where
  "super_set_new_task_callback fn s = s\<lparr>new_task := fn\<rparr>"

definition super_is_ready :: "super \<Rightarrow> bool" where
  "super_is_ready s = has_flag s FLAG_READY"

definition super_status :: "super \<Rightarrow> cyanfs_status" where
  "super_status s = ensure_status s"

definition cyanfs_file_status :: "super \<Rightarrow> cyanfs_status" where
  "cyanfs_file_status s = super_status s"

definition super_get_task :: "super \<Rightarrow> task_ref option \<times> super" where
  "super_get_task s =
     (case task_head s of
        [] \<Rightarrow> (None, s)
      | t # ts \<Rightarrow> (Some t, s\<lparr>task_head := ts, active_tasks := active_tasks s + 1\<rparr>))"

subsection \<open>Queries\<close>

definition cyanfs_statfs :: "super \<Rightarrow> cyanfs_status \<times> super_meta option" where
  "cyanfs_statfs s =
     (let err = ensure_status s in if err \<noteq> Ok then (err, None) else (Ok, Some (meta s)))"

definition cyanfs_stat :: "super \<Rightarrow> cyanfs_file_id_t \<Rightarrow> cyanfs_status \<times> file_meta option" where
  "cyanfs_stat s i =
     (let err = ensure_status s
      in if err \<noteq> Ok then (err, None)
         else case lookup_file_by_id s i of
                None \<Rightarrow> (NOENT, None)
              | Some f \<Rightarrow> (Ok, Some (f_meta f)))"

definition cyanfs_list :: "super \<Rightarrow> cyanfs_file_id_t \<Rightarrow> cyanfs_status \<times> file_meta option" where
  "cyanfs_list s iter_id =
     (let err = ensure_status s
      in if err \<noteq> Ok then (err, None)
         else if iter_id = NOT 0 then (NOENT, None)
         else case idx_nfind (files_by_id s) (iter_id + 1) of
                None \<Rightarrow> (NOENT, None)
              | Some (_, f) \<Rightarrow> (Ok, Some (f_meta f)))"

definition cyanfs_lookup :: "super \<Rightarrow> file_name \<Rightarrow> cyanfs_status \<times> file_meta option" where
  "cyanfs_lookup s n =
     (case cyanfs_file_name_normalize n of
        None \<Rightarrow> (INVAL, None)
      | Some name \<Rightarrow>
          (let err = ensure_status s
           in if err \<noteq> Ok then (err, None)
              else case lookup_file_by_name s name of
                     None \<Rightarrow> (NOENT, None)
                   | Some i \<Rightarrow> (Ok, map_option f_meta (get_file s i))))"

definition cyanfs_size :: "super \<Rightarrow> cyanfs_file_id_t \<Rightarrow> u64 option" where
  "cyanfs_size s i = map_option (\<lambda>f. fm_size (f_meta f)) (get_file s i)"

subsection \<open>Opening and closing files\<close>

definition cyanfs_open ::
    "cyanfs_file_id_t \<Rightarrow> bool \<Rightarrow> super \<Rightarrow> cyanfs_status \<times> cyanfs_file_id_t option \<times> super" where
  "cyanfs_open i write s =
     (let err = ensure_status s
      in if err \<noteq> Ok then (err, None, s)
         else case lookup_file_by_id s i of
                None \<Rightarrow> (NOENT, None, s)
              | Some f \<Rightarrow>
                  if write then
                    (if f_open_type f \<noteq> FILE_CLOSED \<or> fm_children (f_meta f) \<noteq> 0 then (BUSY, None, s)
                     else (Ok, Some i, put_file i (f\<lparr>f_open_type := FILE_READWRITE\<rparr>) s))
                  else
                    (if f_open_type f = FILE_READWRITE then (BUSY, None, s)
                     else (Ok, Some i, put_file i (f\<lparr>f_open_type := FILE_READONLY,
                                                    f_reader := f_reader f + 1\<rparr>) s)))"

definition cyanfs_close :: "cyanfs_file_id_t \<Rightarrow> super \<Rightarrow> super" where
  "cyanfs_close i s =
     (case get_file s i of
        None \<Rightarrow> panic s
      | Some f \<Rightarrow>
          if f_open_type f = FILE_CLOSED then panic s
          else if f_open_type f = FILE_READWRITE then put_file i (f\<lparr>f_open_type := FILE_CLOSED\<rparr>) s
          else
            (let f = f\<lparr>f_reader := f_reader f - 1\<rparr>
             in put_file i (if f_reader f = 0 then f\<lparr>f_open_type := FILE_CLOSED\<rparr> else f) s))"

subsection \<open>Creating, forking, renaming, truncating and deleting files\<close>

definition create_locked :: "file_name \<Rightarrow> super \<Rightarrow> cyanfs_status \<times> cyanfs_file_id_t option \<times> super" where
  "create_locked name s =
     (let err = ensure_status s
      in if err \<noteq> Ok then (err, None, s)
         else if sm_files (meta s) \<ge> CYANFS_SUPER_MAX_FILES \<or> max_file_id s = NOT 0 then (NOSPACE, None, s)
         else if lookup_file_by_name s name \<noteq> None then (EXIST, None, s)
         else
           (let i = max_file_id s + 1; (err, s) = init_file name i None s
            in if err \<noteq> Ok then (err, None, s)
               else (Ok, Some i,
                     journal_append \<lparr>jn_entry = JCREATE name i, jn_flush = False\<rparr> s)))"

definition cyanfs_create ::
    "malloc \<Rightarrow> file_name \<Rightarrow> super \<Rightarrow> cyanfs_status \<times> cyanfs_file_id_t option \<times> super" where
  "cyanfs_create mem n s =
     (case cyanfs_file_name_normalize n of
        None \<Rightarrow> (INVAL, None, s)
      | Some name \<Rightarrow>
          if \<not> mem 0 \<or> \<not> mem 1 then (NOMEM, None, s)
          else
            (let (err, i, s) = create_locked name s
             in (err, i, super_flush_new_journal (mem 2) s)))"

definition fork_locked ::
    "cyanfs_file_id_t \<Rightarrow> file_name \<Rightarrow> super \<Rightarrow> cyanfs_status \<times> cyanfs_file_id_t option \<times> super" where
  "fork_locked from name s =
     (let err = ensure_status s
      in if err \<noteq> Ok then (err, None, s)
         else if sm_files (meta s) \<ge> CYANFS_SUPER_MAX_FILES \<or> max_file_id s = NOT 0 then (NOSPACE, None, s)
         else case lookup_file_by_id s from of
                None \<Rightarrow> (NOENT, None, s)
              | Some p \<Rightarrow>
                  if f_open_type p = FILE_READWRITE then (BUSY, None, s)
                  else if lookup_file_by_name s name \<noteq> None then (EXIST, None, s)
                  else
                    (let i = max_file_id s + 1; (err, s) = init_file name i (Some (from, p)) s
                     in if err \<noteq> Ok then (err, None, s)
                        else (Ok, Some i,
                              journal_append
                                \<lparr>jn_entry = JFORK name i (fm_id (f_meta p)), jn_flush = False\<rparr> s)))"

definition cyanfs_fork ::
    "malloc \<Rightarrow> cyanfs_file_id_t \<Rightarrow> file_name \<Rightarrow> super
     \<Rightarrow> cyanfs_status \<times> cyanfs_file_id_t option \<times> super" where
  "cyanfs_fork mem from n s =
     (case cyanfs_file_name_normalize n of
        None \<Rightarrow> (INVAL, None, s)
      | Some name \<Rightarrow>
          if \<not> mem 0 \<or> \<not> mem 1 then (NOMEM, None, s)
          else
            (let (err, i, s) = fork_locked from name s
             in (err, i, super_flush_new_journal (mem 2) s)))"

definition rename_locked :: "cyanfs_file_id_t \<Rightarrow> file_name \<Rightarrow> super \<Rightarrow> cyanfs_status \<times> super" where
  "rename_locked i name s =
     (let err = ensure_status s
      in if err \<noteq> Ok then (err, s)
         else if lookup_file_by_name s name \<noteq> None then (EXIST, s)
         else case lookup_file_by_id s i of
                None \<Rightarrow> (NOENT, s)
              | Some f \<Rightarrow>
                  (let (err, s) = rename_file i name s
                   in (err, if err = Ok
                            then journal_append
                                   \<lparr>jn_entry = JRENAME name (fm_id (f_meta f)), jn_flush = False\<rparr> s
                            else s)))"

definition cyanfs_rename ::
    "malloc \<Rightarrow> cyanfs_file_id_t \<Rightarrow> file_name \<Rightarrow> super \<Rightarrow> cyanfs_status \<times> super" where
  "cyanfs_rename mem i n s =
     (case cyanfs_file_name_normalize n of
        None \<Rightarrow> (INVAL, s)
      | Some name \<Rightarrow>
          if \<not> mem 0 then (NOMEM, s)
          else (let (err, s) = rename_locked i name s in (err, super_flush_new_journal (mem 1) s)))"

definition truncate_locked :: "cyanfs_file_id_t \<Rightarrow> u64 \<Rightarrow> super \<Rightarrow> cyanfs_status \<times> super" where
  "truncate_locked i sz s =
     (let err = ensure_status s
      in if err \<noteq> Ok then (err, s)
         else case lookup_file_by_id s i of
                None \<Rightarrow> (NOENT, s)
              | Some f \<Rightarrow>
                  if f_open_type f \<noteq> FILE_CLOSED \<or> fm_children (f_meta f) \<noteq> 0 then (BUSY, s)
                  else
                    (let (err, s) = file_truncate i sz s
                     in (err, if err = Ok
                              then journal_append
                                     \<lparr>jn_entry = JTRUNCATE (fm_id (f_meta f)) sz, jn_flush = True\<rparr> s
                              else s)))"

definition cyanfs_truncate ::
    "malloc \<Rightarrow> cyanfs_file_id_t \<Rightarrow> u64 \<Rightarrow> super \<Rightarrow> cyanfs_status \<times> super" where
  "cyanfs_truncate mem i sz s =
     (if cyanfs_file_size_validate sz \<noteq> Ok then (cyanfs_file_size_validate sz, s)
      else if \<not> mem 0 then (NOMEM, s)
      else (let (err, s) = truncate_locked i sz s in (err, super_flush_new_journal (mem 1) s)))"

definition delete_locked :: "cyanfs_file_id_t \<Rightarrow> super \<Rightarrow> cyanfs_status \<times> super" where
  "delete_locked i s =
     (let err = ensure_status s
      in if err \<noteq> Ok then (err, s)
         else case lookup_file_by_id s i of
                None \<Rightarrow> (NOENT, s)
              | Some f \<Rightarrow>
                  if f_open_type f \<noteq> FILE_CLOSED \<or> fm_children (f_meta f) \<noteq> 0 then (BUSY, s)
                  else
                    (let (err, s) = delete_file i s
                     in (err, if err = Ok
                              then journal_append
                                     \<lparr>jn_entry = JDELETE (fm_id (f_meta f)), jn_flush = False\<rparr> s
                              else s)))"

definition cyanfs_delete :: "malloc \<Rightarrow> cyanfs_file_id_t \<Rightarrow> super \<Rightarrow> cyanfs_status \<times> super" where
  "cyanfs_delete mem i s =
     (if \<not> mem 0 then (NOMEM, s)
      else (let (err, s) = delete_locked i s in (err, super_flush_new_journal (mem 1) s)))"

subsection \<open>Opening a super block\<close>

text \<open>
  The memory that \<open>cyanfs_malloc\<close> returns is not initialised: \<open>raw\<close> is its contents, and the fields
  that the function does not assign keep it. \<open>raw_file\<close> is the content of the \<open>file\<close> field of the new
  extent nodes. The two lock initialisations may fail as well; \<open>locks\<close> is their outcome. The
  allocations are those of the super block, of the extent nodes in order, of the journal page and of
  the loader.
\<close>

definition open_extent :: "(nat \<Rightarrow> bitfield30) \<Rightarrow> nat \<Rightarrow> extent" where
  "open_extent raw_file i =
     \<lparr>ext_backend = of_nat i, ext_map = False, ext_pending = False, ext_file = raw_file i,
      ext_error = False\<rparr>"

definition open_reserved :: "u32 \<Rightarrow> u32" where
  "open_reserved total_ext =
     (let journal_size = cyanfs_journal_entry_size 3 * ucast CYANFS_SUPER_MAX_FILES
                         + cyanfs_journal_entry_size 5 * ucast total_ext
      in ucast ((journal_size div CYANFS_EXTENT_SIZE + 1) * 8))"

definition open_init :: "u64 \<Rightarrow> bool \<Rightarrow> bool \<Rightarrow> super \<Rightarrow> (nat \<Rightarrow> bitfield30) \<Rightarrow> super" where
  "open_init sz discard compact raw raw_file =
     (let s = raw\<lparr>files_by_id := idx_empty, files_by_name := idx_empty,
                  trees := (\<lambda>_. idx_empty),
                  journal_head := [], journal_count := 0, journal_log := [], task_head := [], active_tasks := 0,
                  max_file_id := 0, new_task := None, flags := 0,
                  writers := (\<lambda>_. 0), writer_current_id := False, panicked := False\<rparr>;
          s = (if discard then set_flag FLAG_DISCARD_ENABLED s else s);
          s = (if compact then set_flag FLAG_COMPACT_ENABLED s else s);
          total_ext = cyanfs_extent_from (sz - CYANFS_SUPER_BLOCK_SIZE);
          s = s\<lparr>meta := (meta s)\<lparr>sm_total_extents := total_ext\<rparr>\<rparr>;
          s = fold (\<lambda>i. tree_insert Free_Extents (open_extent raw_file i)) [0..<unat total_ext] s;
          s = s\<lparr>journal_cursor := (journal_cursor s)
                  \<lparr>jc_page := malloc_bytes (unat CYANFS_JOURNAL_PAGE_SIZE) (jc_page (journal_cursor s))\<rparr>\<rparr>
      in s\<lparr>meta := (meta s)\<lparr>sm_free_extents := total_ext, sm_journal_extents := 0, sm_data_extents := 0,
                            sm_size := sz, sm_files := 0, sm_reserved_extents := open_reserved total_ext\<rparr>\<rparr>)"

definition super_open ::
    "malloc \<Rightarrow> bool \<times> bool \<Rightarrow> super \<Rightarrow> (nat \<Rightarrow> bitfield30) \<Rightarrow> u64 \<Rightarrow> bool \<Rightarrow> bool \<Rightarrow> super option" where
  "super_open mem locks raw raw_file sz discard compact =
     (if sz < CYANFS_SUPER_BLOCK_SIZE + CYANFS_EXTENT_SIZE \<or>
         sz - CYANFS_SUPER_BLOCK_SIZE > CYANFS_FILE_MAX_SIZE then None
      else if \<not> mem 0 \<or> \<not> fst locks \<or> \<not> snd locks then None
      else
        (let s = open_init sz discard compact raw raw_file;
             total_ext = unat (sm_total_extents (meta s))
         in if \<not> list_all (\<lambda>i. mem (1 + i)) [0..<total_ext] \<or> \<not> mem (1 + total_ext) \<or> \<not> mem (2 + total_ext)
            then None
            else
              (let a = next_address s;
                   s = s\<lparr>next_address := a + 1\<rparr>;
                   s = task_init (Loader_Task a) (TASK_READ 0 CYANFS_SUPER_BLOCK_SIZE)
                         Journal_Loader_Parser_Header s;
                   (first, s) = task_add_tail (Loader_Task a) s
               in Some (if first then super_new_task s else s))))"

definition super_open_finish :: "cyanfs_extent_id \<Rightarrow> cyanfs_uuid_t \<Rightarrow> super \<Rightarrow> super" where
  "super_open_finish extent_id uuid s =
     (let s = set_flag FLAG_READY s;
          s = s\<lparr>journal_cursor := (journal_cursor s)\<lparr>jc_extent_id := extent_id,
                                                     jc_extent_id_ondisk := extent_id\<rparr>\<rparr>
      in s\<lparr>meta := (meta s)\<lparr>sm_uuid := uuid\<rparr>\<rparr>)"

definition super_open_error :: "super \<Rightarrow> super" where
  "super_open_error s = mark_error s"

text \<open>
  \<open>cyanfs_super_close\<close> gives back all memory of the super block. The result has the entries of the
  journal and the nodes of extents that it frees, in order, and the super block as it is just before it
  is freed itself.
\<close>

definition close_trees :: "tree_id list" where
  "close_trees = [Discard_Extents, Wait_Discard_Extents, Unused_Extents, Flush_Extents, Journal_Extents, Free_Extents]"

definition close_file :: "cyanfs_file_id_t \<Rightarrow> super \<Rightarrow> super" where
  "close_file i s =
     (case get_file s i of
        None \<Rightarrow> panic s
      | Some f \<Rightarrow> snd (delete_file i (put_file i (f\<lparr>f_parent := None\<rparr>) s)))"

definition super_close :: "super \<Rightarrow> journal_node list \<times> extent list \<times> super" where
  "super_close s =
     (let s = (if task_head s \<noteq> [] \<or> active_tasks s \<noteq> 0 then panic s else s);
          s = (if list_all (\<lambda>(_, f). f_open_type f = FILE_CLOSED) (idx_items (files_by_id s)) then s else panic s);
          js = journal_head s;
          s = fold (\<lambda>(i, _). close_file i) (idx_items (files_by_id s)) s;
          freed = concat (map (\<lambda>T. map snd (idx_items (trees s T))) close_trees)
      in (js, freed, s\<lparr>trees := (\<lambda>T. if T \<in> set close_trees then idx_empty else trees s T)\<rparr>))"

end
