(* ===== verification/Compact.thy ===== *)
theory Compact
  imports Journal_Writer Journal_Loader Super_Api
begin

section \<open>Journal compaction\<close>

text \<open>
  \<open>src/core/compact.c\<close>: a compaction loads the part of the journal that is on disk and complete, up to
  the extent the flushed journal has reached, into a super block of its own, writes the entries that
  make up this state into new extents, links the extent it stopped at, and lets the other copy of the
  super header name the new start. \<open>compact\<close> is \<open>struct cyanfs_task_journal_compact\<close>; the cursor that
  the loader and then the writer point to is the one of the loader and then of the writer. A function
  returns the object, or \<open>None\<close> after \<open>cyanfs_journal_compact_free\<close>, with the super block. The objects of
  a compaction are known by the number of its allocation.
\<close>

record compact =
  cp_writer :: journal_writer
  cp_loader :: journal_loader
  cp_super :: super
  cp_header :: super_header

subsection \<open>The end of a compaction\<close>

definition super_compact_fail :: "super \<Rightarrow> super" where
  "super_compact_fail s = mark_error (clear_flag FLAG_COMPACT_WORKING s)"

definition journal_compact_error :: "compact \<Rightarrow> super \<Rightarrow> compact option \<times> super" where
  "journal_compact_error t s = (None, super_compact_fail s)"

text \<open>The loop over the extents of the old journal; it ends early when one is not of the journal.\<close>

fun compact_discard :: "extent list \<Rightarrow> super \<Rightarrow> bool \<times> super" where
  "compact_discard [] s = (True, s)"
| "compact_discard (compact_n # ns) s =
     (case idx_find (trees s Journal_Extents) (ext_backend compact_n) of
        None \<Rightarrow> (False, s)
      | Some super_n \<Rightarrow> compact_discard ns (super_discard_extent super_n Journal_Extents s))"

definition journal_compact_finish :: "cyanfs_status \<Rightarrow> compact \<Rightarrow> super \<Rightarrow> compact option \<times> super" where
  "journal_compact_finish err t s =
     (if err \<noteq> Ok then journal_compact_error t s
      else
        (let (found, s) = compact_discard (map snd (idx_items (trees (cp_super t) Journal_Extents))) s
         in if \<not> found then journal_compact_error t s
            else (None, clear_flag FLAG_COMPACT_WORKING s)))"

subsection \<open>The super header\<close>

definition journal_compact_flush_super ::
    "nat \<Rightarrow> cyanfs_status \<Rightarrow> compact \<Rightarrow> super \<Rightarrow> compact option \<times> super" where
  "journal_compact_flush_super a err t s =
     (if err \<noteq> Ok then journal_compact_error t s
      else (Some t, snd (task_add_tail (Compact_Task a) (task_init (Compact_Task a) TASK_FLUSH Journal_Compact_Finish s))))"

definition compact_slot :: "super_header \<Rightarrow> u64" where
  "compact_slot h = (sh_version h AND 1) * CYANFS_SUPER_HEADER_SIZE"

text \<open>The header is stored in the page of the cursor, which the writer has finished with.\<close>

definition journal_compact_write_super ::
    "nat \<Rightarrow> cyanfs_status \<Rightarrow> compact \<Rightarrow> super \<Rightarrow> compact option \<times> super" where
  "journal_compact_write_super a err t s =
     (if err \<noteq> Ok then journal_compact_error t s
      else
        (let (p, h) = super_store (jc_page (jw_cursor (cp_writer t))) (cp_header t);
             t = t\<lparr>cp_header := h,
                   cp_writer := (cp_writer t)\<lparr>jw_cursor := (jw_cursor (cp_writer t))\<lparr>jc_page := p\<rparr>\<rparr>\<rparr>;
             s = task_init (Compact_Task a) (TASK_WRITE (compact_slot h) CYANFS_SUPER_HEADER_SIZE)
                   Journal_Compact_Flush_Super s
         in (Some t, snd (task_add_tail (Compact_Task a) s))))"

subsection \<open>Writing the new journal\<close>

definition journal_compact_write_journal_finish :: "nat \<Rightarrow> compact \<Rightarrow> super \<Rightarrow> compact option \<times> super" where
  "journal_compact_write_journal_finish a t s =
     (Some t, snd (task_add_tail (Compact_Task a) (task_init (Compact_Task a) TASK_FLUSH Journal_Compact_Write_Super s)))"

definition journal_compact_write_journal_error :: "compact \<Rightarrow> super \<Rightarrow> compact option \<times> super" where
  "journal_compact_write_journal_error t s = journal_compact_error t s"

text \<open>The completion of the writer task of a compaction: its write goes to the end of the queue.\<close>

definition compact_writer_encode :: "nat \<Rightarrow> cyanfs_status \<Rightarrow> compact \<Rightarrow> super \<Rightarrow> compact option \<times> super" where
  "compact_writer_encode a err t s =
     (case journal_writer_encode err (cp_writer t) s of
        (Writer_Error, s) \<Rightarrow> journal_compact_write_journal_error t s
      | (Writer_Finish, s) \<Rightarrow> journal_compact_write_journal_finish a t s
      | (Writer_Write b_off len flush w, s) \<Rightarrow>
          (Some (t\<lparr>cp_writer := w\<rparr>),
           snd (task_add_tail (Compact_Writer a)
             (task_init (Compact_Writer a) (TASK_WRITE b_off len) Journal_Writer_Encode s))))"

subsection \<open>The entries of a state\<close>

text \<open>
  The list of entries, their number and the number of allocations so far. A step fails when an
  allocation fails or the number is exhausted. Following the pointer to a parent that is gone is the
  panic \<open>Inl True\<close>, the other failures are \<open>Inl False\<close>.
\<close>

type_synonym entry_list = "journal_node list \<times> u64 \<times> nat"

definition journal_compact_count_entry :: "u64 \<Rightarrow> u64 option" where
  "journal_compact_count_entry n = (if n = NOT 0 then None else Some (n + 1))"

definition compact_add :: "malloc \<Rightarrow> journal_entry \<Rightarrow> entry_list \<Rightarrow> bool + entry_list" where
  "compact_add mem j l =
     (let (js, n, k) = l
      in if \<not> mem k then Inl False
         else case journal_compact_count_entry n of
                None \<Rightarrow> Inl False
              | Some n \<Rightarrow> Inr (js @ [\<lparr>jn_entry = j, jn_flush = False\<rparr>], n, k + 1))"

fun compact_add_all :: "malloc \<Rightarrow> journal_entry list \<Rightarrow> entry_list \<Rightarrow> bool + entry_list" where
  "compact_add_all mem [] l = Inr l"
| "compact_add_all mem (j # js) l =
     (case compact_add mem j l of
        Inl e \<Rightarrow> Inl e
      | Inr l \<Rightarrow> compact_add_all mem js l)"

definition compact_binds :: "cyanfs_file \<Rightarrow> journal_entry list" where
  "compact_binds f =
     map (\<lambda>(k, n). JBIND (fm_id (f_meta f)) (ucast (ext_file n)) (ucast (ext_backend n))) (idx_items (f_extents f))"

definition compact_file :: "malloc \<Rightarrow> super \<Rightarrow> cyanfs_file \<Rightarrow> entry_list \<Rightarrow> bool + entry_list" where
  "compact_file mem s f l =
     (let m = f_meta f;
          new = (case f_parent f of
                   None \<Rightarrow> JCREATE (fm_name m) (fm_id m)
                 | Some _ \<Rightarrow> JFORK (fm_name m) (fm_id m) (fm_parent_id m))
      in case compact_add mem new l of
           Inl e \<Rightarrow> Inl e
         | Inr l \<Rightarrow>
             (case (case f_parent f of
                      None \<Rightarrow> Some (fm_size m > 0)
                    | Some p \<Rightarrow> map_option (\<lambda>pf. fm_size (f_meta pf) \<noteq> fm_size m) (get_file s p)) of
                None \<Rightarrow> Inl True
              | Some resize \<Rightarrow>
                  compact_add_all mem
                    ((if resize then [JTRUNCATE (fm_id m) (fm_size m)] else []) @ compact_binds f) l))"

fun compact_files :: "malloc \<Rightarrow> super \<Rightarrow> cyanfs_file list \<Rightarrow> entry_list \<Rightarrow> bool + entry_list" where
  "compact_files mem s [] l = Inr l"
| "compact_files mem s (f # fs) l =
     (case compact_file mem s f l of
        Inl e \<Rightarrow> Inl e
      | Inr l \<Rightarrow> compact_files mem s fs l)"

subsection \<open>Keeping the highest file id\<close>

definition marker_candidate :: "nat \<Rightarrow> file_name" where
  "marker_candidate i = File_Name (0xff # of_nat (i div 255 + 1) # of_nat (i mod 255 + 1) # replicate 124 0) 0"

definition journal_compact_marker_name :: "super \<Rightarrow> file_name option" where
  "journal_compact_marker_name s =
     find (\<lambda>name. idx_find (files_by_name s) name = None)
       (map marker_candidate [0..<Suc (unat CYANFS_SUPER_MAX_FILES)])"

definition journal_compact_preserve_max_file_id ::
    "malloc \<Rightarrow> super \<Rightarrow> cyanfs_file_id_t \<Rightarrow> entry_list \<Rightarrow> bool + entry_list" where
  "journal_compact_preserve_max_file_id mem s max_live_id l =
     (if max_file_id s \<le> max_live_id then Inr l
      else case journal_compact_marker_name s of
             None \<Rightarrow> Inl False
           | Some name \<Rightarrow> compact_add_all mem [JCREATE name (max_file_id s), JDELETE (max_file_id s)] l)"

definition compact_entries :: "malloc \<Rightarrow> super \<Rightarrow> bool + entry_list" where
  "compact_entries mem s =
     (let fs = map snd (idx_items (files_by_id s));
          max_live_id = (if fs = [] then 0 else fm_id (f_meta (last fs)))
      in case compact_files mem s fs ([], 0, 0) of
           Inl e \<Rightarrow> Inl e
         | Inr l \<Rightarrow> journal_compact_preserve_max_file_id mem s max_live_id l)"

subsection \<open>The end of loading\<close>

definition journal_compact_loader_error :: "compact \<Rightarrow> super \<Rightarrow> compact option \<times> super" where
  "journal_compact_loader_error t s = journal_compact_error t s"

definition journal_compact_loader_finish :: "malloc \<Rightarrow> nat \<Rightarrow> compact \<Rightarrow> super \<Rightarrow> compact option \<times> super" where
  "journal_compact_loader_finish mem a t s =
     (case compact_entries mem (cp_super t) of
        Inl True \<Rightarrow> (None, panic s)
      | Inl False \<Rightarrow> journal_compact_error t s
      | Inr (js, n, _) \<Rightarrow>
          (let cursor = ld_cursor (cp_loader t);
               end_id = ld_end_id (cp_loader t);
               h = ld_header (cp_loader t);
               writer = cyanfs_journal_writer_init cursor
           in if n > jc_seq cursor then journal_compact_error t s
              else if sh_version h = NOT 0 then journal_compact_error t s
              else
                (let h = h\<lparr>sh_journal_seq := jc_seq cursor - n, sh_version := sh_version h + 1\<rparr>
                 in if n \<noteq> 0 then
                      (case super_find_nearly_extent s 0 of
                         None \<Rightarrow> journal_compact_loader_error t s
                       | Some m \<Rightarrow>
                           (let s = extent_super_to_super m Free_Extents Journal_Extents s;
                                h = h\<lparr>sh_journal_id := ucast (ext_backend m)\<rparr>;
                                cursor = cursor\<lparr>jc_extent_id := sh_journal_id h, jc_extent_off := 0,
                                                jc_seq := sh_journal_seq h\<rparr>;
                                writer = writer\<lparr>jw_head := js, jw_next_id := end_id, jw_cursor := cursor\<rparr>;
                                t = t\<lparr>cp_header := h, cp_writer := writer\<rparr>
                            in (Some t, snd (journal_writer_start (Compact_Writer a) s))))
                    else
                      (let t = t\<lparr>cp_header := h\<lparr>sh_journal_id := end_id\<rparr>, cp_writer := writer\<rparr>;
                           s = task_init (Compact_Task a) TASK_NOP Journal_Compact_Write_Super s
                       in (Some t, snd (task_add_tail (Compact_Task a) s))))))"

subsection \<open>The loader of a compaction\<close>

text \<open>The parser replays into the super block of the compaction; \<open>mem k\<close> is for the \<open>k\<close>-th entry.\<close>

definition journal_compact_loader_parser :: "(nat \<Rightarrow> malloc) \<Rightarrow> (super \<times> nat) loader_parser" where
  "journal_compact_loader_parser mem j r =
     (let (s, k) = r; (err, s) = journal_replay (mem k) j s in (err, s, Suc k))"

definition compact_loader_next ::
    "malloc \<Rightarrow> nat \<Rightarrow> (super \<times> nat) loader_result \<Rightarrow> compact \<Rightarrow> super \<Rightarrow> compact option \<times> super" where
  "compact_loader_next mem a r t s =
     (case r of
        Loader_Read b_off len l (q, _) \<Rightarrow>
          (Some (t\<lparr>cp_loader := l, cp_super := q\<rparr>),
           snd (task_add_tail (Compact_Loader a)
             (task_init (Compact_Loader a) (TASK_READ b_off len) Journal_Loader_Parser_Page s)))
      | Loader_Finish l (q, _) \<Rightarrow> journal_compact_loader_finish mem a (t\<lparr>cp_loader := l, cp_super := q\<rparr>) s
      | Loader_Error l (q, _) \<Rightarrow> journal_compact_loader_error (t\<lparr>cp_loader := l, cp_super := q\<rparr>) s
      | Loader_Panic \<Rightarrow> (None, panic s))"

subsection \<open>Starting a compaction\<close>

text \<open>
  The super block of a compaction has the fields that a replay uses. The others, which
  \<open>cyanfs_super_compact\<close> does not assign and nothing reads, are those of \<open>raw\<close>, with empty trees.
\<close>

definition compact_init :: "super \<Rightarrow> super \<Rightarrow> (nat \<Rightarrow> bitfield30) \<Rightarrow> super" where
  "compact_init s raw raw_file =
     (let m = (meta raw)\<lparr>sm_total_extents := sm_total_extents (meta s), sm_free_extents := sm_total_extents (meta s),
                sm_journal_extents := 0, sm_data_extents := 0, sm_files := 0\<rparr>;
          q = raw\<lparr>files_by_id := idx_empty, files_by_name := idx_empty, trees := (\<lambda>_. idx_empty),
                  max_file_id := 0, flags := 0, meta := m, panicked := False\<rparr>
      in fold (\<lambda>i. tree_insert Free_Extents (open_extent raw_file i)) [0..<unat (sm_total_extents (meta s))] q)"

definition journal_loader_start :: "task_ref \<Rightarrow> super \<Rightarrow> bool \<times> super" where
  "journal_loader_start t s =
     task_add_tail t (task_init t (TASK_READ 0 CYANFS_SUPER_BLOCK_SIZE) Journal_Loader_Parser_Header s)"

text \<open>
  The memory of the object and of the page is not initialised: \<open>raw\<close> is the content of the object,
  including its cursor and the page, and \<open>raw_file\<close> that of the new extent nodes.
\<close>

definition super_compact ::
    "malloc \<Rightarrow> compact \<Rightarrow> (nat \<Rightarrow> bitfield30) \<Rightarrow> super \<Rightarrow> cyanfs_status \<times> compact option \<times> super" where
  "super_compact mem raw raw_file s =
     (let err = ensure_status s
      in if err \<noteq> Ok then (err, None, s)
         else if \<not> has_flag s FLAG_COMPACT_ENABLED then (Ok, None, s)
         else if has_flag s FLAG_COMPACT_WORKING then (BUSY, None, s)
         else
           (let s = set_flag FLAG_COMPACT_WORKING s;
                end_id = jc_extent_id_ondisk (journal_cursor s);
                total_ext = unat (sm_total_extents (meta s))
            in if \<not> mem 0 \<or> \<not> mem 1 \<or> \<not> list_all (\<lambda>i. mem (2 + i)) [0..<total_ext]
               then (NOMEM, None, super_compact_fail s)
               else
                 (let a = next_address s;
                      s = s\<lparr>next_address := a + 1\<rparr>;
                      cursor = journal_cursor (cp_super raw);
                      cursor = cursor\<lparr>jc_page := malloc_bytes (unat CYANFS_JOURNAL_PAGE_SIZE) (jc_page cursor)\<rparr>;
                      loader = (cyanfs_journal_loader_init cursor (ld_header (cp_loader raw)))\<lparr>ld_end_id := end_id\<rparr>;
                      t = raw\<lparr>cp_writer := cyanfs_journal_writer_init cursor, cp_loader := loader,
                              cp_super := compact_init s (cp_super raw) raw_file\<rparr>;
                      (first, s) = journal_loader_start (Compact_Loader a) s
                  in (Ok, Some t, if first then super_new_task s else s))))"

text \<open>The completions of the loader task of a compaction.\<close>

definition compact_parser_header ::
    "(nat \<Rightarrow> malloc) \<Rightarrow> malloc \<Rightarrow> malloc \<Rightarrow> nat \<Rightarrow> cyanfs_status \<Rightarrow> u8 list \<Rightarrow> compact \<Rightarrow> super \<Rightarrow> compact option \<times> super" where
  "compact_parser_header mem_parser mem_loader mem a err bytes t s =
     compact_loader_next mem a
       (journal_loader_parser_header (journal_compact_loader_parser mem_parser) mem_loader
          (sm_total_extents (meta s)) err bytes (cp_loader t) (cp_super t, 0)) t s"

definition compact_parser_page ::
    "(nat \<Rightarrow> malloc) \<Rightarrow> malloc \<Rightarrow> malloc \<Rightarrow> nat \<Rightarrow> cyanfs_status \<Rightarrow> u8 list \<Rightarrow> compact \<Rightarrow> super \<Rightarrow> compact option \<times> super" where
  "compact_parser_page mem_parser mem_loader mem a err bytes t s =
     compact_loader_next mem a
       (journal_loader_parser_page (journal_compact_loader_parser mem_parser) mem_loader
          (sm_total_extents (meta s)) err bytes (cp_loader t) (cp_super t, 0)) t s"

subsection \<open>The end of the writer of a flusher\<close>

text \<open>
  \<open>cyanfs_super_flusher_write_finish\<close> asks for a flush when the journal has reached a new extent or too
  many extents wait, and starts a compaction when the journal has grown. The other arguments are those
  of \<open>cyanfs_super_compact\<close>.
\<close>

definition flush_limit :: "super_meta \<Rightarrow> u32" where
  "flush_limit m =
     (let limit = drop_bit 10 (sm_free_extents m)
      in if limit > CYANFS_EXTENT_MAX_INFLIGHT then CYANFS_EXTENT_MAX_INFLIGHT else limit)"

definition flusher_write_finish ::
    "malloc \<Rightarrow> compact \<Rightarrow> (nat \<Rightarrow> bitfield30) \<Rightarrow> nat \<Rightarrow> super \<Rightarrow> compact option \<times> super" where
  "flusher_write_finish mem raw raw_file a s =
     (let m = meta s; c = journal_cursor s;
          flush = (jc_extent_id c \<noteq> jc_extent_id_ondisk c \<or>
                   fl_flush_before_write (flusher_at s a) \<and> \<not> fl_ondisk (flusher_at s a) \<or>
                   sm_total_extents m - sm_data_extents m - sm_journal_extents m - sm_free_extents m > flush_limit m);
          compact = (sm_journal_extents m \<ge> sm_reserved_extents m div 2 \<and> \<not> has_flag s FLAG_COMPACT_WORKING);
          s = (if flush then set_flag FLAG_FLUSH s else s)
      in if compact then snd (super_compact mem raw raw_file s) else (None, s))"

end
