(* ===== verification/Journal_Loader_Inv.thy ===== *)
theory Journal_Loader_Inv
  imports Journal_Loader
begin

section \<open>The loader terminates and stays on the device\<close>

text \<open>
  Whatever the device answers, the loader does finitely many reads, since every read goes to an
  extent that was not visited before or further into the current one; each read lies within one
  extent of the device.
\<close>

lemmas journal_sizes = CYANFS_JOURNAL_BLOCK_SIZE_def CYANFS_JOURNAL_BLOCK_MASK_def
  CYANFS_JOURNAL_PAGE_SIZE_def CYANFS_JOURNAL_HEADER_SIZE_def

lemma journal_size_values:
  "CYANFS_JOURNAL_BLOCK_SIZE = 512" "CYANFS_JOURNAL_BLOCK_MASK = mask 9" "CYANFS_JOURNAL_PAGE_SIZE = 65536"
  "CYANFS_JOURNAL_HEADER_SIZE = 15"
  by (simp_all add: journal_sizes mask_numeral)

lemma loader_end_result:
  "journal_loader_end parser err t a \<noteq> Loader_Read b l t' a'" "journal_loader_end parser err t a \<noteq> Loader_Panic"
  by (simp_all add: journal_loader_end_def Let_def split: prod.splits)

lemma loader_stop_result:
  "loader_stop parser t a \<noteq> Loader_Read b l t' a'" "loader_stop parser t a \<noteq> Loader_Panic"
  by (simp_all add: loader_stop_def loader_end_result)

lemma unit_option: "x \<noteq> Some () \<longleftrightarrow> x = None"
  by (cases x) auto

lemma prepare_extent_Ok:
  assumes "journal_loader_prepare_extent mem n b t = (Ok, new_set, t')"
  shows "b < n" "idx_find (ld_visited t) b = None" "new_set = (length (last (ld_journals t)) \<ge> 200)"
    "t' = t\<lparr>ld_allocs := ld_allocs t'\<rparr>" "b \<noteq> cyanfs_extent_id_invalid"
  using assms by (auto simp: journal_loader_prepare_extent_def CYANFS_EXTENT_SET_LIIMT_def Let_def
      unit_option split: if_splits)

subsection \<open>The invariant of a loader\<close>

text \<open>
  The extents of the sets are those visited, each once and on the device; a set is never overfull; the
  cursor is at a block of the extent that was visited last.
\<close>

definition cursor_ok :: "u32 \<Rightarrow> journal_cursor \<Rightarrow> bool" where
  "cursor_ok n c \<longleftrightarrow>
     jc_extent_id c < n \<and> jc_extent_off c \<le> CYANFS_EXTENT_SIZE \<and> 512 dvd unat (jc_extent_off c)"

definition loader_ok :: "u32 \<Rightarrow> journal_loader \<Rightarrow> bool" where
  "loader_ok n t \<longleftrightarrow>
     ld_journals t \<noteq> [] \<and> distinct (concat (ld_journals t)) \<and>
     (\<forall>i. idx_find (ld_visited t) i \<noteq> None \<longleftrightarrow> i \<in> set (concat (ld_journals t))) \<and>
     (\<forall>i \<in> set (concat (ld_journals t)). i < n) \<and>
     list_all (\<lambda>xs. length xs \<le> CYANFS_EXTENT_SET_LIIMT) (ld_journals t)"

lemma loader_ok_init: "loader_ok n (cyanfs_journal_loader_init c h)"
  by (simp add: loader_ok_def cyanfs_journal_loader_init_def)

lemma loader_ok_cong:
  assumes "ld_journals t' = ld_journals t" "ld_visited t' = ld_visited t"
  shows "loader_ok n t' = loader_ok n t"
  using assms by (simp add: loader_ok_def)

lemma concat_add_last:
  "xss \<noteq> [] \<Longrightarrow> concat (butlast xss @ [last xss @ [x]]) = concat xss @ [x]"
  by (induction xss) auto

lemma commit_extent_spec:
  assumes ok: "loader_ok n t0" and p: "journal_loader_prepare_extent mem n b t0 = (Ok, new_set, t1)"
    and t: "ld_journals t = ld_journals t0" "ld_visited t = ld_visited t0"
  shows "\<exists>t'. journal_loader_commit_extent b new_set t a = journal_loader_read_page t' a \<and>
    loader_ok n t' \<and> ld_header t' = ld_header t \<and> ld_end_id t' = ld_end_id t \<and> ld_allocs t' = ld_allocs t \<and>
    ld_visited t' = idx_put b () (ld_visited t) \<and> concat (ld_journals t') = concat (ld_journals t) @ [b] \<and>
    ld_cursor t' = (ld_cursor t)\<lparr>jc_extent_off := 0, jc_extent_id := b\<rparr> \<and> cursor_ok n (ld_cursor t')"
proof -
  note P = prepare_extent_Ok [OF p]
  define sets where "sets = (if new_set then ld_journals t @ [[]] else ld_journals t)"
  define t' where "t' = t\<lparr>ld_visited := idx_put b () (ld_visited t),
    ld_journals := butlast sets @ [last sets @ [b]],
    ld_cursor := (ld_cursor t)\<lparr>jc_extent_off := 0, jc_extent_id := b\<rparr>\<rparr>"
  have c: "journal_loader_commit_extent b new_set t a = journal_loader_read_page t' a"
    using P(2) t by (simp add: journal_loader_commit_extent_def sets_def t'_def Let_def)
  have ne: "ld_journals t \<noteq> []" using ok t by (simp add: loader_ok_def)
  then have cc: "concat (ld_journals t') = concat (ld_journals t) @ [b]"
    using concat_add_last [of sets b] by (auto simp: t'_def sets_def)
  have "list_all (\<lambda>xs. length xs \<le> CYANFS_EXTENT_SET_LIIMT) (butlast (ld_journals t) @ [last (ld_journals t)])"
    using ok t ne by (simp add: loader_ok_def)
  then have lens: "list_all (\<lambda>xs. length xs \<le> CYANFS_EXTENT_SET_LIIMT) (ld_journals t')"
    using P(3) t by (simp add: t'_def sets_def CYANFS_EXTENT_SET_LIIMT_def ne not_le) (use ok ne t in
      \<open>auto simp: loader_ok_def CYANFS_EXTENT_SET_LIIMT_def\<close>)
  have "b \<notin> set (concat (ld_journals t0))" using ok P(2) by (metis loader_ok_def)
  then have "loader_ok n t'"
    using ok P(1) t lens unfolding loader_ok_def cc by (auto simp: t'_def)
  moreover have "cursor_ok n (ld_cursor t')" using P(1) by (simp add: t'_def cursor_ok_def)
  ultimately show ?thesis using c cc by (intro exI [of _ t']) (simp add: t'_def)
qed

lemma decode_header_size:
  assumes "cyanfs_journal_decode_header_checked p = Some h"
  shows "512 dvd unat (jh_size h)" "unat (jh_size h) < 2 ^ 17"
proof -
  obtain b :: u8 where h: "jh_size h = push_bit 9 (ucast b)"
    using assms by (auto simp: cyanfs_journal_decode_header_checked_def Let_def split: if_splits prod.splits)
  have "unat (jh_size h) = unat b * 512"
    using unat_bounds(1) [of b] by (simp add: h push_bit_eq_mult unat_word_ariths unat_ucast_mod)
  then show "512 dvd unat (jh_size h)" "unat (jh_size h) < 2 ^ 17"
    using unat_bounds(1) [of b] by simp_all
qed

lemma cursor_ok_advance:
  assumes "cursor_ok n c" "cyanfs_journal_decode_header_checked p = Some h"
    and "jc_extent_off c + jh_size h \<le> CYANFS_EXTENT_SIZE"
  shows "cursor_ok n (c\<lparr>jc_seq := q, jc_extent_off := jc_extent_off c + jh_size h\<rparr>)"
proof -
  have "unat (jc_extent_off c + jh_size h) = unat (jc_extent_off c) + unat (jh_size h)"
    using assms(1) decode_header_size(2) [OF assms(2)]
    by (subst unat_add_no_wrap) (simp_all add: cursor_ok_def size_values word_le_nat_alt)
  then show ?thesis
    using assms(1,3) decode_header_size(1) [OF assms(2)] by (simp add: cursor_ok_def)
qed

text \<open>The ways in which a round of the loop ends the work on a page.\<close>

lemma loader_record_ends:
  assumes "loader_record parser mem n page off t a = Inl r"
  obtains (ends) err t' a' where "r = journal_loader_end parser err t' a'"
  | (reread) "off \<noteq> 0" "r = journal_loader_read_page t a"
  | (page) h q a' where "cyanfs_journal_decode_header_checked (drop off page) = Some h" "0 < unat (jh_size h)"
      "jc_extent_off (ld_cursor t) + jh_size h \<le> CYANFS_EXTENT_SIZE" "jh_size h \<le> CYANFS_JOURNAL_PAGE_SIZE"
      "r = journal_loader_read_page (t\<lparr>ld_cursor := (ld_cursor t)\<lparr>jc_seq := q,
         jc_extent_off := jc_extent_off (ld_cursor t) + jh_size h\<rparr>\<rparr>) a'"
  | (follow) b new_set t' q a' where "journal_loader_prepare_extent mem n b t = (Ok, new_set, t')"
      "r = journal_loader_commit_extent b new_set (t'\<lparr>ld_cursor := (ld_cursor t)\<lparr>jc_seq := q\<rparr>\<rparr>) a'"
proof -
  define ending where "ending \<longleftrightarrow> (\<exists>err t' a'. r = journal_loader_end parser err t' a')"
  define paging where "paging h \<longleftrightarrow> (\<exists>q a'. r = journal_loader_read_page (t\<lparr>ld_cursor := (ld_cursor t)\<lparr>jc_seq := q,
         jc_extent_off := jc_extent_off (ld_cursor t) + jh_size h\<rparr>\<rparr>) a')" for h :: journal_header
  define following where "following \<longleftrightarrow> (\<exists>b new_set t' q a'.
      journal_loader_prepare_extent mem n b t = (Ok, new_set, t') \<and>
      r = journal_loader_commit_extent b new_set (t'\<lparr>ld_cursor := (ld_cursor t')\<lparr>jc_seq := q\<rparr>\<rparr>) a')"
  have ending: ending if "r = journal_loader_end parser err t' a'" for err t' a'
    using that unfolding ending_def by blast
  have paging: "paging h" if "r = journal_loader_read_page (t\<lparr>ld_cursor := (ld_cursor t)\<lparr>jc_seq := q,
      jc_extent_off := jc_extent_off (ld_cursor t) + jh_size h\<rparr>\<rparr>) a'" for h q a'
    using that unfolding paging_def by blast
  have following: following if "journal_loader_prepare_extent mem n b t = (Ok, new_set, t')"
      "r = journal_loader_commit_extent b new_set (t'\<lparr>ld_cursor := (ld_cursor t')\<lparr>jc_seq := q\<rparr>\<rparr>) a'"
    for b new_set t' q a'
    using that unfolding following_def by blast
  note parts = assms [unfolded loader_record_def Let_def loader_stop_def]
  have "ending \<or> (\<exists>h. cyanfs_journal_decode_header_checked (drop off page) = Some h \<and> 0 < unat (jh_size h) \<and>
      jc_extent_off (ld_cursor t) + jh_size h \<le> CYANFS_EXTENT_SIZE \<and> jh_size h \<le> CYANFS_JOURNAL_PAGE_SIZE \<and>
      (off \<noteq> 0 \<and> r = journal_loader_read_page t a \<or> paging h \<or> following))"
  proof (cases "if drop off page = [] then None else cyanfs_journal_decode_header_checked (drop off page)")
    case (Some h)
    then have h: "cyanfs_journal_decode_header_checked (drop off page) = Some h" by (simp split: if_splits)
    note parts = parts [unfolded Some option.case]
    let ?body = "drop (unat CYANFS_JOURNAL_HEADER_SIZE) (take (unat (jh_size h)) (drop off page))"
    show ?thesis
    proof (cases "jh_size h < CYANFS_JOURNAL_HEADER_SIZE \<or> CYANFS_JOURNAL_PAGE_SIZE < jh_size h \<or>
        CYANFS_EXTENT_SIZE < jc_extent_off (ld_cursor t) + jh_size h")
      case True
      then show ?thesis using parts by (auto intro: ending)
    next
      case False
      note parts = parts [unfolded if_not_P [OF False]]
      have sz: "0 < unat (jh_size h)" "jh_size h \<le> CYANFS_JOURNAL_PAGE_SIZE"
          "jc_extent_off (ld_cursor t) + jh_size h \<le> CYANFS_EXTENT_SIZE"
        using False header_size_pos [of "jh_size h"] by (auto simp: not_less)
      show ?thesis
      proof (cases "cyanfs_journal_validate_record ?body (jh_count h)")
        case None
        then show ?thesis using parts h sz by (auto intro: ending split: if_splits)
      next
        case (Some v)
        obtain regular nx where v: "v = (regular, nx)" by (cases v)
        show ?thesis
          using parts h sz unfolding Some v
          by (cases "loader_entries parser (unat (jh_count h)) ?body a"; cases nx;
              cases "journal_loader_prepare_extent mem n (the nx) t")
            (auto intro: ending paging following split: if_splits)
      qed
    qed
  qed (use parts in \<open>auto intro: ending\<close>)
  moreover have "ld_cursor t' = ld_cursor t" if "journal_loader_prepare_extent mem n b t = (Ok, new_set, t')"
    for b new_set t' using prepare_extent_Ok(4) [OF that] by (metis journal_loader.simps(1,7,13) journal_loader.surjective)
  ultimately show ?thesis using that unfolding ending_def paging_def following_def by metis
qed

subsection \<open>Termination\<close>

definition loader_rank :: "u32 \<Rightarrow> journal_loader \<Rightarrow> nat" where
  "loader_rank n t = card {i. i < n \<and> idx_find (ld_visited t) i = None} * 2 ^ 64 +
     unat (CYANFS_EXTENT_SIZE - jc_extent_off (ld_cursor t))"

lemma remaining_decreases:
  fixes off sz :: u64
  assumes "off + sz \<le> e" "unat e < 2 ^ 63" "unat sz < 2 ^ 63" "0 < unat sz"
  shows "unat (e - (off + sz)) < unat (e - off)"
proof -
  define d where "d = e - off"
  have "unat sz \<le> unat d"
  proof (rule ccontr)
    assume "\<not> unat sz \<le> unat d"
    then have "unat (sz - d) = unat sz - unat d" "unat d < unat sz" by (simp_all add: unat_diff_no_wrap)
    then have "unat (e + (sz - d)) = unat e + (unat sz - unat d)"
      using assms(2,3) by (subst unat_add_no_wrap) simp_all
    moreover have eq: "off + sz = e + (sz - d)" by (simp add: d_def)
    ultimately show False
      using assms(1) \<open>unat d < unat sz\<close> unfolding eq word_le_nat_alt by linarith
  qed
  then have "unat (d - sz) < unat d" using assms(4) by (simp add: unat_diff_no_wrap)
  then show ?thesis by (simp add: d_def algebra_simps)
qed

lemma rank_lex: "a = Suc b \<Longrightarrow> u < p \<Longrightarrow> b * p + u < a * p + v" for a b p u v :: nat
  by simp

lemma rank_new_extent:
  assumes "b < n" "idx_find (ld_visited t) b = None" "ld_visited t' = idx_put b () (ld_visited t)"
  shows "loader_rank n t' < loader_rank n t"
proof -
  define U where "U v = {i. i < n \<and> idx_find v i = None}" for v :: "(cyanfs_extent_id, unit) index"
  have "U (ld_visited t') = U (ld_visited t) - {b}" "b \<in> U (ld_visited t)" "finite (U (ld_visited t))"
    using assms by (auto simp: U_def)
  then have "card (U (ld_visited t)) = Suc (card (U (ld_visited t')))" by (metis card_Suc_Diff1)
  moreover have "unat (CYANFS_EXTENT_SIZE - jc_extent_off (ld_cursor t')) < 2 ^ 64" by (rule unat_bounds)
  ultimately show ?thesis unfolding loader_rank_def U_def by (rule rank_lex)
qed

lemma rank_same_extent:
  assumes "ld_visited t' = ld_visited t" "0 < unat sz" "\<not> sz > CYANFS_JOURNAL_PAGE_SIZE"
    and "jc_extent_off (ld_cursor t') = jc_extent_off (ld_cursor t) + sz"
    and "\<not> jc_extent_off (ld_cursor t) + sz > CYANFS_EXTENT_SIZE"
  shows "loader_rank n t' < loader_rank n t"
  using assms remaining_decreases [of "jc_extent_off (ld_cursor t)" sz CYANFS_EXTENT_SIZE]
  by (simp add: loader_rank_def journal_size_values size_values not_less word_le_nat_alt)

definition result_ok :: "u32 \<Rightarrow> 'a loader_result \<Rightarrow> bool" where
  "result_ok n r \<longleftrightarrow>
     (case r of
        Loader_Read b len t a \<Rightarrow>
          loader_ok n t \<and> cursor_ok n (ld_cursor t) \<and> r = journal_loader_read_page t a
      | Loader_Panic \<Rightarrow> False
      | _ \<Rightarrow> True)"

lemma result_ok_end: "result_ok n (journal_loader_end parser err t a)"
  by (simp add: result_ok_def journal_loader_end_def Let_def split: prod.splits)

lemma result_ok_read:
  "loader_ok n t \<Longrightarrow> cursor_ok n (ld_cursor t) \<Longrightarrow> result_ok n (journal_loader_read_page t a)"
  by (simp add: result_ok_def journal_loader_read_page_def Let_def)

lemma read_page_state: "journal_loader_read_page t a = Loader_Read b l t' a' \<Longrightarrow> t' = t \<and> a' = a"
  by (simp add: journal_loader_read_page_def Let_def)

text \<open>A round that ends the work on a page: the result is fine, and a read makes progress.\<close>

lemma loader_record_Inl:
  assumes ok: "loader_ok n t" "cursor_ok n (ld_cursor t)"
    and r: "loader_record parser mem n page off t a = Inl r"
  shows "result_ok n r \<and>
    (\<forall>b l t' a'. r = Loader_Read b l t' a' \<longrightarrow>
       loader_rank n t' < loader_rank n t \<or> off \<noteq> 0 \<and> loader_rank n t' \<le> loader_rank n t)"
  using r
proof (cases rule: loader_record_ends)
  case ends
  then show ?thesis by (simp add: result_ok_end loader_end_result)
next
  case reread
  then show ?thesis using result_ok_read [OF ok, of a] by (auto dest!: read_page_state)
next
  case (page h q a')
  let ?t = "t\<lparr>ld_cursor := (ld_cursor t)\<lparr>jc_seq := q, jc_extent_off := jc_extent_off (ld_cursor t) + jh_size h\<rparr>\<rparr>"
  have "result_ok n r" unfolding page(5)
    using ok(1) cursor_ok_advance [OF ok(2) page(1,3), of q]
    by (intro result_ok_read) (simp_all add: loader_ok_def)
  moreover have "loader_rank n ?t < loader_rank n t"
    using page(2,3,4) by (intro rank_same_extent) (simp_all add: not_less)
  ultimately show ?thesis unfolding page(5) by (auto dest!: read_page_state)
next
  case (follow b new_set t' q a')
  have [simp]: "ld_journals t' = ld_journals t" "ld_visited t' = ld_visited t"
    by (subst prepare_extent_Ok(4) [OF follow(1)], simp)+
  obtain u where u: "r = journal_loader_read_page u a'" "loader_ok n u" "cursor_ok n (ld_cursor u)"
      "ld_visited u = idx_put b () (ld_visited t)"
    using commit_extent_spec [OF ok(1) follow(1), of "t'\<lparr>ld_cursor := (ld_cursor t)\<lparr>jc_seq := q\<rparr>\<rparr>" a'] follow(2)
    by auto
  have "loader_rank n u < loader_rank n t" by (rule rank_new_extent [OF prepare_extent_Ok(1,2) [OF follow(1)] u(4)])
  then show ?thesis using u(1) result_ok_read [OF u(2,3), of a'] by (auto dest!: read_page_state)
qed

lemma loader_record_size:
  assumes "loader_record parser mem n page off t a = Inr v"
    and "cyanfs_journal_decode_header_checked (drop off page) = Some h"
  shows "jh_size h \<le> CYANFS_JOURNAL_PAGE_SIZE"
proof (rule ccontr)
  assume "\<not> jh_size h \<le> CYANFS_JOURNAL_PAGE_SIZE"
  then show False
    using assms by (simp add: loader_record_def Let_def not_le split: if_splits)
qed

lemma loader_record_Inr:
  assumes ok: "loader_ok n t" "cursor_ok n (ld_cursor t)"
    and r: "loader_record parser mem n page off t a = Inr (off', t', a')"
  shows "loader_ok n t' \<and> cursor_ok n (ld_cursor t') \<and> off' \<noteq> 0 \<and> loader_rank n t' < loader_rank n t"
  using r
proof (cases rule: loader_record_next)
  case (1 h)
  have e: "jc_extent_off (ld_cursor t') = jc_extent_off (ld_cursor t) + jh_size h" by (subst 1(6)) simp
  have "cursor_ok n (ld_cursor t')" by (subst 1(6)) (rule cursor_ok_advance [OF ok(2) 1(1,5)])
  moreover have "jh_size h \<le> CYANFS_JOURNAL_PAGE_SIZE"
    by (rule loader_record_size [OF r 1(1)])
  then have "loader_rank n t' < loader_rank n t"
    using 1(2,5,10) e by (intro rank_same_extent) (simp_all add: not_less)
  ultimately show ?thesis using ok 1(2,3) loader_ok_cong [OF 1(9,10), of n] by simp
qed

lemma loader_records_ok:
  assumes "loader_ok n t" "cursor_ok n (ld_cursor t)"
  shows "result_ok n (loader_records parser mem n page off t a) \<and>
    (\<forall>b l t' a'. loader_records parser mem n page off t a = Loader_Read b l t' a' \<longrightarrow>
       loader_rank n t' < loader_rank n t \<or> off \<noteq> 0 \<and> loader_rank n t' \<le> loader_rank n t)"
  using assms
proof (induction parser mem n page off t a rule: loader_records.induct)
  case (1 parser mem n page off t a)
  show ?case
  proof (cases "loader_record parser mem n page off t a")
    case (Inl r)
    then show ?thesis using loader_record_Inl [OF 1(2,3) Inl] by (simp add: loader_records.simps)
  next
    case (Inr v)
    obtain off' t' a' where v: "v = (off', t', a')" by (cases v)
    note next_round = loader_record_Inr [OF 1(2,3) Inr [unfolded v]]
    have "loader_records parser mem n page off t a = loader_records parser mem n page off' t' a'"
      using Inr v by (simp add: loader_records.simps)
    then show ?thesis
      using "1.IH" [OF Inr v [symmetric] refl] next_round
      by (metis order.strict_trans order.strict_trans1)
  qed
qed

lemma parser_page_ok:
  assumes "loader_ok n t" "cursor_ok n (ld_cursor t)"
  shows "result_ok n (journal_loader_parser_page parser mem n err bytes t a)"
    and "journal_loader_parser_page parser mem n err bytes t a = Loader_Read b l t' a' \<Longrightarrow>
      loader_rank n t' < loader_rank n t"
proof -
  let ?t = "t\<lparr>ld_cursor := (ld_cursor t)\<lparr>jc_page := bytes @ drop (length bytes) (jc_page (ld_cursor t))\<rparr>\<rparr>"
  have "loader_ok n ?t" "cursor_ok n (ld_cursor ?t)" "loader_rank n ?t = loader_rank n t"
    using assms by (simp_all add: loader_ok_def cursor_ok_def loader_rank_def)
  note R = loader_records_ok [OF this(1,2), of parser mem bytes 0 a] this(3)
  show "result_ok n (journal_loader_parser_page parser mem n err bytes t a)"
    and "journal_loader_parser_page parser mem n err bytes t a = Loader_Read b l t' a' \<Longrightarrow>
      loader_rank n t' < loader_rank n t"
    using R by (auto simp: journal_loader_parser_page_def Let_def result_ok_end loader_end_result split: if_splits)
qed

lemma loader_run_returns:
  assumes "result_ok n r"
  shows "\<exists>r'. loader_run parser mem n io k r = Some r' \<and>
    (\<exists>t a. r' = Loader_Finish t a \<or> r' = Loader_Error t a)"
  using assms
proof (induction "case r of Loader_Read b l t a \<Rightarrow> loader_rank n t | _ \<Rightarrow> 0" arbitrary: k r rule: less_induct)
  case less
  show ?case
  proof (cases r)
    case (Loader_Read b l t a)
    then have ok: "loader_ok n t" "cursor_ok n (ld_cursor t)" using less.prems by (simp_all add: result_ok_def)
    obtain err bytes where io: "io k b l = (err, bytes)" by (cases "io k b l")
    define q where "q = journal_loader_parser_page parser mem n err bytes t a"
    have "loader_run parser mem n io k r = loader_run parser mem n io (Suc k) q"
      by (subst loader_run.simps) (simp add: Loader_Read io q_def)
    moreover have "\<exists>r'. loader_run parser mem n io (Suc k) q = Some r' \<and>
        (\<exists>t a. r' = Loader_Finish t a \<or> r' = Loader_Error t a)"
    proof (cases "\<exists>b' l' t' a'. q = Loader_Read b' l' t' a'")
      case True
      then obtain b' l' t' a' where q: "q = Loader_Read b' l' t' a'" by blast
      then have "loader_rank n t' < loader_rank n t" using parser_page_ok(2) [OF ok, of parser mem err bytes a b' l' t' a'] q_def by simp
      then show ?thesis
        using parser_page_ok(1) [OF ok, of parser mem err bytes a] q Loader_Read
        unfolding q_def [symmetric] by (intro less.hyps) simp_all
    next
      case False
      then show ?thesis
        using parser_page_ok(1) [OF ok, of parser mem err bytes a] unfolding q_def [symmetric]
        by (subst loader_run.simps) (cases q; simp add: result_ok_def)
    qed
    ultimately show ?thesis by simp
  qed (use less.prems in \<open>auto simp: loader_run.simps result_ok_def\<close>)
qed

lemma parser_header_ok:
  assumes "loader_ok n t"
  shows "result_ok n (journal_loader_parser_header parser mem n err bytes t a)"
proof -
  have "result_ok n (journal_loader_commit_extent b new_set t' a)"
    if "journal_loader_prepare_extent mem n b u = (Ok, new_set, t')" "loader_ok n u" for b new_set t' u
  proof -
    have [simp]: "ld_journals t' = ld_journals u" "ld_visited t' = ld_visited u"
      by (subst prepare_extent_Ok(4) [OF that(1)], simp)+
    show ?thesis using commit_extent_spec [OF that(2,1), of t' a] result_ok_read by fastforce
  qed
  moreover have "loader_ok n (t\<lparr>ld_header := h, ld_cursor := c\<rparr>)" for h c using assms by (simp add: loader_ok_def)
  ultimately show ?thesis
    by (auto simp: journal_loader_parser_header_def Let_def result_ok_end split: option.split prod.split)
qed

end
