(* ===== verification/Journal_Chain.thy ===== *)
theory Journal_Chain
  imports Journal_Loader_Inv
begin

section \<open>Journals on the device\<close>

text \<open>
  The bytes of a device, and what a journal is on them: a chain of records in linked extents. This is
  the specification that the loader reads and the writer writes. A record is described without pages,
  buffers or cursors.
\<close>

subsection \<open>The device\<close>

text \<open>A device without errors is the list of its bytes.\<close>

type_synonym device = "u8 list"

definition device_read :: "device \<Rightarrow> device_io" where
  "device_read dev k b_off len = (Ok, take (unat len) (drop (unat b_off) dev))"

definition device_write :: "u64 \<Rightarrow> u8 list \<Rightarrow> device \<Rightarrow> device" where
  "device_write b_off bytes dev = take (unat b_off) dev @ bytes @ drop (unat b_off + length bytes) dev"

definition device_has :: "u32 \<Rightarrow> device \<Rightarrow> bool" where
  "device_has n dev \<longleftrightarrow> 8192 + unat n * 2 ^ 20 \<le> length dev"

definition extent_bytes :: "device \<Rightarrow> cyanfs_extent_id \<Rightarrow> u8 list" where
  "extent_bytes dev i = take (2 ^ 20) (drop (8192 + unat i * 2 ^ 20) dev)"

lemma length_extent_bytes: "device_has n dev \<Longrightarrow> i < n \<Longrightarrow> length (extent_bytes dev i) = 2 ^ 20"
  by (simp add: device_has_def extent_bytes_def word_less_nat_alt)

subsection \<open>Records\<close>

fun decode_entries :: "nat \<Rightarrow> u8 list \<Rightarrow> (journal_entry list \<times> u8 list) option" where
  "decode_entries 0 p = Some ([], p)"
| "decode_entries (Suc n) p =
     (case cyanfs_journal_decode_entry_checked p of
        None \<Rightarrow> None
      | Some (j, p) \<Rightarrow> map_option (\<lambda>(js, r). (j # js, r)) (decode_entries n p))"

fun is_link :: "journal_entry \<Rightarrow> bool" where
  "is_link (JNEXT _) = True"
| "is_link _ = False"

fun link_of :: "journal_entry \<Rightarrow> cyanfs_extent_id" where
  "link_of (JNEXT b) = b"
| "link_of _ = cyanfs_extent_id_invalid"

datatype record_view =
    No_Record
  | Bad_Record
  | Record "journal_entry list" "cyanfs_extent_id option" nat

text \<open>
  The record at the start of the bytes \<open>p\<close>, which end where the extent ends: its entries without a
  link, the extent it links and its size. A link is the last entry, and only a record that links may
  end the extent.
\<close>

definition read_record :: "cyanfs_uuid_t \<Rightarrow> u64 \<Rightarrow> u8 list \<Rightarrow> record_view" where
  "read_record uuid seq p =
     (case cyanfs_journal_decode_header_checked p of
        None \<Rightarrow> No_Record
      | Some h \<Rightarrow>
          if jh_size h < CYANFS_JOURNAL_HEADER_SIZE \<or> jh_size h > CYANFS_JOURNAL_PAGE_SIZE \<or>
             unat (jh_size h) > length p \<or> record_sum uuid p (jh_size h) \<noteq> jh_crc32 h \<or> jh_seq h \<noteq> seq
          then No_Record
          else case decode_entries (unat (jh_count h)) (drop 15 (take (unat (jh_size h)) p)) of
                 None \<Rightarrow> Bad_Record
               | Some (js, rest) \<Rightarrow>
                   (let regular = filter (\<lambda>j. \<not> is_link j) js;
                        link = (if js \<noteq> [] \<and> is_link (last js) then Some (link_of (last js)) else None)
                    in if js = [] \<or> list_ex is_link (butlast js) \<or> length rest \<ge> 512 \<or>
                          link = None \<and> unat (jh_size h) = length p \<or>
                          unat seq + length regular \<ge> 2 ^ 64
                       then Bad_Record else Record regular link (unat (jh_size h))))"

subsection \<open>Chains\<close>

text \<open>
  From the position \<open>(e, off)\<close> and the sequence number \<open>q\<close> the records hold the entries \<open>js\<close>, link the
  extents \<open>es\<close> one after the other, and lead to the position \<open>(e', off')\<close> and the number \<open>q'\<close>.
\<close>

inductive chain ::
    "device \<Rightarrow> cyanfs_uuid_t \<Rightarrow> cyanfs_extent_id \<Rightarrow> nat \<Rightarrow> u64 \<Rightarrow> journal_entry list \<Rightarrow>
      cyanfs_extent_id list \<Rightarrow> cyanfs_extent_id \<Rightarrow> nat \<Rightarrow> u64 \<Rightarrow> bool" for dev uuid where
  Chain_End: "chain dev uuid e off q [] [] e off q"
| Chain_Record: "read_record uuid q (drop off (extent_bytes dev e)) = Record js None sz \<Longrightarrow>
    chain dev uuid e (off + sz) (q + of_nat (length js)) ks es e' off' q' \<Longrightarrow>
    chain dev uuid e off q (js @ ks) es e' off' q'"
| Chain_Link: "read_record uuid q (drop off (extent_bytes dev e)) = Record js (Some f) sz \<Longrightarrow>
    chain dev uuid f 0 (q + of_nat (length js)) ks es e' off' q' \<Longrightarrow>
    chain dev uuid e off q (js @ ks) (f # es) e' off' q'"

inductive_cases chain_nilE: "chain dev uuid e off q js [] e' off' q'"

lemma chain_append:
  assumes "chain dev uuid e off q js es e' off' q'" "chain dev uuid e' off' q' ks fs e'' off'' q''"
  shows "chain dev uuid e off q (js @ ks) (es @ fs) e'' off'' q''"
  using assms
proof (induction rule: chain.induct)
  case (Chain_Record q off e js sz ls es e' off' q')
  then show ?case using chain.Chain_Record [OF Chain_Record.hyps(1)] by simp
next
  case (Chain_Link q off e js f sz ls es e' off' q')
  then show ?case using chain.Chain_Link [OF Chain_Link.hyps(1)] by simp
qed simp

subsection \<open>The checks of the loader in these terms\<close>

lemma is_link_cases: "is_link j \<longleftrightarrow> (\<exists>b. j = JNEXT b)"
  by (cases j) auto

lemma validate_entries_decode:
  "validate_entries n k p =
     (case decode_entries n p of
        None \<Rightarrow> None
      | Some (js, rest) \<Rightarrow>
          if list_ex is_link (butlast js) then None
          else Some (k + of_nat (length (filter (\<lambda>j. \<not> is_link j) js)),
                     if js \<noteq> [] \<and> is_link (last js) then Some (link_of (last js)) else None, rest))"
proof (induction n arbitrary: k p)
  case (Suc n)
  show ?case
  proof (cases "cyanfs_journal_decode_entry_checked p")
    case (Some v)
    obtain j r where v: "v = (j, r)" by (cases v)
    show ?thesis
    proof (cases "decode_entries n r")
      case None
      then show ?thesis using Some v Suc [of "k + 1" r]
        by (cases n) (auto split: journal_entry.split)
    next
      case D: (Some w)
      obtain js rest where w: "w = (js, rest)" by (cases w)
      have "n = 0 \<longleftrightarrow> js = []" using D w by (cases n) (auto split: option.splits prod.splits)
      then show ?thesis
        using Some v D w Suc [of "k + 1" r]
        by (cases "is_link j") (auto simp: is_link_cases split: journal_entry.split)
    qed
  qed simp
qed simp

fun parse_all :: "'a loader_parser \<Rightarrow> journal_entry list \<Rightarrow> 'a \<Rightarrow> bool \<times> 'a" where
  "parse_all parser [] a = (True, a)"
| "parse_all parser (j # js) a =
     (case parser j a of
        (Ok, a) \<Rightarrow> parse_all parser js a
      | (_, a) \<Rightarrow> (False, a))"

lemma parse_all_append:
  "parse_all parser (js @ ks) a =
     (case parse_all parser js a of (True, a) \<Rightarrow> parse_all parser ks a | (False, a) \<Rightarrow> (False, a))"
  by (induction js arbitrary: a) (auto split: prod.splits cyanfs_status.splits)

lemma loader_link_parse: "loader_link parser is a = parse_all parser (map JNEXT is) a"
  by (induction "is" arbitrary: a) (auto split: prod.splits cyanfs_status.splits)

lemma loader_entries_decode:
  "decode_entries n p = Some (js, rest) \<Longrightarrow>
     loader_entries parser n p a = parse_all parser (filter (\<lambda>j. \<not> is_link j) js) a"
proof (induction n arbitrary: p js a)
  case (Suc n)
  then obtain j r js' where d: "cyanfs_journal_decode_entry_checked p = Some (j, r)"
      "decode_entries n r = Some (js', rest)" "js = j # js'"
    by (auto split: option.splits)
  show ?case
    using Suc.IH [OF d(2)] d
    by (cases j) (auto split: prod.splits cyanfs_status.splits)
qed simp

lemma decode_entries_length: "decode_entries n p = Some (js, rest) \<Longrightarrow> length js = n"
  by (induction n arbitrary: p js) (auto split: option.splits)

lemma decode_header_fields:
  assumes "15 \<le> length p"
  shows "cyanfs_journal_decode_header_checked p =
    Some \<lparr>jh_crc32 = le_value (take 4 p), jh_seq = le_value (take 8 (drop 4 p)),
          jh_size = push_bit 9 (ucast (p ! 14)), jh_count = le_value (take 2 (drop 12 p))\<rparr>"
proof -
  have "drop 14 p = p ! 14 # drop 15 p" using assms Cons_nth_drop_Suc [of 14 p] by simp
  then show ?thesis
    using assms
    by (simp add: cyanfs_journal_decode_header_checked_def CYANFS_JOURNAL_HEADER_SIZE_def cyanfs_get32_def
        cyanfs_get64_def cyanfs_get16_def cyanfs_get8_def cyanfs_get_generic_def)
qed

lemma decode_header_short: "length p < 15 \<Longrightarrow> cyanfs_journal_decode_header_checked p = None"
  by (simp add: cyanfs_journal_decode_header_checked_def CYANFS_JOURNAL_HEADER_SIZE_def)

lemma decode_header_take:
  assumes "15 \<le> k"
  shows "cyanfs_journal_decode_header_checked (take k p) = cyanfs_journal_decode_header_checked p"
proof (cases "15 \<le> length p")
  case True
  then show ?thesis using assms by (simp add: decode_header_fields drop_take min_def)
next
  case False
  then show ?thesis using decode_header_short [of "take k p"] decode_header_short [of p] by simp
qed

lemma record_sum_take:
  assumes "unat sz \<le> k"
  shows "record_sum uuid (take k p) sz = record_sum uuid p sz"
  using assms by (simp add: record_sum_def drop_take min_def)

subsection \<open>One round of the loader reads one record\<close>

text \<open>
  The page holds the bytes of the extent from \<open>off - d\<close> on, and the loader is at \<open>off\<close>.
\<close>

definition page_at :: "u8 list \<Rightarrow> nat \<Rightarrow> nat \<Rightarrow> u8 list \<Rightarrow> bool" where
  "page_at ext off d page \<longleftrightarrow>
     length ext = 2 ^ 20 \<and> 512 dvd off \<and> off \<le> 2 ^ 20 \<and> 512 dvd d \<and> d \<le> off \<and> d < 65536 \<and>
     page = take 65536 (drop (off - d) ext)"

definition record_fits :: "nat \<Rightarrow> u8 list \<Rightarrow> bool" where
  "record_fits d p \<longleftrightarrow>
     (\<forall>h. cyanfs_journal_decode_header_checked p = Some h \<longrightarrow> unat (jh_size h) \<le> 65536 \<longrightarrow>
        unat (jh_size h) \<le> length p \<longrightarrow> d + unat (jh_size h) \<le> 65536)"

definition advance :: "nat \<Rightarrow> nat \<Rightarrow> journal_loader \<Rightarrow> journal_loader" where
  "advance k sz t =
     t\<lparr>ld_cursor := (ld_cursor t)\<lparr>jc_seq := jc_seq (ld_cursor t) + of_nat k,
        jc_extent_off := jc_extent_off (ld_cursor t) + of_nat sz\<rparr>\<rparr>"

lemma page_at_rest: "page_at ext off d page \<Longrightarrow> drop d page = take (65536 - d) (drop off ext)"
  by (simp add: page_at_def drop_take)

lemma page_at_first: "page_at ext off d page \<Longrightarrow> page_at ext off 0 (take 65536 (drop off ext))"
  by (simp add: page_at_def)

lemma record_fits_first: "record_fits 0 p"
  by (simp add: record_fits_def)

definition with_seq :: "nat \<Rightarrow> journal_loader \<Rightarrow> journal_loader" where
  "with_seq k t = t\<lparr>ld_cursor := (ld_cursor t)\<lparr>jc_seq := jc_seq (ld_cursor t) + of_nat k\<rparr>\<rparr>"

definition link_follow ::
    "malloc \<Rightarrow> u32 \<Rightarrow> cyanfs_extent_id option \<Rightarrow> journal_loader \<Rightarrow> cyanfs_status \<times> bool \<times> journal_loader" where
  "link_follow mem n link t =
     (case link of
        None \<Rightarrow> (Ok, False, t)
      | Some f \<Rightarrow>
          if ld_end_id t \<noteq> cyanfs_extent_id_invalid \<and> f = ld_end_id t then (Ok, False, t)
          else journal_loader_prepare_extent mem n f t)"

definition after_record ::
    "'a loader_parser \<Rightarrow> nat \<Rightarrow> nat \<Rightarrow> nat \<Rightarrow> cyanfs_extent_id option \<Rightarrow> bool \<Rightarrow> bool \<Rightarrow> journal_loader \<Rightarrow> 'a \<Rightarrow>
       'a loader_result + nat \<times> journal_loader \<times> 'a" where
  "after_record parser d k sz link at_end new_set t a =
     (case link of
        Some f \<Rightarrow>
          Inl (if at_end then journal_loader_end parser False (with_seq k t) a
               else journal_loader_commit_extent f new_set (with_seq k t) a)
      | None \<Rightarrow>
          if d + sz = 65536 then Inl (journal_loader_read_page (advance k sz t) a)
          else Inr (d + sz, advance k sz t, a))"

text \<open>What a round does with the record it finds.\<close>

definition round_on ::
    "'a loader_parser \<Rightarrow> malloc \<Rightarrow> u32 \<Rightarrow> record_view \<Rightarrow> nat \<Rightarrow> journal_loader \<Rightarrow> 'a \<Rightarrow>
       'a loader_result + nat \<times> journal_loader \<times> 'a" where
  "round_on parser mem n r d t a =
     (case r of
        No_Record \<Rightarrow> Inl (loader_stop parser t a)
      | Bad_Record \<Rightarrow> Inl (journal_loader_end parser True t a)
      | Record js link sz \<Rightarrow>
          (let (err, new_set, t') = link_follow mem n link t
           in if err \<noteq> Ok then Inl (journal_loader_end parser True t' a)
              else
                (let (parsed, a) = parse_all parser js a
                 in if \<not> parsed then Inl (journal_loader_end parser True t' a)
                    else after_record parser d (length js) sz link
                           (ld_end_id t \<noteq> cyanfs_extent_id_invalid \<and> link = Some (ld_end_id t)) new_set t' a)))"

lemma validate_record_decode:
  "cyanfs_journal_validate_record p cnt =
     (case decode_entries (unat cnt) p of
        None \<Rightarrow> None
      | Some (js, rest) \<Rightarrow>
          if js = [] \<or> list_ex is_link (butlast js) \<or> length rest \<ge> 512 then None
          else Some (of_nat (length (filter (\<lambda>j. \<not> is_link j) js)),
                     if is_link (last js) then Some (link_of (last js)) else None))"
proof -
  have "unat cnt = 0 \<longleftrightarrow> js = []" if "decode_entries (unat cnt) p = Some (js, rest)" for js rest
    using decode_entries_length [OF that] by auto
  then show ?thesis
    by (auto simp: cyanfs_journal_validate_record_def validate_entries_decode journal_size_values
        unat_eq_zero split: option.splits)
qed

lemma regular_count:
  assumes "decode_entries (unat (cnt :: u16)) p = Some (js, rest)"
  shows "(ucast (of_nat (length (filter P js)) :: u16) :: u64) = of_nat (length (filter P js))"
proof -
  have "length (filter P js) < 2 ^ 16"
    using decode_entries_length [OF assms] length_filter_le [of P js] unat_bounds(2) [of cnt] by linarith
  then show ?thesis by (simp add: word_unat_eq_iff unat_ucast_mod unat_of_nat)
qed

lemma seq_room:
  fixes q :: u64
  assumes "k < 2 ^ 64"
  shows "of_nat k > - 1 - q \<longleftrightarrow> unat q + k \<ge> 2 ^ 64"
proof -
  have "unat (- 1 - q) = 2 ^ 64 - 1 - unat q"
    using unat_bounds(5) [of q] by (subst unat_diff_no_wrap) (simp_all add: unsigned_minus_1_eq_mask mask_eq_exp_minus_1)
  then show ?thesis
    using assms unat_bounds(5) [of q] by (auto simp: word_less_nat_alt unat_of_nat)
qed

lemma record_round:
  assumes pg: "page_at ext off d page" and fits: "record_fits d (drop off ext)"
    and pos: "unat (jc_extent_off (ld_cursor t)) = off"
  shows "loader_record parser mem n page d t a =
    round_on parser mem n (read_record (sh_uuid (ld_header t)) (jc_seq (ld_cursor t)) (drop off ext)) d t a"
proof -
  define P where "P = drop off ext"
  define p where "p = drop d page"
  have d: "d + 512 \<le> 65536" using pg by (auto simp: page_at_def elim!: dvdE)
  have off: "off = 2 ^ 20 \<or> off + 512 \<le> 2 ^ 20" using pg by (auto simp: page_at_def elim!: dvdE)
  have lenP: "length P = 2 ^ 20 - off" using pg by (simp add: P_def page_at_def)
  have p: "p = take (65536 - d) P" using page_at_rest [OF pg] by (simp add: p_def P_def)
  show ?thesis
  proof (cases "off = 2 ^ 20")
    case True
    then have "P = []" "p = []" using lenP p by simp_all
    then show ?thesis
      unfolding P_def [symmetric] by (simp add: loader_record_def p_def [symmetric] round_on_def read_record_def decode_header_short)
  next
    case False
    then have lens: "512 \<le> length P" "p \<noteq> []" using off lenP p d by auto
    have decp: "cyanfs_journal_decode_header_checked p = cyanfs_journal_decode_header_checked P"
      using d by (simp add: p decode_header_take)
    obtain h where h: "cyanfs_journal_decode_header_checked P = Some h"
      using decode_header_fields [of P] lens by auto
    let ?c = "ld_cursor t" and ?sz = "unat (jh_size h)"
    have sum: "unat (jc_extent_off ?c + jh_size h) = off + ?sz"
      using decode_header_size(2) [OF h] pos pg by (subst unat_add_no_wrap) (auto simp: page_at_def)
    have over: "jc_extent_off ?c + jh_size h > CYANFS_EXTENT_SIZE \<longleftrightarrow> ?sz > length P"
      using pg by (auto simp: word_less_nat_alt sum size_values lenP page_at_def)
    show ?thesis
    proof (cases "jh_size h < CYANFS_JOURNAL_HEADER_SIZE \<or> jh_size h > CYANFS_JOURNAL_PAGE_SIZE \<or> ?sz > length P")
      case True
      then show ?thesis
        unfolding P_def [symmetric] using over
        by (simp add: loader_record_def p_def [symmetric] lens decp h round_on_def read_record_def) blast
    next
      case False
      then have "?sz \<le> 65536" "?sz \<le> length P" by (simp_all add: journal_size_values word_less_nat_alt)
      then have sz: "?sz \<le> 65536 - d" "?sz \<le> length p"
        using fits h by (fastforce simp: record_fits_def P_def [symmetric] p)+
      have body: "take ?sz p = take ?sz P" "record_sum u p (jh_size h) = record_sum u P (jh_size h)" for u
        using sz by (simp_all add: p record_sum_take min_def)
      have full: "jh_size h = CYANFS_EXTENT_SIZE - jc_extent_off ?c \<longleftrightarrow> ?sz = length P"
      proof -
        have "unat (CYANFS_EXTENT_SIZE - jc_extent_off ?c) = length P"
          using pos pg by (subst unat_diff_no_wrap) (simp_all add: size_values lenP page_at_def)
        then show ?thesis by (metis word_unat_eq_iff)
      qed
      have ok: "\<not> jh_size h < CYANFS_JOURNAL_HEADER_SIZE" "\<not> jh_size h > CYANFS_JOURNAL_PAGE_SIZE"
          "\<not> jc_extent_off ?c + jh_size h > CYANFS_EXTENT_SIZE" "\<not> length p < ?sz" "\<not> length P < ?sz"
        using False over sz(2) by auto
      show ?thesis
      proof (cases "record_sum (sh_uuid (ld_header t)) P (jh_size h) = jh_crc32 h \<and> jh_seq h = jc_seq ?c")
        case False
        then show ?thesis
          unfolding P_def [symmetric] using ok body(2)
          by (cases "record_sum (sh_uuid (ld_header t)) P (jh_size h) = jh_crc32 h")
            (simp_all add: loader_record_def p_def [symmetric] lens decp h round_on_def read_record_def Let_def)
      next
        case True
        note head = ok lens decp h body full True [THEN conjunct1] True [THEN conjunct2]
        show ?thesis
        proof (cases "decode_entries (unat (jh_count h)) (drop 15 (take ?sz P))")
          case None
          then show ?thesis
            unfolding P_def [symmetric]
            by (simp add: loader_record_def p_def [symmetric] head round_on_def read_record_def
                validate_record_decode journal_size_values(4))
        next
          case (Some v)
          obtain js rest where v: "v = (js, rest)" by (cases v)
          let ?reg = "filter (\<lambda>j. \<not> is_link j) js"
          have "length ?reg < 2 ^ 64"
            using decode_entries_length [OF Some [unfolded v]] length_filter_le [of "\<lambda>j. \<not> is_link j" js]
              unat_bounds(2) [of "jh_count h"] by simp
          note room = seq_room [OF this, of "jc_seq ?c"]
          define link where "link = (if is_link (last js) then Some (link_of (last js)) else None)"
          note facts = head Some [unfolded v] regular_count [OF Some [unfolded v]] room
            loader_entries_decode [OF Some [unfolded v]] journal_size_values(4)
          show ?thesis
          proof (cases "js = [] \<or> list_ex is_link (butlast js) \<or> length rest \<ge> 512 \<or>
              link = None \<and> ?sz = length P \<or> unat (jc_seq ?c) + length ?reg \<ge> 2 ^ 64")
            case True
            then show ?thesis
              unfolding P_def [symmetric]
              by (auto simp: loader_record_def p_def [symmetric] facts round_on_def read_record_def
                  validate_record_decode link_def Let_def)
          next
            case False
            then have n: "js \<noteq> []" "\<not> list_ex is_link (butlast js)" "\<not> length rest \<ge> 512"
                "\<not> - 1 - jc_seq ?c < of_nat (length ?reg)" "\<not> unat (jc_seq ?c) + length ?reg \<ge> 2 ^ 64"
                "link = None \<Longrightarrow> ?sz \<noteq> length P"
              using room by blast+
            obtain parsed a' where pa: "parse_all parser ?reg a = (parsed, a')" by (cases "parse_all parser ?reg a")
            note unfold = loader_record_def p_def [symmetric] head Some [unfolded v]
              regular_count [OF Some [unfolded v]] loader_entries_decode [OF Some [unfolded v]]
              journal_size_values(3,4) round_on_def read_record_def pa validate_record_decode
              link_follow_def after_record_def with_seq_def advance_def
            show ?thesis
            proof (cases "is_link (last js)")
              case True
              obtain err new_set t' where "journal_loader_prepare_extent mem n (link_of (last js)) t = (err, new_set, t')"
                by (cases "journal_loader_prepare_extent mem n (link_of (last js)) t")
              then show ?thesis
                unfolding P_def [symmetric] using n(1-5) True ok
                by (simp add: unfold Let_def)
            next
              case False
              then have "?sz \<noteq> length P" using n(6) by (simp add: link_def)
              then show ?thesis
                unfolding P_def [symmetric] using n(1-5) False ok
                by (simp add: unfold Let_def)
            qed
          qed
        qed
      qed
    qed
  qed
qed

lemma read_record_size:
  assumes "read_record uuid q p = Record js link sz"
  shows "512 dvd sz" "0 < sz" "sz \<le> length p" "sz \<le> 65536" "link = None \<Longrightarrow> sz \<noteq> length p"
    "unat q + length js < 2 ^ 64"
proof -
  obtain h where h: "cyanfs_journal_decode_header_checked p = Some h"
    using assms by (auto simp: read_record_def split: option.splits)
  note D = assms [unfolded read_record_def h option.case]
  have "sz = unat (jh_size h)" "\<not> jh_size h < CYANFS_JOURNAL_HEADER_SIZE" "\<not> jh_size h > CYANFS_JOURNAL_PAGE_SIZE"
      "sz \<le> length p" "link = None \<longrightarrow> sz \<noteq> length p" "unat q + length js < 2 ^ 64"
    using D by (auto simp: Let_def split: if_splits option.splits prod.splits)
  then show "512 dvd sz" "0 < sz" "sz \<le> length p" "sz \<le> 65536" "link = None \<Longrightarrow> sz \<noteq> length p"
      "unat q + length js < 2 ^ 64"
    using decode_header_size [OF h] header_size_pos [of "jh_size h"]
    by (simp_all add: journal_size_values word_less_nat_alt)
qed

lemma round_reread:
  assumes pg: "page_at ext off d page" and "\<not> record_fits d (drop off ext)"
    and pos: "unat (jc_extent_off (ld_cursor t)) = off"
  shows "loader_record parser mem n page d t a = Inl (journal_loader_read_page t a)"
proof -
  obtain h where h: "cyanfs_journal_decode_header_checked (drop off ext) = Some h" "unat (jh_size h) \<le> 65536"
      "unat (jh_size h) \<le> length (drop off ext)" "d + unat (jh_size h) > 65536"
    using assms(2) by (auto simp: record_fits_def not_le)
  have d: "d + 512 \<le> 65536" "d \<noteq> 0" using pg h by (auto simp: page_at_def elim!: dvdE)
  have p: "drop d page = take (65536 - d) (drop off ext)" by (rule page_at_rest [OF pg])
  have "512 \<le> unat (jh_size h)" using decode_header_size(1) [OF h(1)] h(4) d by (auto elim!: dvdE)
  then have "drop d page \<noteq> []" "length (drop d page) < unat (jh_size h)" "jh_size h \<ge> CYANFS_JOURNAL_HEADER_SIZE"
    using p h d by (auto simp: journal_size_values word_le_nat_alt)
  moreover have "cyanfs_journal_decode_header_checked (drop d page) = Some h"
    using d p h by (simp add: decode_header_take)
  moreover have "\<not> jc_extent_off (ld_cursor t) + jh_size h > CYANFS_EXTENT_SIZE"
  proof -
    have "unat (jc_extent_off (ld_cursor t) + jh_size h) = off + unat (jh_size h)"
      using pg pos h(2) by (subst unat_add_no_wrap) (auto simp: page_at_def)
    then show ?thesis using pg h(3) by (auto simp: word_less_nat_alt size_values page_at_def)
  qed
  moreover have "\<not> jh_size h > CYANFS_JOURNAL_PAGE_SIZE"
    using h(2) by (simp add: journal_size_values word_less_nat_alt)
  ultimately show ?thesis using d(2) by (auto simp: loader_record_def Let_def)
qed

subsection \<open>The loader on a device\<close>

definition at_pos :: "u32 \<Rightarrow> journal_loader \<Rightarrow> cyanfs_extent_id \<Rightarrow> nat \<Rightarrow> u64 \<Rightarrow> bool" where
  "at_pos n t e off q \<longleftrightarrow>
     jc_extent_id (ld_cursor t) = e \<and> e < n \<and> unat (jc_extent_off (ld_cursor t)) = off \<and>
     jc_seq (ld_cursor t) = q \<and> 512 dvd off \<and> off \<le> 2 ^ 20"

definition with_page :: "u8 list \<Rightarrow> journal_loader \<Rightarrow> journal_loader" where
  "with_page page t = t\<lparr>ld_cursor := (ld_cursor t)
     \<lparr>jc_page := page @ drop (length page) (jc_page (ld_cursor t))\<rparr>\<rparr>"

lemma with_page_fields [simp]:
  "ld_header (with_page page t) = ld_header t" "ld_end_id (with_page page t) = ld_end_id t"
  "ld_journals (with_page page t) = ld_journals t" "ld_visited (with_page page t) = ld_visited t"
  "at_pos n (with_page page t) e off q = at_pos n t e off q" "loader_ok n (with_page page t) = loader_ok n t"
  by (simp_all add: with_page_def at_pos_def loader_ok_def)

lemma read_page_step:
  assumes "device_has n dev" "at_pos n t e off q"
  shows "loader_run parser mem n (device_read dev) k (journal_loader_read_page t a) =
    loader_run parser mem n (device_read dev) (Suc k)
      (loader_records parser mem n (take 65536 (drop off (extent_bytes dev e))) 0
        (with_page (take 65536 (drop off (extent_bytes dev e))) t) a)"
proof -
  let ?c = "ld_cursor t"
  have pos: "jc_extent_id ?c = e" "unat (jc_extent_off ?c) = off" "off \<le> 2 ^ 20" "e < n"
    using assms(2) by (simp_all add: at_pos_def)
  define len where "len = (if CYANFS_EXTENT_SIZE - jc_extent_off ?c > CYANFS_JOURNAL_PAGE_SIZE
    then CYANFS_JOURNAL_PAGE_SIZE else CYANFS_EXTENT_SIZE - jc_extent_off ?c)"
  have "unat (CYANFS_EXTENT_SIZE - jc_extent_off ?c) = 2 ^ 20 - off"
    using pos by (subst unat_diff_no_wrap) (simp_all add: size_values)
  then have len: "unat len = min 65536 (2 ^ 20 - off)"
    by (simp add: len_def journal_size_values word_less_nat_alt min_def)
  have "device_read dev k (cyanfs_map_extent_offset (jc_extent_id ?c) (jc_extent_off ?c)) len =
      (Ok, take 65536 (drop off (extent_bytes dev e)))"
  proof (cases "off = 2 ^ 20")
    case True
    then show ?thesis using len by (simp add: device_read_def extent_bytes_def)
  next
    case False
    then show ?thesis
      using len pos by (simp add: device_read_def map_extent_offset_nat extent_bytes_def drop_take add_ac)
  qed
  then show ?thesis
    by (simp add: journal_loader_read_page_def Let_def len_def [symmetric])
      (subst loader_run.simps, simp add: journal_loader_parser_page_def with_page_def)
qed

text \<open>
  Before it looks at a record, the loader reads again when the page does not hold all of it.
\<close>

lemma page_with_record:
  assumes "device_has n dev" "at_pos n t e off q" "page_at (extent_bytes dev e) off d page"
  obtains k' page' d' t' where
    "loader_run parser mem n (device_read dev) k (loader_records parser mem n page d t a) =
     loader_run parser mem n (device_read dev) k' (loader_records parser mem n page' d' t' a)"
    "page_at (extent_bytes dev e) off d' page'" "record_fits d' (drop off (extent_bytes dev e))"
    "t' = t \<or> (\<exists>p. t' = with_page p t)"
proof (cases "record_fits d (drop off (extent_bytes dev e))")
  case False
  let ?p = "take 65536 (drop off (extent_bytes dev e))"
  have "loader_records parser mem n page d t a = journal_loader_read_page t a"
    using round_reread [OF assms(3) False, of t parser mem n a] assms(2) by (simp add: loader_records.simps at_pos_def)
  then show ?thesis
    using that [of "Suc k" ?p 0 "with_page ?p t"] read_page_step [OF assms(1,2), of parser mem k a]
      page_at_first [OF assms(3)] record_fits_first by auto
qed (use that assms in blast)

text \<open>The loader at a position of a chain, in the middle of a page or at its start.\<close>

definition loading_at ::
    "u32 \<Rightarrow> device \<Rightarrow> super_header \<Rightarrow> cyanfs_extent_id \<Rightarrow> cyanfs_extent_id list \<Rightarrow> cyanfs_extent_id \<Rightarrow> nat \<Rightarrow> u64 \<Rightarrow>
      u8 list \<Rightarrow> nat \<Rightarrow> journal_loader \<Rightarrow> bool" where
  "loading_at n dev h end_id es e off q page d t \<longleftrightarrow>
     at_pos n t e off q \<and> page_at (extent_bytes dev e) off d page \<and> loader_ok n t \<and>
     ld_header t = h \<and> ld_end_id t = end_id \<and> concat (ld_journals t) = es"

lemma loading_at_page: "loading_at n dev h end_id es e off q page d t \<Longrightarrow>
    page_at (extent_bytes dev e) off d' page' \<Longrightarrow> t' = t \<or> (\<exists>p. t' = with_page p t) \<Longrightarrow>
    loading_at n dev h end_id es e off q page' d' t'"
  by (auto simp: loading_at_def)

lemma extent_not_invalid: "f < n \<Longrightarrow> f \<noteq> cyanfs_extent_id_invalid" for f n :: cyanfs_extent_id
  by (auto simp: cyanfs_extent_id_invalid_def)

lemma link_follow_fresh:
  assumes "\<forall>i. mem i" "loader_ok n t" "f < n" "f \<notin> set (concat (ld_journals t))" "f \<noteq> ld_end_id t"
  obtains new_set m where "link_follow mem n (Some f) t = (Ok, new_set, t\<lparr>ld_allocs := m\<rparr>)"
    "journal_loader_prepare_extent mem n f t = (Ok, new_set, t\<lparr>ld_allocs := m\<rparr>)"
proof -
  have "idx_find (ld_visited t) f = None" using assms(2,4) unfolding loader_ok_def by blast
  then have "\<exists>new_set m. journal_loader_prepare_extent mem n f t = (Ok, new_set, t\<lparr>ld_allocs := m\<rparr>)"
    using assms(1,3) extent_not_invalid [OF assms(3)]
    by (auto simp: journal_loader_prepare_extent_def Let_def not_le)
  then show ?thesis using that assms(5) by (auto simp: link_follow_def)
qed

lemma advance_pos:
  assumes "at_pos n t e off q" "512 dvd sz" "off + sz \<le> 2 ^ 20"
  shows "at_pos n (advance k sz t) e (off + sz) (q + of_nat k)"
proof -
  have "unat (jc_extent_off (ld_cursor t) + of_nat sz) = off + sz"
    using assms by (subst unat_add_no_wrap) (simp_all add: at_pos_def unat_of_nat)
  then show ?thesis using assms by (simp add: at_pos_def advance_def)
qed

lemma record_step:
  assumes dev: "device_has n dev" and at: "loading_at n dev h end_id es e off q page d t"
    and r: "read_record (sh_uuid h) q (drop off (extent_bytes dev e)) = Record js None sz"
    and parse: "parse_all parser js a = (True, a')"
  shows "\<exists>k' page' d' t'.
    loader_run parser mem n (device_read dev) k (loader_records parser mem n page d t a) =
    loader_run parser mem n (device_read dev) k' (loader_records parser mem n page' d' t' a') \<and>
    loading_at n dev h end_id es e (off + sz) (q + of_nat (length js)) page' d' t'"
proof -
  have "at_pos n t e off q" "page_at (extent_bytes dev e) off d page" using at by (simp_all add: loading_at_def)
  then obtain k1 page1 d1 t1 where
    run: "loader_run parser mem n (device_read dev) k (loader_records parser mem n page d t a) =
      loader_run parser mem n (device_read dev) k1 (loader_records parser mem n page1 d1 t1 a)"
    and fits: "page_at (extent_bytes dev e) off d1 page1" "record_fits d1 (drop off (extent_bytes dev e))"
      "t1 = t \<or> (\<exists>p. t1 = with_page p t)"
    by (rule page_with_record [OF dev])
  have at1: "loading_at n dev h end_id es e off q page1 d1 t1" by (rule loading_at_page [OF at fits(1,3)])
  then have pos: "at_pos n t1 e off q" "ld_header t1 = h" by (simp_all add: loading_at_def)
  let ?t = "advance (length js) sz t1"
  have ext: "length (drop off (extent_bytes dev e)) = 2 ^ 20 - off" "off \<le> 2 ^ 20"
    using fits(1) by (simp_all add: page_at_def)
  note sz = read_record_size [OF r]
  have room: "off + sz \<le> 2 ^ 20" using sz(3) ext by linarith
  have fitsz: "d1 + sz \<le> 65536"
  proof -
    obtain h' where "cyanfs_journal_decode_header_checked (drop off (extent_bytes dev e)) = Some h'" "unat (jh_size h') = sz"
      using r by (auto simp: read_record_def Let_def split: option.splits if_splits)
    then show ?thesis using fits(2) sz(3,4) by (auto simp: record_fits_def)
  qed
  have round: "loader_record parser mem n page1 d1 t1 a =
      (if d1 + sz = 65536 then Inl (journal_loader_read_page ?t a') else Inr (d1 + sz, ?t, a'))"
    using record_round [OF fits(1,2), of t1 parser mem n a] pos r parse
    by (simp add: at_pos_def round_on_def link_follow_def after_record_def)
  have pos': "at_pos n ?t e (off + sz) (q + of_nat (length js))" by (rule advance_pos [OF pos(1) sz(1) room])
  have keep: "loader_ok n ?t" "ld_header ?t = h" "ld_end_id ?t = end_id" "concat (ld_journals ?t) = es"
    using at1 loader_ok_cong [of ?t t1 n] by (simp_all add: loading_at_def advance_def)
  show ?thesis
  proof (cases "d1 + sz = 65536")
    case True
    let ?p = "take 65536 (drop (off + sz) (extent_bytes dev e))"
    have "page_at (extent_bytes dev e) (off + sz) 0 ?p"
      using fits(1) pos' by (simp add: page_at_def at_pos_def)
    then show ?thesis
      using run round True read_page_step [OF dev pos', of parser mem k1 a'] keep pos'
      by (intro exI [of _ "Suc k1"] exI [of _ ?p] exI [of _ 0] exI [of _ "with_page ?p ?t"])
        (simp add: loader_records.simps [of parser mem n page1 d1] loading_at_def)
  next
    case False
    have "page_at (extent_bytes dev e) (off + sz) (d1 + sz) page1"
      using fits(1) pos' sz(1) False fitsz by (auto simp: page_at_def at_pos_def)
    then show ?thesis
      using run round False keep pos'
      by (intro exI [of _ k1] exI [of _ page1] exI [of _ "d1 + sz"] exI [of _ ?t])
        (simp add: loader_records.simps [of parser mem n page1 d1] loading_at_def)
  qed
qed

lemma link_step:
  assumes dev: "device_has n dev" and at: "loading_at n dev h end_id es e off q page d t"
    and r: "read_record (sh_uuid h) q (drop off (extent_bytes dev e)) = Record js (Some f) sz"
    and parse: "parse_all parser js a = (True, a')"
    and f: "f < n" "f \<notin> set es" "f \<noteq> end_id" and mem: "\<forall>i. mem i"
  shows "\<exists>k' page' d' t'.
    loader_run parser mem n (device_read dev) k (loader_records parser mem n page d t a) =
    loader_run parser mem n (device_read dev) k' (loader_records parser mem n page' d' t' a') \<and>
    loading_at n dev h end_id (es @ [f]) f 0 (q + of_nat (length js)) page' d' t'"
proof -
  have "at_pos n t e off q" "page_at (extent_bytes dev e) off d page" using at by (simp_all add: loading_at_def)
  then obtain k1 page1 d1 t1 where
    run: "loader_run parser mem n (device_read dev) k (loader_records parser mem n page d t a) =
      loader_run parser mem n (device_read dev) k1 (loader_records parser mem n page1 d1 t1 a)"
    and fits: "page_at (extent_bytes dev e) off d1 page1" "record_fits d1 (drop off (extent_bytes dev e))"
      "t1 = t \<or> (\<exists>p. t1 = with_page p t)"
    by (rule page_with_record [OF dev])
  have at1: "loading_at n dev h end_id es e off q page1 d1 t1" by (rule loading_at_page [OF at fits(1,3)])
  then have pos: "at_pos n t1 e off q" "ld_header t1 = h" "loader_ok n t1" "concat (ld_journals t1) = es"
      "ld_end_id t1 = end_id"
    by (simp_all add: loading_at_def)
  obtain new_set m where lf: "link_follow mem n (Some f) t1 = (Ok, new_set, t1\<lparr>ld_allocs := m\<rparr>)"
      "journal_loader_prepare_extent mem n f t1 = (Ok, new_set, t1\<lparr>ld_allocs := m\<rparr>)"
    using link_follow_fresh [OF mem pos(3) f(1)] f(2,3) pos(4,5) by metis
  let ?t = "with_seq (length js) (t1\<lparr>ld_allocs := m\<rparr>)"
  have round: "loader_record parser mem n page1 d1 t1 a = Inl (journal_loader_commit_extent f new_set ?t a')"
    using record_round [OF fits(1,2), of t1 parser mem n a] pos r parse lf(1) f(3)
    by (simp add: at_pos_def round_on_def after_record_def)
  obtain u where u: "journal_loader_commit_extent f new_set ?t a' = journal_loader_read_page u a'"
      "loader_ok n u" "ld_header u = ld_header ?t" "ld_end_id u = ld_end_id ?t"
      "concat (ld_journals u) = concat (ld_journals ?t) @ [f]"
      "ld_cursor u = (ld_cursor ?t)\<lparr>jc_extent_off := 0, jc_extent_id := f\<rparr>"
    using commit_extent_spec [OF pos(3) lf(2), of ?t a'] by (auto simp: with_seq_def)
  have pos': "at_pos n u f 0 (q + of_nat (length js))"
    using pos(1) f(1) by (simp add: at_pos_def u(6) with_seq_def)
  let ?p = "take 65536 (drop 0 (extent_bytes dev f))"
  have "page_at (extent_bytes dev f) 0 0 ?p" using length_extent_bytes [OF dev f(1)] by (simp add: page_at_def)
  then have "loading_at n dev h end_id (es @ [f]) f 0 (q + of_nat (length js)) ?p 0 (with_page ?p u)"
    using u pos pos' by (simp add: loading_at_def with_seq_def)
  then show ?thesis
    using run round u(1) read_page_step [OF dev pos', of parser mem k1 a']
    by (intro exI [of _ "Suc k1"] exI [of _ ?p] exI [of _ 0] exI [of _ "with_page ?p u"])
      (simp add: loader_records.simps [of parser mem n page1 d1])
qed

lemma chain_loads:
  assumes "chain dev (sh_uuid h) e off q js es e' off' q'" "device_has n dev" "\<forall>i. mem i"
    and "loading_at n dev h end_id fs e off q page d t" "parse_all parser js a = (True, a')"
    and "distinct (fs @ es)" "\<forall>f \<in> set es. f < n \<and> f \<noteq> end_id"
  shows "\<exists>k' page' d' t'.
    loader_run parser mem n (device_read dev) k (loader_records parser mem n page d t a) =
    loader_run parser mem n (device_read dev) k' (loader_records parser mem n page' d' t' a') \<and>
    loading_at n dev h end_id (fs @ es) e' off' q' page' d' t'"
  using assms
proof (induction arbitrary: fs page d t a k rule: chain.induct)
  case (Chain_End e off q)
  then show ?case by auto
next
  case (Chain_Record q off e js sz ks es e' off' q')
  obtain b where b: "parse_all parser js a = (True, b)" "parse_all parser ks b = (True, a')"
    using Chain_Record.prems(4) by (auto simp: parse_all_append split: prod.splits bool.splits)
  obtain k1 page1 d1 t1 where
    s: "loader_run parser mem n (device_read dev) k (loader_records parser mem n page d t a) =
      loader_run parser mem n (device_read dev) k1 (loader_records parser mem n page1 d1 t1 b)"
      "loading_at n dev h end_id fs e (off + sz) (q + of_nat (length js)) page1 d1 t1"
    using record_step [OF Chain_Record.prems(1,3) Chain_Record.hyps(1) b(1)] by blast
  show ?case
    using Chain_Record.IH [OF Chain_Record.prems(1,2) s(2) b(2) Chain_Record.prems(5,6), of k1] s(1) by simp
next
  case (Chain_Link q off e js f sz ks es e' off' q')
  obtain b where b: "parse_all parser js a = (True, b)" "parse_all parser ks b = (True, a')"
    using Chain_Link.prems(4) by (auto simp: parse_all_append split: prod.splits bool.splits)
  have f: "f < n" "f \<notin> set fs" "f \<noteq> end_id" using Chain_Link.prems(5,6) by auto
  obtain k1 page1 d1 t1 where
    s: "loader_run parser mem n (device_read dev) k (loader_records parser mem n page d t a) =
      loader_run parser mem n (device_read dev) k1 (loader_records parser mem n page1 d1 t1 b)"
      "loading_at n dev h end_id (fs @ [f]) f 0 (q + of_nat (length js)) page1 d1 t1"
    using link_step [OF Chain_Link.prems(1,3) Chain_Link.hyps(1) b(1) f Chain_Link.prems(2)] by blast
  have "distinct ((fs @ [f]) @ es)" "\<forall>f \<in> set es. f < n \<and> f \<noteq> end_id" using Chain_Link.prems(5,6) by auto
  from Chain_Link.IH [OF Chain_Link.prems(1,2) s(2) b(2) this, of k1] s(1) show ?case by simp
qed

subsection \<open>Loading a whole journal\<close>

lemma loader_end_linked:
  assumes "parse_all parser (map JNEXT (concat (ld_journals t))) a = (True, c)"
  shows "journal_loader_end parser False t a = Loader_Finish (t\<lparr>ld_visited := idx_empty, ld_journals := []\<rparr>) c"
  using assms by (simp add: journal_loader_end_def loader_link_parse)

lemma no_record_stops:
  assumes dev: "device_has n dev" and at: "loading_at n dev h cyanfs_extent_id_invalid es e off q page d t"
    and r: "read_record (sh_uuid h) q (drop off (extent_bytes dev e)) = No_Record"
    and parse: "parse_all parser (map JNEXT es) a = (True, c)"
  shows "\<exists>t'. loader_run parser mem n (device_read dev) k (loader_records parser mem n page d t a) =
    Some (Loader_Finish t' c) \<and> at_pos n t' e off q \<and> ld_header t' = h"
proof -
  have "at_pos n t e off q" "page_at (extent_bytes dev e) off d page" using at by (simp_all add: loading_at_def)
  then obtain k1 page1 d1 t1 where
    run: "loader_run parser mem n (device_read dev) k (loader_records parser mem n page d t a) =
      loader_run parser mem n (device_read dev) k1 (loader_records parser mem n page1 d1 t1 a)"
    and fits: "page_at (extent_bytes dev e) off d1 page1" "record_fits d1 (drop off (extent_bytes dev e))"
      "t1 = t \<or> (\<exists>p. t1 = with_page p t)"
    by (rule page_with_record [OF dev])
  have at1: "loading_at n dev h cyanfs_extent_id_invalid es e off q page1 d1 t1"
    by (rule loading_at_page [OF at fits(1,3)])
  then have "loader_record parser mem n page1 d1 t1 a = Inl (journal_loader_end parser False t1 a)"
    using record_round [OF fits(1,2), of t1 parser mem n a] r
    by (simp add: loading_at_def at_pos_def round_on_def loader_stop_def)
  then show ?thesis
    using run loader_end_linked [of parser t1 a c] parse at1
    by (simp add: loader_records.simps [of parser mem n page1 d1] loader_run.simps loading_at_def at_pos_def)
qed

lemma end_record_stops:
  assumes dev: "device_has n dev" and at: "loading_at n dev h end_id es e off q page d t"
    and r: "read_record (sh_uuid h) q (drop off (extent_bytes dev e)) = Record js (Some end_id) sz"
    and end_id: "end_id \<noteq> cyanfs_extent_id_invalid"
    and parse: "parse_all parser (js @ map JNEXT es) a = (True, c)"
  shows "\<exists>t'. loader_run parser mem n (device_read dev) k (loader_records parser mem n page d t a) =
    Some (Loader_Finish t' c) \<and> jc_seq (ld_cursor t') = q + of_nat (length js) \<and> ld_header t' = h \<and>
    ld_end_id t' = end_id"
proof -
  obtain b where b: "parse_all parser js a = (True, b)" "parse_all parser (map JNEXT es) b = (True, c)"
    using parse by (auto simp: parse_all_append split: prod.splits bool.splits)
  have "at_pos n t e off q" "page_at (extent_bytes dev e) off d page" using at by (simp_all add: loading_at_def)
  then obtain k1 page1 d1 t1 where
    run: "loader_run parser mem n (device_read dev) k (loader_records parser mem n page d t a) =
      loader_run parser mem n (device_read dev) k1 (loader_records parser mem n page1 d1 t1 a)"
    and fits: "page_at (extent_bytes dev e) off d1 page1" "record_fits d1 (drop off (extent_bytes dev e))"
      "t1 = t \<or> (\<exists>p. t1 = with_page p t)"
    by (rule page_with_record [OF dev])
  have at1: "loading_at n dev h end_id es e off q page1 d1 t1" by (rule loading_at_page [OF at fits(1,3)])
  then have "loader_record parser mem n page1 d1 t1 a =
      Inl (journal_loader_end parser False (with_seq (length js) t1) b)"
    using record_round [OF fits(1,2), of t1 parser mem n a] r b end_id
    by (simp add: loading_at_def at_pos_def round_on_def link_follow_def after_record_def)
  then show ?thesis
    using run loader_end_linked [of parser "with_seq (length js) t1" b c] b at1
    by (simp add: loader_records.simps [of parser mem n page1 d1] loader_run.simps loading_at_def at_pos_def
        with_seq_def)
qed

lemma load_first_extent:
  assumes dev: "device_has n dev" and mem: "\<forall>i. mem i" and h: "cyanfs_super_parse (take 8192 dev) = Some h"
    and first: "sh_journal_id h < n" "sh_journal_id h \<noteq> ld_end_id t0"
    and t0: "loader_ok n t0" "ld_journals t0 = [[]]"
  shows "\<exists>k page t. journal_load parser mem n (device_read dev) t0 a =
      loader_run parser mem n (device_read dev) k (loader_records parser mem n page 0 t a) \<and>
    loading_at n dev h (ld_end_id t0) [sh_journal_id h] (sh_journal_id h) 0 (sh_journal_seq h) page 0 t"
proof -
  let ?f = "sh_journal_id h"
  define t1 where "t1 = (with_page (take 8192 dev) t0)\<lparr>ld_header := h,
    ld_cursor := (ld_cursor (with_page (take 8192 dev) t0))\<lparr>jc_seq := sh_journal_seq h\<rparr>\<rparr>"
  have same: "ld_journals t1 = ld_journals t0" "ld_visited t1 = ld_visited t0" "ld_end_id t1 = ld_end_id t0"
      "ld_header t1 = h" "jc_seq (ld_cursor t1) = sh_journal_seq h"
    by (simp_all add: t1_def with_page_def)
  have ok1: "loader_ok n t1" using t0 loader_ok_cong [OF same(1,2)] by blast
  obtain new_set m where prep: "journal_loader_prepare_extent mem n ?f t1 = (Ok, new_set, t1\<lparr>ld_allocs := m\<rparr>)"
    using link_follow_fresh [OF mem ok1 first(1)] same first(2) t0(2) by (metis concat.simps empty_iff list.set(1) append_Nil)
  let ?t = "t1\<lparr>ld_allocs := m\<rparr>"
  obtain u where u: "journal_loader_commit_extent ?f new_set ?t a = journal_loader_read_page u a"
      "loader_ok n u" "ld_header u = ld_header ?t" "ld_end_id u = ld_end_id ?t"
      "concat (ld_journals u) = concat (ld_journals ?t) @ [?f]"
      "ld_cursor u = (ld_cursor ?t)\<lparr>jc_extent_off := 0, jc_extent_id := ?f\<rparr>"
    using commit_extent_spec [OF ok1 prep, of ?t a] by auto
  have pos: "at_pos n u ?f 0 (sh_journal_seq h)" using first(1) same by (simp add: at_pos_def u(6))
  have "journal_loader_parser_header parser mem n Ok (take 8192 dev) t0 a = journal_loader_read_page u a"
    using h first prep u(1) unfolding t1_def with_page_def
    by (simp add: journal_loader_parser_header_def Let_def)
  then have run: "journal_load parser mem n (device_read dev) t0 a =
      loader_run parser mem n (device_read dev) 1 (journal_loader_read_page u a)"
    by (simp add: journal_load_def device_read_def size_values)
  let ?p = "take 65536 (drop 0 (extent_bytes dev ?f))"
  have "page_at (extent_bytes dev ?f) 0 0 ?p" using length_extent_bytes [OF dev first(1)] by (simp add: page_at_def)
  then have "loading_at n dev h (ld_end_id t0) [?f] ?f 0 (sh_journal_seq h) ?p 0 (with_page ?p u)"
    using u pos same t0(2) by (simp add: loading_at_def)
  then show ?thesis using run read_page_step [OF dev pos, of parser mem 1 a] by metis
qed

definition holds_journal ::
    "u32 \<Rightarrow> device \<Rightarrow> super_header \<Rightarrow> journal_entry list \<Rightarrow> cyanfs_extent_id list \<Rightarrow> cyanfs_extent_id \<Rightarrow> nat \<Rightarrow> u64 \<Rightarrow>
      bool" where
  "holds_journal n dev h js es e off q \<longleftrightarrow>
     device_has n dev \<and> cyanfs_super_parse (take 8192 dev) = Some h \<and>
     chain dev (sh_uuid h) (sh_journal_id h) 0 (sh_journal_seq h) js es e off q \<and>
     distinct (sh_journal_id h # es) \<and> (\<forall>f \<in> set (sh_journal_id h # es). f < n)"

text \<open>The whole journal is loaded when no record follows; up to an extent when a record links it.\<close>

lemma load_journal:
  assumes j: "holds_journal n dev h js es e off q"
    and fin: "read_record (sh_uuid h) q (drop off (extent_bytes dev e)) = No_Record" and mem: "\<forall>i. mem i"
    and parse: "parse_all parser (js @ map JNEXT (sh_journal_id h # es)) a = (True, c)"
  shows "\<exists>t. journal_load parser mem n (device_read dev) (cyanfs_journal_loader_init cur h0) a =
    Some (Loader_Finish t c) \<and> at_pos n t e off q \<and> ld_header t = h"
proof -
  let ?t0 = "cyanfs_journal_loader_init cur h0"
  note J = j [unfolded holds_journal_def]
  have t0: "ld_end_id ?t0 = cyanfs_extent_id_invalid" "ld_journals ?t0 = [[]]"
    by (simp_all add: cyanfs_journal_loader_init_def)
  have inv: "\<forall>f \<in> set (sh_journal_id h # es). f < n \<and> f \<noteq> cyanfs_extent_id_invalid"
    using J extent_not_invalid by metis
  obtain b where b: "parse_all parser js a = (True, b)" "parse_all parser (map JNEXT (sh_journal_id h # es)) b = (True, c)"
    using parse by (auto simp: parse_all_append split: prod.splits bool.splits)
  obtain k page t where first: "journal_load parser mem n (device_read dev) ?t0 a =
      loader_run parser mem n (device_read dev) k (loader_records parser mem n page 0 t a)"
    and at: "loading_at n dev h cyanfs_extent_id_invalid [sh_journal_id h] (sh_journal_id h) 0 (sh_journal_seq h) page 0 t"
    using load_first_extent [of n dev mem h ?t0 parser a] J mem inv t0 loader_ok_init by auto
  obtain k' page' d' t' where rest:
    "loader_run parser mem n (device_read dev) k (loader_records parser mem n page 0 t a) =
     loader_run parser mem n (device_read dev) k' (loader_records parser mem n page' d' t' b)"
    and at': "loading_at n dev h cyanfs_extent_id_invalid ([sh_journal_id h] @ es) e off q page' d' t'"
    using chain_loads [OF _ _ mem at b(1), of es e off q k] J inv by auto
  show ?thesis
    using no_record_stops [of n dev h "[sh_journal_id h] @ es" e off q page' d' t' parser b c mem k'] at' J fin b(2)
      first rest by auto
qed

lemma load_journal_until:
  assumes j: "holds_journal n dev h js es e off q"
    and fin: "read_record (sh_uuid h) q (drop off (extent_bytes dev e)) = Record ks (Some end_id) sz"
    and end_id: "end_id \<notin> set (sh_journal_id h # es)" "end_id \<noteq> cyanfs_extent_id_invalid" and mem: "\<forall>i. mem i"
    and parse: "parse_all parser (js @ ks @ map JNEXT (sh_journal_id h # es)) a = (True, c)"
  shows "\<exists>t. journal_load parser mem n (device_read dev) ((cyanfs_journal_loader_init cur h0)\<lparr>ld_end_id := end_id\<rparr>) a =
    Some (Loader_Finish t c) \<and> jc_seq (ld_cursor t) = q + of_nat (length ks) \<and> ld_header t = h \<and> ld_end_id t = end_id"
proof -
  let ?t0 = "(cyanfs_journal_loader_init cur h0)\<lparr>ld_end_id := end_id\<rparr>"
  note J = j [unfolded holds_journal_def]
  have t0: "ld_end_id ?t0 = end_id" "ld_journals ?t0 = [[]]" "loader_ok n ?t0"
    using loader_ok_init [of n cur h0] by (simp_all add: cyanfs_journal_loader_init_def loader_ok_def)
  have inv: "\<forall>f \<in> set (sh_journal_id h # es). f < n \<and> f \<noteq> end_id" using J end_id(1) by metis
  obtain b where b: "parse_all parser js a = (True, b)"
      "parse_all parser (ks @ map JNEXT (sh_journal_id h # es)) b = (True, c)"
    using parse by (subst (asm) parse_all_append) (auto split: prod.splits bool.splits)
  obtain k page t where first: "journal_load parser mem n (device_read dev) ?t0 a =
      loader_run parser mem n (device_read dev) k (loader_records parser mem n page 0 t a)"
    and at: "loading_at n dev h end_id [sh_journal_id h] (sh_journal_id h) 0 (sh_journal_seq h) page 0 t"
    using load_first_extent [of n dev mem h ?t0 parser a] J mem inv t0 by auto
  obtain k' page' d' t' where rest:
    "loader_run parser mem n (device_read dev) k (loader_records parser mem n page 0 t a) =
     loader_run parser mem n (device_read dev) k' (loader_records parser mem n page' d' t' b)"
    and at': "loading_at n dev h end_id ([sh_journal_id h] @ es) e off q page' d' t'"
    using chain_loads [OF _ _ mem at b(1), of es e off q k] J inv by auto
  show ?thesis
    using end_record_stops [of n dev h end_id "[sh_journal_id h] @ es" e off q page' d' t' ks sz parser b c mem k']
      at' J fin b(2) end_id(2) first rest by auto
qed

end
