(* ===== verification/Journal_Writer_Inv.thy ===== *)
theory Journal_Writer_Inv
  imports Journal_Writer Journal_Chain
begin

section \<open>The writer writes chains\<close>

text \<open>
  The layout of a record by the writer never fails for want of space, and the record it writes is one
  that the loader reads back, at the position of the cursor and linked as the cursor goes on.
\<close>

subsection \<open>The layout\<close>

lemma entry_size_range:
  "9 \<le> unat (cyanfs_journal_entry_size (journal_entry_type j)) \<or> is_link j"
  "unat (cyanfs_journal_entry_size (journal_entry_type j)) \<le> 145"
  "unat (cyanfs_journal_entry_size (journal_entry_type j)) \<noteq> 0"
  by (cases j; simp add: cyanfs_journal_entry_size_def)+

lemma is_next_type_link: "is_next_type j = is_link j"
  by (cases j) (simp_all add: is_next_type_def)

lemma tail_size: "CYANFS_JOURNAL_TAIL_SIZE = 5"
  by (simp add: CYANFS_JOURNAL_TAIL_SIZE_def cyanfs_journal_entry_size_def)

definition entries_size :: "journal_entry list \<Rightarrow> nat" where
  "entries_size js = sum_list (map (\<lambda>j. unat (cyanfs_journal_entry_size (journal_entry_type j))) js)"

lemma entries_size_simps [simp]:
  "entries_size [] = 0"
  "entries_size (j # js) = unat (cyanfs_journal_entry_size (journal_entry_type j)) + entries_size js"
  "entries_size (js @ ks) = entries_size js + entries_size ks"
  by (simp_all add: entries_size_def)

lemma length_encode_entries:
  "list_all entry_wf js \<Longrightarrow> length (concat (map cyanfs_journal_encode_entry js)) = entries_size js"
  by (induction js) (simp_all add: length_encode_entry)

lemma writer_select_spec:
  assumes "list_all (\<lambda>j. \<not> is_link (jn_entry j)) js" "unat used \<le> unat limit" "unat limit < 65536"
    and "9 * unat cnt \<le> unat used"
  shows "\<exists>used' cnt' k. writer_select limit used cnt fl js =
      Some (used', cnt', fl \<or> list_ex jn_flush (take k js), k = length js) \<and>
    k \<le> length js \<and> unat cnt' = unat cnt + k \<and>
    unat used' = unat used + entries_size (map jn_entry (take k js)) \<and> unat used' \<le> unat limit \<and>
    (k < length js \<longrightarrow>
      unat used' + unat (cyanfs_journal_entry_size (journal_entry_type (jn_entry (js ! k)))) > unat limit)"
  using assms
proof (induction js arbitrary: used cnt fl)
  case Nil
  then show ?case by auto
next
  case (Cons j js)
  let ?z = "cyanfs_journal_entry_size (journal_entry_type (jn_entry j))"
  have z: "9 \<le> unat ?z" "unat ?z \<le> 145" "?z \<noteq> 0" "\<not> is_next_type (jn_entry j)"
    using Cons.prems(1) entry_size_range [of "jn_entry j"] by (auto simp: is_next_type_link)
  have d: "unat (limit - used) = unat limit - unat used" using Cons.prems(2) by (simp add: unat_diff_no_wrap)
  show ?case
  proof (cases "unat ?z > unat limit - unat used")
    case True
    then have "writer_select limit used cnt fl (j # js) = Some (used, cnt, fl, 0 = length (j # js))"
      using z d by (simp add: word_less_nat_alt)
    then show ?thesis using Cons.prems(2) True by (intro exI [of _ used] exI [of _ cnt] exI [of _ 0]) auto
  next
    case False
    have u: "unat (used + ?z) = unat used + unat ?z"
      using Cons.prems(2,3) z by (subst unat_add_no_wrap) simp_all
    have c: "unat (cnt + 1) = unat cnt + 1"
      using Cons.prems(2-4) by (subst unat_add_no_wrap) simp_all
    have step: "writer_select limit used cnt fl (j # js) =
        writer_select limit (used + ?z) (cnt + 1) (fl \<or> jn_flush j) js"
      using False z d Cons.prems(2) by (simp add: word_less_nat_alt)
    have "list_all (\<lambda>j. \<not> is_link (jn_entry j)) js" "unat (used + ?z) \<le> unat limit"
        "9 * unat (cnt + 1) \<le> unat (used + ?z)"
      using Cons.prems(1,2,4) False z u c by auto
    from Cons.IH [OF this(1,2) Cons.prems(3) this(3), of "fl \<or> jn_flush j"]
    obtain used' cnt' k where k:
      "writer_select limit (used + ?z) (cnt + 1) (fl \<or> jn_flush j) js =
        Some (used', cnt', (fl \<or> jn_flush j) \<or> list_ex jn_flush (take k js), k = length js)"
      "k \<le> length js" "unat cnt' = unat (cnt + 1) + k"
      "unat used' = unat (used + ?z) + entries_size (map jn_entry (take k js))" "unat used' \<le> unat limit"
      "k < length js \<longrightarrow>
        unat used' + unat (cyanfs_journal_entry_size (journal_entry_type (jn_entry (js ! k)))) > unat limit"
      by blast
    then show ?thesis
      using u c step by (intro exI [of _ used'] exI [of _ cnt'] exI [of _ "Suc k"]) simp
  qed
qed

lemma unat_padding: "unat (writer_padding used) = (512 - unat used mod 512) mod 512"
proof -
  have m: "unat (w AND CYANFS_JOURNAL_BLOCK_MASK) = unat w mod 512" for w
    by (simp add: journal_size_values take_bit_eq_mod unat_mod flip: take_bit_eq_mask)
  have "unat (CYANFS_JOURNAL_BLOCK_SIZE - (used AND CYANFS_JOURNAL_BLOCK_MASK)) = 512 - unat used mod 512"
    by (subst unat_diff_no_wrap) (simp_all add: m, simp_all add: journal_size_values)
  then show ?thesis by (simp add: writer_padding_def m)
qed

lemma padded:
  fixes used :: nat
  defines "p \<equiv> (512 - used mod 512) mod 512"
  shows "512 dvd used + p" "used + p < used + 512" "512 dvd m \<Longrightarrow> used \<le> m \<Longrightarrow> used + p \<le> m"
proof -
  define q r where "q = used div 512" and "r = used mod 512"
  have used: "used = 512 * q + r" "r < 512" by (simp_all add: q_def r_def)
  have p: "p = (if r = 0 then 0 else 512 - r)" using used by (simp add: p_def flip: r_def)
  have sum: "used + p = 512 * (if r = 0 then q else Suc q)" using used by (simp add: p)
  then show "512 dvd used + p" by (metis dvd_triv_left)
  show "used + p < used + 512" using used(2) by (simp add: p)
  assume m: "512 dvd m" "used \<le> m"
  then obtain k where "m = 512 * k" by (elim dvdE)
  then show "used + p \<le> m" using used m(2) sum by (auto split: if_splits)
qed

text \<open>What the writer needs of its cursor and its entries.\<close>

definition writer_ok :: "journal_writer \<Rightarrow> bool" where
  "writer_ok t \<longleftrightarrow>
     unat (jc_extent_off (jw_cursor t)) < 2 ^ 20 \<and> 512 dvd unat (jc_extent_off (jw_cursor t)) \<and>
     list_all (\<lambda>j. entry_wf (jn_entry j) \<and> \<not> is_link (jn_entry j)) (jw_head t) \<and>
     length (jc_page (jw_cursor t)) = 65536"

lemma writer_fit_spec:
  assumes cap: "512 dvd unat C" "unat C \<le> 65536" "unat C \<le> unat R" "5 \<le> unat C" "unat R \<le> 2 ^ 20"
    and used: "unat used \<le> unat C - 5"
  shows "\<exists>w. writer_fit next_id C R (used, cnt, fl, all_in) = Some w \<and> wp_regular_count w = cnt \<and> wp_flush w = fl \<and>
    wp_final_link w = (all_in \<and> next_id \<noteq> cyanfs_extent_id_invalid) \<and> (wp_final_link w \<longrightarrow> wp_need_next w) \<and>
    512 dvd unat (wp_size w) \<and> unat (wp_size w) \<le> unat C \<and>
    (\<not> wp_need_next w \<longrightarrow> unat (wp_size w) < unat R) \<and>
    unat used + (if wp_need_next w then 5 else 0) \<le> unat (wp_size w) \<and>
    unat (wp_size w) < unat used + (if wp_need_next w then 5 else 0) + 512"
proof -
  let ?pad = "\<lambda>u :: nat. (512 - u mod 512) mod 512"
  have fits: "unat (C - u) = unat C - unat u \<and> \<not> writer_padding u > C - u \<and>
      unat (u + writer_padding u) = unat u + ?pad (unat u)"
    if "unat u \<le> unat C" for u
  proof -
    have "unat u + ?pad (unat u) \<le> unat C" by (rule padded(3) [OF cap(1) that])
    moreover have "unat (C - u) = unat C - unat u" using that by (rule unat_diff_no_wrap)
    ultimately show ?thesis
      using cap(2) by (subst unat_add_no_wrap) (auto simp: unat_padding word_less_nat_alt)
  qed
  have U: "unat used \<le> unat C" using used by simp
  define need where "need \<longleftrightarrow> used + writer_padding used = R \<or> all_in \<and> next_id \<noteq> cyanfs_extent_id_invalid"
  define final where "final = (if need then used + CYANFS_JOURNAL_TAIL_SIZE else used)"
  have "unat (used + CYANFS_JOURNAL_TAIL_SIZE) = unat used + 5"
    using used cap(2) by (subst unat_add_no_wrap) (simp_all add: tail_size)
  then have F: "unat final = unat used + (if need then 5 else 0)" "unat final \<le> unat C"
    using used cap(4) by (auto simp: final_def)
  have tail: "\<not> CYANFS_JOURNAL_TAIL_SIZE > C - used"
    using fits [OF U] used cap(4) by (simp add: tail_size word_less_nat_alt)
  have "writer_fit next_id C R (used, cnt, fl, all_in) =
      Some \<lparr>wp_regular_count = cnt, wp_flush = fl, wp_final_link = (all_in \<and> next_id \<noteq> cyanfs_extent_id_invalid),
        wp_need_next = need, wp_size = final + writer_padding final\<rparr>"
    using fits [OF U] fits [OF F(2)] tail U
    by (simp add: writer_fit_def Let_def word_less_nat_alt flip: need_def final_def)
  moreover have "512 dvd unat (final + writer_padding final)" "unat (final + writer_padding final) \<le> unat C"
      "unat final \<le> unat (final + writer_padding final)" "unat (final + writer_padding final) < unat final + 512"
    using fits [OF F(2)] padded(1,2) [of "unat final"] padded(3) [OF cap(1) F(2)] by simp_all
  moreover have "unat (final + writer_padding final) < unat R" if "\<not> need"
  proof -
    have "final = used" "used + writer_padding used \<noteq> R" using that by (auto simp: final_def need_def)
    then have "unat (final + writer_padding final) \<noteq> unat R" by (metis word_unat_eq_iff)
    then show ?thesis using \<open>unat (final + writer_padding final) \<le> unat C\<close> cap(3) by simp
  qed
  ultimately show ?thesis using F(1) by (simp add: need_def)
qed

text \<open>
  The layout fails only when the sequence numbers are exhausted. Otherwise the record holds a prefix
  of the entries, as long as fits; it ends within the page and the extent, and it does not end the
  extent without a link.
\<close>

lemma writer_layout_spec:
  assumes ok: "writer_ok t" and ne: "jw_head t \<noteq> []"
  defines "off \<equiv> unat (jc_extent_off (jw_cursor t))" and "js \<equiv> map jn_entry (jw_head t)"
  shows "\<exists>k. 0 < k \<and> k \<le> length js \<and>
    (if unat (jc_seq (jw_cursor t)) + k \<ge> 2 ^ 64 then writer_layout t = None
     else \<exists>w. writer_layout t = Some w \<and> unat (wp_regular_count w) = k \<and>
       wp_flush w = list_ex jn_flush (take k (jw_head t)) \<and>
       wp_final_link w = (k = length js \<and> jw_next_id t \<noteq> cyanfs_extent_id_invalid) \<and>
       (wp_final_link w \<longrightarrow> wp_need_next w) \<and>
       512 dvd unat (wp_size w) \<and> unat (wp_size w) \<le> 65536 \<and> off + unat (wp_size w) \<le> 2 ^ 20 \<and>
       (\<not> wp_need_next w \<longrightarrow> off + unat (wp_size w) < 2 ^ 20) \<and>
       (let used = 15 + entries_size (take k js) + (if wp_need_next w then 5 else 0)
        in used \<le> unat (wp_size w) \<and> unat (wp_size w) < used + 512))"
proof -
  let ?c = "jw_cursor t"
  define R where "R = CYANFS_EXTENT_SIZE - jc_extent_off ?c"
  define C where "C = (if R > CYANFS_JOURNAL_PAGE_SIZE then CYANFS_JOURNAL_PAGE_SIZE else R)"
  have off: "off + 512 \<le> 2 ^ 20" "512 dvd off" using ok by (auto simp: writer_ok_def off_def elim!: dvdE)
  have R: "unat R = 2 ^ 20 - off"
    using off by (simp add: R_def unat_diff_no_wrap size_values off_def)
  have C: "unat C = min 65536 (2 ^ 20 - off)"
    by (simp add: C_def journal_size_values word_less_nat_alt R min_def)
  have C': "512 \<le> unat C" "unat C \<le> 65536" "512 dvd unat C" "unat C \<le> 2 ^ 20 - off"
    using off by (auto simp: C min_def)
  have guard: "\<not> jc_extent_off ?c \<ge> CYANFS_EXTENT_SIZE" "jc_extent_off ?c AND CYANFS_JOURNAL_BLOCK_MASK = 0"
      "\<not> C < CYANFS_JOURNAL_BLOCK_SIZE" "\<not> C < CYANFS_JOURNAL_TAIL_SIZE"
  proof -
    have "unat (jc_extent_off ?c AND CYANFS_JOURNAL_BLOCK_MASK) = off mod 512"
      by (simp add: journal_size_values take_bit_eq_mod unat_mod off_def flip: take_bit_eq_mask)
    then show "jc_extent_off ?c AND CYANFS_JOURNAL_BLOCK_MASK = 0" using off(2) by (simp add: unat_eq_zero)
    show "\<not> jc_extent_off ?c \<ge> CYANFS_EXTENT_SIZE" "\<not> C < CYANFS_JOURNAL_BLOCK_SIZE" "\<not> C < CYANFS_JOURNAL_TAIL_SIZE"
      using off C' by (simp_all add: word_le_nat_alt word_less_nat_alt size_values journal_size_values tail_size off_def)
  qed
  have lim: "unat (C - CYANFS_JOURNAL_TAIL_SIZE) = unat C - 5"
    using C' by (simp add: unat_diff_no_wrap tail_size)
  have nolink: "list_all (\<lambda>j. \<not> is_link (jn_entry j)) (jw_head t)"
    using ok unfolding writer_ok_def by (metis (mono_tags, lifting) list.pred_mono_strong)
  have "unat CYANFS_JOURNAL_HEADER_SIZE \<le> unat (C - CYANFS_JOURNAL_TAIL_SIZE)"
      "unat (C - CYANFS_JOURNAL_TAIL_SIZE) < 65536" "9 * unat (0 :: u16) \<le> unat CYANFS_JOURNAL_HEADER_SIZE"
    using C' by (simp_all add: lim) (simp_all add: journal_size_values(4))
  from writer_select_spec [OF nolink this, of False]
  obtain used cnt k where sel: "writer_select (C - CYANFS_JOURNAL_TAIL_SIZE) CYANFS_JOURNAL_HEADER_SIZE 0 False (jw_head t) =
        Some (used, cnt, list_ex jn_flush (take k (jw_head t)), k = length (jw_head t))"
    and k: "k \<le> length (jw_head t)" "unat cnt = k"
    and used: "unat used = 15 + entries_size (take k js)" "unat used \<le> unat C - 5"
    and more: "k < length (jw_head t) \<longrightarrow>
        unat used + unat (cyanfs_journal_entry_size (journal_entry_type (jn_entry (jw_head t ! k)))) > unat C - 5"
    by (auto simp: js_def take_map lim) (simp_all add: journal_size_values(4))
  have "k \<noteq> 0"
  proof
    assume "k = 0"
    then show False using more used ne C'(1) entry_size_range(2) [of "jn_entry (jw_head t ! 0)"] by simp
  qed
  have cnt: "cnt \<noteq> 0" "(ucast cnt :: u64) = of_nat k" "k < 2 ^ 64"
    using \<open>k \<noteq> 0\<close> k(2) unat_bounds(2) [of cnt] by (auto simp: word_unat_eq_iff unat_ucast_mod unat_of_nat)
  define fit where "fit = writer_fit (jw_next_id t) C R (used, cnt, list_ex jn_flush (take k (jw_head t)), k = length (jw_head t))"
  have lay: "writer_layout t = (if unat (jc_seq ?c) + k \<ge> 2 ^ 64 then None else fit)"
    using guard sel cnt(1) seq_room [OF cnt(3), of "jc_seq ?c"]
    by (simp add: writer_layout_def Let_def cnt(2) flip: R_def C_def fit_def)
  have "unat C \<le> unat R" "5 \<le> unat C" "unat R \<le> 2 ^ 20" using C' R by simp_all
  from writer_fit_spec [OF C'(3,2) this used(2), of "jw_next_id t" cnt]
  obtain w where w: "fit = Some w" "wp_regular_count w = cnt" "wp_flush w = list_ex jn_flush (take k (jw_head t))"
      "wp_final_link w = (k = length (jw_head t) \<and> jw_next_id t \<noteq> cyanfs_extent_id_invalid)"
      "wp_final_link w \<longrightarrow> wp_need_next w" "512 dvd unat (wp_size w)" "unat (wp_size w) \<le> unat C"
      "\<not> wp_need_next w \<longrightarrow> unat (wp_size w) < unat R"
      "unat used + (if wp_need_next w then 5 else 0) \<le> unat (wp_size w)"
      "unat (wp_size w) < unat used + (if wp_need_next w then 5 else 0) + 512"
    unfolding fit_def by blast
  have "off + unat (wp_size w) \<le> 2 ^ 20" using w(7) C'(4) off by simp
  then show ?thesis
    using lay w k C' R used(1) \<open>k \<noteq> 0\<close> off by (intro exI [of _ k]) (auto simp: js_def Let_def)
qed

subsection \<open>The record that is written\<close>

lemma decode_entries_concat:
  "list_all entry_wf js \<Longrightarrow>
     decode_entries (length js) (concat (map cyanfs_journal_encode_entry js) @ rest) = Some (js, rest)"
  by (induction js) (simp_all add: decode_encode_entry)

definition header_bytes :: "journal_header \<Rightarrow> u8 list" where
  "header_bytes h = cyanfs_put32 (jh_crc32 h) @ cyanfs_put64 (jh_seq h) @ cyanfs_put16 (jh_count h)
     @ cyanfs_put8 (ucast (drop_bit 9 (jh_size h)))"

lemma header_bytes_simps:
  "length (header_bytes h) = 15" "cyanfs_journal_encode_header p h = header_bytes h @ drop 15 p"
  "drop 4 (header_bytes (h\<lparr>jh_crc32 := c\<rparr>)) = drop 4 (header_bytes h)"
  by (simp_all add: header_bytes_def cyanfs_journal_encode_header_def Let_def)

lemma size_blocks:
  fixes sz :: u64
  assumes "512 dvd unat sz" "unat sz \<le> 65536"
  shows "push_bit 9 (ucast (ucast (drop_bit 9 sz) :: u8)) = sz"
proof -
  obtain b where b: "unat sz = 512 * b" "b \<le> 128" using assms by (auto elim!: dvdE)
  have "unat (drop_bit 9 sz) = b" using b by (simp add: drop_bit_eq_div unat_div)
  then have "unat (ucast (ucast (drop_bit 9 sz) :: u8) :: u64) = b" using b by (simp add: unat_ucast_mod)
  then have "unat (push_bit 9 (ucast (ucast (drop_bit 9 sz) :: u8) :: u64)) = 512 * b"
    using b by (simp add: push_bit_eq_mult unat_word_ariths)
  then show ?thesis using b by (simp add: word_unat_eq_iff)
qed

lemma read_written_record:
  assumes js: "list_all entry_wf js" "js \<noteq> []" "\<not> list_ex is_link (butlast js)" "length js < 2 ^ 16"
    and sz: "512 dvd unat sz" "unat sz \<le> 65536" "15 + entries_size js \<le> unat sz" "unat sz < 15 + entries_size js + 512"
    and pad: "length pad = unat sz - (15 + entries_size js)"
    and h: "h = \<lparr>jh_crc32 = 0, jh_seq = q, jh_size = sz, jh_count = of_nat (length js)\<rparr>"
    and body: "body = concat (map cyanfs_journal_encode_entry js) @ pad"
    and crc: "c = cyanfs_crc32 (uuid_word0 uuid) (drop 4 (header_bytes h) @ body)"
    and room: "rest = [] \<Longrightarrow> is_link (last js)" "unat q + length (filter (\<lambda>j. \<not> is_link j) js) < 2 ^ 64"
  shows "read_record uuid q (header_bytes (h\<lparr>jh_crc32 := c\<rparr>) @ body @ rest) =
    Record (filter (\<lambda>j. \<not> is_link j) js) (if is_link (last js) then Some (link_of (last js)) else None) (unat sz)"
proof -
  define H where "H = h\<lparr>jh_crc32 := c\<rparr>"
  define p where "p = header_bytes H @ body @ rest"
  have H: "jh_size H = sz" "jh_seq H = q" "jh_crc32 H = c" "unat (jh_count H) = length js"
    using js(4) by (simp_all add: H_def h unat_of_nat)
  have lb: "length body = unat sz - 15"
    using length_encode_entries [OF js(1)] pad sz(3) by (simp add: body)
  have dec: "cyanfs_journal_decode_header_checked p = Some H"
    using decode_encode_journal_header [of "replicate 15 0 @ body @ rest" H] size_blocks [OF sz(1,2)]
    by (simp add: header_bytes_simps p_def H_def h)
  have "take (unat sz - 4) (drop 4 p) = drop 4 (header_bytes h) @ body"
    using lb sz(3) by (simp add: header_bytes_simps p_def H_def)
  then have sum: "record_sum uuid p sz = c" by (simp add: record_sum_def crc)
  have ents: "decode_entries (length js) (drop 15 (take (unat sz) p)) = Some (js, pad)"
  proof -
    have "drop 15 (take (unat sz) p) = body" using lb sz(3) by (simp add: header_bytes_simps p_def)
    then show ?thesis using decode_entries_concat [OF js(1), of pad] by (simp add: body)
  qed
  have lim: "\<not> sz < CYANFS_JOURNAL_HEADER_SIZE" "\<not> sz > CYANFS_JOURNAL_PAGE_SIZE" "\<not> unat sz > length p"
      "unat sz = length p \<longrightarrow> is_link (last js)" "\<not> length pad \<ge> 512"
    using sz lb room(1) pad by (auto simp: journal_size_values word_less_nat_alt header_bytes_simps p_def)
  have "\<not> unat q + length (filter (\<lambda>j. \<not> is_link j) js) \<ge> 2 ^ 64" using room(2) by simp
  then have "read_record uuid q p = Record (filter (\<lambda>j. \<not> is_link j) js)
      (if is_link (last js) then Some (link_of (last js)) else None) (unat sz)"
    using js(2,3) lim by (simp add: read_record_def dec H sum ents Let_def) blast
  then show ?thesis by (simp add: p_def H_def)
qed

text \<open>The entries of the record, and its bytes in the page of the writer.\<close>

lemma writer_entries_spec:
  fixes f :: cyanfs_extent_id
  assumes "list_all (\<lambda>j. entry_wf (jn_entry j) \<and> \<not> is_link (jn_entry j)) (jw_head t)"
    and "0 < unat (wp_regular_count w)" "jw_head t \<noteq> []"
  defines "js \<equiv> writer_entries t w f" and "ks \<equiv> map jn_entry (take (unat (wp_regular_count w)) (jw_head t))"
  shows "list_all entry_wf js" "js \<noteq> []" "\<not> list_ex is_link (butlast js)" "is_link (last js) = wp_need_next w"
    "filter (\<lambda>j. \<not> is_link j) js = ks" "wp_need_next w \<Longrightarrow> link_of (last js) = f"
    "entries_size js = entries_size ks + (if wp_need_next w then 5 else 0)"
proof -
  have js: "js = ks @ (if wp_need_next w then [JNEXT f] else [])"
    by (simp add: js_def ks_def writer_entries_def)
  have "list_all (\<lambda>j. entry_wf (jn_entry j) \<and> \<not> is_link (jn_entry j)) (take (unat (wp_regular_count w)) (jw_head t))"
    using assms(1) by (metis append_take_drop_id list_all_append)
  then have ks: "list_all entry_wf ks" "list_all (\<lambda>j. \<not> is_link j) ks" "ks \<noteq> []"
    using assms(2,3) by (auto simp: ks_def list_all_iff)
  then have "filter (\<lambda>j. \<not> is_link j) ks = ks" "\<not> is_link (last ks)" "\<not> list_ex is_link ks"
      "\<not> list_ex is_link (butlast ks)"
    by (auto simp: list_all_iff list_ex_iff filter_id_conv dest: in_set_butlastD)
  then show "list_all entry_wf js" "js \<noteq> []" "\<not> list_ex is_link (butlast js)" "is_link (last js) = wp_need_next w"
    "filter (\<lambda>j. \<not> is_link j) js = ks" "wp_need_next w \<Longrightarrow> link_of (last js) = f"
    "entries_size js = entries_size ks + (if wp_need_next w then 5 else 0)"
    using ks by (simp_all add: js butlast_append cyanfs_journal_entry_size_def)
qed

lemma writer_page_bytes:
  assumes "list_all entry_wf (writer_entries t w f)" "length (jc_page (jw_cursor t)) = 65536"
    and "15 + entries_size (writer_entries t w f) \<le> unat (wp_size w)" "unat (wp_size w) \<le> 65536"
  defines "h \<equiv> \<lparr>jh_crc32 = 0, jh_seq = jc_seq (jw_cursor t), jh_size = wp_size w,
      jh_count = wp_regular_count w + (if wp_need_next w then 1 else 0)\<rparr>"
  obtains pad tail c where "writer_page uuid t w f =
      header_bytes (h\<lparr>jh_crc32 := c\<rparr>) @ (concat (map cyanfs_journal_encode_entry (writer_entries t w f)) @ pad) @ tail"
    "length pad = unat (wp_size w) - (15 + entries_size (writer_entries t w f))"
    "length tail = 65536 - unat (wp_size w)"
    "c = cyanfs_crc32 (uuid_word0 uuid)
       (drop 4 (header_bytes h) @ concat (map cyanfs_journal_encode_entry (writer_entries t w f)) @ pad)"
proof -
  let ?P = "concat (map cyanfs_journal_encode_entry (writer_entries t w f))"
  have lP: "length ?P = entries_size (writer_entries t w f)" by (rule length_encode_entries [OF assms(1)])
  define D where "D = drop (15 + length ?P) (jc_page (jw_cursor t))"
  define pad where "pad = take (unat (wp_size w) - (15 + length ?P)) D"
  define tail where "tail = drop (unat (wp_size w) - (15 + length ?P)) D"
  define c where "c = cyanfs_crc32 (uuid_word0 uuid) (drop 4 (header_bytes h) @ ?P @ pad)"
  have D: "D = pad @ tail" by (simp add: pad_def tail_def)
  have lens: "length pad = unat (wp_size w) - (15 + length ?P)" "length tail = 65536 - unat (wp_size w)"
    using assms(2-4) lP by (simp_all add: pad_def tail_def D_def)
  have "take (unat (wp_size w) - 4) (drop 4 (header_bytes h @ ?P @ D)) = drop 4 (header_bytes h) @ ?P @ pad"
    using lens assms(3) lP by (simp add: D header_bytes_simps)
  then have "writer_page uuid t w f = header_bytes (h\<lparr>jh_crc32 := c\<rparr>) @ (?P @ pad) @ tail"
    using assms(2) by (simp add: writer_page_def Let_def header_bytes_simps journal_size_values(4) c_def
        flip: h_def D_def) (simp add: D)
  then show ?thesis using that lens lP c_def by simp
qed

lemma writer_page_spec:
  assumes ok: "writer_ok t" and w: "writer_layout t = Some w"
  defines "off \<equiv> unat (jc_extent_off (jw_cursor t))" and "k \<equiv> unat (wp_regular_count w)"
  shows "length (writer_page uuid t w f) = 65536"
    and "length rest = 2 ^ 20 - (off + unat (wp_size w)) \<Longrightarrow>
      read_record uuid (jc_seq (jw_cursor t)) (take (unat (wp_size w)) (writer_page uuid t w f) @ rest) =
      Record (map jn_entry (take k (jw_head t))) (if wp_need_next w then Some f else None) (unat (wp_size w))"
proof -
  let ?c = "jw_cursor t" and ?sz = "unat (wp_size w)" and ?js = "writer_entries t w f"
  have ne: "jw_head t \<noteq> []"
    using w by (auto simp: writer_layout_def Let_def split: if_splits)
  have spec: "0 < k" "k \<le> length (jw_head t)" "unat (jc_seq ?c) + k < 2 ^ 64"
      "512 dvd ?sz" "?sz \<le> 65536" "off + ?sz \<le> 2 ^ 20" "\<not> wp_need_next w \<longrightarrow> off + ?sz < 2 ^ 20"
      "15 + entries_size (map jn_entry (take k (jw_head t))) + (if wp_need_next w then 5 else 0) \<le> ?sz"
      "?sz < 15 + entries_size (map jn_entry (take k (jw_head t))) + (if wp_need_next w then 5 else 0) + 512"
    using writer_layout_spec [OF ok ne] w by (auto simp: off_def k_def Let_def take_map not_le split: if_splits)
  have wf: "list_all (\<lambda>j. entry_wf (jn_entry j) \<and> \<not> is_link (jn_entry j)) (jw_head t)" "length (jc_page ?c) = 65536"
    using ok by (simp_all add: writer_ok_def)
  note E = writer_entries_spec [OF wf(1) spec(1) [unfolded k_def] ne, of f, folded k_def]
  have sizes: "15 + entries_size ?js \<le> ?sz" "?sz < 15 + entries_size ?js + 512" using spec(8,9) E(7) by simp_all
  have len: "length ?js = k + (if wp_need_next w then 1 else 0)"
    using spec(2) by (simp add: writer_entries_def k_def)
  have k16: "k + 1 < 2 ^ 16" 
  proof -
    have "9 * length js \<le> entries_size js" if "list_all (\<lambda>j. \<not> is_link j) js" for js
      using that
    proof (induction js)
      case (Cons j js)
      then show ?case using entry_size_range(1) [of j] by simp
    qed simp
    from this [of "map jn_entry (take k (jw_head t))"] have "9 * k \<le> entries_size (map jn_entry (take k (jw_head t)))"
      using wf(1) spec(2) by (simp add: list_all_iff) (meson in_set_takeD)
    then show ?thesis using spec(5,8) by simp
  qed
  have cnt: "wp_regular_count w + (if wp_need_next w then 1 else 0) = of_nat (length ?js)"
    by (simp add: len k_def)
  obtain pad tail c where page: "writer_page uuid t w f =
      header_bytes (\<lparr>jh_crc32 = 0, jh_seq = jc_seq ?c, jh_size = wp_size w, jh_count = of_nat (length ?js)\<rparr>\<lparr>jh_crc32 := c\<rparr>)
        @ (concat (map cyanfs_journal_encode_entry ?js) @ pad) @ tail"
    and pad: "length pad = ?sz - (15 + entries_size ?js)" "length tail = 65536 - ?sz"
    and crc: "c = cyanfs_crc32 (uuid_word0 uuid)
       (drop 4 (header_bytes \<lparr>jh_crc32 = 0, jh_seq = jc_seq ?c, jh_size = wp_size w, jh_count = of_nat (length ?js)\<rparr>)
         @ concat (map cyanfs_journal_encode_entry ?js) @ pad)"
    using writer_page_bytes [OF E(1) wf(2) sizes(1) spec(5), of uuid] unfolding cnt by blast
  have lbody: "length (concat (map cyanfs_journal_encode_entry ?js) @ pad) = ?sz - 15"
    using length_encode_entries [OF E(1)] pad(1) sizes(1) by simp
  show "length (writer_page uuid t w f) = 65536"
    unfolding page using lbody pad(2) sizes(1) spec(5) by (simp add: header_bytes_simps)
  have tk: "take ?sz (writer_page uuid t w f) =
      header_bytes (\<lparr>jh_crc32 = 0, jh_seq = jc_seq ?c, jh_size = wp_size w, jh_count = of_nat (length ?js)\<rparr>\<lparr>jh_crc32 := c\<rparr>)
        @ concat (map cyanfs_journal_encode_entry ?js) @ pad"
    unfolding page using lbody sizes(1) by (simp add: header_bytes_simps)
  assume rest: "length rest = 2 ^ 20 - (off + ?sz)"
  have "is_link (last ?js)" if "rest = []" using that rest spec(6,7) E(4) by auto
  moreover have "unat (jc_seq ?c) + length (filter (\<lambda>j. \<not> is_link j) ?js) < 2 ^ 64"
    using spec(2,3) by (simp add: E(5))
  moreover have "length ?js < 2 ^ 16" using k16 by (simp add: len)
  ultimately show "read_record uuid (jc_seq ?c) (take ?sz (writer_page uuid t w f) @ rest) =
      Record (map jn_entry (take k (jw_head t))) (if wp_need_next w then Some f else None) ?sz"
    using read_written_record [OF E(1-3) _ spec(4,5) sizes pad(1) refl refl crc, of rest]
    by (simp add: tk E(4-6) cong: if_cong)
qed

end
