(* ===== verification/Extent_Inv.thy ===== *)
theory Extent_Inv
  imports Extents
begin

section \<open>The invariant of the extents\<close>

text \<open>
  Every extent of the device is held at exactly one place, a tree of the super block or of a flusher
  or an index of a file; the nodes agree with their keys and only the nodes of files are mapped; the
  counters of \<open>struct cyanfs_super_meta\<close> and \<open>struct cyanfs_file_meta\<close> are the sizes of the trees.
\<close>

datatype place = In_Tree tree_id | In_File cyanfs_file_id_t bitfield30

definition block :: "super \<Rightarrow> cyanfs_file_id_t \<Rightarrow> bitfield30 \<Rightarrow> extent option" where
  "block s i k = (case get_file s i of None \<Rightarrow> None | Some f \<Rightarrow> idx_find (f_extents f) k)"

fun held_at :: "super \<Rightarrow> place \<Rightarrow> bitfield30 \<Rightarrow> bool" where
  "held_at s (In_Tree T) b \<longleftrightarrow> idx_find (trees s T) b \<noteq> None"
| "held_at s (In_File i k) b \<longleftrightarrow> map_option ext_backend (block s i k) = Some b"

definition total_extents :: "super \<Rightarrow> nat" where
  "total_extents s = unat (sm_total_extents (meta s))"

definition ownership :: "super \<Rightarrow> bool" where
  "ownership s \<longleftrightarrow> (\<forall>b. if unat b < total_extents s then \<exists>!p. held_at s p b else \<forall>p. \<not> held_at s p b)"

definition tree_nodes_ok :: "super \<Rightarrow> bool" where
  "tree_nodes_ok s \<longleftrightarrow> (\<forall>T b n. idx_find (trees s T) b = Some n \<longrightarrow>
     ext_backend n = b \<and> \<not> ext_map n \<and> \<not> ext_pending n \<and> \<not> ext_error n)"

definition file_extents_ok :: "cyanfs_file \<Rightarrow> bool" where
  "file_extents_ok f \<longleftrightarrow>
     (\<forall>k n. idx_find (f_extents f) k = Some n \<longrightarrow>
        ext_file n = k \<and> ext_map n \<and> unat k * 2 ^ 20 < unat (fm_size (f_meta f))) \<and>
     fm_extents (f_meta f) = of_nat (idx_size (f_extents f))"

definition counters_ok :: "super \<Rightarrow> bool" where
  "counters_ok s \<longleftrightarrow>
     sm_free_extents (meta s) = of_nat (idx_size (trees s Free_Extents)) \<and>
     sm_journal_extents (meta s) = of_nat (idx_size (trees s Journal_Extents)) \<and>
     sm_data_extents (meta s) = of_nat (idx_sum (\<lambda>f. idx_size (f_extents f)) (files_by_id s))"

definition extent_inv :: "super \<Rightarrow> bool" where
  "extent_inv s \<longleftrightarrow> ownership s \<and> tree_nodes_ok s \<and> counters_ok s \<and>
     (\<forall>i f. get_file s i = Some f \<longrightarrow> file_extents_ok f)"

subsection \<open>What the extent operations leave alone\<close>

text \<open>
  The extent operations change the files, the trees, their three counters and the panic flag, and
  nothing else: \<open>super_rest\<close> is all the rest.
\<close>

definition super_rest where
  "super_rest s =
     (files_by_name s,
      (sm_uuid (meta s), sm_total_extents (meta s), sm_reserved_extents (meta s), sm_size (meta s),
       sm_files (meta s)),
      (journal_head s, journal_count s, max_file_id s, flags s, writers s, writer_current_id s,
       journal_cursor s),
      (task_head s, active_tasks s, new_task s, new_task_calls s, task_at s, flusher_at s, cow_at s,
       next_address s, journal_log s))"

lemma super_rest_D:
  assumes "super_rest s' = super_rest s"
  shows "files_by_name s' = files_by_name s" "sm_uuid (meta s') = sm_uuid (meta s)"
    "sm_total_extents (meta s') = sm_total_extents (meta s)"
    "sm_reserved_extents (meta s') = sm_reserved_extents (meta s)" "sm_size (meta s') = sm_size (meta s)"
    "sm_files (meta s') = sm_files (meta s)" "journal_head s' = journal_head s"
    "journal_count s' = journal_count s" "max_file_id s' = max_file_id s" "flags s' = flags s"
    "writers s' = writers s" "writer_current_id s' = writer_current_id s"
    "journal_cursor s' = journal_cursor s" "task_head s' = task_head s"
    "active_tasks s' = active_tasks s" "new_task s' = new_task s"
    "new_task_calls s' = new_task_calls s" "task_at s' = task_at s" "flusher_at s' = flusher_at s"
    "cow_at s' = cow_at s" "next_address s' = next_address s"
    "journal_log s' = journal_log s"
  using assms by (simp_all add: super_rest_def)

lemma get_file_put [simp]: "get_file (put_file i f s) j = (if j = i then Some f else get_file s j)"
  by (simp add: get_file_def put_file_def)

lemma put_file_fields [simp]:
  "panicked (put_file i f s) = panicked s" "trees (put_file i f s) = trees s"
  "meta (put_file i f s) = meta s"
  by (simp_all add: put_file_def)

lemmas tiny_defs = panic_def put_file_def tree_remove_def tree_insert_def add_free_def add_journal_def
  add_data_def

lemma super_rest_tiny [frame_simps]:
  "super_rest (panic s) = super_rest s" "super_rest (put_file i f s) = super_rest s"
  "super_rest (tree_remove T n s) = super_rest s" "super_rest (tree_insert T n s) = super_rest s"
  "super_rest (add_free v s) = super_rest s" "super_rest (add_journal v s) = super_rest s"
  "super_rest (add_data v s) = super_rest s"
  by (simp_all add: super_rest_def tiny_defs)

lemma super_rest_stat_add [frame_simps]: "super_rest (super_stat_add T v s) = super_rest s"
  by (simp add: super_stat_add_def frame_simps)

lemma super_rest_moves [frame_simps]:
  "super_rest (extent_super_to_super n from to s) = super_rest s"
  "super_rest (extent_file_to_super i n to s) = super_rest s"
  "super_rest (extent_super_to_file i n from s) = super_rest s"
  "super_rest (update_extent i k g s) = super_rest s"
  by (simp_all add: extent_super_to_super_def extent_file_to_super_def extent_super_to_file_def
      update_extent_def Let_def frame_simps split: option.split prod.split)

lemma super_rest_map [frame_simps]:
  "super_rest (snd (file_map_extent i n k s)) = super_rest s"
  "super_rest (file_unmap_extent i n s) = super_rest s"
  by (simp_all add: file_map_extent_def file_unmap_extent_def Let_def frame_simps split: option.split)

lemma super_rest_bind [frame_simps]:
  "super_rest (snd (file_bind_extent i k b s)) = super_rest s"
  "super_rest (snd (file_unbind_extent i k s)) = super_rest s"
  by (simp_all add: file_bind_extent_def file_unbind_extent_def Let_def frame_simps split: option.split)

lemma super_rest_alloc [frame_simps]:
  "super_rest (snd (file_alloc_extent i off s)) = super_rest s"
  by (simp add: file_alloc_extent_def Let_def frame_simps case_prod_unfold split: option.split)

lemma super_rest_fold:
  "(\<And>x s. super_rest (g x s) = super_rest s) \<Longrightarrow> super_rest (fold g xs s) = super_rest s"
  by (induction xs arbitrary: s) simp_all

lemma super_rest_truncate [frame_simps]:
  "super_rest (file_set_size i sz s) = super_rest s"
  "super_rest (snd (file_truncate i sz s)) = super_rest s"
  by (simp_all add: file_set_size_def file_truncate_def Let_def frame_simps super_rest_fold
      split: option.split prod.split)

subsection \<open>Moving a node keeps the invariant\<close>

definition relocated :: "super \<Rightarrow> super \<Rightarrow> bitfield30 \<Rightarrow> place \<Rightarrow> bool" where
  "relocated s s' b p \<longleftrightarrow> (\<forall>q c. held_at s' q c \<longleftrightarrow> (if c = b then q = p else held_at s q c))"

lemma held_unique:
  assumes "ownership s" "held_at s p b"
  shows "held_at s q b \<longleftrightarrow> q = p" and "unat b < total_extents s"
  using assms unfolding ownership_def by (metis (full_types))+

lemma ownership_relocated:
  "ownership s \<Longrightarrow> relocated s s' b p \<Longrightarrow> unat b < total_extents s \<Longrightarrow>
     total_extents s' = total_extents s \<Longrightarrow> ownership s'"
  unfolding ownership_def relocated_def by (smt (verit, ccfv_threshold))

lemma ownership_same:
  "ownership s \<Longrightarrow> (\<And>p b. held_at s' p b = held_at s p b) \<Longrightarrow> total_extents s' = total_extents s \<Longrightarrow>
     ownership s'"
  by (simp add: ownership_def)

lemma trees_stat_add [simp]: "trees (super_stat_add T v s) = trees s"
  by (simp add: super_stat_add_def add_free_def add_journal_def)

lemma files_stat_add [simp]: "files_by_id (super_stat_add T v s) = files_by_id s"
  by (simp add: super_stat_add_def add_free_def add_journal_def)

lemma meta_stat_add [simp]:
  "sm_free_extents (meta (super_stat_add T v s)) =
     sm_free_extents (meta s) + (if T = Free_Extents then v else 0)"
  "sm_journal_extents (meta (super_stat_add T v s)) =
     sm_journal_extents (meta s) + (if T = Journal_Extents then v else 0)"
  "sm_data_extents (meta (super_stat_add T v s)) = sm_data_extents (meta s)"
  by (simp_all add: super_stat_add_def add_free_def add_journal_def)

lemma panicked_stat_add [simp]: "panicked (super_stat_add T v s) = panicked s"
  by (simp add: super_stat_add_def add_free_def add_journal_def)

lemma total_extents_frame: "super_rest s' = super_rest s \<Longrightarrow> total_extents s' = total_extents s"
  by (drule super_rest_D(3)) (simp add: total_extents_def)

lemma tree_edit_fields [simp]:
  "files_by_id (tree_remove T n s) = files_by_id s" "files_by_id (tree_insert T n s) = files_by_id s"
  "meta (tree_remove T n s) = meta s" "meta (tree_insert T n s) = meta s"
  "panicked (tree_remove T n s) = panicked s" "panicked (tree_insert T n s) = panicked s"
  by (simp_all add: tree_insert_def tree_remove_def)

lemma super_to_super_fields:
  "files_by_id (extent_super_to_super n from to s) = files_by_id s"
  "panicked (extent_super_to_super n from to s) = panicked s"
  "sm_data_extents (meta (extent_super_to_super n from to s)) = sm_data_extents (meta s)"
  "sm_free_extents (meta (extent_super_to_super n from to s)) = sm_free_extents (meta s)
     + (if from = Free_Extents then - 1 else 0) + (if to = Free_Extents then 1 else 0)"
  "sm_journal_extents (meta (extent_super_to_super n from to s)) = sm_journal_extents (meta s)
     + (if from = Journal_Extents then - 1 else 0) + (if to = Journal_Extents then 1 else 0)"
  by (simp_all only: extent_super_to_super_def Let_def files_stat_add panicked_stat_add meta_stat_add
      tree_edit_fields)

lemma super_to_super_trees:
  assumes "idx_find (trees s to) (ext_backend n) = None" "from \<noteq> to"
  shows "trees (extent_super_to_super n from to s) =
    (trees s)(from := idx_remove (ext_backend n) (trees s from),
              to := idx_put (ext_backend n) n (trees s to))"
  using assms by (simp add: extent_super_to_super_def Let_def tree_insert_def tree_remove_def)

lemma get_file_cong: "files_by_id s' = files_by_id s \<Longrightarrow> get_file s' = get_file s"
  by (simp add: get_file_def fun_eq_iff)

lemma block_cong: "files_by_id s' = files_by_id s \<Longrightarrow> block s' i k = block s i k"
  by (drule get_file_cong) (simp add: block_def)

lemma tree_sizes_move:
  assumes "idx_find (trees s from) b = Some n" "idx_find (trees s to) b = None" "from \<noteq> to"
  shows "(of_nat (idx_size (((trees s)(from := idx_remove b (trees s from),
              to := idx_put b m (trees s to))) T)) :: u32) =
    of_nat (idx_size (trees s T)) + (if from = T then - 1 else 0) + (if to = T then 1 else 0)"
proof -
  consider "T = from" | "T = to" | "T \<noteq> from" "T \<noteq> to" by blast
  then show ?thesis
  proof cases
    case 1
    then show ?thesis using assms(3) by (simp add: idx_size_remove [OF assms(1)])
  next
    case 2
    then show ?thesis using assms(3) by (simp add: idx_size_put_fresh [OF assms(2)])
  qed auto
qed

lemma super_to_super_inv:
  assumes inv: "extent_inv s" and n: "idx_find (trees s from) b = Some n" and ne: "from \<noteq> to"
  shows "extent_inv (extent_super_to_super n from to s)"
    (is "extent_inv ?s'")
proof -
  have b [simp]: "ext_backend n = b"
    using inv n by (auto simp: extent_inv_def tree_nodes_ok_def)
  have own: "ownership s" using inv by (simp add: extent_inv_def)
  have at: "held_at s (In_Tree from) b" using n by simp
  have fresh: "idx_find (trees s to) b = None"
    using held_unique(1) [OF own at, of "In_Tree to"] ne by auto
  note trees = super_to_super_trees [of s to n "from", unfolded b, OF fresh ne]
  note files = super_to_super_fields(1) [of n "from" to s]
  have "held_at ?s' q c \<longleftrightarrow> (if c = b then q = In_Tree to else held_at s q c)" for q c
    using held_unique(1) [OF own at, of q]
    using ne by (cases q) (auto simp: trees block_cong [OF files] split: if_splits)
  then have "relocated s ?s' b (In_Tree to)" by (simp add: relocated_def)
  then have "ownership ?s'"
    using ownership_relocated own held_unique(2) [OF own at] total_extents_frame super_rest_moves(1)
    by blast
  moreover have "tree_nodes_ok ?s'"
    using inv n by (auto simp: extent_inv_def tree_nodes_ok_def trees split: if_splits)
  moreover have "counters_ok ?s'"
    using inv tree_sizes_move [OF n fresh ne, of n]
    by (simp add: extent_inv_def counters_ok_def super_to_super_fields trees del: fun_upd_apply)
  ultimately show ?thesis
    using inv by (simp add: extent_inv_def get_file_cong [OF files])
qed

lemma get_file_files: "get_file s i = Some f \<Longrightarrow> idx_find (files_by_id s) i = Some f"
  by (simp add: get_file_def)

lemma extent_invD:
  assumes "extent_inv s"
  shows "ownership s" "tree_nodes_ok s" "counters_ok s" "get_file s i = Some f \<Longrightarrow> file_extents_ok f"
  using assms by (auto simp: extent_inv_def)

definition clean :: "extent \<Rightarrow> extent" where
  "clean n = n\<lparr>ext_map := False, ext_pending := False, ext_error := False\<rparr>"

lemma clean_simps [simp]:
  "ext_backend (clean n) = ext_backend n" "ext_file (clean n) = ext_file n" "\<not> ext_map (clean n)"
  "\<not> ext_pending (clean n)" "\<not> ext_error (clean n)"
  by (simp_all add: clean_def)

lemma file_add_extents_simps [simp]:
  "f_parent (file_add_extents v f) = f_parent f" "f_extents (file_add_extents v f) = f_extents f"
  "f_open_type (file_add_extents v f) = f_open_type f" "f_reader (file_add_extents v f) = f_reader f"
  "fm_id (f_meta (file_add_extents v f)) = fm_id (f_meta f)"
  "fm_parent_id (f_meta (file_add_extents v f)) = fm_parent_id (f_meta f)"
  "fm_name (f_meta (file_add_extents v f)) = fm_name (f_meta f)"
  "fm_size (f_meta (file_add_extents v f)) = fm_size (f_meta f)"
  "fm_children (f_meta (file_add_extents v f)) = fm_children (f_meta f)"
  "fm_extents (f_meta (file_add_extents v f)) = fm_extents (f_meta f) + v"
  by (simp_all add: file_add_extents_def)

lemma file_add_extents_extents:
  "file_add_extents v (f\<lparr>f_extents := t\<rparr>) = (file_add_extents v f)\<lparr>f_extents := t\<rparr>"
  by (cases f) (simp add: file_add_extents_def)

lemma tree_remove_file: "tree_remove T (n\<lparr>ext_file := k\<rparr>) s = tree_remove T n s"
  by (simp add: tree_remove_def)

subsubsection \<open>From a file to the super block\<close>

definition without_extent :: "bitfield30 \<Rightarrow> cyanfs_file \<Rightarrow> cyanfs_file" where
  "without_extent k f = (file_add_extents (- 1) f)\<lparr>f_extents := idx_remove k (f_extents f)\<rparr>"

lemma file_to_super_fields:
  assumes "get_file s i = Some f"
  shows "files_by_id (extent_file_to_super i n to s) =
      idx_put i (without_extent (ext_file n) f) (files_by_id s)"
    and "panicked (extent_file_to_super i n to s) = panicked s"
    and "trees (extent_file_to_super i n to s) =
      (trees s)(to := snd (idx_insert (ext_backend n) n (trees s to)))"
    and "sm_data_extents (meta (extent_file_to_super i n to s)) = sm_data_extents (meta s) - 1"
    and "sm_free_extents (meta (extent_file_to_super i n to s)) =
      sm_free_extents (meta s) + (if to = Free_Extents then 1 else 0)"
    and "sm_journal_extents (meta (extent_file_to_super i n to s)) =
      sm_journal_extents (meta s) + (if to = Journal_Extents then 1 else 0)"
  using assms
  by (simp_all add: extent_file_to_super_def Let_def without_extent_def)
    (simp_all add: put_file_def tree_insert_def add_data_def)

lemma file_extents_ok_without:
  assumes "file_extents_ok f" "idx_find (f_extents f) k = Some n"
  shows "file_extents_ok (without_extent k f)"
  using assms idx_size_remove [OF assms(2)]
  by (auto simp: file_extents_ok_def without_extent_def split: if_splits)

lemma file_to_super_inv:
  assumes inv: "extent_inv s" and f: "get_file s i = Some f" and n: "idx_find (f_extents f) k = Some n"
  shows "extent_inv (extent_file_to_super i (clean n) to s)" (is "extent_inv ?s'")
proof -
  have k [simp]: "ext_file n = k"
    using extent_invD(4) [OF inv f] n by (auto simp: file_extents_ok_def)
  have own: "ownership s" using inv by (simp add: extent_inv_def)
  have bk: "block s i k = Some n" using f n by (simp add: block_def)
  then have at: "held_at s (In_File i k) (ext_backend n)" by simp
  have fresh: "idx_find (trees s to) (ext_backend n) = None"
    using held_unique(1) [OF own at, of "In_Tree to"] by auto
  note fields = file_to_super_fields [OF f, of "clean n" to]
  have trees: "trees ?s' = (trees s)(to := idx_put (ext_backend n) (clean n) (trees s to))"
    using fresh by (simp add: fields)
  have get: "get_file ?s' j = (if j = i then Some (without_extent k f) else get_file s j)" for j
    by (simp add: get_file_def fields)
  have blk: "block ?s' j l = (if j = i \<and> l = k then None else block s j l)" for j l
    using f by (simp add: block_def get without_extent_def)
  have "held_at ?s' q c \<longleftrightarrow> (if c = ext_backend n then q = In_Tree to else held_at s q c)" for q c
    using held_unique(1) [OF own at, of q] bk
    by (cases q) (auto simp: trees blk split: if_splits)
  then have "relocated s ?s' (ext_backend n) (In_Tree to)" by (simp add: relocated_def)
  then have "ownership ?s'"
    using ownership_relocated own held_unique(2) [OF own at] total_extents_frame super_rest_moves(2)
    by blast
  moreover have "tree_nodes_ok ?s'"
    using inv by (auto simp: extent_inv_def tree_nodes_ok_def trees split: if_splits)
  moreover have "counters_ok ?s'"
  proof -
    let ?g = "\<lambda>f. idx_size (f_extents f)"
    have "idx_sum ?g (files_by_id s) = Suc (idx_sum ?g (files_by_id ?s'))"
      using idx_sum_remove [OF get_file_files [OF f], of ?g] idx_size_remove [OF n]
      by (simp add: fields idx_sum_put without_extent_def)
    then show ?thesis
      using inv idx_size_put_fresh [OF fresh, of "clean n"]
      by (auto simp: extent_inv_def counters_ok_def fields(4-6) trees)
  qed
  moreover have "file_extents_ok g" if "get_file ?s' j = Some g" for j g
    using that extent_invD(4) [OF inv] f n file_extents_ok_without by (auto simp: get split: if_splits)
  ultimately show ?thesis
    by (auto simp: extent_inv_def)
qed

subsubsection \<open>From the free extents to a file\<close>

definition with_extent :: "bitfield30 \<Rightarrow> extent \<Rightarrow> cyanfs_file \<Rightarrow> cyanfs_file" where
  "with_extent k n f = (file_add_extents 1 f)\<lparr>f_extents := idx_put k n (f_extents f)\<rparr>"

lemma file_find_extent_begin [simp]:
  "file_find_extent f (cyanfs_extent_begin k) = idx_find (f_extents f) (ucast k)"
  by (simp add: file_find_extent_def)

lemma file_map_extent_busy:
  "get_file s i = Some f \<Longrightarrow> idx_find (f_extents f) (ucast k) \<noteq> None \<Longrightarrow>
     file_map_extent i n k s = (INVAL, s)"
  by (auto simp: file_map_extent_def)

lemma file_map_extent_fields:
  fixes n :: extent
  assumes f: "get_file s i = Some f" and k: "idx_find (f_extents f) (ucast k) = None"
  defines "n' \<equiv> n\<lparr>ext_file := ucast k, ext_map := True\<rparr>"
  obtains s' where "file_map_extent i n k s = (Ok, s')"
    and "files_by_id s' = idx_put i (with_extent (ucast k) n' f) (files_by_id s)"
    and "panicked s' = panicked s"
    and "trees s' = (trees s)(Free_Extents := idx_remove (ext_backend n) (trees s Free_Extents))"
    and "sm_data_extents (meta s') = sm_data_extents (meta s) + 1"
    and "sm_free_extents (meta s') = sm_free_extents (meta s) - 1"
    and "sm_journal_extents (meta s') = sm_journal_extents (meta s)"
    and "super_rest s' = super_rest s"
proof
  let ?s' = "snd (file_map_extent i n k s)"
  have get: "get_file (tree_remove T m (super_stat_add T v s)) j = get_file s j" for T m v j
    by (simp add: get_file_def)
  show "file_map_extent i n k s = (Ok, ?s')"
    using f k by (simp add: file_map_extent_def Let_def)
  have upd: "update_extent i (ucast k) g (add_data 1 (put_file i (file_add_extents 1 (f\<lparr>f_extents := idx_put (ucast k) m (f_extents f)\<rparr>)) t)) =
      add_data 1 (put_file i (file_add_extents 1 (f\<lparr>f_extents := idx_put (ucast k) (g m) (f_extents f)\<rparr>)) t)" for g m t
    by (cases t; cases f)
      (simp add: update_extent_def get_file_def add_data_def put_file_def file_add_extents_def)
  have s': "?s' = add_data 1 (put_file i (with_extent (ucast k) n' f)
      (tree_remove Free_Extents n (super_stat_add Free_Extents (- 1) s)))"
    using f k
    by (simp add: file_map_extent_def Let_def extent_super_to_file_def upd with_extent_def n'_def
        tree_remove_file file_add_extents_extents [symmetric])
  show "files_by_id ?s' = idx_put i (with_extent (ucast k) n' f) (files_by_id s)"
    "panicked ?s' = panicked s"
    "sm_data_extents (meta ?s') = sm_data_extents (meta s) + 1"
    "sm_free_extents (meta ?s') = sm_free_extents (meta s) - 1"
    "sm_journal_extents (meta ?s') = sm_journal_extents (meta s)"
    by (simp_all add: s' add_data_def put_file_def)
  show "trees ?s' = (trees s)(Free_Extents := idx_remove (ext_backend n) (trees s Free_Extents))"
    by (simp add: s' add_data_def put_file_def tree_remove_def)
  show "super_rest ?s' = super_rest s"
    by (rule super_rest_map)
qed

lemma file_extents_ok_with:
  assumes "file_extents_ok f" "idx_find (f_extents f) k = None" "ext_file n = k" "ext_map n"
    "unat k * 2 ^ 20 < unat (fm_size (f_meta f))"
  shows "file_extents_ok (with_extent k n f)"
  using assms idx_size_put_fresh [OF assms(2)]
  by (auto simp: file_extents_ok_def with_extent_def split: if_splits)

lemma file_map_extent_inv:
  assumes inv: "extent_inv s" and f: "get_file s i = Some f"
    and n: "idx_find (trees s Free_Extents) b = Some n"
    and size: "unat (ucast k :: bitfield30) * 2 ^ 20 < unat (fm_size (f_meta f))"
  shows "extent_inv (snd (file_map_extent i n k s))"
proof (cases "idx_find (f_extents f) (ucast k) = None")
  case False
  then show ?thesis using inv file_map_extent_busy [OF f False] by simp
next
  case True
  define n' where "n' = n\<lparr>ext_file := ucast k, ext_map := True\<rparr>"
  obtain s' where eq: "file_map_extent i n k s = (Ok, s')"
    and files: "files_by_id s' = idx_put i (with_extent (ucast k) n' f) (files_by_id s)"
    and trees: "trees s' = (trees s)(Free_Extents := idx_remove (ext_backend n) (trees s Free_Extents))"
    and counts: "sm_data_extents (meta s') = sm_data_extents (meta s) + 1"
      "sm_free_extents (meta s') = sm_free_extents (meta s) - 1"
      "sm_journal_extents (meta s') = sm_journal_extents (meta s)"
    and rest: "super_rest s' = super_rest s"
    using file_map_extent_fields [OF f True, of n] unfolding n'_def by metis
  have b [simp]: "ext_backend n = b"
    using inv n by (auto simp: extent_inv_def tree_nodes_ok_def)
  have own: "ownership s" using inv by (simp add: extent_inv_def)
  have at: "held_at s (In_Tree Free_Extents) b" using n by simp
  have get: "get_file s' j = (if j = i then Some (with_extent (ucast k) n' f) else get_file s j)" for j
    by (simp add: get_file_def files)
  have blk: "block s' j l = (if j = i \<and> l = ucast k then Some n' else block s j l)" for j l
    using f by (simp add: block_def get with_extent_def)
  have "block s i (ucast k) = None" using f True by (simp add: block_def)
  then have "held_at s' q c \<longleftrightarrow> (if c = b then q = In_File i (ucast k) else held_at s q c)" for q c
    using held_unique(1) [OF own at, of q]
    by (cases q) (auto simp: trees blk n'_def split: if_splits)
  then have "relocated s s' b (In_File i (ucast k))" by (simp add: relocated_def)
  then have "ownership s'"
    using ownership_relocated own held_unique(2) [OF own at] total_extents_frame [OF rest] by blast
  moreover have "tree_nodes_ok s'"
    using inv by (auto simp: extent_inv_def tree_nodes_ok_def trees split: if_splits)
  moreover have "counters_ok s'"
  proof -
    let ?g = "\<lambda>f. idx_size (f_extents f)"
    have "idx_sum ?g (files_by_id s') = Suc (idx_sum ?g (files_by_id s))"
      using idx_sum_remove [OF get_file_files [OF f], of ?g] idx_size_put_fresh [OF True]
      by (simp add: files idx_sum_put with_extent_def)
    then show ?thesis
      using inv idx_size_remove [OF n] by (simp add: extent_inv_def counters_ok_def counts trees)
  qed
  moreover have "file_extents_ok g" if "get_file s' j = Some g" for j g
    using that extent_invD(4) [OF inv] f True size
    by (auto simp: get n'_def intro!: file_extents_ok_with split: if_splits)
  ultimately show ?thesis
    by (auto simp: extent_inv_def eq)
qed

subsection \<open>The effect of the operations on the files\<close>

text \<open>
  \<open>file_rest\<close> is what the extent operations keep of a file: all but its extents and their number.
  \<open>file_change i s s' P\<close> says that an operation changed only the extents of file \<open>i\<close>, so that \<open>P\<close>
  relates the old ones and the new ones, and kept the rest of the state and the invariant.
\<close>

definition file_rest where
  "file_rest f = (f_parent f, fm_id (f_meta f), fm_parent_id (f_meta f), fm_name (f_meta f),
     fm_size (f_meta f), fm_children (f_meta f), f_open_type f, f_reader f)"

lemma file_rest_D:
  assumes "file_rest f' = file_rest f"
  shows "f_parent f' = f_parent f" "fm_id (f_meta f') = fm_id (f_meta f)"
    "fm_parent_id (f_meta f') = fm_parent_id (f_meta f)" "fm_name (f_meta f') = fm_name (f_meta f)"
    "fm_size (f_meta f') = fm_size (f_meta f)" "fm_children (f_meta f') = fm_children (f_meta f)"
    "f_open_type f' = f_open_type f" "f_reader f' = f_reader f"
  using assms by (simp_all add: file_rest_def)

lemma file_rest_simps [simp]:
  "file_rest (with_extent k n f) = file_rest f" "file_rest (without_extent k f) = file_rest f"
  "file_rest (f\<lparr>f_extents := t\<rparr>) = file_rest f"
  by (simp_all add: file_rest_def with_extent_def without_extent_def)

definition file_change ::
    "cyanfs_file_id_t \<Rightarrow> super \<Rightarrow> super \<Rightarrow> (bitfield30 \<Rightarrow> extent option) \<Rightarrow> bool" where
  "file_change i s s' m \<longleftrightarrow>
     extent_inv s' \<and> super_rest s' = super_rest s \<and> panicked s' = panicked s \<and>
     (\<forall>j. j \<noteq> i \<longrightarrow> get_file s' j = get_file s j) \<and>
     (\<exists>f f'. get_file s i = Some f \<and> get_file s' i = Some f' \<and> file_rest f' = file_rest f \<and>
        idx_find (f_extents f') = m)"

lemma file_changeD:
  assumes "file_change i s s' m"
  shows "extent_inv s'" "super_rest s' = super_rest s" "panicked s' = panicked s"
    "j \<noteq> i \<Longrightarrow> get_file s' j = get_file s j" "block s' i = m"
  using assms by (auto simp: file_change_def block_def fun_eq_iff)

lemma file_change_obtain:
  assumes "file_change i s s' m" "get_file s i = Some f"
  obtains f' where "get_file s' i = Some f'" "file_rest f' = file_rest f" "idx_find (f_extents f') = m"
  using assms by (auto simp: file_change_def)

lemma file_change_refl:
  "extent_inv s \<Longrightarrow> get_file s i = Some f \<Longrightarrow> file_change i s s (idx_find (f_extents f))"
  by (simp add: file_change_def)

lemma file_change_trans:
  "file_change i s t m \<Longrightarrow> file_change i t u m' \<Longrightarrow> file_change i s u m'"
  unfolding file_change_def by force

lemma block_file_change:
  "file_change i s s' m \<Longrightarrow> block s' j = (if j = i then m else block s j)"
  by (auto simp: file_change_def block_def fun_eq_iff)

lemma file_unmap_change:
  assumes inv: "extent_inv s" and f: "get_file s i = Some f" and n: "idx_find (f_extents f) k = Some n"
    and np: "\<not> ext_pending n"
  shows "file_change i s (file_unmap_extent i n s) ((idx_find (f_extents f))(k := None))"
proof -
  define to where "to = (if has_flag s FLAG_READY then Unused_Extents else Free_Extents)"
  have eq: "file_unmap_extent i n s = extent_file_to_super i (clean n) to s"
    using np by (simp add: file_unmap_extent_def to_def clean_def)
  have "ext_file n = k"
    using extent_invD(4) [OF inv f] n by (auto simp: file_extents_ok_def)
  then show ?thesis
    using file_to_super_inv [OF inv f n, of to] file_to_super_fields(1,2) [OF f, of "clean n" to] f
    by (auto simp: file_change_def eq frame_simps get_file_def without_extent_def file_rest_def fun_eq_iff)
qed

lemma file_map_change:
  assumes inv: "extent_inv s" and f: "get_file s i = Some f"
    and n: "idx_find (trees s Free_Extents) b = Some n"
    and size: "unat (ucast k :: bitfield30) * 2 ^ 20 < unat (fm_size (f_meta f))"
    and free: "idx_find (f_extents f) (ucast k) = None"
  shows "\<exists>s'. file_map_extent i n k s = (Ok, s') \<and>
    file_change i s s' ((idx_find (f_extents f))
      (ucast k \<mapsto> n\<lparr>ext_file := ucast k, ext_map := True\<rparr>))"
proof -
  obtain s' where eq: "file_map_extent i n k s = (Ok, s')"
    and files: "files_by_id s' =
      idx_put i (with_extent (ucast k) (n\<lparr>ext_file := ucast k, ext_map := True\<rparr>) f) (files_by_id s)"
    and p: "panicked s' = panicked s" and rest: "super_rest s' = super_rest s"
    by (rule file_map_extent_fields [OF f free, of n])
  have "extent_inv s'" using file_map_extent_inv [OF inv f n size] eq by simp
  then show ?thesis
    using eq files p rest f
    by (auto simp: file_change_def get_file_def with_extent_def file_rest_def fun_eq_iff)
qed

lemma update_extent_change:
  assumes inv: "extent_inv s" and f: "get_file s i = Some f" and n: "idx_find (f_extents f) k = Some n"
    and g: "ext_backend (g n) = ext_backend n" "ext_file (g n) = k" "ext_map (g n)"
  shows "file_change i s (update_extent i k g s) ((idx_find (f_extents f))(k \<mapsto> g n))"
proof -
  let ?f = "f\<lparr>f_extents := idx_put k (g n) (f_extents f)\<rparr>" and ?s' = "update_extent i k g s"
  have eq: "?s' = put_file i ?f s" using f n by (simp add: update_extent_def)
  have blk: "block ?s' j l = (if j = i \<and> l = k then Some (g n) else block s j l)" for j l
    using f by (simp add: eq block_def)
  have "block s i k = Some n" using f n by (simp add: block_def)
  then have held: "held_at ?s' q c = held_at s q c" for q c
    using g(1) by (cases q) (auto simp: blk, auto simp: eq put_file_def)
  have "ownership ?s'"
    by (rule ownership_same [OF extent_invD(1) [OF inv] held])
      (rule total_extents_frame [OF super_rest_moves(4)])
  moreover have "tree_nodes_ok ?s'" and "counters_ok ?s'"
    using extent_invD(2,3) [OF inv] idx_size_put_present [OF n]
    by (simp_all add: eq put_file_def tree_nodes_ok_def counters_ok_def
        idx_sum_put_same [OF get_file_files [OF f]])
  moreover have "file_extents_ok h" if "get_file ?s' j = Some h" for j h
    using that extent_invD(4) [OF inv] f n g(2,3) idx_size_put_present [OF n]
    by (auto simp: eq file_extents_ok_def split: if_splits)
  ultimately have "extent_inv ?s'" by (auto simp: extent_inv_def)
  then show ?thesis
    using f super_rest_moves(4) [of i k g s] by (auto simp: file_change_def eq fun_eq_iff)
qed

subsection \<open>Truncating\<close>

lemma fold_filter: "fold (\<lambda>x s. if P x then g x s else s) xs s = fold g (filter P xs) s"
  by (induction xs arbitrary: s) auto

lemma unmap_fold_change:
  assumes "extent_inv s" "get_file s i = Some f" "distinct (map fst xs)"
    "\<And>k n. (k, n) \<in> set xs \<Longrightarrow> idx_find (f_extents f) k = Some n \<and> \<not> ext_pending n"
  shows "file_change i s (fold (\<lambda>(_, n). file_unmap_extent i n) xs s)
    (\<lambda>k. if k \<in> fst ` set xs then None else idx_find (f_extents f) k)"
  using assms
proof (induction xs arbitrary: s f)
  case Nil
  then show ?case using file_change_refl by simp
next
  case (Cons p xs)
  obtain k n where p: "p = (k, n)" by (cases p)
  let ?t = "file_unmap_extent i n s"
  have step: "file_change i s ?t ((idx_find (f_extents f))(k := None))"
    using Cons.prems p by (intro file_unmap_change) auto
  then obtain f' where f': "get_file ?t i = Some f'" "file_rest f' = file_rest f"
      "idx_find (f_extents f') = (idx_find (f_extents f))(k := None)"
    using Cons.prems(2) by (rule file_change_obtain)
  have "file_change i ?t (fold (\<lambda>(_, n). file_unmap_extent i n) xs ?t)
      (\<lambda>k. if k \<in> fst ` set xs then None else idx_find (f_extents f') k)"
    using Cons.prems p file_changeD(1) [OF step] f'
    by (intro Cons.IH) (auto simp: rev_image_eqI)
  then have "file_change i s (fold (\<lambda>(_, n). file_unmap_extent i n) xs ?t)
      (\<lambda>l. if l \<in> fst ` set xs then None else idx_find (f_extents f') l)"
    by (rule file_change_trans [OF step])
  moreover have "(\<lambda>l. if l \<in> fst ` set xs then None else idx_find (f_extents f') l) =
      (\<lambda>l. if l \<in> fst ` set (p # xs) then None else idx_find (f_extents f) l)"
    by (auto simp: p f'(3))
  ultimately show ?case by (simp add: p)
qed

text \<open>The extents that a file of a given size has room for.\<close>

definition fits :: "u64 \<Rightarrow> bitfield30 \<Rightarrow> bool" where
  "fits sz k \<longleftrightarrow> unat k * 2 ^ 20 < unat sz"

definition truncate_unmap :: "cyanfs_file_id_t \<Rightarrow> u64 \<Rightarrow> cyanfs_file \<Rightarrow> super \<Rightarrow> super" where
  "truncate_unmap i sz f s =
     fold (\<lambda>(_, n). file_unmap_extent i n) (filter (\<lambda>(k, _). \<not> fits sz k) (idx_items (f_extents f))) s"

lemma fits_last_index:
  assumes "sz \<noteq> 0" "unat sz \<le> 2 ^ 50"
  shows "fits sz k \<longleftrightarrow> k \<le> ucast (cyanfs_extent_from (sz - 1))"
proof -
  have sz: "unat (sz - 1) = unat sz - 1" "0 < unat sz"
    using assms(1) by (simp_all add: unat_minus_one unat_gt_0)
  have "unat (ucast (cyanfs_extent_from (sz - 1)) :: bitfield30) = (unat sz - 1) div 2 ^ 20"
    using assms(2) by (simp add: unat_ucast_mod unat_extent_from sz)
  then have "k \<le> ucast (cyanfs_extent_from (sz - 1)) \<longleftrightarrow> unat k \<le> (unat sz - 1) div 2 ^ 20"
    by (simp add: word_le_nat_alt)
  also have "\<dots> \<longleftrightarrow> unat k * 2 ^ 20 < unat sz"
    using sz(2) by (simp add: less_eq_div_iff_mult_less_eq Suc_le_eq [symmetric] le_diff_conv2)
  finally show ?thesis by (simp add: fits_def)
qed

lemma truncate_unmap_eq:
  assumes ok: "file_extents_ok f" and f: "get_file s i = Some f" and sz: "unat sz \<le> 2 ^ 50"
  shows "file_truncate i sz s = (Ok, file_set_size i sz (truncate_unmap i sz f s))"
proof -
  have key: "(k, n) \<in> set (idx_items (f_extents f)) \<Longrightarrow> ext_file n = k" for k n
    using ok by (auto simp: file_extents_ok_def simp flip: idx_find_in_items)
  show ?thesis
  proof (cases "sz = 0")
    case True
    then show ?thesis
      using f by (simp add: file_truncate_def truncate_unmap_def fits_def case_prod_unfold)
  next
    case False
    define tmp where "tmp = (ucast (cyanfs_extent_from (sz - 1)) :: bitfield30)"
    have "filter (\<lambda>(_, n). ext_file n > tmp) (idx_from (f_extents f) tmp) =
        filter (\<lambda>(k, _). \<not> fits sz k) (idx_items (f_extents f))"
      using key by (auto simp: idx_from_def fits_last_index [OF False sz] tmp_def not_le intro!: filter_cong)
    then show ?thesis
      using f False
      by (simp add: file_truncate_def truncate_unmap_def Let_def case_prod_unfold flip: tmp_def)
        (simp add: fold_filter [where P = "\<lambda>p. ext_file (snd p) > tmp"
            and g = "\<lambda>p. file_unmap_extent i (snd p)"])
  qed
qed

definition no_pending :: "cyanfs_file \<Rightarrow> bool" where
  "no_pending f \<longleftrightarrow> (\<forall>k n. idx_find (f_extents f) k = Some n \<longrightarrow> \<not> ext_pending n)"

lemma file_set_size_inv:
  assumes inv: "extent_inv s" and f: "get_file s i = Some f"
    and fit: "\<And>k. idx_find (f_extents f) k \<noteq> None \<Longrightarrow> fits sz k"
  shows "extent_inv (file_set_size i sz s)"
proof -
  let ?s' = "file_set_size i sz s"
  have eq: "?s' = put_file i (f\<lparr>f_meta := (f_meta f)\<lparr>fm_size := sz\<rparr>\<rparr>) s"
    using f by (simp add: file_set_size_def)
  have blk: "block ?s' j k = block s j k" for j k
    using f by (simp add: eq block_def)
  have held: "held_at ?s' q c = held_at s q c" for q c
    by (cases q) (simp_all add: blk, simp add: eq)
  have "ownership ?s'"
    by (rule ownership_same [OF extent_invD(1) [OF inv] held])
      (rule total_extents_frame [OF super_rest_truncate(1)])
  moreover have "tree_nodes_ok ?s'" and "counters_ok ?s'"
    using extent_invD(2,3) [OF inv]
    by (simp_all add: eq tree_nodes_ok_def counters_ok_def)
      (simp add: put_file_def idx_sum_put_same [OF get_file_files [OF f]])
  moreover have "file_extents_ok h" if "get_file ?s' j = Some h" for j h
    using that extent_invD(4) [OF inv] f fit
    by (auto simp: eq file_extents_ok_def fits_def split: if_splits)
  ultimately show ?thesis by (auto simp: extent_inv_def)
qed

lemma file_truncate_spec:
  assumes inv: "extent_inv s" and f: "get_file s i = Some f" and sz: "unat sz \<le> 2 ^ 50"
    and np: "no_pending f"
  obtains s' f' where "file_truncate i sz s = (Ok, s')" "extent_inv s'" "super_rest s' = super_rest s"
    "panicked s' = panicked s" "\<And>j. j \<noteq> i \<Longrightarrow> get_file s' j = get_file s j" "get_file s' i = Some f'"
    "file_rest f' = file_rest (f\<lparr>f_meta := (f_meta f)\<lparr>fm_size := sz\<rparr>\<rparr>)"
    "idx_find (f_extents f') = (\<lambda>k. if fits sz k then idx_find (f_extents f) k else None)"
proof -
  let ?xs = "filter (\<lambda>(k, _). \<not> fits sz k) (idx_items (f_extents f))"
  let ?t = "truncate_unmap i sz f s"
  have "distinct (map fst ?xs)"
    by (intro distinct_map_filter idx.keys_distinct TrueI)
  then have "file_change i s ?t (\<lambda>k. if k \<in> fst ` set ?xs then None else idx_find (f_extents f) k)"
    unfolding truncate_unmap_def using np [unfolded no_pending_def]
    by (intro unmap_fold_change [OF inv f]) (auto simp flip: idx_find_in_items)
  moreover have "(\<lambda>k. if k \<in> fst ` set ?xs then None else idx_find (f_extents f) k) =
      (\<lambda>k. if fits sz k then idx_find (f_extents f) k else None)"
    using idx_find_None_set [of "f_extents f"] by (auto simp: fun_eq_iff image_iff)
  ultimately have ch: "file_change i s ?t (\<lambda>k. if fits sz k then idx_find (f_extents f) k else None)"
    by simp
  then obtain g where g: "get_file ?t i = Some g" "file_rest g = file_rest f"
      "idx_find (f_extents g) = (\<lambda>k. if fits sz k then idx_find (f_extents f) k else None)"
    using f by (rule file_change_obtain)
  let ?s' = "file_set_size i sz ?t" and ?g = "g\<lparr>f_meta := (f_meta g)\<lparr>fm_size := sz\<rparr>\<rparr>"
  have s': "?s' = put_file i ?g ?t" using g(1) by (simp add: file_set_size_def)
  show ?thesis
  proof
    show "file_truncate i sz s = (Ok, ?s')"
      by (rule truncate_unmap_eq [OF extent_invD(4) [OF inv f] f sz])
    show "extent_inv ?s'"
      by (rule file_set_size_inv [OF file_changeD(1) [OF ch] g(1)]) (simp add: g(3) split: if_splits)
    show "super_rest ?s' = super_rest s"
      using file_changeD(2) [OF ch] by (simp add: frame_simps)
    show "panicked ?s' = panicked s" "j \<noteq> i \<Longrightarrow> get_file ?s' j = get_file s j" for j
      using file_changeD(3,4) [OF ch] by (simp_all add: s')
    show "get_file ?s' i = Some ?g" by (simp add: s')
    show "file_rest ?g = file_rest (f\<lparr>f_meta := (f_meta f)\<lparr>fm_size := sz\<rparr>\<rparr>)"
      using g(2) by (simp add: file_rest_def)
    show "idx_find (f_extents ?g) = (\<lambda>k. if fits sz k then idx_find (f_extents f) k else None)"
      using g(3) by simp
  qed
qed

subsection \<open>The trees that the operations touch\<close>

definition unmap_target :: "super \<Rightarrow> tree_id" where
  "unmap_target s = (if has_flag s FLAG_READY then Unused_Extents else Free_Extents)"

lemma trees_panic [simp]: "trees (panic s) = trees s"
  by (simp add: panic_def)

lemma trees_file_to_super:
  "T \<noteq> to \<Longrightarrow> trees (extent_file_to_super i n to s) T = trees s T"
  by (simp add: extent_file_to_super_def Let_def tree_insert_def put_file_def add_data_def
      split: option.split)

lemma trees_unmap: "T \<noteq> unmap_target s \<Longrightarrow> trees (file_unmap_extent i n s) T = trees s T"
  by (simp add: file_unmap_extent_def Let_def unmap_target_def trees_file_to_super split: if_splits)

lemma unmap_target_unmap [simp]: "unmap_target (file_unmap_extent i n s) = unmap_target s"
  using super_rest_D(10) [OF super_rest_map(2)] by (simp add: unmap_target_def has_flag_def)

lemma trees_unmap_fold:
  "T \<noteq> unmap_target s \<Longrightarrow>
     trees (fold (\<lambda>p s. if P p then file_unmap_extent i (snd p) s else s) xs s) T = trees s T"
  by (induction xs arbitrary: s) (simp_all add: trees_unmap)

lemma trees_unmap_all:
  "T \<noteq> unmap_target s \<Longrightarrow> trees (fold (\<lambda>p. file_unmap_extent i (snd p)) xs s) T = trees s T"
  by (induction xs arbitrary: s) (simp_all add: trees_unmap)

lemma trees_set_size [simp]: "trees (file_set_size i sz s) = trees s"
  by (simp add: file_set_size_def split: option.split)

lemma trees_truncate: "T \<noteq> unmap_target s \<Longrightarrow> trees (snd (file_truncate i sz s)) T = trees s T"
  by (simp add: file_truncate_def Let_def case_prod_unfold trees_unmap_fold trees_unmap_all
      split: option.split)

lemma trees_update_extent [simp]: "trees (update_extent i k g s) = trees s"
  by (simp add: update_extent_def split: option.split)

lemma trees_map: "T \<noteq> Free_Extents \<Longrightarrow> trees (snd (file_map_extent i n k s)) T = trees s T"
  by (simp add: file_map_extent_def extent_super_to_file_def Let_def tree_remove_def add_data_def
      split: option.split prod.split)

lemma trees_bind: "T \<noteq> Free_Extents \<Longrightarrow> trees (snd (file_bind_extent i k b s)) T = trees s T"
  by (simp add: file_bind_extent_def trees_map split: option.split)

lemma trees_unbind: "T \<noteq> unmap_target s \<Longrightarrow> trees (snd (file_unbind_extent i k s)) T = trees s T"
  by (simp add: file_unbind_extent_def trees_unmap split: option.split)

end
