(* ===== verification/Extent_Alloc.thy ===== *)
theory Extent_Alloc
  imports Extent_Inv
begin

section \<open>Binding, unbinding and allocating extents\<close>

text \<open>
  The results of \<open>file_bind_extent\<close>, \<open>file_unbind_extent\<close> and \<open>file_alloc_extent\<close> on every branch, with
  their effect on the file and on the invariant of the extents.
\<close>

lemma index_max_iff: "ucast k > CYANFS_EXTENT_INDEX_MAX \<longleftrightarrow> 2 ^ 30 \<le> unat k" for k :: u32
  using unat_bounds(4) [of k]
  by (auto simp: word_less_nat_alt unat_ucast_mod size_values)

lemma unat_index: "unat k < 2 ^ 30 \<Longrightarrow> unat (ucast k :: bitfield30) = unat k" for k :: u32
  by (simp add: unat_ucast_mod)

lemma ucast_index_inject:
  "unat k < 2 ^ 30 \<Longrightarrow> unat l < 2 ^ 30 \<Longrightarrow> (ucast k :: bitfield30) = ucast l \<longleftrightarrow> k = l" for k l :: u32
  by (metis unat_index word_unat_eq_iff)

lemma extent_begin_less_iff: "cyanfs_extent_begin k < sz \<longleftrightarrow> unat k * 2 ^ 20 < unat sz"
  by (simp add: word_less_nat_alt unat_extent_begin)

lemma fits_ucast: "unat k < 2 ^ 30 \<Longrightarrow> fits sz (ucast k) \<longleftrightarrow> cyanfs_extent_begin k < sz" for k :: u32
  by (simp add: fits_def unat_index extent_begin_less_iff)

subsection \<open>Finding free extents\<close>

lemma find_extent_Some:
  "super_find_extent s b = Some n \<longleftrightarrow> unat b < 2 ^ 30 \<and> idx_find (trees s Free_Extents) (ucast b) = Some n"
  by (auto simp: super_find_extent_def index_max_iff not_le)

lemma find_nearly_Some:
  "super_find_nearly_extent s b = Some n \<Longrightarrow> \<exists>k. idx_find (trees s Free_Extents) k = Some n"
  by (auto simp: super_find_nearly_extent_def dest: idx_min_Some idx_nfind_Some(1)
      split: option.splits if_splits prod.splits)

lemma find_nearly_None: "super_find_nearly_extent s b = None \<longleftrightarrow> trees s Free_Extents = idx_empty"
  by (auto simp: super_find_nearly_extent_def idx_min_None idx_nfind_empty split: option.splits prod.splits)

subsection \<open>Bind and unbind\<close>

lemma file_bind_spec:
  assumes inv: "extent_inv s" and f: "get_file s i = Some f"
  shows "if unat k < 2 ^ 30 \<and> cyanfs_extent_begin k < fm_size (f_meta f) \<and> unat b < 2 ^ 30 \<and>
            idx_find (trees s Free_Extents) (ucast b) \<noteq> None \<and> idx_find (f_extents f) (ucast k) = None
         then \<exists>s' n. idx_find (trees s Free_Extents) (ucast b) = Some n \<and>
                file_bind_extent i k b s = (Ok, s') \<and>
                file_change i s s' ((idx_find (f_extents f))
                  (ucast k \<mapsto> n\<lparr>ext_file := ucast k, ext_map := True\<rparr>))
         else file_bind_extent i k b s = (INVAL, s)"
proof (cases "unat k < 2 ^ 30 \<and> cyanfs_extent_begin k < fm_size (f_meta f)")
  case False
  then have "ucast k > CYANFS_EXTENT_INDEX_MAX \<or> cyanfs_extent_begin k \<ge> fm_size (f_meta f)"
    by (auto simp: index_max_iff not_less)
  then show ?thesis using f False by (auto simp: file_bind_extent_def)
next
  case k: True
  then have k': "\<not> (ucast k > CYANFS_EXTENT_INDEX_MAX \<or> cyanfs_extent_begin k \<ge> fm_size (f_meta f))"
    by (auto simp: index_max_iff not_le)
  show ?thesis
  proof (cases "super_find_extent s b")
    case None
    then have "\<not> (unat b < 2 ^ 30 \<and> idx_find (trees s Free_Extents) (ucast b) \<noteq> None)"
      using find_extent_Some [of s b] by fastforce
    moreover have "file_bind_extent i k b s = (INVAL, s)"
      using f None k' by (simp add: file_bind_extent_def del: de_Morgan_disj)
    ultimately show ?thesis by auto
  next
    case (Some n)
    then have n: "unat b < 2 ^ 30" "idx_find (trees s Free_Extents) (ucast b) = Some n"
      by (simp_all add: find_extent_Some)
    have eq: "file_bind_extent i k b s = file_map_extent i n k s"
      using f Some k' by (simp add: file_bind_extent_def del: de_Morgan_disj)
    have "unat (ucast k :: bitfield30) * 2 ^ 20 < unat (fm_size (f_meta f))"
      using k fits_ucast [of k "fm_size (f_meta f)"] by (simp add: fits_def)
    then show ?thesis
      using k n eq file_map_extent_busy [OF f, of k n] file_map_change [OF inv f n(2), of k] by auto
  qed
qed

lemma file_unbind_spec:
  assumes inv: "extent_inv s" and f: "get_file s i = Some f"
    and np: "\<And>n. idx_find (f_extents f) (ucast k) = Some n \<Longrightarrow> \<not> ext_pending n"
  shows "if unat k < 2 ^ 30 \<and> idx_find (f_extents f) (ucast k) \<noteq> None
         then \<exists>s'. file_unbind_extent i k s = (Ok, s') \<and>
                file_change i s s' ((idx_find (f_extents f))(ucast k := None))
         else file_unbind_extent i k s = (INVAL, s)"
proof -
  have fit: "fits (fm_size (f_meta f)) l" if "idx_find (f_extents f) l \<noteq> None" for l
    using that extent_invD(4) [OF inv f] by (auto simp: file_extents_ok_def fits_def)
  show ?thesis
  proof (cases "unat k < 2 ^ 30 \<and> idx_find (f_extents f) (ucast k) \<noteq> None")
    case True
    then obtain n where n: "idx_find (f_extents f) (ucast k) = Some n" by blast
    have "\<not> (ucast k > CYANFS_EXTENT_INDEX_MAX \<or> cyanfs_extent_begin k \<ge> fm_size (f_meta f))"
      using True fit [of "ucast k"] by (auto simp: index_max_iff fits_ucast not_le)
    then have "file_unbind_extent i k s = (Ok, file_unmap_extent i n s)"
      using f n by (simp add: file_unbind_extent_def del: de_Morgan_disj)
    then show ?thesis
      using True file_unmap_change [OF inv f n np [OF n]] by simp
  next
    case False
    then show ?thesis
      using f by (auto simp: file_unbind_extent_def index_max_iff split: option.split)
  qed
qed

subsection \<open>Allocation\<close>

lemma file_alloc_spec:
  assumes inv: "extent_inv s" and f: "get_file s i = Some f" and sz: "unat (fm_size (f_meta f)) \<le> 2 ^ 50"
    and off: "unat off < unat (fm_size (f_meta f))" and unmapped: "file_find_extent f off = None"
  defines "k \<equiv> ucast (cyanfs_extent_from off) :: bitfield30"
  shows "if sm_reserved_extents (meta s) < sm_free_extents (meta s)
         then \<exists>s' n. file_alloc_extent i off s = (Some n, s') \<and> ext_file n = k \<and> ext_map n \<and>
                \<not> ext_pending n \<and> \<not> ext_error n \<and> unat k = unat off div 2 ^ 20 \<and>
                idx_find (trees s Free_Extents) (ext_backend n) \<noteq> None \<and>
                file_change i s s' ((idx_find (f_extents f))(k \<mapsto> n))
         else file_alloc_extent i off s = (None, s)"
proof (cases "sm_reserved_extents (meta s) < sm_free_extents (meta s)")
  case False
  then show ?thesis using f by (simp add: file_alloc_extent_def not_less)
next
  case True
  have "trees s Free_Extents \<noteq> idx_empty"
    using True extent_invD(3) [OF inv] by (auto simp: counters_ok_def)
  then obtain n where near: "super_find_nearly_extent s (alloc_id_from f off s) = Some n"
    by (metis find_nearly_None option.exhaust)
  then obtain b where b: "idx_find (trees s Free_Extents) b = Some n"
    using find_nearly_Some by blast
  then have n: "ext_backend n = b" "\<not> ext_pending n" "\<not> ext_error n"
    using extent_invD(2) [OF inv] by (auto simp: tree_nodes_ok_def)
  have k: "unat k = unat off div 2 ^ 20"
    using off sz by (simp add: k_def unat_ucast_mod unat_extent_from)
  have "unat k * 2 ^ 20 < unat (fm_size (f_meta f))"
    using off div_times_less_eq_dividend [of "unat off" "2 ^ 20"] unfolding k by linarith
  then obtain s' where "file_map_extent i n (cyanfs_extent_from off) s = (Ok, s')"
      "file_change i s s' ((idx_find (f_extents f))(k \<mapsto> n\<lparr>ext_file := k, ext_map := True\<rparr>))"
    using file_map_change [OF inv f b, of "cyanfs_extent_from off"] unmapped
    by (auto simp: k_def file_find_extent_def)
  then show ?thesis
    using True f near n b k by (simp add: file_alloc_extent_def not_le flip: k_def)
qed

end
