(* ===== verification/Journal_Device.thy ===== *)
theory Journal_Device
  imports Journal_Writer_Inv Extent_Alloc
begin

section \<open>Writing a journal to the device and reading it back\<close>

text \<open>
  A record that the writer puts behind the end of a chain extends the chain and leaves its records
  alone, so that the loader reads back what was written.
\<close>

subsection \<open>Writes and extents\<close>

lemma length_device_write:
  "unat b + length bytes \<le> length dev \<Longrightarrow> length (device_write b bytes dev) = length dev"
  by (simp add: device_write_def)

lemma extent_in_device:
  "device_has n dev \<Longrightarrow> e < n \<Longrightarrow> off + k \<le> 2 ^ 20 \<Longrightarrow> 8192 + unat e * 2 ^ 20 + off + k \<le> length dev"
proof -
  assume a: "device_has n dev" "e < n" "off + k \<le> 2 ^ 20"
  have "Suc (unat e) * 2 ^ 20 \<le> unat n * 2 ^ 20" using a(2) by (intro mult_right_mono) (simp_all add: word_less_nat_alt)
  then show ?thesis using a(1,3) by (simp add: device_has_def)
qed

lemma window_at:
  assumes "a \<le> b" "b + length ys \<le> a + m" "a + m \<le> length xs"
  shows "take m (drop a (take b xs @ ys @ drop (b + length ys) xs)) =
    take (b - a) (take m (drop a xs)) @ ys @ drop (b - a + length ys) (take m (drop a xs))"
proof -
  obtain d where d: "b = a + d" using assms(1) by (metis le_Suc_ex)
  define u v where "u = take a xs" and "v = drop a xs"
  have xs: "xs = u @ v" "length u = a" using assms by (simp_all add: u_def v_def)
  have "drop a (take b xs @ ys @ drop (b + length ys) xs) = take d v @ ys @ drop (d + length ys) v"
    by (simp add: xs d)
  moreover have "d + length ys \<le> m" "m \<le> length v" using assms d xs by simp_all
  ultimately show ?thesis by (simp add: d drop_take xs(2)) (simp add: xs)
qed

lemma window_before:
  assumes "a + m \<le> b" "b \<le> length xs"
  shows "take m (drop a (take b xs @ ys)) = take m (drop a xs)"
proof -
  have "drop a (take b xs @ ys) = take (b - a) (drop a xs) @ ys" using assms by (simp add: drop_take)
  then show ?thesis using assms by simp
qed

lemma window_after:
  assumes "b + length ys \<le> a" "b \<le> length xs"
  shows "take m (drop a (take b xs @ ys @ drop (b + length ys) xs)) = take m (drop a xs)"
  using assms by simp

lemma extent_order:
  fixes i e :: cyanfs_extent_id
  assumes "unat i < unat e"
  shows "8192 + unat i * 2 ^ 20 + 2 ^ 20 \<le> 8192 + unat e * 2 ^ 20"
  using assms mult_right_mono [of "Suc (unat i)" "unat e" "2 ^ 20 :: nat"] by simp

lemma extent_bytes_write:
  fixes e i n :: cyanfs_extent_id and off :: u64
  assumes dev: "device_has n dev" and e: "e < n" and i: "i < n"
    and off: "unat off < 2 ^ 20" "unat off + length bytes \<le> 2 ^ 20"
  shows "extent_bytes (device_write (cyanfs_map_extent_offset e off) bytes dev) i =
    (if i = e then take (unat off) (extent_bytes dev e) @ bytes @ drop (unat off + length bytes) (extent_bytes dev e)
     else extent_bytes dev i)"
proof -
  define a where "a i = 8192 + unat i * 2 ^ 20" for i :: cyanfs_extent_id
  define m :: nat where "m = 2 ^ 20"
  have b: "unat (cyanfs_map_extent_offset e off) = a e + unat off" using off(1) by (simp add: map_extent_offset_nat a_def)
  have in_dev: "a i + m \<le> length dev" if "i < n" for i
    using extent_in_device [OF dev that, of 0 m] by (simp add: a_def m_def)
  have ord: "a i + m \<le> a j" if "unat i < unat j" for i j using extent_order [OF that] by (simp add: a_def m_def)
  have le: "unat off + length bytes \<le> m" using off(2) by (simp add: m_def)
  have ext: "extent_bytes d i = take m (drop (a i) d)" for d i by (simp add: extent_bytes_def a_def m_def)
  consider "i = e" | "unat i < unat e" | "unat e < unat i" by (metis linorder_neqE_nat word_unat_eq_iff)
  then show ?thesis
  proof cases
    case 1
    then show ?thesis
      using window_at [of "a e" "a e + unat off" bytes m dev] in_dev [OF e] le by (simp add: ext device_write_def b)
  next
    case 2
    then show ?thesis
      using window_before [of "a i" m "a e + unat off" dev] ord [OF 2] in_dev [OF e] le
      by (auto simp: ext device_write_def b)
  next
    case 3
    then show ?thesis
      using window_after [of "a e + unat off" bytes "a i" dev m] ord [OF 3] in_dev [OF e] le
      by (auto simp: ext device_write_def b)
  qed
qed

lemma super_block_write:
  assumes "8192 \<le> unat b" "device_has n dev"
  shows "take 8192 (device_write b bytes dev) = take 8192 dev"
  using assms by (simp add: device_write_def device_has_def min_def)

lemma device_has_write:
  "device_has n dev \<Longrightarrow> unat b + length bytes \<le> length dev \<Longrightarrow> device_has n (device_write b bytes dev)"
  by (simp add: device_has_def length_device_write)

subsection \<open>What a chain depends on\<close>

lemma read_record_cong:
  assumes "read_record uuid q p = Record js link sz" "take sz p' = take sz p" "length p' = length p"
  shows "read_record uuid q p' = Record js link sz"
proof -
  obtain h where h: "cyanfs_journal_decode_header_checked p = Some h"
    using assms(1) by (auto simp: read_record_def split: option.splits)
  have sz: "sz = unat (jh_size h)" "15 \<le> sz"
    using assms(1) h by (auto simp: read_record_def Let_def journal_size_values word_less_nat_alt
        split: if_splits option.splits)
  have "cyanfs_journal_decode_header_checked p' = Some h"
    using decode_header_take [OF sz(2), of p] decode_header_take [OF sz(2), of p'] h assms(2) by simp
  moreover have "record_sum uuid p' (jh_size h) = record_sum uuid p (jh_size h)"
    using record_sum_take [of "jh_size h" sz uuid p] record_sum_take [of "jh_size h" sz uuid p'] sz assms(2) by simp
  ultimately have "read_record uuid q p' = read_record uuid q p"
    using h assms(2,3) by (simp only: read_record_def option.case flip: sz(1))
  then show ?thesis using assms(1) by simp
qed

lemma chain_last: "chain dev uuid e off q js es e' off' q' \<Longrightarrow> e' = last (e # es)"
  by (induction rule: chain.induct) auto

lemma chain_forward: "chain dev uuid e off q js es e' off' q' \<Longrightarrow> es = [] \<Longrightarrow> off \<le> off'"
  by (induction rule: chain.induct) auto

lemma chain_seq: "chain dev uuid e off q js es e' off' q' \<Longrightarrow> q' = q + of_nat (length js)"
  by (induction rule: chain.induct) (simp_all add: add.assoc)

lemma take_drop_agree:
  assumes "take m xs = take m ys" "off + sz \<le> m"
  shows "take sz (drop off xs) = take sz (drop off ys)"
proof -
  have "take (off + sz) (take m xs) = take (off + sz) (take m ys)" by (simp only: assms(1))
  then show ?thesis using assms(2) by (simp add: take_drop add.commute min_def)
qed

lemma chain_write:
  assumes "chain dev uuid e off q js es e' off' q'" "distinct (e # es)"
    and "\<And>i. i \<in> set (e # es) \<Longrightarrow> i \<noteq> e' \<Longrightarrow> extent_bytes dev' i = extent_bytes dev i"
    and "take off' (extent_bytes dev' e') = take off' (extent_bytes dev e')"
    and "length (extent_bytes dev' e') = length (extent_bytes dev e')"
  shows "chain dev' uuid e off q js es e' off' q'"
  using assms
proof (induction rule: chain.induct)
  case (Chain_End e off q)
  show ?case by (rule chain.Chain_End)
next
  case (Chain_Record q off e js sz ks es e' off' q')
  have "read_record uuid q (drop off (extent_bytes dev' e)) = Record js None sz"
  proof (cases "e = e'")
    case True
    then have "es = []" using chain_last [OF Chain_Record.hyps(2)] Chain_Record.prems(1) by (auto split: if_splits)
    then have "off + sz \<le> off'" using chain_forward [OF Chain_Record.hyps(2)] by simp
    then have "take sz (drop off (extent_bytes dev' e)) = take sz (drop off (extent_bytes dev e))"
      using Chain_Record.prems(3) True by (intro take_drop_agree) simp_all
    then show ?thesis
      using Chain_Record.prems(4) True by (intro read_record_cong [OF Chain_Record.hyps(1)]) simp_all
  next
    case False
    then show ?thesis using Chain_Record.hyps(1) Chain_Record.prems(2) by simp
  qed
  then show ?case using Chain_Record.IH [OF Chain_Record.prems] chain.Chain_Record by blast
next
  case (Chain_Link q off e js f sz ks es e' off' q')
  have "e' \<in> set (f # es)" using chain_last [OF Chain_Link.hyps(2)] last_in_set [of "f # es"] by simp
  then have "extent_bytes dev' e = extent_bytes dev e" using Chain_Link.prems(1,2) by auto
  moreover have "chain dev' uuid f 0 (q + of_nat (length js)) ks es e' off' q'"
    using Chain_Link.prems by (intro Chain_Link.IH) simp_all
  ultimately show ?case using Chain_Link.hyps(1) by (metis chain.Chain_Link)
qed

subsection \<open>One step of the writer\<close>

text \<open>The cursor of a writer is at the end of a chain, and where the writer continues.\<close>

definition writes_at :: "u32 \<Rightarrow> journal_writer \<Rightarrow> cyanfs_extent_id \<Rightarrow> nat \<Rightarrow> u64 \<Rightarrow> bool" where
  "writes_at n t e off q \<longleftrightarrow>
     jc_extent_id (jw_cursor t) = e \<and> e < n \<and> unat (jc_extent_off (jw_cursor t)) = off \<and> jc_seq (jw_cursor t) = q"

lemma writer_step_chain:
  assumes dev: "device_has n dev" and ok: "writer_ok t" and w: "writer_layout t = Some w"
    and at: "writes_at n t e off q" and ch: "chain dev uuid e0 0 q0 js es e off q"
    and ext: "distinct (e0 # es)" "\<forall>i \<in> set (e0 # es). i < n"
    and f: "wp_need_next w \<Longrightarrow> f < n" "\<not> wp_need_next w \<Longrightarrow> f = cyanfs_extent_id_invalid"
  defines "dev' \<equiv> device_write (cyanfs_map_extent_offset e (jc_extent_off (jw_cursor t)))
      (take (unat (wp_size w)) (writer_page uuid t w f)) dev"
    and "t' \<equiv> writer_advance uuid t w f"
    and "ks \<equiv> map jn_entry (take (unat (wp_regular_count w)) (jw_head t))"
  shows "device_has n dev'" "take 8192 dev' = take 8192 dev" "length dev' = length dev"
    "\<And>i. i < n \<Longrightarrow> i \<noteq> e \<Longrightarrow> extent_bytes dev' i = extent_bytes dev i"
    "\<exists>e' off' q'. writes_at n t' e' off' q' \<and> off' < 2 ^ 20 \<and>
       chain dev' uuid e0 0 q0 (js @ ks) (es @ (if wp_need_next w then [f] else [])) e' off' q'"
    "writer_ok t'" "jw_head t' = drop (length ks) (jw_head t)" "0 < length ks"
    "ks @ map jn_entry (jw_head t') = map jn_entry (jw_head t)"
proof -
  let ?c = "jw_cursor t" and ?sz = "unat (wp_size w)" and ?k = "unat (wp_regular_count w)"
  let ?b = "cyanfs_map_extent_offset e (jc_extent_off ?c)" and ?bytes = "take ?sz (writer_page uuid t w f)"
  have pos: "jc_extent_id ?c = e" "e < n" "unat (jc_extent_off ?c) = off" "jc_seq ?c = q" using at by (simp_all add: writes_at_def)
  have ne: "jw_head t \<noteq> []" using w by (auto simp: writer_layout_def Let_def split: if_splits)
  have spec: "0 < ?k" "?k \<le> length (jw_head t)" "unat (jc_seq ?c) + ?k < 2 ^ 64"
      "512 dvd ?sz" "?sz \<le> 65536" "off + ?sz \<le> 2 ^ 20" "\<not> wp_need_next w \<longrightarrow> off + ?sz < 2 ^ 20"
    using writer_layout_spec [OF ok ne] w pos(3) by (auto simp: Let_def not_le split: if_splits)
  have off: "off < 2 ^ 20" "512 dvd off" using ok pos(3) by (auto simp: writer_ok_def)
  have lb: "length ?bytes = ?sz" using writer_page_spec(1) [OF ok w, of uuid f] spec(5) by simp
  have b: "unat ?b = 8192 + unat e * 2 ^ 20 + off" using off(1) pos(3) by (simp add: map_extent_offset_nat)
  have in_dev: "unat ?b + length ?bytes \<le> length dev"
    using extent_in_device [OF dev pos(2) spec(6)] lb b by simp
  show "device_has n dev'" unfolding dev'_def by (rule device_has_write [OF dev in_dev])
  show "take 8192 dev' = take 8192 dev" unfolding dev'_def by (rule super_block_write [OF _ dev]) (simp add: b)
  show "length dev' = length dev" unfolding dev'_def by (rule length_device_write [OF in_dev])
  have wr: "extent_bytes dev' i = (if i = e then take off (extent_bytes dev e) @ ?bytes @ drop (off + ?sz) (extent_bytes dev e)
      else extent_bytes dev i)" if "i < n" for i
    using extent_bytes_write [OF dev pos(2) that, of "jc_extent_off ?c" ?bytes] off spec(6) lb pos(3)
    unfolding dev'_def by simp
  then show "\<And>i. i < n \<Longrightarrow> i \<noteq> e \<Longrightarrow> extent_bytes dev' i = extent_bytes dev i" by simp
  have le: "length (extent_bytes dev e) = 2 ^ 20" by (rule length_extent_bytes [OF dev pos(2)])
  have ch': "chain dev' uuid e0 0 q0 js es e off q"
    using ext wr le off(1) lb spec(6) pos(2) by (intro chain_write [OF ch]) auto
  have "drop off (extent_bytes dev' e) = ?bytes @ drop (off + ?sz) (extent_bytes dev e)"
    using wr [OF pos(2)] le off(1) by simp
  then have rec: "read_record uuid q (drop off (extent_bytes dev' e)) =
      Record ks (if wp_need_next w then Some f else None) ?sz"
    using writer_page_spec(2) [OF ok w, of "drop (off + ?sz) (extent_bytes dev e)" uuid f] le pos
    by (simp add: ks_def)
  have lk: "length ks = ?k" using spec(2) by (simp add: ks_def)
  then show "jw_head t' = drop (length ks) (jw_head t)" "0 < length ks"
    using spec(1) by (simp_all add: t'_def writer_advance_def Let_def)
  then show "ks @ map jn_entry (jw_head t') = map jn_entry (jw_head t)"
    unfolding lk by (simp add: ks_def flip: map_append)
  have seq: "jc_seq (jw_cursor t') = q + of_nat (length ks)"
  proof -
    have "(ucast (wp_regular_count w) :: u64) = of_nat ?k"
      using unat_bounds(2) [of "wp_regular_count w"] by (simp add: word_unat_eq_iff unat_ucast_mod unat_of_nat)
    then show ?thesis by (simp add: t'_def writer_advance_def Let_def lk pos)
  qed
  have more: "unat (jc_extent_off ?c + wp_size w) = off + ?sz"
    using off(1) spec(5) pos(3) by (subst unat_add_no_wrap) simp_all
  have cur: "jc_extent_id (jw_cursor t') = (if wp_need_next w then f else e)"
      "unat (jc_extent_off (jw_cursor t')) = (if wp_need_next w then 0 else off + ?sz)"
      "length (jc_page (jw_cursor t')) = 65536"
    using f extent_not_invalid pos(1) more writer_page_spec(1) [OF ok w, of uuid f]
    by (auto simp: t'_def writer_advance_def Let_def)
  have rest: "list_all P (jw_head t')" if "list_all P (jw_head t)" for P
    using that by (metis \<open>jw_head t' = drop (length ks) (jw_head t)\<close> append_take_drop_id list_all_append)
  have end': "(if wp_need_next w then 0 else off + ?sz) < 2 ^ 20" "512 dvd (if wp_need_next w then 0 else off + ?sz)"
    using spec(4,7) off(2) by auto
  show "writer_ok t'" using ok cur end' rest unfolding writer_ok_def by simp
  have "chain dev' uuid e off q ks (if wp_need_next w then [f] else []) (if wp_need_next w then f else e)
      (if wp_need_next w then 0 else off + ?sz) (q + of_nat (length ks))"
    using chain.Chain_Link [OF _ chain.Chain_End, of uuid q off dev' e ks f ?sz]
      chain.Chain_Record [OF _ chain.Chain_End, of uuid q off dev' e ks ?sz] rec by auto
  from chain_append [OF ch' this]
  show "\<exists>e' off' q'. writes_at n t' e' off' q' \<and> off' < 2 ^ 20 \<and>
       chain dev' uuid e0 0 q0 (js @ ks) (es @ (if wp_need_next w then [f] else [])) e' off' q'"
    using cur seq end' pos(2) f(1) by (auto simp: writes_at_def split: if_splits)
qed

subsection \<open>Writing all entries\<close>

text \<open>
  The completions of a writer one after the other, each write carried out by the device, until the
  writer finishes or fails.
\<close>

lemma writer_layout_progress:
  "writer_layout t = Some w \<Longrightarrow> 0 < unat (wp_regular_count w) \<and> jw_head t \<noteq> []"
  by (auto simp: writer_layout_def writer_fit_def Let_def unat_gt_0 split: if_splits option.splits)

lemma writer_encode_progress:
  assumes "journal_writer_encode err t s = (Writer_Write b len fl t', s')"
  shows "length (jw_head t') < length (jw_head t)"
proof -
  obtain w f where "writer_layout t = Some w" "t' = writer_advance (sm_uuid (meta s')) t w f"
    using assms by (auto simp: journal_writer_encode_def split: if_splits option.splits prod.splits)
  then show ?thesis
    using writer_layout_progress [of t w] by (auto simp: writer_advance_def Let_def)
qed

function journal_write :: "journal_writer \<Rightarrow> super \<Rightarrow> device \<Rightarrow> bool \<times> journal_writer \<times> super \<times> device" where
  "journal_write t s dev =
     (case journal_writer_encode Ok t s of
        (Writer_Error, s) \<Rightarrow> (False, t, s, dev)
      | (Writer_Finish, s) \<Rightarrow> (True, t, s, dev)
      | (Writer_Write b_off len flush t, s) \<Rightarrow>
          journal_write t s (device_write b_off (take (unat len) (jc_page (jw_cursor t))) dev))"
  by pat_completeness auto

termination
  by (relation "measure (\<lambda>(t, s, dev). length (jw_head t))") (auto dest: writer_encode_progress [OF sym])

declare journal_write.simps [simp del]

definition free_id :: "super \<Rightarrow> cyanfs_extent_id \<Rightarrow> bool" where
  "free_id s i \<longleftrightarrow> unat i < 2 ^ 30 \<and> idx_find (trees s Free_Extents) (ucast i) \<noteq> None"

text \<open>What the writer needs of the super block.\<close>

definition writer_super :: "u32 \<Rightarrow> cyanfs_uuid_t \<Rightarrow> super \<Rightarrow> bool" where
  "writer_super n uuid s \<longleftrightarrow>
     extent_inv s \<and> sm_total_extents (meta s) = n \<and> unat n \<le> 2 ^ 30 \<and> sm_uuid (meta s) = uuid \<and>
     \<not> has_flag s FLAG_ERROR"

lemma unat_backend: "unat (ucast (b :: bitfield30) :: u32) = unat b" "(ucast (ucast b :: u32) :: bitfield30) = b"
  using unat_bounds(3) [of b] by (simp_all add: unat_ucast_mod word_unat_eq_iff)

lemma writer_alloc_spec:
  assumes ws: "writer_super n uuid s"
  shows "case super_find_nearly_extent s 0 of
      None \<Rightarrow> trees s Free_Extents = idx_empty
    | Some m \<Rightarrow>
        (let f = ucast (ext_backend m); s' = extent_super_to_super m Free_Extents Journal_Extents s
         in f < n \<and> free_id s f \<and> writer_super n uuid s' \<and>
            (\<forall>i. free_id s' i \<longleftrightarrow> free_id s i \<and> i \<noteq> f) \<and>
            idx_size (trees s Free_Extents) = Suc (idx_size (trees s' Free_Extents)))"
proof (cases "super_find_nearly_extent s 0")
  case None
  then show ?thesis using find_nearly_None [of s 0] by simp
next
  case (Some m)
  have inv: "extent_inv s" using ws by (simp add: writer_super_def)
  obtain k where k: "idx_find (trees s Free_Extents) k = Some m" using find_nearly_Some [OF Some] by blast
  have b: "ext_backend m = k" using extent_invD(2) [OF inv] k by (auto simp: tree_nodes_ok_def)
  have at: "held_at s (In_Tree Free_Extents) k" using k by simp
  note own = held_unique [OF extent_invD(1) [OF inv] at]
  let ?s = "extent_super_to_super m Free_Extents Journal_Extents s"
  have "idx_find (trees s Journal_Extents) k = None" using own(1) [of "In_Tree Journal_Extents"] by auto
  note trees = super_to_super_trees [of s Journal_Extents m Free_Extents, unfolded b, OF this]
  note R = super_rest_D [OF super_rest_moves(1) [of m Free_Extents Journal_Extents s]]
  have "writer_super n uuid ?s"
    using ws super_to_super_inv [OF inv k, of Journal_Extents] by (simp add: writer_super_def R has_flag_def)
  moreover have "free_id ?s i \<longleftrightarrow> free_id s i \<and> i \<noteq> ucast k" for i
  proof -
    have "ucast i = k \<longleftrightarrow> i = ucast k" if "unat i < 2 ^ 30"
      using that ucast_index_inject [OF that, of "ucast k"] unat_bounds(3) [of k] by (auto simp: unat_backend)
    then show ?thesis by (auto simp: free_id_def trees)
  qed
  moreover have "ucast k < n" "free_id s (ucast k)"
    using own(2) ws k unat_bounds(3) [of k]
    by (simp_all add: writer_super_def total_extents_def word_less_nat_alt unat_backend free_id_def)
  ultimately show ?thesis using Some b idx_size_remove [OF k] by (simp add: Let_def trees)
qed

text \<open>The journal so far and the writer at its end; \<open>link_ok\<close> is about the extent that the last record links.\<close>

definition writing ::
    "u32 \<Rightarrow> cyanfs_uuid_t \<Rightarrow> cyanfs_extent_id \<Rightarrow> u64 \<Rightarrow> journal_entry list \<Rightarrow> cyanfs_extent_id list \<Rightarrow>
      journal_writer \<Rightarrow> super \<Rightarrow> device \<Rightarrow> bool" where
  "writing n uuid e0 q0 js es t s dev \<longleftrightarrow>
     writer_super n uuid s \<and> writer_ok t \<and> device_has n dev \<and> distinct (e0 # es) \<and>
     (\<forall>i \<in> set (e0 # es). i < n \<and> \<not> free_id s i) \<and>
     (\<exists>e off q. writes_at n t e off q \<and> chain dev uuid e0 0 q0 js es e off q)"

definition link_ok :: "u32 \<Rightarrow> cyanfs_extent_id list \<Rightarrow> journal_writer \<Rightarrow> super \<Rightarrow> bool" where
  "link_ok n es t s \<longleftrightarrow>
     jw_head t = [] \<or> jw_next_id t = cyanfs_extent_id_invalid \<or>
     jw_next_id t < n \<and> jw_next_id t \<notin> set es \<and> \<not> free_id s (jw_next_id t)"

lemma writer_next_extent_spec:
  assumes ws: "writer_super n uuid s" and es: "\<forall>i \<in> set es. \<not> free_id s i" and link: "link_ok n es t s"
    and w: "writer_layout t = Some w" and ok: "writer_ok t"
  shows "case writer_next_extent t w s of
      (None, s') \<Rightarrow> trees s Free_Extents = idx_empty
    | (Some f, s') \<Rightarrow> writer_super n uuid s' \<and> (wp_need_next w \<longrightarrow> f < n \<and> f \<notin> set es \<and> \<not> free_id s' f) \<and>
        (\<not> wp_need_next w \<longrightarrow> f = cyanfs_extent_id_invalid) \<and> (\<forall>i. free_id s' i \<longrightarrow> free_id s i) \<and>
        (wp_need_next w \<longrightarrow> f = jw_next_id t \<or> free_id s f) \<and>
        idx_size (trees s Free_Extents) \<le> Suc (idx_size (trees s' Free_Extents)) \<and>
        (jw_next_id t \<noteq> cyanfs_extent_id_invalid \<longrightarrow>
          (if unat (wp_regular_count w) = length (jw_head t) then f = jw_next_id t
           else f \<noteq> jw_next_id t \<and> \<not> free_id s' (jw_next_id t)))"
proof -
  have ne: "jw_head t \<noteq> []" using writer_layout_progress [OF w] by simp
  obtain k where k: "unat (wp_regular_count w) = k"
      "wp_final_link w = (k = length (jw_head t) \<and> jw_next_id t \<noteq> cyanfs_extent_id_invalid)"
      "wp_final_link w \<longrightarrow> wp_need_next w"
    using writer_layout_spec [OF ok ne] w by (auto simp: Let_def split: if_splits)
  consider "\<not> wp_need_next w" | "wp_need_next w" "wp_final_link w" | "wp_need_next w" "\<not> wp_final_link w" by blast
  then show ?thesis
  proof cases
    case 1
    then show ?thesis using ws k link ne by (auto simp: writer_next_extent_def link_ok_def)
  next
    case 2
    then show ?thesis using ws k link ne by (simp add: writer_next_extent_def link_ok_def)
  next
    case 3
    show ?thesis
    proof (cases "super_find_nearly_extent s 0")
      case None
      then show ?thesis using 3 find_nearly_None [of s 0] by (simp add: writer_next_extent_def)
    next
      case (Some m)
      then show ?thesis
        using 3 writer_alloc_spec [OF ws] es k link ne by (auto simp: writer_next_extent_def link_ok_def Let_def)
    qed
  qed
qed

lemma writing_error:
  assumes wr: "writing n uuid e0 q0 js es t s dev" and link: "link_ok n (e0 # es) t s"
    and e: "journal_writer_encode Ok t s = (Writer_Error, s')"
  shows "trees s Free_Extents = idx_empty \<or> 2 ^ 64 \<le> unat (jc_seq (jw_cursor t)) + length (jw_head t)"
proof -
  have W: "writer_super n uuid s" "writer_ok t" "\<forall>i \<in> set (e0 # es). \<not> free_id s i" "\<not> has_flag s FLAG_ERROR"
    using wr by (auto simp: writing_def writer_super_def)
  have ne: "jw_head t \<noteq> []" using e W(4) by (auto simp: journal_writer_encode_def split: if_splits)
  show ?thesis
  proof (cases "writer_layout t")
    case None
    then show ?thesis using writer_layout_spec [OF W(2) ne] by (auto split: if_splits)
  next
    case (Some w)
    then show ?thesis
      using e W(4) ne writer_next_extent_spec [OF W(1,3) link Some W(2)]
      by (auto simp: journal_writer_encode_def split: prod.splits option.splits)
  qed
qed

lemma unat_u16: "unat (ucast w :: u64) = unat w" for w :: u16
  using unat_bounds(2) [of w] by (simp add: unat_ucast_mod)

lemma writing_step:
  assumes wr: "writing n uuid e0 q0 js es t s dev" and link: "link_ok n (e0 # es) t s"
    and e: "journal_writer_encode Ok t s = (Writer_Write b len fl t', s')"
  defines "dev' \<equiv> device_write b (take (unat len) (jc_page (jw_cursor t'))) dev"
  obtains ks fs where "writing n uuid e0 q0 (js @ ks) (es @ fs) t' s' dev'" "link_ok n (e0 # es @ fs) t' s'"
    "ks @ map jn_entry (jw_head t') = map jn_entry (jw_head t)" "ks \<noteq> []" "take 8192 dev' = take 8192 dev"
    "\<forall>i < n. i \<notin> set (e0 # es) \<longrightarrow> extent_bytes dev' i = extent_bytes dev i"
    "idx_size (trees s Free_Extents) \<le> Suc (idx_size (trees s' Free_Extents))"
    "unat (jc_seq (jw_cursor t')) = unat (jc_seq (jw_cursor t)) + length ks" "jw_next_id t' = jw_next_id t"
    "\<forall>i \<in> set fs. i = jw_next_id t \<or> free_id s i" "\<forall>i. free_id s' i \<longrightarrow> free_id s i"
    "jw_next_id t \<noteq> cyanfs_extent_id_invalid \<Longrightarrow> jw_head t' = [] \<Longrightarrow>
       fs = [jw_next_id t] \<and> jc_extent_off (jw_cursor t') = 0"
proof -
  have W: "writer_super n uuid s" "writer_ok t" "device_has n dev" "distinct (e0 # es)" "\<forall>i \<in> set (e0 # es). i < n"
      "\<forall>i \<in> set (e0 # es). \<not> free_id s i" "\<not> has_flag s FLAG_ERROR"
    using wr by (auto simp: writing_def writer_super_def)
  obtain x off q where at: "writes_at n t x off q" and ch: "chain dev uuid e0 0 q0 js es x off q"
    using wr by (auto simp: writing_def)
  obtain w f where w: "writer_layout t = Some w" and f: "writer_next_extent t w s = (Some f, s')"
    and eq: "b = cyanfs_map_extent_offset (jc_extent_id (jw_cursor t)) (jc_extent_off (jw_cursor t))" "len = wp_size w"
      "t' = writer_advance (sm_uuid (meta s')) t w f"
    using e by (auto simp: journal_writer_encode_def split: if_splits option.splits prod.splits)
  note N = writer_next_extent_spec [OF W(1,6) link w W(2), unfolded f prod.case option.case]
  have u: "sm_uuid (meta s') = uuid" using N by (simp add: writer_super_def)
  have x: "jc_extent_id (jw_cursor t) = x" "x < n" "jc_seq (jw_cursor t) = q" using at by (simp_all add: writes_at_def)
  have page: "jc_page (jw_cursor t') = writer_page uuid t w f"
    by (simp add: eq(3) u writer_advance_def Let_def)
  define ks where "ks = map jn_entry (take (unat (wp_regular_count w)) (jw_head t))"
  define fs where "fs = (if wp_need_next w then [f] else [])"
  have fn: "wp_need_next w \<Longrightarrow> f < n" "\<not> wp_need_next w \<Longrightarrow> f = cyanfs_extent_id_invalid" using N by blast+
  have d: "dev' = device_write (cyanfs_map_extent_offset x (jc_extent_off (jw_cursor t)))
      (take (unat (wp_size w)) (writer_page uuid t w f)) dev"
    by (simp add: dev'_def eq(1,2) page x(1))
  have t': "t' = writer_advance uuid t w f" by (simp add: eq(3) u)
  note S = writer_step_chain [OF W(3,2) w at ch W(4,5) fn, folded d t' ks_def fs_def]
  have xe: "x \<in> set (e0 # es)" using chain_last [OF ch] last_in_set [of "e0 # es"] by simp
  have ne: "jw_head t \<noteq> []" using writer_layout_progress [OF w] by simp
  have len: "unat (wp_regular_count w) = length ks \<and> unat q + length ks < 2 ^ 64"
    using writer_layout_spec [OF W(2) ne] w x(3) by (auto simp: Let_def ks_def not_le split: if_splits)
  have seq: "unat (jc_seq (jw_cursor t')) = unat (jc_seq (jw_cursor t)) + length ks"
  proof -
    have "jc_seq (jw_cursor t') = q + ucast (wp_regular_count w)"
      by (simp add: t' writer_advance_def Let_def x(3))
    moreover have "unat (q + ucast (wp_regular_count w)) = unat q + length ks"
      using len by (subst unat_add_no_wrap) (simp_all add: unat_u16)
    ultimately show ?thesis by (simp add: x(3))
  qed
  have nid: "jw_next_id t' = jw_next_id t" by (simp add: t' writer_advance_def Let_def)
  have all: "jw_head t' = [] \<longleftrightarrow> unat (wp_regular_count w) = length (jw_head t)"
  proof -
    have "length ks = min (length (jw_head t)) (unat (wp_regular_count w))" by (simp add: ks_def)
    then show ?thesis using S(7) len by auto
  qed
  show ?thesis
  proof (rule that [of ks fs])
    show "writing n uuid e0 q0 (js @ ks) (es @ fs) t' s' dev'"
    proof -
      have "\<forall>i \<in> set (e0 # es @ fs). i < n \<and> \<not> free_id s' i" "distinct (e0 # es @ fs)"
        using N W(4-6) by (auto simp: fs_def)
      then show ?thesis using S(1,5,6) N unfolding writing_def by blast
    qed
    show "link_ok n (e0 # es @ fs) t' s'"
      using link N all nid S(7) ne by (auto simp: link_ok_def fs_def)
    show "ks @ map jn_entry (jw_head t') = map jn_entry (jw_head t)" by (rule S(9))
    show "ks \<noteq> []" using S(8) by auto
    show "take 8192 dev' = take 8192 dev" by (rule S(2))
    show "\<forall>i < n. i \<notin> set (e0 # es) \<longrightarrow> extent_bytes dev' i = extent_bytes dev i" using S(4) xe by metis
    show "idx_size (trees s Free_Extents) \<le> Suc (idx_size (trees s' Free_Extents))" using N by blast
    show "fs = [jw_next_id t] \<and> jc_extent_off (jw_cursor t') = 0"
      if "jw_next_id t \<noteq> cyanfs_extent_id_invalid" "jw_head t' = []"
    proof -
      have fe: "f = jw_next_id t" using N that all by simp
      then have "wp_need_next w" using fn that by blast
      then show ?thesis using fe that by (simp add: fs_def t' writer_advance_def Let_def)
    qed
    show "\<forall>i \<in> set fs. i = jw_next_id t \<or> free_id s i" "\<forall>i. free_id s' i \<longrightarrow> free_id s i"
      using N by (auto simp: fs_def)
  qed (use seq nid in auto)
qed

lemma writer_encode_done:
  "writer_super n uuid s \<Longrightarrow> jw_head t = [] \<Longrightarrow> journal_writer_encode Ok t s = (Writer_Finish, s)"
  by (simp add: journal_writer_encode_def writer_super_def)

lemma writer_encode_finish:
  "journal_writer_encode Ok t s = (Writer_Finish, s') \<Longrightarrow> jw_head t = [] \<and> s' = s"
  by (auto simp: journal_writer_encode_def split: if_splits option.splits prod.splits)

lemma journal_write_chain:
  assumes "writing n uuid e0 q0 js es t s dev" "link_ok n (e0 # es) t s" "journal_write t s dev = (True, t', s', dev')"
  shows "\<exists>fs. writing n uuid e0 q0 (js @ map jn_entry (jw_head t)) (es @ fs) t' s' dev' \<and>
    take 8192 dev' = take 8192 dev \<and> (jw_head t = [] \<longrightarrow> fs = [] \<and> t' = t) \<and>
    (\<forall>i < n. i \<notin> set (e0 # es @ fs) \<longrightarrow> extent_bytes dev' i = extent_bytes dev i) \<and>
    (jw_head t \<noteq> [] \<longrightarrow> jw_next_id t \<noteq> cyanfs_extent_id_invalid \<longrightarrow>
       fs \<noteq> [] \<and> last fs = jw_next_id t \<and> jc_extent_off (jw_cursor t') = 0 \<and>
       (\<forall>i < n. i \<notin> set (e0 # es @ butlast fs) \<longrightarrow> extent_bytes dev' i = extent_bytes dev i)) \<and>
    (\<forall>i \<in> set fs. i = jw_next_id t \<or> free_id s i) \<and> (\<forall>i. free_id s' i \<longrightarrow> free_id s i)"
  using assms
proof (induction t s dev arbitrary: js es rule: journal_write.induct)
  case (1 t s dev)
  consider (stop) "journal_writer_encode Ok t s = (Writer_Finish, s)" "jw_head t = []"
    | (go) b len fl u r where "journal_writer_encode Ok t s = (Writer_Write b len fl u, r)"
    using "1.prems"(3) writer_encode_finish [of t s]
    by (subst (asm) journal_write.simps) (auto split: prod.splits writer_result.splits)
  then show ?case
  proof cases
    case stop
    then show ?thesis using "1.prems"(1,3) by (intro exI [of _ "[]"]) (simp add: journal_write.simps)
  next
    case go
    let ?dev = "device_write b (take (unat len) (jc_page (jw_cursor u))) dev"
    obtain ks fs where S: "writing n uuid e0 q0 (js @ ks) (es @ fs) u r ?dev" "link_ok n (e0 # es @ fs) u r"
        "ks @ map jn_entry (jw_head u) = map jn_entry (jw_head t)" "take 8192 ?dev = take 8192 dev"
        "\<forall>i < n. i \<notin> set (e0 # es) \<longrightarrow> extent_bytes ?dev i = extent_bytes dev i" "jw_next_id u = jw_next_id t"
        "jw_next_id t \<noteq> cyanfs_extent_id_invalid \<Longrightarrow> jw_head u = [] \<Longrightarrow>
          fs = [jw_next_id t] \<and> jc_extent_off (jw_cursor u) = 0"
        "\<forall>i \<in> set fs. i = jw_next_id t \<or> free_id s i" "\<forall>i. free_id r i \<longrightarrow> free_id s i"
      using writing_step [OF "1.prems"(1,2) go] by metis
    have run: "journal_write u r ?dev = (True, t', s', dev')"
      using "1.prems"(3) go by (simp add: journal_write.simps [of t])
    obtain gs where G: "writing n uuid e0 q0 ((js @ ks) @ map jn_entry (jw_head u)) ((es @ fs) @ gs) t' s' dev'"
        "take 8192 dev' = take 8192 ?dev" "jw_head u = [] \<longrightarrow> gs = [] \<and> t' = u"
        "\<forall>i < n. i \<notin> set (e0 # (es @ fs) @ gs) \<longrightarrow> extent_bytes dev' i = extent_bytes ?dev i"
        "jw_head u \<noteq> [] \<longrightarrow> jw_next_id u \<noteq> cyanfs_extent_id_invalid \<longrightarrow>
          gs \<noteq> [] \<and> last gs = jw_next_id u \<and> jc_extent_off (jw_cursor t') = 0 \<and>
          (\<forall>i < n. i \<notin> set (e0 # (es @ fs) @ butlast gs) \<longrightarrow> extent_bytes dev' i = extent_bytes ?dev i)"
        "\<forall>i \<in> set gs. i = jw_next_id u \<or> free_id r i" "\<forall>i. free_id s' i \<longrightarrow> free_id r i"
      using "1.IH" [OF go [symmetric] refl S(1) _ run] S(2) by (simp only: append_Cons append_assoc) blast
    have fin: "fs @ gs \<noteq> [] \<and> last (fs @ gs) = jw_next_id t \<and> jc_extent_off (jw_cursor t') = 0 \<and>
        (\<forall>i < n. i \<notin> set (e0 # es @ butlast (fs @ gs)) \<longrightarrow> extent_bytes dev' i = extent_bytes dev i)"
      if "jw_next_id t \<noteq> cyanfs_extent_id_invalid"
    proof (cases "jw_head u = []")
      case True
      have "writer_super n uuid r" using S(1) by (simp add: writing_def)
      then have "journal_writer_encode Ok u r = (Writer_Finish, r)" using True by (rule writer_encode_done)
      then have "dev' = ?dev" using run by (auto simp: journal_write.simps [of u])
      then show ?thesis using G(3) S(5,7) that True by simp
    next
      case False
      then show ?thesis using G(5) S(5,6) that by (simp add: butlast_append)
    qed
    have "jw_head t \<noteq> []" using writer_encode_progress [OF go] by auto
    moreover have "extent_bytes dev' i = extent_bytes dev i" if "i < n" "i \<notin> set (e0 # es @ fs @ gs)" for i
      using that G(4) S(5) by simp
    moreover have "\<forall>i \<in> set (fs @ gs). i = jw_next_id t \<or> free_id s i" "\<forall>i. free_id s' i \<longrightarrow> free_id s i"
      using S(6,8,9) G(6,7) by auto
    ultimately show ?thesis
      using G(1,2) S(3,4) fin by (intro exI [of _ "fs @ gs"]) (auto simp: append_assoc)
  qed
qed

text \<open>The writer succeeds when each record can have an extent and the sequence numbers suffice.\<close>

lemma journal_write_succeeds:
  assumes "writing n uuid e0 q0 js es t s dev" "link_ok n (e0 # es) t s"
    and "length (jw_head t) \<le> idx_size (trees s Free_Extents)"
    and "unat (jc_seq (jw_cursor t)) + length (jw_head t) < 2 ^ 64"
  shows "\<exists>t' s' dev'. journal_write t s dev = (True, t', s', dev')"
  using assms
proof (induction t s dev arbitrary: js es rule: journal_write.induct)
  case (1 t s dev)
  obtain v r where e: "journal_writer_encode Ok t s = (v, r)" by (cases "journal_writer_encode Ok t s")
  show ?case
  proof (cases v)
    case Writer_Error
    have "jw_head t \<noteq> []"
      using e Writer_Error "1.prems"(1) by (auto simp: writing_def writer_encode_done)
    then show ?thesis
      using writing_error [OF "1.prems"(1,2) e [unfolded Writer_Error]] "1.prems"(3,4) by auto
  next
    case Writer_Finish
    then show ?thesis using e by (simp add: journal_write.simps [of t])
  next
    case (Writer_Write b len fl u)
    note go = e [unfolded Writer_Write]
    let ?dev = "device_write b (take (unat len) (jc_page (jw_cursor u))) dev"
    obtain ks fs where S: "writing n uuid e0 q0 (js @ ks) (es @ fs) u r ?dev" "link_ok n (e0 # es @ fs) u r"
        "ks @ map jn_entry (jw_head u) = map jn_entry (jw_head t)" "ks \<noteq> []"
        "idx_size (trees s Free_Extents) \<le> Suc (idx_size (trees r Free_Extents))"
        "unat (jc_seq (jw_cursor u)) = unat (jc_seq (jw_cursor t)) + length ks"
      using writing_step [OF "1.prems"(1,2) go] by metis
    have "length ks + length (jw_head u) = length (jw_head t)" using arg_cong [OF S(3), of length] by simp
    then have "length (jw_head u) \<le> idx_size (trees r Free_Extents)"
        "unat (jc_seq (jw_cursor u)) + length (jw_head u) < 2 ^ 64"
      using "1.prems"(3,4) S(4-6) by (cases ks; simp)+
    from "1.IH" [OF go [symmetric] refl S(1) _ this] S(2) go show ?thesis
      by (simp add: journal_write.simps [of t])
  qed
qed

lemma read_record_zero: "read_record uuid q (replicate k 0) = No_Record"
proof (cases "15 \<le> k")
  case True
  then show ?thesis
    by (simp add: read_record_def decode_header_fields CYANFS_JOURNAL_HEADER_SIZE_def)
next
  case False
  then show ?thesis by (simp add: read_record_def decode_header_short)
qed

end
