(* ===== verification/File_Inv.thy ===== *)
theory File_Inv
  imports Extent_Alloc Files
begin

section \<open>The invariant of the files\<close>

text \<open>
  The index by name is the inverse of the index by id; ids are positive and at most \<open>max_file_id\<close>;
  the parent of a file exists and is older; a file counts its children; sizes and names are valid; a
  file is open for writing by one user and has no children then, or for reading by a positive number
  of users; only a file that is open for writing has extents that wait for their copy.
\<close>

definition children :: "super \<Rightarrow> cyanfs_file_id_t \<Rightarrow> cyanfs_file_id_t set" where
  "children s i = {c. \<exists>f. get_file s c = Some f \<and> f_parent f = Some i}"

definition name_ok :: "file_name \<Rightarrow> bool" where
  "name_ok n \<longleftrightarrow> name_wf n \<and> cyanfs_file_name_normalize n = Some n"

text \<open>The part of the invariant that concerns one file and no other.\<close>

definition file_local :: "cyanfs_file \<Rightarrow> bool" where
  "file_local f \<longleftrightarrow>
     cyanfs_file_size_validate (fm_size (f_meta f)) = Ok \<and>
     0 \<le> f_reader f \<and> (f_open_type f = FILE_READONLY \<longleftrightarrow> 0 < f_reader f) \<and>
     (f_open_type f = FILE_READWRITE \<longrightarrow> fm_children (f_meta f) = 0) \<and>
     (\<forall>k n. idx_find (f_extents f) k = Some n \<longrightarrow> ext_pending n \<longrightarrow> f_open_type f = FILE_READWRITE)"

definition file_linked :: "super \<Rightarrow> cyanfs_file_id_t \<Rightarrow> cyanfs_file \<Rightarrow> bool" where
  "file_linked s i f \<longleftrightarrow>
     fm_id (f_meta f) = i \<and> i \<noteq> 0 \<and> i \<le> max_file_id s \<and>
     name_ok (fm_name (f_meta f)) \<and> idx_find (files_by_name s) (fm_name (f_meta f)) = Some i \<and>
     fm_parent_id (f_meta f) = (case f_parent f of None \<Rightarrow> 0 | Some p \<Rightarrow> p) \<and>
     (\<forall>p. f_parent f = Some p \<longrightarrow> p < i \<and> get_file s p \<noteq> None) \<and>
     fm_children (f_meta f) = of_nat (card (children s i))"

definition file_inv :: "super \<Rightarrow> bool" where
  "file_inv s \<longleftrightarrow>
     (\<forall>i f. get_file s i = Some f \<longrightarrow> file_local f \<and> file_linked s i f) \<and>
     (\<forall>n i. idx_find (files_by_name s) n = Some i \<longrightarrow>
        (\<exists>f. get_file s i = Some f \<and> fm_name (f_meta f) = n)) \<and>
     sm_files (meta s) = of_nat (idx_size (files_by_id s)) \<and> idx_size (files_by_id s) \<le> 4096"

definition super_inv :: "super \<Rightarrow> bool" where
  "super_inv s \<longleftrightarrow> extent_inv s \<and> file_inv s \<and> \<not> panicked s \<and>
     0 < total_extents s \<and> total_extents s \<le> 2 ^ 30"

lemma super_invD:
  assumes "super_inv s"
  shows "extent_inv s" "file_inv s" "\<not> panicked s" "0 < total_extents s" "total_extents s \<le> 2 ^ 30"
  using assms by (auto simp: super_inv_def)

lemma file_invD:
  assumes "file_inv s"
  shows "get_file s i = Some f \<Longrightarrow> file_local f" "get_file s i = Some f \<Longrightarrow> file_linked s i f"
    "idx_find (files_by_name s) n = Some i \<Longrightarrow> \<exists>f. get_file s i = Some f \<and> fm_name (f_meta f) = n"
    "sm_files (meta s) = of_nat (idx_size (files_by_id s))" "idx_size (files_by_id s) \<le> 4096"
  using assms by (auto simp: file_inv_def)

lemma idx_size_files: "idx_size (files_by_id s) = card {i. get_file s i \<noteq> None}"
  by (simp add: idx_size_card get_file_def)

lemma finite_files: "finite {i. get_file s i \<noteq> None}"
  using idx_finite [of "files_by_id s"] by (simp add: get_file_def)

lemma children_subset: "children s i \<subseteq> {j. get_file s j \<noteq> None}"
  by (auto simp: children_def)

lemma finite_children: "finite (children s i)"
  by (rule finite_subset [OF children_subset finite_files])

lemma card_children: "file_inv s \<Longrightarrow> card (children s i) \<le> 4096"
  using card_mono [OF finite_files children_subset, of s i] file_invD(5) [of s]
  by (simp add: idx_size_files)

lemma unat_of_nat_small: "n < 2 ^ 32 \<Longrightarrow> unat (of_nat n :: u32) = n"
  by (simp add: unat_of_nat)

lemma files_count:
  assumes "file_inv s"
  shows "sm_files (meta s) \<ge> CYANFS_SUPER_MAX_FILES \<longleftrightarrow> idx_size (files_by_id s) = 4096"
  using file_invD(4,5) [OF assms]
  by (simp add: CYANFS_SUPER_MAX_FILES_def word_le_nat_alt unat_of_nat_small)

lemma no_children_iff:
  assumes "file_inv s" "get_file s i = Some f"
  shows "fm_children (f_meta f) = 0 \<longleftrightarrow> children s i = {}"
proof -
  have "fm_children (f_meta f) = of_nat (card (children s i))"
    using file_invD(2) [OF assms] by (simp add: file_linked_def)
  moreover have "unat (of_nat (card (children s i)) :: u32) = card (children s i)"
    using card_children [OF assms(1), of i] by (intro unat_of_nat_small) simp
  ultimately have "fm_children (f_meta f) = 0 \<longleftrightarrow> card (children s i) = 0"
    by (metis unat_0_iff)
  then show ?thesis by (simp add: finite_children)
qed

subsection \<open>Changing one file in place\<close>

definition same_links :: "cyanfs_file \<Rightarrow> cyanfs_file \<Rightarrow> bool" where
  "same_links f f' \<longleftrightarrow> f_parent f' = f_parent f \<and> fm_id (f_meta f') = fm_id (f_meta f) \<and>
     fm_parent_id (f_meta f') = fm_parent_id (f_meta f) \<and> fm_name (f_meta f') = fm_name (f_meta f) \<and>
     fm_children (f_meta f') = fm_children (f_meta f)"

lemma file_inv_update:
  assumes inv: "file_inv s" and f: "get_file s i = Some f"
    and get: "\<And>j. get_file s' j = (if j = i then Some f' else get_file s j)"
    and rest: "super_rest s' = super_rest s"
    and links: "same_links f f'" and loc: "file_local f'"
  shows "file_inv s'"
proof -
  note R = super_rest_D [OF rest]
  have ch: "children s' j = children s j" for j
    using f links by (auto simp: children_def get same_links_def split: if_splits)
  have dom: "idx_size (files_by_id s') = idx_size (files_by_id s)"
    unfolding idx_size_files using f by (intro arg_cong [where f = card]) (auto simp: get)
  have "file_linked s' j g" if "get_file s' j = Some g" for j g
    using that file_invD(2) [OF inv] f links ch
    by (auto simp: get file_linked_def R same_links_def split: if_splits)
  moreover have "file_local g" if "get_file s' j = Some g" for j g
    using that file_invD(1) [OF inv] loc by (auto simp: get split: if_splits)
  moreover have "\<exists>g. get_file s' j = Some g \<and> fm_name (f_meta g) = n"
    if "idx_find (files_by_name s') n = Some j" for n j
    using that file_invD(3) [OF inv] f links by (force simp: get R same_links_def)
  ultimately show ?thesis
    using file_invD(4,5) [OF inv] by (auto simp: file_inv_def dom R(6))
qed

lemma file_inv_change:
  assumes inv: "file_inv s" and ch: "file_change i s s' m" and f: "get_file s i = Some f"
    and pend: "\<And>k n. m k = Some n \<Longrightarrow> ext_pending n \<Longrightarrow> f_open_type f = FILE_READWRITE"
  shows "file_inv s'"
proof -
  obtain f' where f': "get_file s' i = Some f'" "file_rest f' = file_rest f" "idx_find (f_extents f') = m"
    using ch f by (rule file_change_obtain)
  have "file_local f'"
    using file_invD(1) [OF inv f] pend
    by (auto simp: file_local_def file_rest_D [OF f'(2)] f'(3))
  then show ?thesis
    using file_inv_update [OF inv f, of s' f'] f' file_changeD(2,4) [OF ch]
    by (auto simp: same_links_def file_rest_D [OF f'(2)])
qed

subsection \<open>Adding, renaming and removing files\<close>

text \<open>What the operations on files keep: all but the files, the two indexes and their number.\<close>

definition super_tail where
  "super_tail s =
     ((sm_uuid (meta s), sm_total_extents (meta s), sm_reserved_extents (meta s), sm_size (meta s)),
      (journal_head s, journal_count s, flags s, writers s, writer_current_id s, journal_cursor s),
      (task_head s, active_tasks s, new_task s, new_task_calls s, task_at s, flusher_at s, cow_at s,
       next_address s, journal_log s))"

lemma super_tail_rest: "super_rest s' = super_rest s \<Longrightarrow> super_tail s' = super_tail s"
  by (simp add: super_rest_def super_tail_def)

lemma super_tail_D:
  assumes "super_tail s' = super_tail s"
  shows "sm_total_extents (meta s') = sm_total_extents (meta s)" "flags s' = flags s"
    "sm_reserved_extents (meta s') = sm_reserved_extents (meta s)"
    "journal_head s' = journal_head s" "journal_count s' = journal_count s"
    "task_head s' = task_head s" "active_tasks s' = active_tasks s"
    "task_at s' = task_at s" "flusher_at s' = flusher_at s"
    "cow_at s' = cow_at s" "next_address s' = next_address s" "writers s' = writers s"
    "writer_current_id s' = writer_current_id s" "journal_cursor s' = journal_cursor s"
    "journal_log s' = journal_log s"
  using assms by (simp_all add: super_tail_def)

lemma total_extents_tail: "super_tail s' = super_tail s \<Longrightarrow> total_extents s' = total_extents s"
  by (drule super_tail_D(1)) (simp add: total_extents_def)

lemma extent_inv_files:
  assumes inv: "extent_inv s" and trees: "trees s' = trees s"
    and total_eq: "total_extents s' = total_extents s"
    and counts: "sm_free_extents (meta s') = sm_free_extents (meta s)"
      "sm_journal_extents (meta s') = sm_journal_extents (meta s)"
      "sm_data_extents (meta s') = sm_data_extents (meta s)"
    and blk: "\<And>j. block s' j = block s j"
    and sum: "idx_sum (\<lambda>f. idx_size (f_extents f)) (files_by_id s') =
      idx_sum (\<lambda>f. idx_size (f_extents f)) (files_by_id s)"
    and files: "\<And>j f. get_file s' j = Some f \<Longrightarrow> file_extents_ok f"
  shows "extent_inv s'"
proof -
  have "held_at s' q c = held_at s q c" for q c
    by (cases q) (simp_all add: trees blk)
  then have "ownership s'" using ownership_same extent_invD(1) [OF inv] total_eq by blast
  then show ?thesis
    using inv files by (simp add: extent_inv_def tree_nodes_ok_def counters_ok_def trees counts sum)
qed

lemma extent_inv_put:
  assumes inv: "extent_inv s" and f: "get_file s i = Some f"
    and files: "files_by_id s' = idx_put i f' (files_by_id s)" and trees: "trees s' = trees s"
    and meta: "total_extents s' = total_extents s" "sm_free_extents (meta s') = sm_free_extents (meta s)"
      "sm_journal_extents (meta s') = sm_journal_extents (meta s)"
      "sm_data_extents (meta s') = sm_data_extents (meta s)"
    and f': "f_extents f' = f_extents f" "file_extents_ok f'"
  shows "extent_inv s'"
proof (rule extent_inv_files [OF inv trees meta])
  have get: "get_file s' j = (if j = i then Some f' else get_file s j)" for j
    by (simp add: get_file_def files)
  show "block s' j = block s j" for j using f f' by (auto simp: block_def get)
  show "idx_sum (\<lambda>f. idx_size (f_extents f)) (files_by_id s') =
      idx_sum (\<lambda>f. idx_size (f_extents f)) (files_by_id s)"
    using f' by (simp add: files idx_sum_put_same [OF get_file_files [OF f]])
  show "file_extents_ok g" if "get_file s' j = Some g" for j g
    using that f' extent_invD(4) [OF inv] by (auto simp: get split: if_splits)
qed

lemma init_file_Ok:
  assumes "get_file s i = None" "lookup_file_by_name s name = None"
    and "\<And>p pf. parent = Some (p, pf) \<Longrightarrow> p \<noteq> i \<and> get_file s p = Some pf"
  obtains s' where "init_file name i parent s = (Ok, s')" "super_tail s' = super_tail s"
    "trees s' = trees s" "panicked s' = panicked s"
    "meta s' = (meta s)\<lparr>sm_files := sm_files (meta s) + 1\<rparr>"
    "files_by_name s' = idx_put name i (files_by_name s)" "max_file_id s' = max (max_file_id s) i"
    "files_by_id s' = (case parent of
        None \<Rightarrow> idx_put i (new_file name i None) (files_by_id s)
      | Some (p, pf) \<Rightarrow>
          idx_put p (pf\<lparr>f_meta := (f_meta pf)\<lparr>fm_children := fm_children (f_meta pf) + 1\<rparr>\<rparr>)
            (idx_put i (new_file name i parent) (files_by_id s)))"
proof
  let ?s' = "snd (init_file name i parent s)"
  have fresh: "idx_find (files_by_id s) i = None" "idx_find (files_by_name s) name = None"
    using assms(1,2) by (simp_all add: get_file_def lookup_file_by_name_def)
  have p: "idx_find (files_by_id s) p = Some pf" "p \<noteq> i" if "parent = Some (p, pf)" for p pf
    using assms(3) [OF that] by (simp_all add: get_file_def)
  note defs = init_file_def Let_def add_children_def get_file_def put_file_def add_files_def max_def
    not_less
  show "init_file name i parent s = (Ok, ?s')" "super_tail ?s' = super_tail s" "trees ?s' = trees s"
    "panicked ?s' = panicked s" "meta ?s' = (meta s)\<lparr>sm_files := sm_files (meta s) + 1\<rparr>"
    "files_by_name ?s' = idx_put name i (files_by_name s)" "max_file_id ?s' = max (max_file_id s) i"
    using p fresh by (auto simp: defs super_tail_def split: option.split)
  show "files_by_id ?s' = (case parent of
        None \<Rightarrow> idx_put i (new_file name i None) (files_by_id s)
      | Some (p, pf) \<Rightarrow>
          idx_put p (pf\<lparr>f_meta := (f_meta pf)\<lparr>fm_children := fm_children (f_meta pf) + 1\<rparr>\<rparr>)
            (idx_put i (new_file name i parent) (files_by_id s)))"
    using p fresh by (auto simp: defs split: option.split)
qed

definition one_more_child :: "cyanfs_file \<Rightarrow> cyanfs_file" where
  "one_more_child pf = pf\<lparr>f_meta := (f_meta pf)\<lparr>fm_children := fm_children (f_meta pf) + 1\<rparr>\<rparr>"

lemma one_more_child_simps [simp]:
  "f_parent (one_more_child f) = f_parent f" "f_extents (one_more_child f) = f_extents f"
  "f_open_type (one_more_child f) = f_open_type f" "f_reader (one_more_child f) = f_reader f"
  "fm_id (f_meta (one_more_child f)) = fm_id (f_meta f)"
  "fm_parent_id (f_meta (one_more_child f)) = fm_parent_id (f_meta f)"
  "fm_name (f_meta (one_more_child f)) = fm_name (f_meta f)"
  "fm_size (f_meta (one_more_child f)) = fm_size (f_meta f)"
  "fm_children (f_meta (one_more_child f)) = fm_children (f_meta f) + 1"
  "fm_extents (f_meta (one_more_child f)) = fm_extents (f_meta f)"
  by (simp_all add: one_more_child_def)

lemma new_file_simps [simp]:
  "f_parent (new_file name i parent) = map_option fst parent"
  "f_extents (new_file name i parent) = idx_empty"
  "f_open_type (new_file name i parent) = FILE_CLOSED" "f_reader (new_file name i parent) = 0"
  "fm_id (f_meta (new_file name i parent)) = i" "fm_name (f_meta (new_file name i parent)) = name"
  "fm_children (f_meta (new_file name i parent)) = 0" "fm_extents (f_meta (new_file name i parent)) = 0"
  by (simp_all add: new_file_def)

text \<open>The files after a new file \<open>i\<close>, whose parent, if it has one, is \<open>p\<close> with the contents \<open>pf\<close>.\<close>

definition get_after_init where
  "get_after_init name i parent s j =
     (if j = i then Some (new_file name i parent)
      else case parent of
             None \<Rightarrow> get_file s j
           | Some (p, pf) \<Rightarrow> if j = p then Some (one_more_child pf) else get_file s j)"

definition file_added where
  "file_added s s' name i parent \<longleftrightarrow>
     file_inv s \<and> get_file s i = None \<and> i \<noteq> 0 \<and>
     idx_find (files_by_name s) name = None \<and> name_ok name \<and> idx_size (files_by_id s) < 4096 \<and>
     (\<forall>p pf. parent = Some (p, pf) \<longrightarrow>
        p < i \<and> get_file s p = Some pf \<and> f_open_type pf \<noteq> FILE_READWRITE) \<and>
     (\<forall>j. get_file s' j = get_after_init name i parent s j) \<and>
     files_by_name s' = idx_put name i (files_by_name s) \<and>
     max_file_id s' = max (max_file_id s) i \<and> sm_files (meta s') = sm_files (meta s) + 1"

lemma file_addedD:
  assumes "file_added s s' name i parent"
  shows "file_inv s" "get_file s i = None" "i \<noteq> 0" "idx_find (files_by_name s) name = None"
    "name_ok name" "idx_size (files_by_id s) < 4096"
    "parent = Some (p, pf) \<Longrightarrow> p < i \<and> get_file s p = Some pf \<and> f_open_type pf \<noteq> FILE_READWRITE"
    "get_file s' j = get_after_init name i parent s j"
    "files_by_name s' = idx_put name i (files_by_name s)" "max_file_id s' = max (max_file_id s) i"
    "sm_files (meta s') = sm_files (meta s) + 1"
  using assms by (simp_all add: file_added_def)

lemma present_after:
  assumes "file_added s s' name i parent"
  shows "get_file s' j \<noteq> None \<longleftrightarrow> j = i \<or> get_file s j \<noteq> None"
  using file_addedD(7) [OF assms]
  by (auto simp: file_addedD(8) [OF assms] get_after_init_def split: option.splits)

lemma no_children_absent: "file_inv s \<Longrightarrow> get_file s i = None \<Longrightarrow> children s i = {}"
  using file_invD(2) [of s] by (fastforce simp: children_def file_linked_def)

lemma children_after:
  assumes "file_added s s' name i parent"
  shows "children s' j =
    (if map_option fst parent = Some j then insert i (children s j) else children s j)"
proof -
  note older = file_addedD(7) [OF assms] and get = file_addedD(8) [OF assms]
  have "c \<in> children s' j \<longleftrightarrow> (c = i \<and> map_option fst parent = Some j) \<or> (c \<noteq> i \<and> c \<in> children s j)" for c
    using older by (auto simp: children_def get get_after_init_def split: option.splits if_splits)
  moreover have "i \<notin> children s j" using file_addedD(2) [OF assms] by (simp add: children_def)
  ultimately show ?thesis by auto
qed

lemma size_after:
  assumes "file_added s s' name i parent"
  shows "idx_size (files_by_id s') = Suc (idx_size (files_by_id s))"
proof -
  have "{j. get_file s' j \<noteq> None} = insert i {j. get_file s j \<noteq> None}"
    using present_after [OF assms] by blast
  then show ?thesis
    using file_addedD(2) [OF assms] by (simp only: idx_size_files card_insert_disjoint finite_files) simp
qed

lemma local_after:
  assumes "file_added s s' name i parent" and g: "get_file s' j = Some g"
  shows "file_local g"
proof -
  note inv = file_addedD(1) [OF assms(1)] and older = file_addedD(7) [OF assms(1)]
    and get = file_addedD(8) [OF assms(1)]
  have "cyanfs_file_size_validate (fm_size (f_meta (new_file name i parent))) = Ok"
    using older file_invD(1) [OF inv]
    by (auto simp: new_file_def file_local_def file_size_validate_Ok split: option.splits)
  then show ?thesis
    using g older file_invD(1) [OF inv]
    by (fastforce simp: get get_after_init_def file_local_def split: option.splits if_splits)
qed

lemma linked_new:
  assumes "file_added s s' name i parent"
  shows "file_linked s' i (new_file name i parent)"
proof -
  note inv = file_addedD(1) [OF assms] and older = file_addedD(7) [OF assms]
  have "children s' i = {}"
    using children_after [OF assms, of i] no_children_absent [OF inv file_addedD(2) [OF assms]] older
    by (auto split: if_splits)
  moreover have "fm_parent_id (f_meta (new_file name i parent)) =
      (case map_option fst parent of None \<Rightarrow> 0 | Some p \<Rightarrow> p)"
    using older file_invD(2) [OF inv] by (auto simp: new_file_def file_linked_def split: option.splits)
  ultimately show ?thesis
    using older file_addedD(3,5) [OF assms] present_after [OF assms]
    by (auto simp: file_linked_def file_addedD(9,10) [OF assms])
qed

lemma linked_old:
  assumes add: "file_added s s' name i parent"
    and "get_file s j = Some f" "j \<noteq> i" "get_file s' j = Some g"
  shows "file_linked s' j g"
proof -
  note inv = file_addedD(1) [OF add] and fresh = file_addedD(2) [OF add]
    and older = file_addedD(7) [OF add] and get = file_addedD(8) [OF add]
  have l: "file_linked s j f" by (rule file_invD(2) [OF inv assms(2)])
  have "j \<noteq> i \<Longrightarrow> fm_name (f_meta f) \<noteq> name"
    using l file_addedD(4) [OF add] by (auto simp: file_linked_def)
  moreover have "i \<notin> children s j" using fresh by (simp add: children_def)
  then have "card (insert i (children s j)) = Suc (card (children s j))"
    by (simp add: finite_children)
  moreover have "g = (if map_option fst parent = Some j then one_more_child f else f)"
    using assms(2-4) older by (auto simp: get get_after_init_def split: option.splits if_splits)
  ultimately show ?thesis
    using l assms(3) present_after [OF add]
    by (auto simp: file_linked_def file_addedD(9,10) [OF add] children_after [OF add] le_max_iff_disj)
qed

lemma file_inv_after:
  assumes "file_added s s' name i parent"
  shows "file_inv s'"
proof -
  note inv = file_addedD(1) [OF assms] and fresh = file_addedD(2) [OF assms]
    and room = file_addedD(6) [OF assms] and older = file_addedD(7) [OF assms]
    and get = file_addedD(8) [OF assms] and names = file_addedD(9) [OF assms]
    and count = file_addedD(11) [OF assms]
  have "file_linked s' j g" if g: "get_file s' j = Some g" for j g
  proof (cases "j = i")
    case True
    then show ?thesis using g linked_new [OF assms] by (simp add: get get_after_init_def)
  next
    case False
    then have "get_file s j \<noteq> None" using g present_after [OF assms, of j] by simp
    then obtain f where f: "get_file s j = Some f" by blast
    show ?thesis by (rule linked_old [OF assms f False g])
  qed
  moreover have "\<exists>g. get_file s' j = Some g \<and> fm_name (f_meta g) = n"
    if n: "idx_find (files_by_name s') n = Some j" for n j
  proof (cases "n = name")
    case True
    then show ?thesis using n by (simp add: names get get_after_init_def)
  next
    case False
    then obtain f where f: "get_file s j = Some f" "fm_name (f_meta f) = n"
      using n file_invD(3) [OF inv] by (auto simp: names)
    then have "j \<noteq> i" using fresh by auto
    then show ?thesis
      using f older by (auto simp: get get_after_init_def split: option.splits)
  qed
  ultimately show ?thesis
    using local_after [OF assms] file_invD(4) [OF inv] room
    by (auto simp: file_inv_def count size_after [OF assms])
qed

lemma init_file_spec:
  assumes inv: "super_inv s" and fresh: "get_file s i = None" and pos: "i \<noteq> 0"
    and name: "lookup_file_by_name s name = None" "name_ok name"
    and room: "idx_size (files_by_id s) < 4096"
    and older: "\<And>p pf. parent = Some (p, pf) \<Longrightarrow>
      p < i \<and> get_file s p = Some pf \<and> f_open_type pf \<noteq> FILE_READWRITE"
  obtains s' where "init_file name i parent s = (Ok, s')" "super_inv s'" "super_tail s' = super_tail s"
    "trees s' = trees s" "file_added s s' name i parent"
proof -
  obtain s' where eq: "init_file name i parent s = (Ok, s')" and tail: "super_tail s' = super_tail s"
    and trees: "trees s' = trees s" and pan: "panicked s' = panicked s"
    and meta: "meta s' = (meta s)\<lparr>sm_files := sm_files (meta s) + 1\<rparr>"
    and names: "files_by_name s' = idx_put name i (files_by_name s)"
    and max_id: "max_file_id s' = max (max_file_id s) i"
    and files: "files_by_id s' = (case parent of
        None \<Rightarrow> idx_put i (new_file name i None) (files_by_id s)
      | Some (p, pf) \<Rightarrow> idx_put p (one_more_child pf)
            (idx_put i (new_file name i parent) (files_by_id s)))"
    using init_file_Ok [OF fresh name(1), of parent] older unfolding one_more_child_def by blast
  have get: "get_file s' j = get_after_init name i parent s j" for j
    using older by (auto simp: get_file_def files get_after_init_def split: option.split)
  then have add: "file_added s s' name i parent"
    using inv fresh pos name room older names max_id meta
    by (auto simp: file_added_def super_inv_def lookup_file_by_name_def)
  have blk: "block s' j = block s j" for j
    using fresh older by (auto simp: block_def get get_after_init_def fun_eq_iff split: option.split)
  let ?g = "\<lambda>f. idx_size (f_extents f)"
  have fresh': "idx_find (files_by_id s) i = None" using fresh by (simp add: get_file_def)
  have sum: "idx_sum ?g (files_by_id s') = idx_sum ?g (files_by_id s)"
  proof (cases parent)
    case None
    then show ?thesis by (simp add: files idx_sum_put_fresh [OF fresh'])
  next
    case (Some q)
    obtain p pf where q: "q = (p, pf)" by (cases q)
    have "idx_find (idx_put i (new_file name i parent) (files_by_id s)) p = Some pf"
      using older Some q by (auto simp: get_file_def)
    from idx_sum_put_same [OF this, of ?g "one_more_child pf"] show ?thesis
      using Some q by (simp add: files idx_sum_put_fresh [OF fresh'])
  qed
  have "file_extents_ok g" if "get_file s' j = Some g" for j g
    using that older extent_invD(4) [OF super_invD(1) [OF inv]]
    by (force simp: get get_after_init_def file_extents_ok_def split: option.splits if_splits)
  then have "extent_inv s'"
    using extent_inv_files [OF super_invD(1) [OF inv] trees total_extents_tail [OF tail] _ _ _ blk sum]
    by (simp add: meta)
  then have "super_inv s'"
    using inv file_inv_after [OF add] pan total_extents_tail [OF tail] by (simp add: super_inv_def)
  then show ?thesis using that eq tail trees add by blast
qed

subsubsection \<open>Renaming\<close>

lemma rename_file_spec:
  assumes inv: "super_inv s" and f: "get_file s i = Some f"
    and name: "lookup_file_by_name s name \<in> {None, Some i}" "name_ok name"
  obtains s' where "rename_file i name s = (Ok, s')" "super_inv s'" "super_tail s' = super_tail s"
    "trees s' = trees s" "max_file_id s' = max_file_id s"
    "\<And>j. get_file s' j = (if j = i then Some (f\<lparr>f_meta := (f_meta f)\<lparr>fm_name := name\<rparr>\<rparr>) else get_file s j)"
proof -
  let ?f = "f\<lparr>f_meta := (f_meta f)\<lparr>fm_name := name\<rparr>\<rparr>" and ?s' = "snd (rename_file i name s)"
  note finv = super_invD(2) [OF inv]
  have l: "file_linked s i f" by (rule file_invD(2) [OF finv f])
  have "idx_find (idx_remove (fm_name (f_meta f)) (files_by_name s)) name = None"
  proof (cases "name = fm_name (f_meta f)")
    case False
    then show ?thesis
      using name(1) file_invD(3) [OF finv, of name i] f by (auto simp: lookup_file_by_name_def)
  qed simp
  then have names: "files_by_name ?s' =
      idx_put name i (idx_remove (fm_name (f_meta f)) (files_by_name s))"
    using f by (simp add: rename_file_def Let_def put_file_def)
  have eq: "rename_file i name s = (Ok, ?s')" and pan: "panicked ?s' = panicked s"
    and tail: "super_tail ?s' = super_tail s" and trees: "trees ?s' = trees s"
    and meta: "meta ?s' = meta s" and max_id: "max_file_id ?s' = max_file_id s"
    and files: "files_by_id ?s' = idx_put i ?f (files_by_id s)"
    using f by (simp_all add: rename_file_def Let_def put_file_def super_tail_def)
  have get: "get_file ?s' j = (if j = i then Some ?f else get_file s j)" for j
    by (simp add: get_file_def files)
  have ch: "children ?s' j = children s j" for j
    using f by (auto simp: children_def get split: if_splits)
  have size: "idx_size (files_by_id ?s') = idx_size (files_by_id s)"
    by (simp add: files idx_size_put_present [OF get_file_files [OF f]])
  have "file_linked ?s' j g \<and> file_local g" if g: "get_file ?s' j = Some g" for j g
  proof (cases "j = i")
    case True
    then show ?thesis
      using g l name(2) file_invD(1) [OF finv f]
      by (auto simp: get file_linked_def names max_id ch file_local_def split: if_splits)
  next
    case False
    then have g': "get_file s j = Some g" using g by (simp add: get)
    have "fm_name (f_meta g) \<noteq> name" "fm_name (f_meta g) \<noteq> fm_name (f_meta f)"
      using file_invD(2) [OF finv g'] l name(1) False
      by (auto simp: file_linked_def lookup_file_by_name_def)
    then show ?thesis
      using file_invD(1,2) [OF finv g'] False
      by (auto simp: get file_linked_def names max_id ch)
  qed
  moreover have "\<exists>g. get_file ?s' j = Some g \<and> fm_name (f_meta g) = n"
    if n: "idx_find (files_by_name ?s') n = Some j" for n j
  proof (cases "n = name")
    case True
    then have "j = i" using n by (simp add: names)
    then show ?thesis by (simp add: get True)
  next
    case False
    then have "n \<noteq> fm_name (f_meta f)" "idx_find (files_by_name s) n = Some j"
      using n by (auto simp: names split: if_splits)
    then show ?thesis using file_invD(3) [OF finv] f by (force simp: get)
  qed
  ultimately have "file_inv ?s'"
    using file_invD(4,5) [OF finv] by (auto simp: file_inv_def size meta)
  moreover have "extent_inv ?s'"
    using extent_inv_put [OF super_invD(1) [OF inv] f files trees] meta
      extent_invD(4) [OF super_invD(1) [OF inv] f]
    by (simp add: file_extents_ok_def total_extents_def)
  ultimately have "super_inv ?s'"
    using inv pan total_extents_tail [OF tail] by (simp add: super_inv_def)
  then show ?thesis using that eq tail trees max_id get by blast
qed

subsubsection \<open>Deleting\<close>

definition one_less_child :: "cyanfs_file \<Rightarrow> cyanfs_file" where
  "one_less_child pf = pf\<lparr>f_meta := (f_meta pf)\<lparr>fm_children := fm_children (f_meta pf) + - 1\<rparr>\<rparr>"

lemma one_less_child_simps [simp]:
  "f_parent (one_less_child f) = f_parent f" "f_extents (one_less_child f) = f_extents f"
  "f_open_type (one_less_child f) = f_open_type f" "f_reader (one_less_child f) = f_reader f"
  "fm_id (f_meta (one_less_child f)) = fm_id (f_meta f)"
  "fm_parent_id (f_meta (one_less_child f)) = fm_parent_id (f_meta f)"
  "fm_name (f_meta (one_less_child f)) = fm_name (f_meta f)"
  "fm_size (f_meta (one_less_child f)) = fm_size (f_meta f)"
  "fm_children (f_meta (one_less_child f)) = fm_children (f_meta f) - 1"
  "fm_extents (f_meta (one_less_child f)) = fm_extents (f_meta f)"
  by (simp_all add: one_less_child_def)

text \<open>The files after the removal of file \<open>i\<close>, whose parent is \<open>p\<close> if it has one.\<close>

definition get_after_delete where
  "get_after_delete i p s j =
     (if j = i then None
      else if p = Some j then map_option one_less_child (get_file s j) else get_file s j)"

definition file_removed where
  "file_removed s s' i f \<longleftrightarrow>
     file_inv s \<and> get_file s i = Some f \<and> children s i = {} \<and>
     (\<forall>j. get_file s' j = get_after_delete i (f_parent f) s j) \<and>
     files_by_name s' = idx_remove (fm_name (f_meta f)) (files_by_name s) \<and>
     max_file_id s' = max_file_id s \<and> sm_files (meta s') = sm_files (meta s) - 1"

lemma file_inv_removed:
  assumes "file_removed s s' i f"
  shows "file_inv s'"
proof -
  have inv: "file_inv s" and f: "get_file s i = Some f" and childless: "children s i = {}"
    and get: "\<And>j. get_file s' j = get_after_delete i (f_parent f) s j"
    and names: "files_by_name s' = idx_remove (fm_name (f_meta f)) (files_by_name s)"
    and max_id: "max_file_id s' = max_file_id s" and count: "sm_files (meta s') = sm_files (meta s) - 1"
    using assms by (simp_all add: file_removed_def)
  have present: "get_file s' j \<noteq> None \<longleftrightarrow> j \<noteq> i \<and> get_file s j \<noteq> None" for j
    by (auto simp: get get_after_delete_def)
  have ch: "children s' j = children s j - {i}" for j
    by (auto simp: children_def get get_after_delete_def split: if_splits)
  have "file_local g \<and> file_linked s' j g" if g: "get_file s' j = Some g" for j g
  proof -
    obtain h where h: "get_file s j = Some h" "j \<noteq> i"
        "g = (if f_parent f = Some j then one_less_child h else h)"
      using g by (auto simp: get get_after_delete_def split: if_splits)
    have lh: "file_linked s j h" by (rule file_invD(2) [OF inv h(1)])
    have "i \<in> children s j \<longleftrightarrow> f_parent f = Some j" using f by (simp add: children_def)
    then have "fm_children (f_meta g) = of_nat (card (children s' j))"
      using lh h(3) card_Suc_Diff1 [OF finite_children, of i s j]
      by (auto simp: file_linked_def ch dest: sym)
    moreover have "fm_name (f_meta h) \<noteq> fm_name (f_meta f)"
      using lh file_invD(2) [OF inv f] h(2) by (auto simp: file_linked_def)
    moreover have "f_parent h \<noteq> Some i" using childless h(1) by (auto simp: children_def)
    ultimately have "file_linked s' j g"
      using lh h(3) present by (auto simp: file_linked_def names max_id)
    moreover have "f_parent f = Some j \<Longrightarrow> fm_children (f_meta h) \<noteq> 0"
      using no_children_iff [OF inv h(1)] f by (auto simp: children_def)
    then have "file_local g"
      using file_invD(1) [OF inv h(1)] h(3) by (auto simp: file_local_def)
    ultimately show ?thesis by blast
  qed
  moreover have "\<exists>g. get_file s' j = Some g \<and> fm_name (f_meta g) = n"
    if n: "idx_find (files_by_name s') n = Some j" for n j
  proof -
    obtain h where h: "get_file s j = Some h" "fm_name (f_meta h) = n" "n \<noteq> fm_name (f_meta f)"
      using n file_invD(3) [OF inv] by (auto simp: names split: if_splits)
    then show ?thesis using f by (auto simp: get get_after_delete_def)
  qed
  moreover have "idx_size (files_by_id s) = Suc (idx_size (files_by_id s'))"
  proof -
    have "{j. get_file s j \<noteq> None} = insert i {j. get_file s' j \<noteq> None}"
      using present f by blast
    moreover have "i \<notin> {j. get_file s' j \<noteq> None}" using present by simp
    ultimately show ?thesis by (metis card_insert_disjoint finite_files idx_size_files)
  qed
  ultimately show ?thesis
    using file_invD(4,5) [OF inv] by (simp add: file_inv_def count)
qed

lemma idx_empty_iff: "t = idx_empty \<longleftrightarrow> (\<forall>k. idx_find t k = None)"
  by (auto intro: idx_eqI)

lemma closed_no_pending:
  "file_inv s \<Longrightarrow> get_file s i = Some f \<Longrightarrow> f_open_type f \<noteq> FILE_READWRITE \<Longrightarrow> no_pending f"
  by (drule (1) file_invD(1)) (auto simp: file_local_def no_pending_def)

lemma delete_file_spec:
  assumes inv: "super_inv s" and f: "get_file s i = Some f" and closed: "f_open_type f \<noteq> FILE_READWRITE"
    and childless: "fm_children (f_meta f) = 0"
  obtains s' where "delete_file i s = (Ok, s')" "super_inv s'" "super_tail s' = super_tail s"
    "file_removed s s' i f"
proof -
  note finv = super_invD(2) [OF inv] and einv = super_invD(1) [OF inv]
  have np: "no_pending f" by (rule closed_no_pending [OF finv f closed])
  have small: "unat (0 :: u64) \<le> 2 ^ 50" by simp
  obtain t f'
    where tr: "file_truncate i 0 s = (Ok, t)" and t: "extent_inv t" "super_rest t = super_rest s"
      "panicked t = panicked s" "\<And>j. j \<noteq> i \<Longrightarrow> get_file t j = get_file s j" "get_file t i = Some f'"
    and f': "file_rest f' = file_rest (f\<lparr>f_meta := (f_meta f)\<lparr>fm_size := 0\<rparr>\<rparr>)"
      "idx_find (f_extents f') = (\<lambda>k. if fits 0 k then idx_find (f_extents f) k else None)"
    using file_truncate_spec [OF einv f small np] by blast
  have empty: "f_extents f' = idx_empty"
    using f'(2) by (simp add: idx_empty_iff fits_def)
  have f'_links: "f_parent f' = f_parent f" "fm_name (f_meta f') = fm_name (f_meta f)"
    using f'(1) by (simp_all add: file_rest_def)
  have par: "p \<noteq> i \<and> get_file s p \<noteq> None" if "f_parent f = Some p" for p
    using that file_invD(2) [OF finv f] by (auto simp: file_linked_def)
  define u where "u = add_files (- 1) (t\<lparr>files_by_id := idx_remove i (files_by_id t),
      files_by_name := idx_remove (fm_name (f_meta f)) (files_by_name t)\<rparr>)"
  define s' where "s' = (case f_parent f of None \<Rightarrow> u
      | Some p \<Rightarrow> put_file p (one_less_child (the (get_file s p))) u)"
  have "get_file u p = get_file s p" if "f_parent f = Some p" for p
    using par [OF that] t(4) by (simp add: u_def get_file_def add_files_def)
  then have "add_children p (- 1) u = put_file p (one_less_child (the (get_file s p))) u"
    if "f_parent f = Some p" for p
    using that par [OF that] by (auto simp: add_children_def one_less_child_def)
  then have eq: "delete_file i s = (Ok, s')"
    using tr t(5) f'_links
    by (simp add: delete_file_def Let_def s'_def split: option.split) (simp add: u_def)
  have files: "files_by_id s' = (case f_parent f of None \<Rightarrow> idx_remove i (files_by_id t)
      | Some p \<Rightarrow> idx_put p (one_less_child (the (get_file s p))) (idx_remove i (files_by_id t)))"
    by (simp add: s'_def u_def put_file_def add_files_def split: option.split)
  have pan: "panicked s' = panicked s" and trees: "trees s' = trees t"
    using t(3) by (simp_all add: s'_def u_def add_files_def split: option.split)
  have "super_tail s' = super_tail t"
    by (simp add: s'_def u_def super_tail_def put_file_def add_files_def split: option.split)
  then have tail: "super_tail s' = super_tail s" using super_tail_rest [OF t(2)] by simp
  have max_id: "max_file_id s' = max_file_id s"
    and names: "files_by_name s' = idx_remove (fm_name (f_meta f)) (files_by_name s)"
    using super_rest_D(1,9) [OF t(2)]
    by (simp_all add: s'_def u_def put_file_def add_files_def split: option.split)
  have count: "sm_files (meta s') = sm_files (meta s) - 1"
      "sm_free_extents (meta s') = sm_free_extents (meta t)"
      "sm_journal_extents (meta s') = sm_journal_extents (meta t)"
      "sm_data_extents (meta s') = sm_data_extents (meta t)"
    using super_rest_D(6) [OF t(2)]
    by (simp_all add: s'_def u_def put_file_def add_files_def split: option.split)
  have get: "get_file s' j = get_after_delete i (f_parent f) s j" for j
    using par t(4) by (auto simp: get_file_def files get_after_delete_def split: option.split)
  then have rem: "file_removed s s' i f"
    using finv f childless no_children_iff [OF finv f] names max_id count
    by (simp add: file_removed_def)
  have blk: "block s' j = block t j" for j
    using t(4,5) empty par
    by (auto simp: block_def get get_after_delete_def fun_eq_iff split: option.split)
  let ?g = "\<lambda>f. idx_size (f_extents f)"
  have sum0: "idx_sum ?g (idx_remove i (files_by_id t)) = idx_sum ?g (files_by_id t)"
    using idx_sum_remove [OF get_file_files [OF t(5)], of ?g] empty by simp
  have sum: "idx_sum ?g (files_by_id s') = idx_sum ?g (files_by_id t)"
  proof (cases "f_parent f")
    case (Some p)
    then obtain pf where pf: "get_file s p = Some pf" "p \<noteq> i" using par by blast
    then have "idx_find (idx_remove i (files_by_id t)) p = Some pf"
      using t(4) by (simp add: get_file_def)
    then show ?thesis using Some pf sum0 by (simp add: files idx_sum_put_same)
  qed (simp add: files sum0)
  have total_eq: "total_extents s' = total_extents t"
    using total_extents_tail [OF tail] total_extents_frame [OF t(2)] by simp
  have "file_extents_ok g" if "get_file s' j = Some g" for j g
    using that t(4) extent_invD(4) [OF einv]
    by (fastforce simp: get get_after_delete_def file_extents_ok_def split: if_splits)
  then have "extent_inv s'"
    using extent_inv_files [OF t(1) trees total_eq count(2-4) blk sum] by blast
  then have "super_inv s'"
    using inv file_inv_removed [OF rem] pan total_extents_tail [OF tail] by (simp add: super_inv_def)
  then show ?thesis using that eq tail rem by blast
qed

subsubsection \<open>Truncating\<close>

lemma file_truncate_inv:
  assumes inv: "super_inv s" and f: "get_file s i = Some f" and closed: "f_open_type f \<noteq> FILE_READWRITE"
    and sz: "cyanfs_file_size_validate sz = Ok"
  obtains s' f' where "file_truncate i sz s = (Ok, s')" "super_inv s'" "super_rest s' = super_rest s"
    "\<And>j. j \<noteq> i \<Longrightarrow> get_file s' j = get_file s j" "get_file s' i = Some f'"
    "file_rest f' = file_rest (f\<lparr>f_meta := (f_meta f)\<lparr>fm_size := sz\<rparr>\<rparr>)"
    "idx_find (f_extents f') = (\<lambda>k. if fits sz k then idx_find (f_extents f) k else None)"
proof -
  note finv = super_invD(2) [OF inv]
  have small: "unat sz \<le> 2 ^ 50" using sz by (simp add: file_size_validate_Ok)
  obtain s' f' where tr: "file_truncate i sz s = (Ok, s')" and s': "extent_inv s'" "super_rest s' = super_rest s"
      "panicked s' = panicked s" "\<And>j. j \<noteq> i \<Longrightarrow> get_file s' j = get_file s j" "get_file s' i = Some f'"
    and f': "file_rest f' = file_rest (f\<lparr>f_meta := (f_meta f)\<lparr>fm_size := sz\<rparr>\<rparr>)"
      "idx_find (f_extents f') = (\<lambda>k. if fits sz k then idx_find (f_extents f) k else None)"
    using file_truncate_spec [OF super_invD(1) [OF inv] f small closed_no_pending [OF finv f closed]]
    by blast
  have "file_local f'"
    using file_invD(1) [OF finv f] sz f' by (auto simp: file_local_def file_rest_def split: if_splits)
  moreover have "same_links f f'" using f'(1) by (auto simp: same_links_def file_rest_def)
  ultimately have "file_inv s'"
    using file_inv_update [OF finv f, of s' f'] s' by auto
  then have "super_inv s'"
    using inv s' total_extents_frame [OF s'(2)] by (simp add: super_inv_def)
  then show ?thesis using that tr s' f' by blast
qed

end
