(* ===== verification/Replay.thy ===== *)
theory Replay
  imports File_Inv
begin

section \<open>Replaying the journal refines the file table\<close>

text \<open>
  The abstract state of a file system is its file table: for every id the name, the size, the parent
  and the backend extent of every block whose contents are valid, together with the largest id given
  out and the extents of the journal. \<open>apply_entry\<close> is the meaning of a journal entry on it, with the
  conditions under which an entry is valid.
\<close>

record afile =
  af_name :: file_name
  af_size :: u64
  af_parent :: "cyanfs_file_id_t option"
  af_blocks :: "bitfield30 \<Rightarrow> bitfield30 option"

record table =
  tb_files :: "cyanfs_file_id_t \<Rightarrow> afile option"
  tb_max_id :: cyanfs_file_id_t
  tb_total :: nat
  tb_journal :: "bitfield30 set"

definition committed :: "extent \<Rightarrow> bitfield30 option" where
  "committed n = (if ext_pending n \<or> ext_error n then None else Some (ext_backend n))"

definition abs_file :: "cyanfs_file \<Rightarrow> afile" where
  "abs_file f =
     \<lparr>af_name = fm_name (f_meta f), af_size = fm_size (f_meta f), af_parent = f_parent f,
      af_blocks = (\<lambda>k. Option.bind (idx_find (f_extents f) k) committed)\<rparr>"

definition abs_files :: "super \<Rightarrow> cyanfs_file_id_t \<Rightarrow> afile option" where
  "abs_files s i = map_option abs_file (get_file s i)"

definition table_of :: "super \<Rightarrow> table" where
  "table_of s =
     \<lparr>tb_files = abs_files s, tb_max_id = max_file_id s, tb_total = total_extents s,
      tb_journal = {b. idx_find (trees s Journal_Extents) b \<noteq> None}\<rparr>"

definition block_used :: "table \<Rightarrow> bitfield30 \<Rightarrow> bool" where
  "block_used t b \<longleftrightarrow>
     b \<in> tb_journal t \<or> (\<exists>i f k. tb_files t i = Some f \<and> af_blocks f k = Some b)"

definition name_used :: "table \<Rightarrow> file_name \<Rightarrow> bool" where
  "name_used t n \<longleftrightarrow> (\<exists>i f. tb_files t i = Some f \<and> af_name f = n)"

definition has_child :: "table \<Rightarrow> cyanfs_file_id_t \<Rightarrow> bool" where
  "has_child t i \<longleftrightarrow> (\<exists>c f. tb_files t c = Some f \<and> af_parent f = Some i)"

definition add_file :: "cyanfs_file_id_t \<Rightarrow> afile \<Rightarrow> table \<Rightarrow> table option" where
  "add_file i f t =
     (if i = 0 \<or> tb_files t i \<noteq> None \<or> name_used t (af_name f) \<or> card (dom (tb_files t)) \<ge> 4096 then None
      else Some (t\<lparr>tb_files := (tb_files t)(i \<mapsto> f), tb_max_id := max (tb_max_id t) i\<rparr>))"

definition set_file :: "cyanfs_file_id_t \<Rightarrow> afile \<Rightarrow> table \<Rightarrow> table" where
  "set_file i f t = t\<lparr>tb_files := (tb_files t)(i \<mapsto> f)\<rparr>"

fun apply_entry :: "journal_entry \<Rightarrow> table \<Rightarrow> table option" where
  "apply_entry (JCREATE n i) t =
     (case cyanfs_file_name_normalize n of
        None \<Rightarrow> None
      | Some name \<Rightarrow>
          add_file i \<lparr>af_name = name, af_size = 0, af_parent = None, af_blocks = Map.empty\<rparr> t)"
| "apply_entry (JFORK n i p) t =
     (case (cyanfs_file_name_normalize n, tb_files t p) of
        (Some name, Some pf) \<Rightarrow>
          if i \<le> p then None
          else add_file i \<lparr>af_name = name, af_size = af_size pf, af_parent = Some p,
                           af_blocks = Map.empty\<rparr> t
      | _ \<Rightarrow> None)"
| "apply_entry (JTRUNCATE i sz) t =
     (case tb_files t i of
        None \<Rightarrow> None
      | Some f \<Rightarrow>
          if cyanfs_file_size_validate sz \<noteq> Ok \<or> has_child t i then None
          else Some (set_file i (f\<lparr>af_size := sz,
                 af_blocks := (\<lambda>k. if fits sz k then af_blocks f k else None)\<rparr>) t))"
| "apply_entry (JDELETE i) t =
     (if tb_files t i = None \<or> has_child t i then None
      else Some (t\<lparr>tb_files := (tb_files t)(i := None)\<rparr>))"
| "apply_entry (JBIND i k b) t =
     (case tb_files t i of
        None \<Rightarrow> None
      | Some f \<Rightarrow>
          if unat k < 2 ^ 30 \<and> unat b < 2 ^ 30 \<and> fits (af_size f) (ucast k) \<and>
             af_blocks f (ucast k) = None \<and> unat b < tb_total t \<and> \<not> block_used t (ucast b)
          then Some (set_file i (f\<lparr>af_blocks := (af_blocks f)(ucast k \<mapsto> ucast b)\<rparr>) t)
          else None)"
| "apply_entry (JUNBIND i k) t =
     (case tb_files t i of
        None \<Rightarrow> None
      | Some f \<Rightarrow>
          if unat k < 2 ^ 30 \<and> af_blocks f (ucast k) \<noteq> None
          then Some (set_file i (f\<lparr>af_blocks := (af_blocks f)(ucast k := None)\<rparr>) t)
          else None)"
| "apply_entry (JRENAME n i) t =
     (case (cyanfs_file_name_normalize n, tb_files t i) of
        (Some name, Some f) \<Rightarrow>
          if name_used t name \<and> af_name f \<noteq> name then None
          else Some (set_file i (f\<lparr>af_name := name\<rparr>) t)
      | _ \<Rightarrow> None)"
| "apply_entry (JNEXT b) t =
     (if unat b < 2 ^ 30 \<and> unat b < tb_total t \<and> \<not> block_used t (ucast b)
      then Some (t\<lparr>tb_journal := insert (ucast b) (tb_journal t)\<rparr>) else None)"

text \<open>
  The states in which entries are replayed: the super block is not ready, no file is open, no extent
  waits or failed, and the extents that no file and no journal has are all free.
\<close>

definition replay_state :: "super \<Rightarrow> bool" where
  "replay_state r \<longleftrightarrow>
     super_inv r \<and> \<not> has_flag r FLAG_READY \<and>
     (\<forall>T. T \<noteq> Free_Extents \<longrightarrow> T \<noteq> Journal_Extents \<longrightarrow> trees r T = idx_empty) \<and>
     (\<forall>i f. get_file r i = Some f \<longrightarrow> f_open_type f = FILE_CLOSED) \<and>
     (\<forall>i k n. block r i k = Some n \<longrightarrow> \<not> ext_error n)"

subsection \<open>The table of a state\<close>

lemma abs_simps [simp]:
  "tb_files (table_of s) = abs_files s" "tb_max_id (table_of s) = max_file_id s"
  "tb_total (table_of s) = total_extents s"
  "tb_journal (table_of s) = {b. idx_find (trees s Journal_Extents) b \<noteq> None}"
  by (simp_all add: table_of_def)

lemma abs_file_simps [simp]:
  "af_name (abs_file f) = fm_name (f_meta f)" "af_size (abs_file f) = fm_size (f_meta f)"
  "af_parent (abs_file f) = f_parent f"
  "af_blocks (abs_file f) k = Option.bind (idx_find (f_extents f) k) committed"
  by (simp_all add: abs_file_def)

lemma abs_files_get: "get_file s i = Some f \<Longrightarrow> abs_files s i = Some (abs_file f)"
  by (simp add: abs_files_def)

lemma abs_files_None [simp]: "abs_files s i = None \<longleftrightarrow> get_file s i = None"
  by (simp add: abs_files_def)

lemma card_dom_abs: "card (dom (abs_files s)) = idx_size (files_by_id s)"
  by (simp add: idx_size_files dom_def)

lemma has_child_abs: "has_child (table_of s) i \<longleftrightarrow> children s i \<noteq> {}"
  by (simp add: has_child_def children_def abs_files_def) (metis abs_file_simps(3))

lemma name_used_abs:
  assumes "file_inv s"
  shows "name_used (table_of s) n \<longleftrightarrow> lookup_file_by_name s n \<noteq> None"
  using file_invD(2,3) [OF assms]
  by (fastforce simp: name_used_def abs_files_def lookup_file_by_name_def file_linked_def)

lemma replay_stateD:
  assumes "replay_state r"
  shows "super_inv r" "extent_inv r" "file_inv r" "\<not> has_flag r FLAG_READY"
    "T \<noteq> Free_Extents \<Longrightarrow> T \<noteq> Journal_Extents \<Longrightarrow> trees r T = idx_empty"
    "get_file r i = Some f \<Longrightarrow> f_open_type f = FILE_CLOSED"
    "block r i k = Some n \<Longrightarrow> \<not> ext_error n"
  using assms by (auto simp: replay_state_def super_inv_def)

lemma replay_block_clean:
  assumes "replay_state r" "get_file r i = Some f" "idx_find (f_extents f) k = Some n"
  shows "committed n = Some (ext_backend n)" "\<not> ext_pending n" "\<not> ext_error n"
proof -
  have "no_pending f"
    using closed_no_pending [OF replay_stateD(3) assms(2)] replay_stateD(6) assms by auto
  then show p: "\<not> ext_pending n" using assms(3) by (auto simp: no_pending_def)
  show e: "\<not> ext_error n"
    using replay_stateD(7) [OF assms(1), of i k n] assms(2,3) by (simp add: block_def)
  show "committed n = Some (ext_backend n)" using p e by (simp add: committed_def)
qed

lemma replay_blocks:
  "replay_state r \<Longrightarrow> get_file r i = Some f \<Longrightarrow>
     af_blocks (abs_file f) = (\<lambda>k. map_option ext_backend (idx_find (f_extents f) k))"
proof
  fix k
  assume "replay_state r" "get_file r i = Some f"
  then show "af_blocks (abs_file f) k = map_option ext_backend (idx_find (f_extents f) k)"
    using replay_block_clean(1) [of r i f k] by (cases "idx_find (f_extents f) k") auto
qed

lemma replay_free:
  assumes r: "replay_state r"
  shows "idx_find (trees r Free_Extents) b \<noteq> None \<longleftrightarrow> unat b < total_extents r \<and> \<not> block_used (table_of r) b"
proof -
  have own: "ownership r" using replay_stateD(2) [OF r] by (simp add: extent_inv_def)
  have used: "block_used (table_of r) b \<longleftrightarrow> held_at r (In_Tree Journal_Extents) b \<or> (\<exists>i k. held_at r (In_File i k) b)"
    using replay_blocks [OF r] by (fastforce simp: block_used_def abs_files_def block_def split: option.splits)
  have "held_at r (In_Tree Free_Extents) b \<longleftrightarrow> unat b < total_extents r \<and> \<not> block_used (table_of r) b"
  proof (cases "unat b < total_extents r")
    case False
    then show ?thesis using held_unique(2) [OF own] by blast
  next
    case True
    then obtain p where p: "held_at r p b" using own unfolding ownership_def by metis
    note u = held_unique(1) [OF own p]
    have "p = In_Tree Free_Extents \<or> p = In_Tree Journal_Extents \<or> (\<exists>i k. p = In_File i k)"
      using p replay_stateD(5) [OF r] by (cases p) (auto, metis idx_find_empty option.distinct(1))
    then show ?thesis unfolding used u using True by auto
  qed
  then show ?thesis by simp
qed

subsection \<open>The entries one by one\<close>

lemma abs_file_new: "abs_file (new_file name i parent) =
    \<lparr>af_name = name, af_size = (case parent of None \<Rightarrow> 0 | Some (_, p) \<Rightarrow> fm_size (f_meta p)),
     af_parent = map_option fst parent, af_blocks = Map.empty\<rparr>"
  by (simp add: abs_file_def new_file_def fun_eq_iff split: option.split)

lemma abs_file_child [simp]: "abs_file (one_more_child f) = abs_file f" "abs_file (one_less_child f) = abs_file f"
  by (simp_all add: abs_file_def)

lemma abs_files_added:
  "file_added s s' name i parent \<Longrightarrow>
     abs_files s' = (abs_files s)(i \<mapsto> abs_file (new_file name i parent))"
  using file_addedD(7) [of s s' name i parent] file_addedD(8) [of s s' name i parent]
  by (auto simp: fun_eq_iff abs_files_def get_after_init_def split: option.split)

lemma abs_files_removed:
  "file_removed s s' i f \<Longrightarrow> abs_files s' = (abs_files s)(i := None)"
  by (auto simp: fun_eq_iff abs_files_def file_removed_def get_after_delete_def option.map_comp comp_def)

lemma abs_added:
  assumes "file_added s s' name i parent" "super_tail s' = super_tail s" "trees s' = trees s"
  shows "add_file i (abs_file (new_file name i parent)) (table_of s) = Some (table_of s')"
proof -
  have "lookup_file_by_name s name = None"
    using file_addedD(4) [OF assms(1)] by (simp add: lookup_file_by_name_def)
  then show ?thesis
    using file_addedD(2,3,6,10) [OF assms(1)] abs_files_added [OF assms(1)] assms(3)
      total_extents_tail [OF assms(2)] name_used_abs [OF file_addedD(1) [OF assms(1)], of name]
    by (simp add: add_file_def card_dom_abs table_of_def)
qed

lemma name_ok_normalize: "cyanfs_file_name_normalize n = Some m \<Longrightarrow> name_wf n \<Longrightarrow> name_ok m"
  using normalize_idem [of n m]
  by (auto simp: name_ok_def name_wf_def cyanfs_file_name_normalize_def split: list.splits if_splits)

lemma replay_state_added:
  assumes "replay_state s" "file_added s s' name i parent" "super_inv s'" "super_tail s' = super_tail s"
    "trees s' = trees s"
  shows "replay_state s'"
proof -
  have get: "get_file s' j = get_after_init name i parent s j" for j
    by (rule file_addedD(8) [OF assms(2)])
  have "block s' j k = block s j k" for j k
    using file_addedD(2,7) [OF assms(2)]
    by (auto simp: block_def get get_after_init_def split: option.split)
  moreover have "f_open_type g = FILE_CLOSED" if "get_file s' j = Some g" for j g
    using that replay_stateD(6) [OF assms(1)] file_addedD(7) [OF assms(2)]
    by (auto simp: get get_after_init_def split: option.splits if_splits)
  ultimately show ?thesis
    using assms replay_stateD(4,5,7) [OF assms(1)]
    by (auto simp: replay_state_def has_flag_def super_tail_D(2) [OF assms(4)])
qed

lemma replay_init:
  assumes r: "replay_state r" and name: "name_ok name"
    and guard: "i \<noteq> 0" "get_file r i = None" "lookup_file_by_name r name = None"
      "idx_size (files_by_id r) \<noteq> 4096"
    and par: "\<And>p pf. parent = Some (p, pf) \<Longrightarrow> p < i \<and> get_file r p = Some pf"
  shows "\<exists>r'. init_file name i parent r = (Ok, r') \<and> replay_state r' \<and>
    add_file i (abs_file (new_file name i parent)) (table_of r) = Some (table_of r')"
proof -
  have "idx_size (files_by_id r) < 4096"
    using guard(4) file_invD(5) [OF replay_stateD(3) [OF r]] by simp
  moreover have "p < i \<and> get_file r p = Some pf \<and> f_open_type pf \<noteq> FILE_READWRITE"
    if "parent = Some (p, pf)" for p pf
    using par [OF that] replay_stateD(6) [OF r] by auto
  ultimately obtain r' where "init_file name i parent r = (Ok, r')" "super_inv r'"
      "super_tail r' = super_tail r" "trees r' = trees r" "file_added r r' name i parent"
    using init_file_spec [OF replay_stateD(1) [OF r] guard(2,1,3) name] by metis
  then show ?thesis
    using replay_state_added [OF r] abs_added by blast
qed

lemma replay_state_change:
  assumes r: "replay_state r" and ch: "file_change i r r' m" and f: "get_file r i = Some f"
    and clean: "\<forall>k n. m k = Some n \<longrightarrow> \<not> ext_pending n \<and> \<not> ext_error n"
    and trees: "\<forall>T. T \<noteq> Free_Extents \<longrightarrow> trees r' T = trees r T"
  shows "replay_state r'"
    and "table_of r' = set_file i ((abs_file f)\<lparr>af_blocks := (\<lambda>k. map_option ext_backend (m k))\<rparr>) (table_of r)"
proof -
  note R = super_rest_D [OF file_changeD(2) [OF ch]]
  obtain f' where f': "get_file r' i = Some f'" "file_rest f' = file_rest f" "idx_find (f_extents f') = m"
    using ch f by (rule file_change_obtain)
  have "file_inv r'"
    using file_inv_change [OF replay_stateD(3) [OF r] ch f] clean by blast
  then have "super_inv r'"
    using replay_stateD(1) [OF r] file_changeD(1,3) [OF ch] total_extents_frame [OF file_changeD(2) [OF ch]]
    by (simp add: super_inv_def)
  moreover have "f_open_type g = FILE_CLOSED" if "get_file r' j = Some g" for j g
    using that f f'(1) file_rest_D(7) [OF f'(2)] replay_stateD(6) [OF r] file_changeD(4) [OF ch, of j]
    by (cases "j = i") auto
  moreover have "\<not> ext_error n" if "block r' j k = Some n" for j k n
    using that clean replay_stateD(7) [OF r] by (auto simp: block_file_change [OF ch] split: if_splits)
  ultimately show "replay_state r'"
    using replay_stateD(4,5) [OF r] trees by (simp add: replay_state_def has_flag_def R(10))
  have "committed n = Some (ext_backend n)" if "m k = Some n" for k n
    using clean that by (simp add: committed_def)
  then have "Option.bind (m k) committed = map_option ext_backend (m k)" for k
    by (cases "m k") auto
  then have "abs_file f' = (abs_file f)\<lparr>af_blocks := (\<lambda>k. map_option ext_backend (m k))\<rparr>"
    by (simp add: abs_file_def f'(3) file_rest_D [OF f'(2)])
  then have "abs_files r' = (abs_files r)(i \<mapsto> (abs_file f)\<lparr>af_blocks := (\<lambda>k. map_option ext_backend (m k))\<rparr>)"
    using f'(1) file_changeD(4) [OF ch] by (auto simp: abs_files_def)
  then show "table_of r' = set_file i ((abs_file f)\<lparr>af_blocks := (\<lambda>k. map_option ext_backend (m k))\<rparr>) (table_of r)"
    using total_extents_frame [OF file_changeD(2) [OF ch]] R(9) trees
    by (simp add: table_of_def set_file_def)
qed

lemma unmap_target_replay: "replay_state r \<Longrightarrow> unmap_target r = Free_Extents"
  by (simp add: unmap_target_def replay_stateD(4))

text \<open>What a replay does when the entry is valid, and when it is not.\<close>

definition replay_matches :: "table option \<Rightarrow> super \<Rightarrow> cyanfs_status \<times> super \<Rightarrow> bool" where
  "replay_matches t r res \<longleftrightarrow>
     (case t of
        Some t' \<Rightarrow> \<exists>r'. res = (Ok, r') \<and> replay_state r' \<and> table_of r' = t'
      | None \<Rightarrow> fst res \<noteq> Ok \<and> snd res = r)"

lemma replay_create:
  assumes r: "replay_state r" and mem: "mem 0" and n: "name_wf n"
  shows "replay_matches (apply_entry (JCREATE n i) (table_of r)) r (journal_replay mem (JCREATE n i) r)"
proof (cases "cyanfs_file_name_normalize n")
  case None
  then show ?thesis by (simp add: replay_matches_def)
next
  case (Some name)
  note finv = replay_stateD(3) [OF r]
  show ?thesis
  proof (cases "i \<noteq> 0 \<and> get_file r i = None \<and> lookup_file_by_name r name = None \<and>
      idx_size (files_by_id r) \<noteq> 4096")
    case True
    then obtain r' where "init_file name i None r = (Ok, r')" "replay_state r'"
        "add_file i (abs_file (new_file name i None)) (table_of r) = Some (table_of r')"
      using replay_init [OF r name_ok_normalize [OF Some n], of i None] by auto
    then show ?thesis
      using True Some mem files_count [OF finv]
      by (simp add: replay_matches_def abs_file_new lookup_file_by_id_def)
  next
    case False
    then have "add_file i f (table_of r) = None" if "af_name f = name" for f
      using that name_used_abs [OF finv, of name] file_invD(5) [OF finv]
      by (auto simp: add_file_def card_dom_abs)
    moreover have "fst (journal_replay mem (JCREATE n i) r) \<noteq> Ok \<and> snd (journal_replay mem (JCREATE n i) r) = r"
      using False Some files_count [OF finv] by (auto simp: lookup_file_by_id_def)
    ultimately show ?thesis using Some by (simp add: replay_matches_def)
  qed
qed

lemma replay_fork:
  assumes r: "replay_state r" and mem: "mem 0" and n: "name_wf n"
  shows "replay_matches (apply_entry (JFORK n i p) (table_of r)) r (journal_replay mem (JFORK n i p) r)"
proof (cases "cyanfs_file_name_normalize n")
  case None
  then show ?thesis by (simp add: replay_matches_def)
next
  case (Some name)
  note finv = replay_stateD(3) [OF r]
  show ?thesis
  proof (cases "p < i \<and> get_file r p \<noteq> None \<and> i \<noteq> 0 \<and> get_file r i = None \<and>
      lookup_file_by_name r name = None \<and> idx_size (files_by_id r) \<noteq> 4096")
    case True
    then obtain pf where pf: "get_file r p = Some pf" by blast
    then obtain r' where "init_file name i (Some (p, pf)) r = (Ok, r')" "replay_state r'"
        "add_file i (abs_file (new_file name i (Some (p, pf)))) (table_of r) = Some (table_of r')"
      using replay_init [OF r name_ok_normalize [OF Some n], of i "Some (p, pf)"] True by auto
    then show ?thesis
      using True Some mem pf files_count [OF finv]
      by (simp add: replay_matches_def abs_file_new abs_files_get lookup_file_by_id_def not_le)
  next
    case False
    then have "apply_entry (JFORK n i p) (table_of r) = None"
      using Some name_used_abs [OF finv, of name] file_invD(5) [OF finv]
      by (auto simp: add_file_def card_dom_abs not_le split: option.split)
    moreover have "fst (journal_replay mem (JFORK n i p) r) \<noteq> Ok \<and> snd (journal_replay mem (JFORK n i p) r) = r"
      using False Some files_count [OF finv]
      by (auto simp: lookup_file_by_id_def not_le split: option.split)
    ultimately show ?thesis by (simp add: replay_matches_def)
  qed
qed

lemma replay_bind:
  assumes r: "replay_state r"
  shows "replay_matches (apply_entry (JBIND i k b) (table_of r)) r (journal_replay mem (JBIND i k b) r)"
proof (cases "get_file r i")
  case None
  then show ?thesis by (simp add: replay_matches_def lookup_file_by_id_def abs_files_def)
next
  case (Some f)
  note spec = file_bind_spec [OF replay_stateD(2) [OF r] Some, of k b]
  have blocks: "af_blocks (abs_file f) = (\<lambda>k. map_option ext_backend (idx_find (f_extents f) k))"
    by (rule replay_blocks [OF r Some])
  have guard: "unat k < 2 ^ 30 \<and> cyanfs_extent_begin k < fm_size (f_meta f) \<and> unat b < 2 ^ 30 \<and>
        idx_find (trees r Free_Extents) (ucast b) \<noteq> None \<and> idx_find (f_extents f) (ucast k) = None \<longleftrightarrow>
      unat k < 2 ^ 30 \<and> unat b < 2 ^ 30 \<and> fits (fm_size (f_meta f)) (ucast k) \<and>
        af_blocks (abs_file f) (ucast k) = None \<and> unat b < total_extents r \<and> \<not> block_used (table_of r) (ucast b)"
  proof -
    have "af_blocks (abs_file f) (ucast k) = None \<longleftrightarrow> idx_find (f_extents f) (ucast k) = None"
      by (simp only: blocks option.map_disc_iff)
    moreover have "idx_find (trees r Free_Extents) (ucast b) \<noteq> None \<longleftrightarrow>
        unat b < total_extents r \<and> \<not> block_used (table_of r) (ucast b)" if "unat b < 2 ^ 30"
      using replay_free [OF r, of "ucast b"] by (simp only: unat_index [OF that])
    ultimately show ?thesis using fits_ucast [of k "fm_size (f_meta f)"] by blast
  qed
  show ?thesis
  proof (cases "unat k < 2 ^ 30 \<and> unat b < 2 ^ 30 \<and> fits (fm_size (f_meta f)) (ucast k) \<and>
        af_blocks (abs_file f) (ucast k) = None \<and> unat b < total_extents r \<and> \<not> block_used (table_of r) (ucast b)")
    case False
    then show ?thesis
      using spec Some unfolding guard
      by (simp add: replay_matches_def lookup_file_by_id_def abs_files_get del: abs_file_simps(4))
  next
    case True
    then obtain r' n where n: "idx_find (trees r Free_Extents) (ucast b) = Some n"
      and eq: "file_bind_extent i k b r = (Ok, r')"
      and ch: "file_change i r r' ((idx_find (f_extents f))
                  (ucast k \<mapsto> n\<lparr>ext_file := ucast k, ext_map := True\<rparr>))"
      using spec unfolding guard by auto
    have node: "ext_backend n = ucast b" "\<not> ext_pending n" "\<not> ext_error n"
      using extent_invD(2) [OF replay_stateD(2) [OF r]] n by (auto simp: tree_nodes_ok_def)
    have trees: "\<forall>T. T \<noteq> Free_Extents \<longrightarrow> trees r' T = trees r T"
      using trees_bind [of _ i k b r] eq by simp
    have clean: "\<forall>l m. ((idx_find (f_extents f))(ucast k \<mapsto> n\<lparr>ext_file := ucast k, ext_map := True\<rparr>)) l
        = Some m \<longrightarrow> \<not> ext_pending m \<and> \<not> ext_error m"
      using node replay_block_clean(2,3) [OF r Some] by auto
    have upd: "(\<lambda>l. map_option ext_backend
          (((idx_find (f_extents f))(ucast k \<mapsto> n\<lparr>ext_file := ucast k, ext_map := True\<rparr>)) l)) =
        (af_blocks (abs_file f))(ucast k \<mapsto> ucast b)"
      using node(1) by (auto simp: blocks)
    have "replay_state r' \<and> table_of r' =
        set_file i ((abs_file f)\<lparr>af_blocks := (af_blocks (abs_file f))(ucast k \<mapsto> ucast b)\<rparr>) (table_of r)"
      using replay_state_change [OF r ch Some clean trees] unfolding upd by blast
    then show ?thesis
      using True Some eq
      by (simp add: replay_matches_def lookup_file_by_id_def abs_files_get del: abs_file_simps(4))
  qed
qed

lemma replay_unbind:
  assumes r: "replay_state r"
  shows "replay_matches (apply_entry (JUNBIND i k) (table_of r)) r (journal_replay mem (JUNBIND i k) r)"
proof (cases "get_file r i")
  case None
  then show ?thesis by (simp add: replay_matches_def lookup_file_by_id_def abs_files_def)
next
  case (Some f)
  have blocks: "af_blocks (abs_file f) = (\<lambda>k. map_option ext_backend (idx_find (f_extents f) k))"
    by (rule replay_blocks [OF r Some])
  have guard: "unat k < 2 ^ 30 \<and> idx_find (f_extents f) (ucast k) \<noteq> None \<longleftrightarrow>
      unat k < 2 ^ 30 \<and> af_blocks (abs_file f) (ucast k) \<noteq> None"
    by (simp add: blocks)
  have np: "\<not> ext_pending n" if "idx_find (f_extents f) (ucast k) = Some n" for n
    by (rule replay_block_clean(2) [OF r Some that])
  note spec = file_unbind_spec [OF replay_stateD(2) [OF r] Some np, of k, simplified guard]
  show ?thesis
  proof (cases "unat k < 2 ^ 30 \<and> af_blocks (abs_file f) (ucast k) \<noteq> None")
    case False
    then show ?thesis
      using spec Some
      by (simp add: replay_matches_def lookup_file_by_id_def abs_files_get del: abs_file_simps(4))
  next
    case True
    then obtain r' where eq: "file_unbind_extent i k r = (Ok, r')"
      and ch: "file_change i r r' ((idx_find (f_extents f))(ucast k := None))"
      using spec by auto
    have trees: "\<forall>T. T \<noteq> Free_Extents \<longrightarrow> trees r' T = trees r T"
      using trees_unbind [of _ r i k] unmap_target_replay [OF r] eq by simp
    have clean: "\<forall>l m. ((idx_find (f_extents f))(ucast k := None)) l = Some m \<longrightarrow>
        \<not> ext_pending m \<and> \<not> ext_error m"
      using replay_block_clean(2,3) [OF r Some] by auto
    have upd: "(\<lambda>l. map_option ext_backend (((idx_find (f_extents f))(ucast k := None)) l)) =
        (af_blocks (abs_file f))(ucast k := None)"
      by (auto simp: blocks)
    have "replay_state r' \<and> table_of r' =
        set_file i ((abs_file f)\<lparr>af_blocks := (af_blocks (abs_file f))(ucast k := None)\<rparr>) (table_of r)"
      using replay_state_change [OF r ch Some clean trees] unfolding upd by blast
    then show ?thesis
      using True Some eq
      by (simp add: replay_matches_def lookup_file_by_id_def abs_files_get del: abs_file_simps(4))
  qed
qed

lemma replay_truncate:
  assumes r: "replay_state r"
  shows "replay_matches (apply_entry (JTRUNCATE i sz) (table_of r)) r (journal_replay mem (JTRUNCATE i sz) r)"
proof (cases "get_file r i")
  case None
  then show ?thesis by (simp add: replay_matches_def lookup_file_by_id_def abs_files_def)
next
  case (Some f)
  have childless: "has_child (table_of r) i \<longleftrightarrow> fm_children (f_meta f) \<noteq> 0"
    using no_children_iff [OF replay_stateD(3) [OF r] Some] by (simp add: has_child_abs)
  show ?thesis
  proof (cases "cyanfs_file_size_validate sz = Ok \<and> fm_children (f_meta f) = 0")
    case False
    then show ?thesis
      using Some childless by (auto simp: replay_matches_def lookup_file_by_id_def abs_files_get)
  next
    case True
    then have sz: "cyanfs_file_size_validate sz = Ok" by simp
    have closed: "f_open_type f = FILE_CLOSED" by (rule replay_stateD(6) [OF r Some])
    then have "f_open_type f \<noteq> FILE_READWRITE" by simp
    then obtain r' f' where eq: "file_truncate i sz r = (Ok, r')" and r': "super_inv r'"
        "super_rest r' = super_rest r" "\<And>j. j \<noteq> i \<Longrightarrow> get_file r' j = get_file r j" "get_file r' i = Some f'"
      and f': "file_rest f' = file_rest (f\<lparr>f_meta := (f_meta f)\<lparr>fm_size := sz\<rparr>\<rparr>)"
        "idx_find (f_extents f') = (\<lambda>k. if fits sz k then idx_find (f_extents f) k else None)"
      using file_truncate_inv [OF replay_stateD(1) [OF r] Some _ sz] by blast
    note R = super_rest_D [OF r'(2)]
    have trees: "trees r' T = trees r T" if "T \<noteq> Free_Extents" for T
      using trees_truncate [of T r i sz] that unmap_target_replay [OF r] eq by simp
    have "f_open_type g = FILE_CLOSED" if "get_file r' j = Some g" for j g
      using that r'(3,4) f'(1) replay_stateD(6) [OF r] closed
      by (cases "j = i") (auto simp: file_rest_def)
    moreover have "\<not> ext_error n" if "block r' j k = Some n" for j k n
      using that r'(3) [of j] r'(4) f'(2) replay_stateD(7) [OF r, of j k] Some
      by (cases "j = i") (auto simp: block_def split: if_splits)
    ultimately have "replay_state r'"
      using r'(1) replay_stateD(4,5) [OF r] trees by (simp add: replay_state_def has_flag_def R(10))
    moreover have "abs_file f' = (abs_file f)\<lparr>af_size := sz,
        af_blocks := (\<lambda>k. if fits sz k then af_blocks (abs_file f) k else None)\<rparr>"
      using f' by (simp add: abs_file_def file_rest_def fun_eq_iff)
    then have "abs_files r' = (abs_files r)(i \<mapsto> (abs_file f)\<lparr>af_size := sz,
        af_blocks := (\<lambda>k. if fits sz k then af_blocks (abs_file f) k else None)\<rparr>)"
      using r'(3,4) by (auto simp: abs_files_def)
    then have "table_of r' = set_file i ((abs_file f)\<lparr>af_size := sz,
        af_blocks := (\<lambda>k. if fits sz k then af_blocks (abs_file f) k else None)\<rparr>) (table_of r)"
      using total_extents_frame [OF r'(2)] R(9) trees [of Journal_Extents]
      by (simp add: table_of_def set_file_def)
    ultimately show ?thesis
      using True Some childless eq
      by (simp add: replay_matches_def lookup_file_by_id_def abs_files_get del: abs_file_simps(4))
  qed
qed

lemma trees_delete: "T \<noteq> unmap_target s \<Longrightarrow> trees (snd (delete_file i s)) T = trees s T"
  using trees_truncate [of T s i 0]
  by (cases "file_truncate i 0 s"; cases "fst (file_truncate i 0 s)")
    (simp_all add: delete_file_def Let_def add_children_def add_files_def split: option.split)

lemma replay_delete:
  assumes r: "replay_state r"
  shows "replay_matches (apply_entry (JDELETE i) (table_of r)) r (journal_replay mem (JDELETE i) r)"
proof (cases "get_file r i")
  case None
  then show ?thesis by (simp add: replay_matches_def lookup_file_by_id_def)
next
  case (Some f)
  have childless: "has_child (table_of r) i \<longleftrightarrow> fm_children (f_meta f) \<noteq> 0"
    using no_children_iff [OF replay_stateD(3) [OF r] Some] by (simp add: has_child_abs)
  show ?thesis
  proof (cases "fm_children (f_meta f) = 0")
    case False
    then show ?thesis
      using Some childless by (simp add: replay_matches_def lookup_file_by_id_def)
  next
    case True
    have "f_open_type f \<noteq> FILE_READWRITE" using replay_stateD(6) [OF r Some] by simp
    then obtain r' where eq: "delete_file i r = (Ok, r')" and r': "super_inv r'"
        "super_tail r' = super_tail r" and rem: "file_removed r r' i f"
      using delete_file_spec [OF replay_stateD(1) [OF r] Some _ True] by blast
    have get: "get_file r' j = get_after_delete i (f_parent f) r j" for j
      using rem by (simp add: file_removed_def)
    have trees: "trees r' T = trees r T" if "T \<noteq> Free_Extents" for T
      using trees_delete [of T r i] that unmap_target_replay [OF r] eq by simp
    have "f_open_type g = FILE_CLOSED" if "get_file r' j = Some g" for j g
      using that replay_stateD(6) [OF r] by (auto simp: get get_after_delete_def split: if_splits)
    moreover have "\<not> ext_error n" if "block r' j k = Some n" for j k n
      using that replay_stateD(7) [OF r, of j k]
      by (auto simp: block_def get get_after_delete_def split: if_splits option.splits)
    ultimately have "replay_state r'"
      using r'(1) replay_stateD(4,5) [OF r] trees
      by (simp add: replay_state_def has_flag_def super_tail_D(2) [OF r'(2)])
    moreover have "table_of r' = (table_of r)\<lparr>tb_files := (abs_files r)(i := None)\<rparr>"
      using total_extents_tail [OF r'(2)] rem trees [of Journal_Extents] abs_files_removed [OF rem]
      by (simp add: table_of_def file_removed_def)
    ultimately show ?thesis
      using True Some childless eq by (simp add: replay_matches_def lookup_file_by_id_def)
  qed
qed

lemma replay_rename:
  assumes r: "replay_state r" and n: "name_wf n"
  shows "replay_matches (apply_entry (JRENAME n i) (table_of r)) r (journal_replay mem (JRENAME n i) r)"
proof (cases "cyanfs_file_name_normalize n")
  case None
  then show ?thesis by (simp add: replay_matches_def)
next
  case name: (Some name)
  note finv = replay_stateD(3) [OF r]
  show ?thesis
  proof (cases "get_file r i")
    case None
    then show ?thesis using name by (simp add: replay_matches_def lookup_file_by_id_def abs_files_def)
  next
    case (Some f)
    have own: "lookup_file_by_name r name = Some i \<longleftrightarrow> fm_name (f_meta f) = name"
      using file_invD(2) [OF finv Some] file_invD(3) [OF finv, of name i] Some
      by (auto simp: lookup_file_by_name_def file_linked_def)
    show ?thesis
    proof (cases "lookup_file_by_name r name \<in> {None, Some i}")
      case False
      then show ?thesis
        using name Some own name_used_abs [OF finv, of name]
        by (auto simp: replay_matches_def lookup_file_by_id_def abs_files_get)
    next
      case True
      then obtain r' where eq: "rename_file i name r = (Ok, r')" and r': "super_inv r'"
          "super_tail r' = super_tail r" "trees r' = trees r" "max_file_id r' = max_file_id r"
        and get: "\<And>j. get_file r' j =
          (if j = i then Some (f\<lparr>f_meta := (f_meta f)\<lparr>fm_name := name\<rparr>\<rparr>) else get_file r j)"
        using rename_file_spec [OF replay_stateD(1) [OF r] Some True name_ok_normalize [OF name n]]
        by blast
      have "block r' j k = block r j k" for j k
        using Some by (simp add: block_def get)
      then have "replay_state r'"
        using r' replay_stateD(4-7) [OF r] Some
        by (auto simp: replay_state_def has_flag_def super_tail_D(2) [OF r'(2)] get split: if_splits)
      moreover have "abs_files r' = (abs_files r)(i \<mapsto> (abs_file f)\<lparr>af_name := name\<rparr>)"
        by (auto simp: abs_files_def get abs_file_def)
      then have "table_of r' = set_file i ((abs_file f)\<lparr>af_name := name\<rparr>) (table_of r)"
        using r'(3,4) total_extents_tail [OF r'(2)] by (simp add: table_of_def set_file_def)
      moreover have "\<not> (name_used (table_of r) name \<and> fm_name (f_meta f) \<noteq> name)"
        using True own name_used_abs [OF finv, of name] by auto
      ultimately show ?thesis
        using name Some True eq
        by (auto simp: replay_matches_def lookup_file_by_id_def abs_files_get split: option.split)
    qed
  qed
qed

lemma replay_next:
  assumes r: "replay_state r"
  shows "replay_matches (apply_entry (JNEXT b) (table_of r)) r (journal_replay mem (JNEXT b) r)"
proof (cases "super_find_extent r b")
  case None
  then have "\<not> (unat b < 2 ^ 30 \<and> unat b < total_extents r \<and> \<not> block_used (table_of r) (ucast b))"
    using find_extent_Some [of r b] replay_free [OF r, of "ucast b"] unat_index [of b] by fastforce
  then show ?thesis using None by (simp add: replay_matches_def)
next
  case (Some n)
  then have b: "unat b < 2 ^ 30" and n: "idx_find (trees r Free_Extents) (ucast b) = Some n"
    by (simp_all add: find_extent_Some)
  let ?r' = "extent_super_to_super n Free_Extents Journal_Extents r"
  have valid: "unat b < total_extents r" "\<not> block_used (table_of r) (ucast b)"
    using replay_free [OF r, of "ucast b"] n unat_index [OF b] by auto
  have node: "ext_backend n = ucast b"
    using extent_invD(2) [OF replay_stateD(2) [OF r]] n by (auto simp: tree_nodes_ok_def)
  have own: "ownership r" using replay_stateD(2) [OF r] by (simp add: extent_inv_def)
  have "idx_find (trees r Journal_Extents) (ucast b) = None"
    using held_unique(1) [OF own, of "In_Tree Free_Extents" "ucast b" "In_Tree Journal_Extents"] n by simp
  then have trees: "trees ?r' = (trees r)(Free_Extents := idx_remove (ucast b) (trees r Free_Extents),
      Journal_Extents := idx_put (ucast b) n (trees r Journal_Extents))"
    using super_to_super_trees [of r Journal_Extents n Free_Extents] node by simp
  note R = super_rest_D [OF super_rest_moves(1) [of n Free_Extents Journal_Extents r]]
  have files: "get_file ?r' = get_file r" by (rule get_file_cong) (rule super_to_super_fields)
  have blk: "block ?r' j k = block r j k" for j k by (simp add: block_def files)
  have ch: "children ?r' j = children r j" for j by (simp add: children_def files)
  have "extent_inv ?r'" by (rule super_to_super_inv [OF replay_stateD(2) [OF r] n]) simp
  moreover have "file_inv ?r'"
    using replay_stateD(3) [OF r] by (simp add: file_inv_def file_linked_def files ch R super_to_super_fields(1))
  ultimately have "super_inv ?r'"
    using replay_stateD(1) [OF r] total_extents_frame [OF super_rest_moves(1)]
    by (simp add: super_inv_def super_to_super_fields(2))
  then have "replay_state ?r'"
    using replay_stateD(4-7) [OF r] by (simp add: replay_state_def has_flag_def R files blk trees)
  moreover have "table_of ?r' = (table_of r)\<lparr>tb_journal := insert (ucast b) (tb_journal (table_of r))\<rparr>"
    using total_extents_frame [OF super_rest_moves(1)] R(9)
    by (auto simp: table_of_def trees abs_files_def files fun_eq_iff)
  ultimately show ?thesis using Some b valid by (simp add: replay_matches_def)
qed

lemma replay_refines:
  assumes "replay_state r" "mem 0" "entry_wf j"
  shows "replay_matches (apply_entry j (table_of r)) r (journal_replay mem j r)"
proof (cases j)
  case (JNEXT b) show ?thesis unfolding JNEXT by (rule replay_next [OF assms(1)])
next
  case (JCREATE n i) then show ?thesis using replay_create assms by simp
next
  case (JTRUNCATE i sz) show ?thesis unfolding JTRUNCATE by (rule replay_truncate [OF assms(1)])
next
  case (JFORK n i p) show ?thesis unfolding JFORK
    by (rule replay_fork [where mem = mem]) (use assms JFORK in simp_all)
next
  case (JDELETE i) show ?thesis unfolding JDELETE by (rule replay_delete [OF assms(1)])
next
  case (JBIND i k b) show ?thesis unfolding JBIND by (rule replay_bind [OF assms(1)])
next
  case (JUNBIND i k) show ?thesis unfolding JUNBIND by (rule replay_unbind [OF assms(1)])
next
  case (JRENAME n i) show ?thesis unfolding JRENAME
    by (rule replay_rename [where mem = mem]) (use assms JRENAME in simp_all)
qed

subsection \<open>A sequence of entries\<close>

fun replay_all :: "malloc \<Rightarrow> journal_entry list \<Rightarrow> super \<Rightarrow> cyanfs_status \<times> super" where
  "replay_all mem [] s = (Ok, s)"
| "replay_all mem (j # js) s =
     (case journal_replay mem j s of
        (Ok, s) \<Rightarrow> replay_all mem js s
      | (err, s) \<Rightarrow> (err, s))"

fun apply_entries :: "journal_entry list \<Rightarrow> table \<Rightarrow> table option" where
  "apply_entries [] t = Some t"
| "apply_entries (j # js) t = Option.bind (apply_entry j t) (apply_entries js)"

lemma apply_entries_append:
  "apply_entries (js @ ks) t = Option.bind (apply_entries js t) (apply_entries ks)"
  by (induction js arbitrary: t) (auto split: Option.bind_split)

lemma replay_all_refines:
  assumes "replay_state r" "mem 0" "list_all entry_wf js" "apply_entries js (table_of r) = Some t"
  shows "\<exists>r'. replay_all mem js r = (Ok, r') \<and> replay_state r' \<and> table_of r' = t"
  using assms
proof (induction js arbitrary: r)
  case (Cons j js)
  then obtain u where u: "apply_entry j (table_of r) = Some u" "apply_entries js u = Some t"
    by (auto simp: bind_eq_Some_conv)
  then obtain r' where r': "journal_replay mem j r = (Ok, r')" "replay_state r'" "table_of r' = u"
    using replay_refines [of r mem j] Cons.prems by (auto simp: replay_matches_def)
  then show ?case using Cons.IH [of r'] Cons.prems u by simp
qed simp

end
