(* ===== verification/Super_Refine.thy ===== *)
theory Super_Refine
  imports Super_Api Replay
begin

section \<open>The operations of a live file system\<close>

text \<open>
  Each operation that changes files keeps the invariant, answers with the documented error when it
  refuses, and otherwise appends one journal entry whose meaning on the file table is the change it
  made. The file table of a live state leaves the extents of the journal out: the journal that is
  being written is not part of its own contents.
\<close>

definition live_table :: "super \<Rightarrow> table" where
  "live_table s = (table_of s)\<lparr>tb_journal := {}\<rparr>"

lemma live_table_simps [simp]:
  "tb_files (live_table s) = abs_files s" "tb_max_id (live_table s) = max_file_id s"
  "tb_total (live_table s) = total_extents s" "tb_journal (live_table s) = {}"
  by (simp_all add: live_table_def)

lemma live_used [simp]:
  "name_used (live_table s) = name_used (table_of s)" "has_child (live_table s) = has_child (table_of s)"
  by (simp_all add: name_used_def has_child_def fun_eq_iff)

definition journaled :: "super \<Rightarrow> journal_entry \<Rightarrow> super \<Rightarrow> bool" where
  "journaled s j s' \<longleftrightarrow>
     apply_entry j (live_table s) = Some (live_table s') \<and> entry_wf j \<and>
     journal_log s' = journal_log s @ [j]"

text \<open>The trees of flushers that do not exist yet are empty.\<close>

definition addr_inv :: "super \<Rightarrow> bool" where
  "addr_inv s \<longleftrightarrow> (\<forall>a \<ge> next_address s. trees s (Flusher_Unused a) = idx_empty)"

text \<open>
  What an operation leaves alone of the copies under way: the extents that wait for one, the copy
  tasks in the queue and their records, and the count of the running tasks.
\<close>

definition keeps_pending :: "super \<Rightarrow> super \<Rightarrow> bool" where
  "keeps_pending s s' \<longleftrightarrow> (\<forall>i k n. block s i k = Some n \<longrightarrow> ext_pending n \<longrightarrow> block s' i k = Some n)"

fun is_cow :: "task_ref \<Rightarrow> bool" where
  "is_cow (Cow_Task _) = True"
| "is_cow _ = False"

text \<open>
  The tasks of compactions, and the completion functions that a task may have. An operation disturbs
  no compaction: it leaves their tasks in the queue as they are, and what it queues itself has a
  completion function that fits.
\<close>

fun is_comp :: "task_ref \<Rightarrow> bool" where
  "is_comp (Compact_Task _) = True"
| "is_comp (Compact_Writer _) = True"
| "is_comp (Compact_Loader _) = True"
| "is_comp _ = False"

fun task_fits :: "task_ref \<Rightarrow> task_done \<Rightarrow> bool" where
  "task_fits Discard_Task d = (d = Discard_Extents_Begin \<or> d = Discard_Extents_Done)"
| "task_fits (Flusher_Before _) d = (d = Flusher_Before_Write_Flush \<or> d = Flusher_Before_Write_Flush_Done)"
| "task_fits (Flusher_After _) d = (d = Flusher_Before_Flush \<or> d = Flusher_After_Flush)"
| "task_fits (Flusher_Free _) d = (d = Flusher_Free_Done)"
| "task_fits (Flusher_Writer _) d = (d = Journal_Writer_Encode)"
| "task_fits (Cow_Task _) d = (d = Copy_On_Write_Done)"
| "task_fits (Requeue_Task _) d = (d = Task_Free_Done)"
| "task_fits (Loader_Task _) d = False"
| "task_fits (Compact_Task _) d =
     (d = Journal_Compact_Write_Super \<or> d = Journal_Compact_Flush_Super \<or> d = Journal_Compact_Finish)"
| "task_fits (Compact_Writer _) d = (d = Journal_Writer_Encode)"
| "task_fits (Compact_Loader _) d = (d = Journal_Loader_Parser_Header \<or> d = Journal_Loader_Parser_Page)"

definition fits_task :: "super \<Rightarrow> task_ref \<Rightarrow> bool" where
  "fits_task s t \<longleftrightarrow> task_fits t (t_done (task_at s t))"

definition undisturbed :: "super \<Rightarrow> super \<Rightarrow> bool" where
  "undisturbed s s' \<longleftrightarrow>
     filter is_comp (task_head s') = filter is_comp (task_head s) \<and>
     (\<forall>t. is_comp t \<longrightarrow> task_at s' t = task_at s t) \<and> (\<forall>t. fits_task s t \<longrightarrow> fits_task s' t) \<and>
     (\<forall>t \<in> set (task_head s'). t \<in> set (task_head s) \<or> fits_task s' t) \<and>
     next_address s \<le> next_address s' \<and> sm_total_extents (meta s') = sm_total_extents (meta s)"

lemma undisturbed_same:
  "task_head s' = task_head s \<Longrightarrow> task_at s' = task_at s \<Longrightarrow> next_address s \<le> next_address s' \<Longrightarrow>
     sm_total_extents (meta s') = sm_total_extents (meta s) \<Longrightarrow> undisturbed s s'"
  by (simp add: undisturbed_def fits_task_def)

lemma undisturbed_refl [simp]: "undisturbed s s"
  by (simp add: undisturbed_same)

lemma undisturbed_trans: "undisturbed s t \<Longrightarrow> undisturbed t u \<Longrightarrow> undisturbed s u"
  unfolding undisturbed_def by (elim conjE, intro conjI) (simp_all, blast)

definition quiet :: "super \<Rightarrow> super \<Rightarrow> bool" where
  "quiet s s' \<longleftrightarrow>
     filter is_cow (task_head s') = filter is_cow (task_head s) \<and> cow_at s' = cow_at s \<and>
     active_tasks s' = active_tasks s \<and> undisturbed s s'"

lemma quiet_undisturbed: "quiet s s' \<Longrightarrow> undisturbed s s'"
  by (simp add: quiet_def)

lemma quiet_address: "quiet s s' \<Longrightarrow> next_address s \<le> next_address s'"
  by (simp add: quiet_def undisturbed_def)

lemma quiet_same:
  "task_head s' = task_head s \<Longrightarrow> task_at s' = task_at s \<Longrightarrow> cow_at s' = cow_at s \<Longrightarrow>
     active_tasks s' = active_tasks s \<Longrightarrow> next_address s \<le> next_address s' \<Longrightarrow>
     sm_total_extents (meta s') = sm_total_extents (meta s) \<Longrightarrow> quiet s s'"
  by (simp add: quiet_def undisturbed_same)

lemma quiet_refl [simp]: "quiet s s"
  by (simp add: quiet_def)

lemma quiet_trans: "quiet s t \<Longrightarrow> quiet t u \<Longrightarrow> quiet s u"
  by (auto simp: quiet_def intro: undisturbed_trans)

lemma quiet_tail: "super_tail s' = super_tail s \<Longrightarrow> quiet s s'"
  using super_tail_D [of s' s] by (intro quiet_same) simp_all

lemma quiet_rest: "super_rest s' = super_rest s \<Longrightarrow> quiet s s'"
  by (rule quiet_tail, rule super_tail_rest)

lemma quiet_append [simp]: "quiet s (journal_append j s)"
  by (rule quiet_same) (simp_all add: journal_append_def)

lemma keeps_pending_refl [simp]: "keeps_pending s s"
  by (simp add: keeps_pending_def)

lemma keeps_pending_trans: "keeps_pending s t \<Longrightarrow> keeps_pending t u \<Longrightarrow> keeps_pending s u"
  by (simp add: keeps_pending_def)

lemma keeps_pending_append [simp]: "keeps_pending s (journal_append j s)"
  by (simp add: keeps_pending_def block_def get_file_def journal_append_def)

lemma keeps_pending_closed:
  assumes "file_inv s" "get_file s i = Some f" "f_open_type f \<noteq> FILE_READWRITE"
    and "\<And>j. j \<noteq> i \<Longrightarrow> block s' j = block s j"
  shows "keeps_pending s s'"
proof -
  have "no_pending f" by (rule closed_no_pending [OF assms(1,2,3)])
  then have "\<not> ext_pending n" if "block s i k = Some n" for k n
    using that assms(2) by (auto simp: block_def no_pending_def)
  then show ?thesis using assms(4) by (metis keeps_pending_def)
qed

lemma keeps_pending_added:
  assumes "file_added s s' name i parent"
  shows "keeps_pending s s'"
proof -
  have "block s' j k = block s j k" if "block s j k \<noteq> None" for j k
    using file_addedD(8) [OF assms, of j] file_addedD(2) [OF assms] that
      file_addedD(7) [OF assms]
    by (auto simp: block_def get_after_init_def split: option.splits prod.splits if_splits)
  then show ?thesis by (auto simp: keeps_pending_def)
qed

subsection \<open>Appending to the journal\<close>

lemma journal_append_fields [simp]:
  "get_file (journal_append j s) = get_file s" "files_by_id (journal_append j s) = files_by_id s"
  "trees (journal_append j s) = trees s"
  "meta (journal_append j s) = meta s" "files_by_name (journal_append j s) = files_by_name s"
  "max_file_id (journal_append j s) = max_file_id s" "panicked (journal_append j s) = panicked s"
  "journal_log (journal_append j s) = journal_log s @ [jn_entry j]" "flags (journal_append j s) = flags s"
  "next_address (journal_append j s) = next_address s" "task_head (journal_append j s) = task_head s"
  "task_at (journal_append j s) = task_at s" "cow_at (journal_append j s) = cow_at s"
  "flusher_at (journal_append j s) = flusher_at s" "active_tasks (journal_append j s) = active_tasks s"
  by (simp_all add: journal_append_def get_file_def fun_eq_iff)

text \<open>A state with the same files, trees and counters satisfies the same invariant.\<close>

definition core where
  "core s = (files_by_id s, files_by_name s, meta s, trees s, max_file_id s, panicked s)"

lemma core_inv:
  assumes "core s' = core s"
  shows "super_inv s' \<longleftrightarrow> super_inv s" "table_of s' = table_of s" "live_table s' = live_table s"
proof -
  have c: "files_by_id s' = files_by_id s" "files_by_name s' = files_by_name s" "meta s' = meta s"
    "trees s' = trees s" "max_file_id s' = max_file_id s" "panicked s' = panicked s"
    using assms by (simp_all add: core_def)
  have g: "get_file s' = get_file s" by (rule get_file_cong [OF c(1)])
  have b: "block s' = block s" by (intro ext block_cong c(1))
  have t: "total_extents s' = total_extents s" by (simp add: total_extents_def c)
  have h: "held_at s' p x = held_at s p x" for p x by (cases p) (simp_all add: c b)
  have ch: "children s' = children s" by (simp add: children_def g fun_eq_iff)
  show "super_inv s' \<longleftrightarrow> super_inv s"
    by (simp add: super_inv_def extent_inv_def ownership_def h t tree_nodes_ok_def counters_ok_def
        file_inv_def file_linked_def c g ch)
  show "table_of s' = table_of s"
    by (simp add: table_of_def abs_files_def fun_eq_iff c g t)
  then show "live_table s' = live_table s" by (simp add: live_table_def)
qed

lemma journal_append_inv [simp]:
  "super_inv (journal_append j s) \<longleftrightarrow> super_inv s" "live_table (journal_append j s) = live_table s"
  by (rule core_inv; simp add: core_def)+

subsection \<open>Create and fork\<close>

definition can_add :: "super \<Rightarrow> file_name \<Rightarrow> cyanfs_status" where
  "can_add s name =
     (if ensure_status s \<noteq> Ok then ensure_status s
      else if idx_size (files_by_id s) = 4096 \<or> max_file_id s = NOT 0 then NOSPACE
      else if lookup_file_by_name s name \<noteq> None then EXIST else Ok)"

lemma next_id:
  assumes inv: "super_inv s" and m: "max_file_id s \<noteq> NOT 0"
  shows "get_file s (max_file_id s + 1) = None" "max_file_id s + 1 \<noteq> 0" "i \<le> max_file_id s \<Longrightarrow> i < max_file_id s + 1"
proof -
  have "unat (max_file_id s) \<noteq> 2 ^ 64 - 1"
    using m by (auto simp: word_unat_eq_iff unsigned_minus_1_eq_mask mask_eq_exp_minus_1)
  then have "unat (max_file_id s + 1) = unat (max_file_id s) + 1"
    using unat_bounds(5) [of "max_file_id s"] by (subst unat_add_no_wrap) simp_all
  then have lt: "max_file_id s < max_file_id s + 1" by (simp add: word_less_nat_alt)
  then show "i \<le> max_file_id s \<Longrightarrow> i < max_file_id s + 1" by simp
  show "max_file_id s + 1 \<noteq> 0" using lt by auto
  show "get_file s (max_file_id s + 1) = None"
    using file_invD(2) [OF super_invD(2) [OF inv], of "max_file_id s + 1"] lt
    by (cases "get_file s (max_file_id s + 1)") (auto simp: file_linked_def)
qed

lemma journal_logD: "super_tail s' = super_tail s \<Longrightarrow> journal_log s' = journal_log s"
  by (rule super_tail_D)

lemma add_file_live: "add_file i f (live_table s) = map_option (\<lambda>t. t\<lparr>tb_journal := {}\<rparr>) (add_file i f (table_of s))"
  by (simp add: add_file_def live_table_def name_used_def)

lemma normalize_name_ok: "name_ok n \<Longrightarrow> cyanfs_file_name_normalize n = Some n"
  by (simp add: name_ok_def)

lemma create_locked_spec:
  assumes inv: "super_inv s" and name: "name_ok name"
  shows "if can_add s name = Ok
    then \<exists>s'. create_locked name s = (Ok, Some (max_file_id s + 1), s') \<and> super_inv s' \<and>
           journaled s (JCREATE name (max_file_id s + 1)) s' \<and> trees s' = trees s \<and>
           quiet s s' \<and> keeps_pending s s' \<and>
           file_added s s' name (max_file_id s + 1) None
    else create_locked name s = (can_add s name, None, s)"
proof (cases "can_add s name = Ok")
  case False
  then show ?thesis
    using files_count [OF super_invD(2) [OF inv]]
    by (auto simp: can_add_def create_locked_def Let_def split: if_splits)
next
  case True
  let ?i = "max_file_id s + 1"
  have g: "ensure_status s = Ok" "idx_size (files_by_id s) \<noteq> 4096" "max_file_id s \<noteq> NOT 0"
      "lookup_file_by_name s name = None"
    using True by (auto simp: can_add_def split: if_splits)
  then have "idx_size (files_by_id s) < 4096"
    using file_invD(5) [OF super_invD(2) [OF inv]] by simp
  then obtain t where t: "init_file name ?i None s = (Ok, t)" "super_inv t" "super_tail t = super_tail s"
      "trees t = trees s" "file_added s t name ?i None"
    using init_file_spec [OF inv next_id(1,2) [OF inv g(3)] g(4) name, of None] by auto
  let ?s' = "journal_append \<lparr>jn_entry = JCREATE name ?i, jn_flush = False\<rparr> t"
  have eq: "create_locked name s = (Ok, Some ?i, ?s')"
    using g t(1) files_count [OF super_invD(2) [OF inv]] by (simp add: create_locked_def Let_def)
  have "add_file ?i \<lparr>af_name = name, af_size = 0, af_parent = None, af_blocks = Map.empty\<rparr> (live_table s)
      = Some (live_table t)"
    using abs_added [OF t(5,3,4)] by (simp add: abs_file_new add_file_live live_table_def [of t])
  then have "journaled s (JCREATE name ?i) ?s'"
    using journal_logD [OF t(3)] name
    by (simp add: journaled_def normalize_name_ok) (simp add: name_ok_def)
  moreover have "file_added s ?s' name ?i None"
    using t(5) by (simp add: file_added_def)
  moreover have "quiet s ?s'" by (rule quiet_trans [OF quiet_tail [OF t(3)] quiet_append])
  ultimately show ?thesis using True eq t(2,4) keeps_pending_added by auto
qed

definition can_fork :: "super \<Rightarrow> cyanfs_file_id_t \<Rightarrow> file_name \<Rightarrow> cyanfs_status" where
  "can_fork s p name =
    (if ensure_status s \<noteq> Ok then ensure_status s
     else if idx_size (files_by_id s) = 4096 \<or> max_file_id s = NOT 0 then NOSPACE
     else case get_file s p of
            None \<Rightarrow> NOENT
          | Some pf \<Rightarrow> if f_open_type pf = FILE_READWRITE then BUSY
                       else if lookup_file_by_name s name \<noteq> None then EXIST else Ok)"

lemma fork_locked_spec:
  assumes inv: "super_inv s" and name: "name_ok name"
  shows "if can_fork s p name = Ok
    then \<exists>s' pf. get_file s p = Some pf \<and> fork_locked p name s = (Ok, Some (max_file_id s + 1), s') \<and>
           super_inv s' \<and> journaled s (JFORK name (max_file_id s + 1) p) s' \<and> trees s' = trees s \<and>
           quiet s s' \<and> keeps_pending s s' \<and>
           file_added s s' name (max_file_id s + 1) (Some (p, pf))
    else fork_locked p name s = (can_fork s p name, None, s)"
proof (cases "can_fork s p name = Ok")
  case False
  then show ?thesis
    using files_count [OF super_invD(2) [OF inv]]
    by (auto simp: can_fork_def fork_locked_def Let_def lookup_file_by_id_def split: if_splits option.splits)
next
  case True
  let ?i = "max_file_id s + 1"
  obtain pf where pf: "get_file s p = Some pf" "f_open_type pf \<noteq> FILE_READWRITE"
    and g: "ensure_status s = Ok" "idx_size (files_by_id s) \<noteq> 4096" "max_file_id s \<noteq> NOT 0"
      "lookup_file_by_name s name = None"
    using True by (auto simp: can_fork_def split: if_splits option.splits)
  have pid: "fm_id (f_meta pf) = p" "p \<le> max_file_id s"
    using file_invD(2) [OF super_invD(2) [OF inv] pf(1)] by (simp_all add: file_linked_def)
  then have older: "p < ?i" by (intro next_id(3) [OF inv g(3)])
  have "idx_size (files_by_id s) < 4096"
    using g(2) file_invD(5) [OF super_invD(2) [OF inv]] by simp
  then obtain t where t: "init_file name ?i (Some (p, pf)) s = (Ok, t)" "super_inv t"
      "super_tail t = super_tail s" "trees t = trees s" "file_added s t name ?i (Some (p, pf))"
    using init_file_spec [OF inv next_id(1,2) [OF inv g(3)] g(4) name, of "Some (p, pf)"] pf older by auto
  let ?s' = "journal_append \<lparr>jn_entry = JFORK name ?i p, jn_flush = False\<rparr> t"
  have eq: "fork_locked p name s = (Ok, Some ?i, ?s')"
    using g pf pid t(1) files_count [OF super_invD(2) [OF inv]]
    by (simp add: fork_locked_def Let_def lookup_file_by_id_def)
  have "add_file ?i \<lparr>af_name = name, af_size = fm_size (f_meta pf), af_parent = Some p,
      af_blocks = Map.empty\<rparr> (live_table s) = Some (live_table t)"
    using abs_added [OF t(5,3,4)] by (simp add: abs_file_new add_file_live live_table_def [of t])
  then have "journaled s (JFORK name ?i p) ?s'"
    using journal_logD [OF t(3)] name older pf(1)
    by (simp add: journaled_def normalize_name_ok abs_files_get not_le) (simp add: name_ok_def)
  moreover have "file_added s ?s' name ?i (Some (p, pf))"
    using t(5) by (simp add: file_added_def)
  moreover have "quiet s ?s'" by (rule quiet_trans [OF quiet_tail [OF t(3)] quiet_append])
  ultimately show ?thesis using True eq t(2,4) pf(1) keeps_pending_added by auto
qed

subsection \<open>Rename, truncate and delete\<close>

definition can_rename :: "super \<Rightarrow> cyanfs_file_id_t \<Rightarrow> file_name \<Rightarrow> cyanfs_status" where
  "can_rename s i name =
     (if ensure_status s \<noteq> Ok then ensure_status s
      else if lookup_file_by_name s name \<noteq> None then EXIST
      else if get_file s i = None then NOENT else Ok)"

lemma rename_locked_spec:
  assumes inv: "super_inv s" and name: "name_ok name"
  shows "if can_rename s i name = Ok
    then \<exists>s'. rename_locked i name s = (Ok, s') \<and> super_inv s' \<and> journaled s (JRENAME name i) s' \<and>
           trees s' = trees s \<and> quiet s s' \<and> keeps_pending s s'
    else rename_locked i name s = (can_rename s i name, s)"
proof (cases "can_rename s i name = Ok")
  case False
  then show ?thesis
    by (auto simp: can_rename_def rename_locked_def Let_def lookup_file_by_id_def split: if_splits option.splits)
next
  case True
  then obtain f where f: "get_file s i = Some f" and g: "ensure_status s = Ok" "lookup_file_by_name s name = None"
    by (auto simp: can_rename_def split: if_splits)
  then have free: "lookup_file_by_name s name \<in> {None, Some i}" by simp
  obtain t where t: "rename_file i name s = (Ok, t)" "super_inv t" "super_tail t = super_tail s"
      "trees t = trees s" "max_file_id t = max_file_id s"
    and get: "\<And>j. get_file t j =
        (if j = i then Some (f\<lparr>f_meta := (f_meta f)\<lparr>fm_name := name\<rparr>\<rparr>) else get_file s j)"
    using rename_file_spec [OF inv f free name] by blast
  let ?s' = "journal_append \<lparr>jn_entry = JRENAME name i, jn_flush = False\<rparr> t"
  have "fm_id (f_meta f) = i"
    using file_invD(2) [OF super_invD(2) [OF inv] f] by (simp add: file_linked_def)
  then have eq: "rename_locked i name s = (Ok, ?s')"
    using g f t(1) by (simp add: rename_locked_def Let_def lookup_file_by_id_def)
  have "abs_files t = (abs_files s)(i \<mapsto> (abs_file f)\<lparr>af_name := name\<rparr>)"
    by (auto simp: abs_files_def get abs_file_def)
  then have "live_table t = set_file i ((abs_file f)\<lparr>af_name := name\<rparr>) (live_table s)"
    using t(4,5) total_extents_tail [OF t(3)] by (simp add: live_table_def table_of_def set_file_def)
  then have "journaled s (JRENAME name i) ?s'"
    using journal_logD [OF t(3)] name f g(2) name_used_abs [OF super_invD(2) [OF inv], of name]
    by (simp add: journaled_def normalize_name_ok abs_files_get) (simp add: name_ok_def)
  moreover have "quiet s ?s'" by (rule quiet_trans [OF quiet_tail [OF t(3)] quiet_append])
  moreover have "block ?s' = block s" using f by (auto simp: block_def get fun_eq_iff)
  then have "keeps_pending s ?s'" by (simp add: keeps_pending_def)
  ultimately show ?thesis using True eq t(2,4) by auto
qed

definition can_change :: "super \<Rightarrow> cyanfs_file_id_t \<Rightarrow> cyanfs_status" where
  "can_change s i =
     (if ensure_status s \<noteq> Ok then ensure_status s
      else case get_file s i of
             None \<Rightarrow> NOENT
           | Some f \<Rightarrow> if f_open_type f \<noteq> FILE_CLOSED \<or> children s i \<noteq> {} then BUSY else Ok)"

lemma can_change_Ok:
  assumes "super_inv s" "can_change s i = Ok"
  obtains f where "get_file s i = Some f" "f_open_type f = FILE_CLOSED" "fm_children (f_meta f) = 0"
    "fm_id (f_meta f) = i" "\<not> has_child (table_of s) i" "ensure_status s = Ok"
proof -
  obtain f where f: "get_file s i = Some f" "f_open_type f = FILE_CLOSED" "children s i = {}"
      "ensure_status s = Ok"
    using assms(2) by (auto simp: can_change_def split: if_splits option.splits)
  then show ?thesis
    using that no_children_iff [OF super_invD(2) [OF assms(1)] f(1)]
      file_invD(2) [OF super_invD(2) [OF assms(1)] f(1)]
    by (simp add: has_child_abs file_linked_def)
qed

lemma truncate_locked_spec:
  assumes inv: "super_inv s" and sz: "cyanfs_file_size_validate sz = Ok"
  shows "if can_change s i = Ok
    then \<exists>s'. truncate_locked i sz s = (Ok, s') \<and> super_inv s' \<and> journaled s (JTRUNCATE i sz) s' \<and>
           (\<forall>T. T \<noteq> unmap_target s \<longrightarrow> trees s' T = trees s T) \<and> quiet s s' \<and> keeps_pending s s'
    else truncate_locked i sz s = (can_change s i, s)"
proof (cases "can_change s i = Ok")
  case False
  then show ?thesis
    using no_children_iff [OF super_invD(2) [OF inv]]
    by (auto simp: can_change_def truncate_locked_def Let_def lookup_file_by_id_def split: if_splits option.splits)
next
  case True
  then obtain f where f: "get_file s i = Some f" "f_open_type f = FILE_CLOSED"
      "fm_children (f_meta f) = 0" "fm_id (f_meta f) = i" "\<not> has_child (table_of s) i"
      "ensure_status s = Ok"
    using can_change_Ok [OF inv] by blast
  then have "f_open_type f \<noteq> FILE_READWRITE" by simp
  then obtain t f' where t: "file_truncate i sz s = (Ok, t)" "super_inv t" "super_rest t = super_rest s"
      "\<And>j. j \<noteq> i \<Longrightarrow> get_file t j = get_file s j" "get_file t i = Some f'"
    and f': "file_rest f' = file_rest (f\<lparr>f_meta := (f_meta f)\<lparr>fm_size := sz\<rparr>\<rparr>)"
      "idx_find (f_extents f') = (\<lambda>k. if fits sz k then idx_find (f_extents f) k else None)"
    using file_truncate_inv [OF inv f(1) _ sz] by blast
  let ?s' = "journal_append \<lparr>jn_entry = JTRUNCATE i sz, jn_flush = True\<rparr> t"
  have eq: "truncate_locked i sz s = (Ok, ?s')"
    using f t(1) by (simp add: truncate_locked_def Let_def lookup_file_by_id_def)
  have "abs_file f' = (abs_file f)\<lparr>af_size := sz,
      af_blocks := (\<lambda>k. if fits sz k then af_blocks (abs_file f) k else None)\<rparr>"
    using f' by (simp add: abs_file_def file_rest_def fun_eq_iff)
  then have "abs_files t = (abs_files s)(i \<mapsto> (abs_file f)\<lparr>af_size := sz,
      af_blocks := (\<lambda>k. if fits sz k then af_blocks (abs_file f) k else None)\<rparr>)"
    using t(4,5) by (auto simp: abs_files_def)
  then have "live_table t = set_file i ((abs_file f)\<lparr>af_size := sz,
      af_blocks := (\<lambda>k. if fits sz k then af_blocks (abs_file f) k else None)\<rparr>) (live_table s)"
    using total_extents_frame [OF t(3)] super_rest_D(9) [OF t(3)]
    by (simp add: live_table_def table_of_def set_file_def)
  then have "journaled s (JTRUNCATE i sz) ?s'"
    using super_rest_D(22) [OF t(3)] f(1,5) sz
    by (simp add: journaled_def abs_files_get del: abs_file_simps(4))
  moreover have "\<forall>T. T \<noteq> unmap_target s \<longrightarrow> trees ?s' T = trees s T"
    using trees_truncate [of _ s i sz] t(1) by simp
  moreover have "quiet s ?s'" by (rule quiet_trans [OF quiet_rest [OF t(3)] quiet_append])
  moreover have "keeps_pending s ?s'"
    using t(4) f(2) by (intro keeps_pending_closed [OF super_invD(2) [OF inv] f(1)])
      (simp_all add: block_def fun_eq_iff)
  ultimately show ?thesis using True eq t(2) by auto
qed

lemma delete_locked_spec:
  assumes inv: "super_inv s"
  shows "if can_change s i = Ok
    then \<exists>s'. delete_locked i s = (Ok, s') \<and> super_inv s' \<and> journaled s (JDELETE i) s' \<and>
           (\<forall>T. T \<noteq> unmap_target s \<longrightarrow> trees s' T = trees s T) \<and> quiet s s' \<and> keeps_pending s s'
    else delete_locked i s = (can_change s i, s)"
proof (cases "can_change s i = Ok")
  case False
  then show ?thesis
    using no_children_iff [OF super_invD(2) [OF inv]]
    by (auto simp: can_change_def delete_locked_def Let_def lookup_file_by_id_def split: if_splits option.splits)
next
  case True
  then obtain f where f: "get_file s i = Some f" "f_open_type f = FILE_CLOSED"
      "fm_children (f_meta f) = 0" "fm_id (f_meta f) = i" "\<not> has_child (table_of s) i"
      "ensure_status s = Ok"
    using can_change_Ok [OF inv] by blast
  then have "f_open_type f \<noteq> FILE_READWRITE" by simp
  then obtain t where t: "delete_file i s = (Ok, t)" "super_inv t" "super_tail t = super_tail s"
    and rem: "file_removed s t i f"
    using delete_file_spec [OF inv f(1) _ f(3)] by blast
  let ?s' = "journal_append \<lparr>jn_entry = JDELETE i, jn_flush = False\<rparr> t"
  have eq: "delete_locked i s = (Ok, ?s')"
    using f t(1) by (simp add: delete_locked_def Let_def lookup_file_by_id_def)
  have "live_table t = (live_table s)\<lparr>tb_files := (abs_files s)(i := None)\<rparr>"
    using total_extents_tail [OF t(3)] rem abs_files_removed [OF rem]
    by (simp add: live_table_def table_of_def file_removed_def)
  then have "journaled s (JDELETE i) ?s'"
    using journal_logD [OF t(3)] f(1,5) by (simp add: journaled_def)
  moreover have "\<forall>T. T \<noteq> unmap_target s \<longrightarrow> trees ?s' T = trees s T"
    using trees_delete [of _ s i] t(1) by simp
  moreover have "quiet s ?s'" by (rule quiet_trans [OF quiet_tail [OF t(3)] quiet_append])
  moreover have "keeps_pending s ?s'"
    using rem f(2) by (intro keeps_pending_closed [OF super_invD(2) [OF inv] f(1)])
      (auto simp: block_def fun_eq_iff file_removed_def get_after_delete_def split: option.split)
  ultimately show ?thesis using True eq t(2) by auto
qed

end
