(* ===== verification/Flusher_Inv.thy ===== *)
theory Flusher_Inv
  imports Super_Refine
begin

section \<open>The flusher keeps the invariant and the file table\<close>

text \<open>
  The tasks of a flusher and of the discard queue move extents between the trees of the super block.
  They never touch a file, so the file table stays; no extent is lost or duplicated, and the copies
  under way are left alone.
\<close>

definition file_view where
  "file_view s = (files_by_id s, files_by_name s, max_file_id s, sm_files (meta s),
     sm_total_extents (meta s), journal_log s, panicked s)"

definition moves :: "super \<Rightarrow> super \<Rightarrow> bool" where
  "moves s s' \<longleftrightarrow> file_view s' = file_view s \<and> (extent_inv s \<longrightarrow> extent_inv s') \<and>
     (addr_inv s \<longrightarrow> addr_inv s') \<and> quiet s s'"

lemma moves_refl [simp]: "moves s s"
  by (simp add: moves_def)

lemma moves_trans: "moves s t \<Longrightarrow> moves t u \<Longrightarrow> moves s u"
  by (auto simp: moves_def intro: quiet_trans)

lemma moves_inv:
  assumes m: "moves s s'" and inv: "super_inv s"
  shows "super_inv s'" "live_table s' = live_table s" "addr_inv s \<Longrightarrow> addr_inv s'"
    "journal_log s' = journal_log s" "quiet s s'"
proof -
  have v: "files_by_id s' = files_by_id s" "files_by_name s' = files_by_name s"
      "max_file_id s' = max_file_id s" "sm_files (meta s') = sm_files (meta s)"
      "sm_total_extents (meta s') = sm_total_extents (meta s)" "panicked s' = panicked s"
    using m by (simp_all add: moves_def file_view_def)
  have g: "get_file s' = get_file s" by (rule get_file_cong [OF v(1)])
  have ch: "children s' = children s" by (simp add: children_def g fun_eq_iff)
  have t: "total_extents s' = total_extents s" by (simp add: total_extents_def v)
  show "super_inv s'"
    using inv m by (simp add: super_inv_def moves_def file_inv_def file_linked_def v g ch t)
  show "live_table s' = live_table s"
    by (simp add: live_table_def table_of_def abs_files_def fun_eq_iff v g t)
  show "addr_inv s \<Longrightarrow> addr_inv s'" using m by (simp add: moves_def)
  show "journal_log s' = journal_log s" using m by (simp add: moves_def file_view_def)
  show "quiet s s'" using m by (simp add: moves_def)
qed

text \<open>A change of fields that the invariant does not read is a move.\<close>

lemma moves_same:
  assumes "files_by_id s' = files_by_id s" "files_by_name s' = files_by_name s" "meta s' = meta s"
    "trees s' = trees s" "max_file_id s' = max_file_id s" "panicked s' = panicked s"
    "journal_log s' = journal_log s" "quiet s s'"
  shows "moves s s'"
proof -
  have "next_address s \<le> next_address s'" using assms(8) by (rule quiet_address)
  note assms = assms this
  have b: "block s' = block s" by (intro ext block_cong assms)
  have h: "held_at s' p x = held_at s p x" for p x by (cases p) (simp_all add: assms b)
  have g: "get_file s' = get_file s" by (rule get_file_cong [OF assms(1)])
  show ?thesis
    by (simp add: moves_def file_view_def assms extent_inv_def ownership_def total_extents_def h
        tree_nodes_ok_def counters_ok_def g) (use assms in \<open>auto simp: addr_inv_def\<close>)
qed

lemma moves_fields:
  assumes "files_by_id s' = files_by_id s" "files_by_name s' = files_by_name s" "meta s' = meta s"
    "trees s' = trees s" "max_file_id s' = max_file_id s" "panicked s' = panicked s"
    "journal_log s' = journal_log s" "task_head s' = task_head s" "task_at s' = task_at s" "cow_at s' = cow_at s"
    "active_tasks s' = active_tasks s" "next_address s \<le> next_address s'"
  shows "moves s s'"
  using assms by (intro moves_same quiet_same) simp_all

lemma moves_small [simp]:
  "moves s (set_flag m s)" "moves s (clear_flag m s)" "moves s (super_new_task s)" "moves s (mark_error s)"
  by (rule moves_fields; simp add: set_flag_def clear_flag_def super_new_task_def mark_error_def split: option.split)+

text \<open>A task is queued with a completion function that fits it; a queued task may become a no-operation.\<close>

lemma moves_queue:
  assumes "\<not> is_cow t" "\<not> is_comp t" "task_fits t fn"
  shows "moves s (snd (task_add_head t (task_init t ty fn s)))" "moves s (snd (task_add_tail t (task_init t ty fn s)))"
  by (rule moves_same; use assms in \<open>auto simp: quiet_def undisturbed_def fits_task_def task_init_def task_add_head_def
      task_add_tail_def\<close>)+

lemma moves_set_nop: "\<not> is_comp t \<Longrightarrow> moves s (task_set_nop t s)"
  by (rule moves_same) (auto simp: quiet_def undisturbed_def fits_task_def task_set_nop_def)

lemma idx_remove_empty [simp]: "idx_remove k idx_empty = idx_empty"
  by (rule idx_eqI) simp

lemma super_to_super_tree:
  "T \<noteq> to \<Longrightarrow> trees (extent_super_to_super n from to s) T =
     (if T = from then idx_remove (ext_backend n) (trees s T) else trees s T)"
  by (simp add: extent_super_to_super_def Let_def tree_insert_def tree_remove_def)

lemma moves_super_to_super:
  assumes "idx_find (trees s from) b = Some n" "from \<noteq> to" "\<And>a. to \<noteq> Flusher_Unused a"
  shows "moves s (extent_super_to_super n from to s)"
proof -
  note R = super_rest_D [OF super_rest_moves(1) [of n "from" to s]]
  have "addr_inv s \<Longrightarrow> addr_inv (extent_super_to_super n from to s)"
    using assms(3) [symmetric] by (auto simp: addr_inv_def R super_to_super_tree)
  then show ?thesis
    using super_to_super_inv [of s "from" b n to] assms(1,2)
    by (simp add: moves_def file_view_def super_to_super_fields R quiet_rest [OF super_rest_moves(1)])
qed

subsection \<open>Moving a whole tree\<close>

definition retarget :: "tree_id \<Rightarrow> tree_id \<Rightarrow> super \<Rightarrow> super" where
  "retarget A B s = s\<lparr>trees := (trees s)(B := trees s A, A := idx_empty)\<rparr>"

lemma moves_retarget:
  assumes empty: "trees s B = idx_empty" and ne: "A \<noteq> B"
    and plain: "A \<notin> {Free_Extents, Journal_Extents}" "B \<notin> {Free_Extents, Journal_Extents}"
    and known: "\<And>a. B = Flusher_Unused a \<Longrightarrow> a < next_address s"
  shows "moves s (retarget A B s)"
proof -
  let ?s' = "retarget A B s"
  define sw where "sw p = (if p = In_Tree A then In_Tree B else if p = In_Tree B then In_Tree A else p)" for p
  have sw: "sw (sw p) = p" for p by (simp add: sw_def)
  have blk: "block ?s' = block s" by (simp add: block_def get_file_def retarget_def fun_eq_iff)
  have held: "held_at ?s' p b \<longleftrightarrow> held_at s (sw p) b" for p b
    using empty ne by (cases p) (auto simp: sw_def blk, auto simp: retarget_def)
  have "(\<exists>!p. held_at ?s' p b) \<longleftrightarrow> (\<exists>!p. held_at s p b)" for b
    unfolding held using sw by (metis (full_types))
  moreover have "(\<forall>p. \<not> held_at ?s' p b) \<longleftrightarrow> (\<forall>p. \<not> held_at s p b)" for b
    unfolding held using sw by metis
  ultimately have "ownership s \<Longrightarrow> ownership ?s'"
    by (simp add: ownership_def total_extents_def) (simp add: retarget_def)
  moreover have "tree_nodes_ok s \<Longrightarrow> tree_nodes_ok ?s'"
    by (auto simp: tree_nodes_ok_def retarget_def split: if_splits)
  moreover have "counters_ok s \<Longrightarrow> counters_ok ?s'"
    using plain by (auto simp: counters_ok_def retarget_def)
  moreover have "get_file ?s' = get_file s" by (simp add: retarget_def get_file_def fun_eq_iff)
  moreover have "addr_inv s \<Longrightarrow> addr_inv ?s'"
    using known by (fastforce simp: addr_inv_def retarget_def)
  ultimately show ?thesis
    by (simp add: moves_def extent_inv_def) (auto simp: file_view_def retarget_def quiet_same)
qed

subsection \<open>Moving the nodes of a tree one by one\<close>

lemma fold_moves:
  assumes "extent_inv s" "distinct (map fst xs)"
    and "\<And>k n. (k, n) \<in> set xs \<Longrightarrow> idx_find (trees s F) k = Some n"
    and step: "\<And>s k n. extent_inv s \<Longrightarrow> idx_find (trees s F) k = Some n \<Longrightarrow>
      moves s (g n s) \<and> (\<forall>l. l \<noteq> k \<longrightarrow> idx_find (trees (g n s) F) l = idx_find (trees s F) l)"
  shows "moves s (fold (\<lambda>(_, n). g n) xs s)"
  using assms(1-3)
proof (induction xs arbitrary: s)
  case (Cons p xs)
  obtain k n where p: "p = (k, n)" by (cases p)
  have here: "idx_find (trees s F) k = Some n" using Cons.prems(3) p by simp
  note st = step [OF Cons.prems(1) here]
  have "moves (g n s) (fold (\<lambda>(_, n). g n) xs (g n s))"
  proof (rule Cons.IH)
    show "extent_inv (g n s)" using st Cons.prems(1) by (simp add: moves_def)
    show "distinct (map fst xs)" using Cons.prems(2) by simp
    show "idx_find (trees (g n s) F) l = Some m" if "(l, m) \<in> set xs" for l m
      using that Cons.prems(2) Cons.prems(3) [of l m] st p by (auto simp: rev_image_eqI)
  qed
  then show ?case using st moves_trans p by auto
qed simp

lemma fold_moves_tree:
  assumes "extent_inv s"
    and "\<And>s k n. extent_inv s \<Longrightarrow> idx_find (trees s F) k = Some n \<Longrightarrow>
      moves s (g n s) \<and> (\<forall>l. l \<noteq> k \<longrightarrow> idx_find (trees (g n s) F) l = idx_find (trees s F) l)"
  shows "moves s (fold (\<lambda>(_, n). g n) (idx_items (trees s F)) s)"
  by (rule fold_moves [OF assms(1) idx.keys_distinct [OF TrueI] _ assms(2)])
    (simp_all add: idx_find_in_items)

lemma node_key: "extent_inv s \<Longrightarrow> idx_find (trees s T) k = Some n \<Longrightarrow> ext_backend n = k"
  by (auto simp: extent_inv_def tree_nodes_ok_def)

lemma step_super_to_super:
  assumes "extent_inv s" "idx_find (trees s F) k = Some n" "F \<noteq> to" "\<And>a. to \<noteq> Flusher_Unused a"
  shows "moves s (extent_super_to_super n F to s) \<and>
    (\<forall>l. l \<noteq> k \<longrightarrow> idx_find (trees (extent_super_to_super n F to s) F) l = idx_find (trees s F) l)"
  using moves_super_to_super [OF assms(2-4)] node_key [OF assms(1,2)] assms(3)
  by (simp add: super_to_super_tree)

lemma flags_super_to_super [simp]: "flags (extent_super_to_super n from to s) = flags s"
  by (rule super_rest_D(10) [OF super_rest_moves(1)])

lemma trees_small [simp]:
  "trees (set_flag m s) = trees s" "trees (clear_flag m s) = trees s"
  "trees (task_init t ty fn s) = trees s" "trees (super_new_task s) = trees s"
  "trees (snd (task_add_head t s)) = trees s" "trees (snd (task_add_tail t s)) = trees s"
  "trees (mark_error s) = trees s" "trees (task_set_nop t s) = trees s"
  by (simp_all add: set_flag_def clear_flag_def task_init_def super_new_task_def task_add_head_def
      task_add_tail_def mark_error_def task_set_nop_def split: option.split)

lemma step_discard_extent:
  assumes "extent_inv s" "idx_find (trees s F) k = Some n" "F \<notin> {Free_Extents, Wait_Discard_Extents}"
  shows "moves s (super_discard_extent n F s) \<and>
    (\<forall>l. l \<noteq> k \<longrightarrow> idx_find (trees (super_discard_extent n F s) F) l = idx_find (trees s F) l)"
proof -
  let ?w = "extent_super_to_super n F Wait_Discard_Extents s"
  have w: "moves s ?w \<and> (\<forall>l. l \<noteq> k \<longrightarrow> idx_find (trees ?w F) l = idx_find (trees s F) l)"
    using assms by (intro step_super_to_super) auto
  have "moves ?w (snd (task_add_tail Discard_Task (task_init Discard_Task TASK_NOP Discard_Extents_Begin
      (set_flag FLAG_DISCARD_WORKING ?w))))"
    by (rule moves_trans [OF moves_small(1) moves_queue(2)]) simp_all
  with w have "moves s (snd (task_add_tail Discard_Task (task_init Discard_Task TASK_NOP Discard_Extents_Begin
      (set_flag FLAG_DISCARD_WORKING ?w))))"
    using moves_trans by blast
  then show ?thesis
    using w step_super_to_super [OF assms(1,2), of Free_Extents] assms(3)
    by (simp add: super_discard_extent_def Let_def)
qed

subsection \<open>The tasks\<close>

lemma moves_after_flush:
  assumes inv: "extent_inv s"
  shows "moves s (flusher_after_flush err s)"
proof -
  have cursor: "moves t (t\<lparr>journal_cursor := c\<rparr>)" for t c by (rule moves_fields) simp_all
  have "moves s (fold (\<lambda>(_, n). super_discard_extent n Flush_Extents) (idx_items (trees s Flush_Extents)) s)"
    by (rule fold_moves_tree [OF inv]) (rule step_discard_extent; simp)
  then show ?thesis
    using moves_trans [OF _ cursor] by (simp add: flusher_after_flush_def Let_def)
qed

lemma retarget_with:
  "s\<lparr>trees := (trees s)(B := trees s A, A := idx_empty), writer_current_id := w\<rparr> =
     (retarget A B s)\<lparr>writer_current_id := w\<rparr>"
  by (simp add: retarget_def)

lemma moves_take_flush: "moves s (flusher_take_flush a s)"
proof -
  have w: "moves t (t\<lparr>writer_current_id := w\<rparr>)" for t w by (rule moves_fields) simp_all
  show ?thesis
    using moves_trans [OF moves_retarget [of s Flush_Extents "Flusher_Unused a"] w]
    by (simp add: flusher_take_flush_def retarget_with)
qed

lemma moves_before_flush: "moves s (flusher_before_flush a s)"
proof -
  have cursor: "moves t (t\<lparr>journal_cursor := c\<rparr>)" for t c by (rule moves_fields) simp_all
  show ?thesis
    unfolding flusher_before_flush_def Let_def
    using moves_trans [OF moves_take_flush moves_trans [OF cursor moves_queue(1)]] by simp
qed

lemma moves_before_write_flush: "moves s (flusher_before_write_flush a s)"
  unfolding flusher_before_write_flush_def Let_def
  using moves_trans [OF moves_take_flush moves_queue(1)] moves_set_nop by simp

lemma moves_before_write_flush_done: "moves s (flusher_before_write_flush_done a err s)"
  using moves_trans [OF moves_small(4) moves_set_nop] moves_set_nop
  by (simp add: flusher_before_write_flush_done_def Let_def)

lemma moves_free:
  assumes inv: "extent_inv s"
  shows "moves s (flusher_free a s)"
proof -
  let ?t = "set_flag FLAG_FLUSH s"
  have t: "extent_inv ?t" using inv moves_small(1) [of s FLAG_FLUSH] by (simp add: moves_def)
  have all: "moves ?t (fold (\<lambda>(_, n). extent_super_to_super n (Flusher_Unused a) Unused_Extents)
      (idx_items (trees ?t (Flusher_Unused a))) ?t)"
    by (rule fold_moves_tree [OF t]) (rule step_super_to_super; simp)
  have swap: "moves ?t (retarget (Flusher_Unused a) Unused_Extents ?t)" if "trees ?t Unused_Extents = idx_empty"
    using that by (intro moves_retarget) auto
  show ?thesis
    using moves_trans [OF moves_small(1) all] moves_trans [OF moves_small(1) swap]
    by (simp add: flusher_free_def Let_def) (simp add: retarget_def)
qed

lemma set_discard_run: "set (discard_run xs) \<subseteq> snd ` set xs"
  by (induction xs rule: discard_run.induct) auto

lemma distinct_discard_run:
  "distinct (map fst xs) \<Longrightarrow> \<forall>p \<in> set xs. ext_backend (snd p) = fst p \<Longrightarrow>
     distinct (map ext_backend (discard_run xs))"
proof (induction xs rule: discard_run.induct)
  case (3 k n l m ns)
  have "ext_backend ` set (discard_run ((l, m) # ns)) \<subseteq> fst ` set ((l, m) # ns)"
    using set_discard_run [of "(l, m) # ns"] "3.prems"(2) by (auto simp: rev_image_eqI)
  moreover have "k \<notin> fst ` set ((l, m) # ns)" "ext_backend n = k"
    using "3.prems" by auto
  ultimately have "ext_backend n \<notin> ext_backend ` set (discard_run ((l, m) # ns))" by blast
  then show ?case using "3.IH" "3.prems" by simp
qed simp_all

lemma discard_step_eq:
  "tree_insert Discard_Extents n (tree_remove Wait_Discard_Extents n s) =
     extent_super_to_super n Wait_Discard_Extents Discard_Extents s"
  by (simp add: extent_super_to_super_def super_stat_add_def)

lemma moves_discard_begin:
  assumes inv: "extent_inv s"
  shows "moves s (discard_extents_begin s)"
proof (cases "idx_items (trees s Wait_Discard_Extents)")
  case Nil
  then show ?thesis by (simp add: discard_extents_begin_def)
next
  case (Cons p ps)
  let ?items = "idx_items (trees s Wait_Discard_Extents)"
  let ?xs = "map (\<lambda>n. (ext_backend n, n)) (discard_run ?items)"
  have key: "ext_backend (snd q) = fst q" if "q \<in> set ?items" for q
    using node_key [OF inv, of Wait_Discard_Extents "fst q" "snd q"] that by (simp add: idx_find_in_items)
  have "distinct (map fst ?xs)"
    using distinct_discard_run [OF idx.keys_distinct [OF TrueI]] key by (simp add: comp_def)
  moreover have "idx_find (trees s Wait_Discard_Extents) k = Some n" if "(k, n) \<in> set ?xs" for k n
    using that set_discard_run [of ?items] key by (fastforce simp: idx_find_in_items)
  ultimately have "moves s (fold (\<lambda>(_, n). extent_super_to_super n Wait_Discard_Extents Discard_Extents) ?xs s)"
    by (rule fold_moves [OF inv]) (simp_all add: step_super_to_super)
  then have "moves s (fold (\<lambda>n s. tree_insert Discard_Extents n (tree_remove Wait_Discard_Extents n s))
      (discard_run ?items) s)"
    by (simp add: fold_map comp_def discard_step_eq)
  then show ?thesis
    using moves_trans [OF _ moves_queue(2)] Cons
    by (cases p) (simp add: discard_extents_begin_def Let_def)
qed

lemma moves_discard_done:
  assumes inv: "extent_inv s"
  shows "moves s (discard_extents_done s)"
proof -
  let ?t = "fold (\<lambda>(_, n). extent_super_to_super n Discard_Extents Free_Extents)
      (idx_items (trees s Discard_Extents)) s"
  have t: "moves s ?t"
    by (rule fold_moves_tree [OF inv]) (rule step_super_to_super; simp)
  then have "moves ?t (discard_extents_begin ?t)"
    using inv by (intro moves_discard_begin) (simp add: moves_def)
  then show ?thesis
    using moves_trans [OF t] by (simp add: discard_extents_done_def Let_def)
qed

subsection \<open>Starting a flush\<close>

lemma moves_start_locked:
  assumes "trees s (Flusher_Unused a) = idx_empty" "a < next_address s"
  shows "moves s (snd (flusher_start_locked a ondisk s))"
proof -
  let ?t = "retarget Unused_Extents (Flusher_Unused a) s"
  have t: "moves s ?t" using assms by (intro moves_retarget) auto
  have j: "moves t (t\<lparr>flusher_at := g, journal_head := [], journal_count := 0\<rparr>)" for t g
    by (rule moves_fields) simp_all
  have w: "moves t (snd (journal_writer_start (Flusher_Writer a) t))" for t
    by (simp add: journal_writer_start_def moves_queue)
  let ?J = "\<lambda>t. snd (journal_writer_start (Flusher_Writer a) (t\<lparr>flusher_at := (flusher_at t)(a := (flusher_at t a)
       \<lparr>fl_writer_head := journal_head t\<rparr>), journal_head := [], journal_count := 0\<rparr>))"
  have J: "moves t (?J t)" for t by (rule moves_trans [OF j w])
  let ?A = "\<lambda>t. snd (task_add_tail (Flusher_After a)
      (task_init (Flusher_After a) TASK_NOP Flusher_Before_Flush (clear_flag FLAG_FLUSH t)))"
  let ?F = "\<lambda>t. snd (task_add_tail (Flusher_Free a) (task_init (Flusher_Free a) TASK_NOP Flusher_Free_Done t))"
  have eq: "snd (flusher_start_locked a ondisk s) =
    (let no_journal = (journal_head s = []);
         t = (if ondisk \<or> \<not> no_journal then ?t else s);
         t = (if \<not> no_journal then ?J t else t);
         t = (if ondisk then ?A t else t)
     in if ondisk \<or> \<not> no_journal then ?F t else t)"
    by (simp add: flusher_start_locked_def Let_def case_prod_unfold retarget_def fun_upd_twist)
  have A: "moves t (?A t)" for t by (rule moves_trans [OF moves_small(2) moves_queue(2)]) simp_all
  have F: "moves t (?F t)" for t by (rule moves_queue(2)) simp_all
  have opt: "moves s (if c then g t else t)" if "moves s t" "\<And>t. moves t (g t)" for c g t
    using that moves_trans by auto
  have "moves s (if ondisk \<or> journal_head s \<noteq> [] then ?t else s)" using t by simp
  then show ?thesis
    unfolding eq Let_def by (intro opt [where g = ?F] opt [where g = ?A] opt [where g = ?J] A F J)
qed

lemma moves_flusher_start:
  assumes "addr_inv s"
  shows "moves s (snd (flusher_start mem k ondisk s))"
proof -
  let ?a = "next_address s"
  have e: "trees s (Flusher_Unused ?a) = idx_empty" using assms by (simp add: addr_inv_def)
  then have same: "(trees s)(Flusher_Unused ?a := idx_empty) = trees s" by (simp add: fun_eq_iff)
  have "moves s (s\<lparr>next_address := ?a + 1, flusher_at := g,
      trees := (trees s)(Flusher_Unused ?a := idx_empty)\<rparr>)" for g
    by (rule moves_fields) (simp_all add: same)
  moreover have "moves t (snd (flusher_start_locked ?a od t))"
    if "t = s\<lparr>next_address := ?a + 1, flusher_at := g, trees := (trees s)(Flusher_Unused ?a := idx_empty)\<rparr>"
    for t g od
    using that by (intro moves_start_locked) simp_all
  ultimately have main: "moves s (snd (flusher_start_locked ?a od (s\<lparr>next_address := ?a + 1, flusher_at := g,
      trees := (trees s)(Flusher_Unused ?a := idx_empty)\<rparr>)))" for g od
    using moves_trans by blast
  then show ?thesis
    using moves_trans [OF main moves_small(3)]
    by (simp add: flusher_start_def Let_def case_prod_unfold)
qed

lemma moves_flush_new_journal: "addr_inv s \<Longrightarrow> moves s (super_flush_new_journal mem s)"
  by (simp add: super_flush_new_journal_def moves_flusher_start)

end
