(* ===== verification/Open_Inv.thy ===== *)
theory Open_Inv
  imports Flusher_Inv
begin

section \<open>Opening a super block\<close>

text \<open>
  \<open>cyanfs_super_open\<close> establishes the invariant: every extent is free, there is no file, and the state
  is ready for the replay of the journal. \<open>cyanfs_super_open_finish\<close> makes it a live state.
\<close>

definition valid_device_size :: "u64 \<Rightarrow> bool" where
  "valid_device_size sz \<longleftrightarrow> 8192 + 2 ^ 20 \<le> unat sz \<and> unat sz \<le> 8192 + 2 ^ 50"

definition empty_table :: "nat \<Rightarrow> table" where
  "empty_table n = \<lparr>tb_files = Map.empty, tb_max_id = 0, tb_total = n, tb_journal = {}\<rparr>"

lemma device_size_iff:
  "\<not> (sz < CYANFS_SUPER_BLOCK_SIZE + CYANFS_EXTENT_SIZE \<or>
      sz - CYANFS_SUPER_BLOCK_SIZE > CYANFS_FILE_MAX_SIZE) \<longleftrightarrow> valid_device_size sz"
proof -
  have "unat (CYANFS_SUPER_BLOCK_SIZE + CYANFS_EXTENT_SIZE) = 8192 + 2 ^ 20"
    by (simp add: size_values)
  moreover have "unat (sz - CYANFS_SUPER_BLOCK_SIZE) = unat sz - 8192" if "8192 + 2 ^ 20 \<le> unat sz"
    using that by (subst unat_diff_no_wrap) (simp_all add: size_values)
  ultimately show ?thesis
    by (auto simp: valid_device_size_def word_less_nat_alt not_less size_values(7))
qed

lemma device_total:
  assumes "valid_device_size sz"
  shows "unat (cyanfs_extent_from (sz - CYANFS_SUPER_BLOCK_SIZE)) = (unat sz - 8192) div 2 ^ 20"
    and "0 < (unat sz - 8192) div 2 ^ 20" "(unat sz - 8192) div 2 ^ 20 \<le> 2 ^ 30"
proof -
  have d: "unat (sz - CYANFS_SUPER_BLOCK_SIZE) = unat sz - 8192"
    using assms by (subst unat_diff_no_wrap) (simp_all add: size_values valid_device_size_def)
  then have "unat (sz - CYANFS_SUPER_BLOCK_SIZE) < 2 ^ 52"
    using assms by (auto simp: valid_device_size_def)
  then show "unat (cyanfs_extent_from (sz - CYANFS_SUPER_BLOCK_SIZE)) = (unat sz - 8192) div 2 ^ 20"
    by (simp add: unat_extent_from_small d)
  have "2 ^ 20 \<le> unat sz - 8192" "unat sz - 8192 \<le> 2 ^ 50"
    using assms by (auto simp: valid_device_size_def)
  then have "2 ^ 20 div 2 ^ 20 \<le> (unat sz - 8192) div 2 ^ 20" "(unat sz - 8192) div 2 ^ 20 \<le> 2 ^ 50 div 2 ^ 20"
    by (simp_all only: div_le_mono)
  then show "0 < (unat sz - 8192) div 2 ^ 20" "(unat sz - 8192) div 2 ^ 20 \<le> 2 ^ 30" by simp_all
qed

lemma fold_open_fields:
  "fold (\<lambda>i. tree_insert T (open_extent rf i)) xs s =
     s\<lparr>trees := (trees s)(T := fold (\<lambda>i t. snd (idx_insert (of_nat i) (open_extent rf i) t)) xs (trees s T))\<rparr>"
  by (induction xs arbitrary: s) (simp_all add: tree_insert_def open_extent_def)

lemma fold_open_find:
  fixes b :: bitfield30
  assumes "n \<le> 2 ^ 30"
  shows "idx_find (fold (\<lambda>i t. snd (idx_insert (of_nat i) (open_extent rf i) t)) [0..<n] idx_empty) b =
     (if unat b < n then Some (open_extent rf (unat b)) else None)"
  using assms
proof (induction n arbitrary: b)
  case (Suc n)
  let ?t = "fold (\<lambda>i t. snd (idx_insert (of_nat i :: bitfield30) (open_extent rf i) t)) [0..<n] idx_empty"
  have un: "unat (of_nat n :: bitfield30) = n"
    using Suc.prems by (simp add: unat_of_nat)
  have IH: "idx_find ?t c = (if unat c < n then Some (open_extent rf (unat c)) else None)" for c
    using Suc.IH Suc.prems by simp
  have "idx_find ?t (of_nat n) = None" by (simp add: IH un)
  then have "idx_find (snd (idx_insert (of_nat n) (open_extent rf n) ?t)) b =
      (if b = of_nat n then Some (open_extent rf n) else idx_find ?t b)"
    by simp
  moreover have "b = of_nat n \<longleftrightarrow> unat b = n" using un by (metis word_unat_eq_iff)
  ultimately show ?case by (auto simp: IH)
qed simp

lemma card_unat_less: "n \<le> 2 ^ 30 \<Longrightarrow> card {b :: bitfield30. unat b < n} = n"
proof -
  assume "n \<le> 2 ^ 30"
  then have "bij_betw unat {b :: bitfield30. unat b < n} {..<n}"
    by (intro bij_betw_byWitness [where f' = of_nat]) (auto simp: unat_of_nat)
  then show ?thesis by (simp add: bij_betw_same_card)
qed

text \<open>A super block without files all of whose extents are free.\<close>

lemma all_free_state:
  assumes F: "files_by_id s = idx_empty" "files_by_name s = idx_empty" "max_file_id s = 0" "\<not> panicked s"
      "total_extents s = n" "sm_free_extents (meta s) = of_nat n" "sm_journal_extents (meta s) = 0"
      "sm_data_extents (meta s) = 0" "sm_files (meta s) = 0" "\<not> has_flag s FLAG_READY"
    and free: "\<And>b. idx_find (trees s Free_Extents) b = (if unat b < n then Some (open_extent rf (unat b)) else None)"
    and other: "\<And>T. T \<noteq> Free_Extents \<Longrightarrow> trees s T = idx_empty" and n: "0 < n" "n \<le> 2 ^ 30"
  shows "replay_state s" "table_of s = empty_table n"
proof -
  have get: "get_file s i = None" for i by (simp add: get_file_def F(1))
  have held: "held_at s p b \<longleftrightarrow> p = In_Tree Free_Extents \<and> unat b < n" for p b
    using free [of b] other by (cases p) (auto simp: block_def get split: if_splits, (metis idx_find_empty option.distinct(1))+)
  have "ownership s" by (auto simp: ownership_def F(5) held)
  moreover have "tree_nodes_ok s"
  proof -
    have "ext_backend m = b \<and> \<not> ext_map m \<and> \<not> ext_pending m \<and> \<not> ext_error m"
      if "idx_find (trees s T) b = Some m" for T b m
      using that free [of b] other [of T]
      by (cases "T = Free_Extents") (auto simp: open_extent_def split: if_splits)
    then show ?thesis by (simp add: tree_nodes_ok_def)
  qed
  moreover have "idx_size (trees s Free_Extents) = n"
    using card_unat_less [OF n(2)] by (simp add: idx_size_card free)
  then have "counters_ok s" using other [of Journal_Extents] by (simp add: counters_ok_def F(1,6-8))
  ultimately have "extent_inv s" by (simp add: extent_inv_def get)
  moreover have "file_inv s" by (simp add: file_inv_def get F(1,2,9))
  ultimately have "super_inv s" using n F(4) by (simp add: super_inv_def F(5))
  then show "replay_state s" using F(10) other by (simp add: replay_state_def get block_def)
  show "table_of s = empty_table n"
    using other [of Journal_Extents] by (simp add: table_of_def empty_table_def abs_files_def get F(3,5) fun_eq_iff)
qed

lemma open_init_fields:
  fixes d c :: bool and raw :: super and rf :: "nat \<Rightarrow> bitfield30"
  assumes "valid_device_size sz"
  defines "s \<equiv> open_init sz d c raw rf" and "n \<equiv> (unat sz - 8192) div 2 ^ 20"
  shows "files_by_id s = idx_empty" "files_by_name s = idx_empty" "max_file_id s = 0" "\<not> panicked s"
    "total_extents s = n" "sm_free_extents (meta s) = of_nat n" "sm_journal_extents (meta s) = 0"
    "sm_data_extents (meta s) = 0" "sm_files (meta s) = 0" "\<not> has_flag s FLAG_READY"
    "\<not> has_flag s FLAG_ERROR" "journal_log s = []"
    "idx_find (trees s Free_Extents) b = (if unat b < n then Some (open_extent rf (unat b)) else None)"
    "T \<noteq> Free_Extents \<Longrightarrow> trees s T = idx_empty"
proof -
  note total_eq = device_total [OF assms(1), folded n_def]
  have t: "of_nat n = cyanfs_extent_from (sz - CYANFS_SUPER_BLOCK_SIZE)"
    by (simp add: total_eq(1) [symmetric])
  note defs = s_def open_init_def Let_def fold_open_fields
  show "files_by_id s = idx_empty" "files_by_name s = idx_empty" "max_file_id s = 0" "\<not> panicked s"
    "total_extents s = n" "sm_free_extents (meta s) = of_nat n" "sm_journal_extents (meta s) = 0"
    "sm_data_extents (meta s) = 0" "sm_files (meta s) = 0" "journal_log s = []"
    using total_eq t by (simp_all add: defs total_extents_def set_flag_def)
  show "\<not> has_flag s FLAG_READY" "\<not> has_flag s FLAG_ERROR"
    by (simp_all add: has_flag_simps defs set_flag_def FLAG_DISCARD_ENABLED_def FLAG_COMPACT_ENABLED_def
        bit_simps)
  show "idx_find (trees s Free_Extents) b = (if unat b < n then Some (open_extent rf (unat b)) else None)"
    using fold_open_find [OF total_eq(3), of rf b] total_eq(1)
    by (simp add: defs set_flag_def)
  show "T \<noteq> Free_Extents \<Longrightarrow> trees s T = idx_empty"
    by (simp add: defs set_flag_def)
qed

lemma open_init_state:
  fixes d c :: bool and raw :: super and rf :: "nat \<Rightarrow> bitfield30"
  assumes "valid_device_size sz"
  defines "s \<equiv> open_init sz d c raw rf"
  shows "replay_state s" "addr_inv s" "table_of s = empty_table ((unat sz - 8192) div 2 ^ 20)"
proof -
  let ?n = "(unat sz - 8192) div 2 ^ 20"
  note F = open_init_fields [OF assms(1), where d = d and c = c and raw = raw and rf = rf, folded s_def]
  note n = device_total(2,3) [OF assms(1)]
  show "replay_state s" "table_of s = empty_table ?n"
    by (rule all_free_state [OF F(1-10) F(13,14) n]; assumption)+
  show "addr_inv s" using F(14) by (simp add: addr_inv_def)
qed

lemma super_inv_fields:
  assumes "super_inv s" "files_by_id s' = files_by_id s" "files_by_name s' = files_by_name s"
    "trees s' = trees s" "max_file_id s' = max_file_id s" "panicked s' = panicked s"
    and m: "sm_total_extents (meta s') = sm_total_extents (meta s)"
      "sm_free_extents (meta s') = sm_free_extents (meta s)"
      "sm_journal_extents (meta s') = sm_journal_extents (meta s)"
      "sm_data_extents (meta s') = sm_data_extents (meta s)" "sm_files (meta s') = sm_files (meta s)"
  shows "super_inv s'" "table_of s' = table_of s"
proof -
  have g: "get_file s' = get_file s" by (rule get_file_cong [OF assms(2)])
  have t: "total_extents s' = total_extents s" by (simp add: total_extents_def m)
  have "extent_inv s'"
    using assms(2,4) m extent_invD(4) [OF super_invD(1) [OF assms(1)]]
    by (intro extent_inv_files [OF super_invD(1) [OF assms(1)]]) (simp_all add: t g block_def fun_eq_iff)
  moreover have "children s' = children s" by (simp add: children_def g fun_eq_iff)
  ultimately show "super_inv s'"
    using assms(1) by (simp add: super_inv_def file_inv_def file_linked_def assms g t)
  show "table_of s' = table_of s"
    by (simp add: table_of_def abs_files_def fun_eq_iff assms g t)
qed

lemma open_finish_state:
  fixes e :: cyanfs_extent_id and u :: cyanfs_uuid_t
  assumes "replay_state s" "\<not> has_flag s FLAG_ERROR" "addr_inv s"
  defines "s' \<equiv> super_open_finish e u s"
  shows "super_inv s'" "ensure_status s' = Ok" "table_of s' = table_of s" "addr_inv s'"
    "journal_log s' = journal_log s"
proof -
  note defs = s'_def super_open_finish_def Let_def set_flag_def
  show "super_inv s'" "table_of s' = table_of s"
    by (rule super_inv_fields [OF replay_stateD(1) [OF assms(1)]]; simp add: defs)+
  show "ensure_status s' = Ok"
    using assms(2) unfolding ensure_status_def has_flag_simps
    by (simp add: defs FLAG_READY_def bit_simps)
  show "addr_inv s'" using assms(3) by (simp add: addr_inv_def defs)
  show "journal_log s' = journal_log s" by (simp add: defs)
qed

lemma super_open_Some:
  assumes "super_open mem locks raw rf sz d c = Some s"
  shows "valid_device_size sz" "replay_state s" "addr_inv s" "\<not> has_flag s FLAG_ERROR"
    "table_of s = empty_table ((unat sz - 8192) div 2 ^ 20)" "journal_log s = []"
    "\<exists>a. task_head s = [Loader_Task a] \<and>
       task_at s (Loader_Task a) = \<lparr>t_done = Journal_Loader_Parser_Header, t_type = TASK_READ 0 8192\<rparr>"
proof -
  let ?o = "open_init sz d c raw rf"
  have new: "new_task ?o = None" "task_head ?o = []"
    by (simp_all add: open_init_def Let_def fold_open_fields set_flag_def)
  show sz: "valid_device_size sz"
    using assms by (simp add: super_open_def device_size_iff [symmetric] split: if_splits)
  define s1 where "s1 = ?o\<lparr>next_address := next_address ?o + 1\<rparr>"
  define s2 where "s2 = task_init (Loader_Task (next_address ?o)) (TASK_READ 0 CYANFS_SUPER_BLOCK_SIZE)
      Journal_Loader_Parser_Header s1"
  have s: "s = snd (task_add_tail (Loader_Task (next_address ?o)) s2)"
    using assms new
    by (simp add: super_open_def Let_def task_add_tail_def super_new_task_def task_init_def s1_def s2_def
        split: if_splits option.splits)
  note o = open_init_state [OF sz, where d = d and c = c and raw = raw and rf = rf]
  have eqs: "files_by_id s = files_by_id ?o" "files_by_name s = files_by_name ?o" "trees s = trees ?o"
      "max_file_id s = max_file_id ?o" "panicked s = panicked ?o" "meta s = meta ?o"
      "flags s = flags ?o" "journal_log s = journal_log ?o" "next_address s = next_address ?o + 1"
    by (simp_all add: s task_add_tail_def s1_def s2_def task_init_def)
  have inv: "super_inv s" "table_of s = table_of ?o"
    using super_inv_fields [OF replay_stateD(1) [OF o(1)], of s] eqs by simp_all
  have g: "get_file s = get_file ?o" by (rule get_file_cong [OF eqs(1)])
  show "replay_state s"
    using inv(1) replay_stateD(4-7) [OF o(1)]
    by (simp add: replay_state_def has_flag_def eqs block_def g)
  show "addr_inv s" using o(2) by (simp add: addr_inv_def eqs)
  show "\<not> has_flag s FLAG_ERROR"
    using open_init_fields(11) [OF sz, where d = d and c = c and raw = raw and rf = rf]
    by (simp add: has_flag_def eqs)
  show "table_of s = empty_table ((unat sz - 8192) div 2 ^ 20)" using inv(2) o(3) by simp
  show "journal_log s = []"
    using open_init_fields(12) [OF sz, where d = d and c = c and raw = raw and rf = rf] by (simp add: eqs)
  show "\<exists>a. task_head s = [Loader_Task a] \<and>
       task_at s (Loader_Task a) = \<lparr>t_done = Journal_Loader_Parser_Header, t_type = TASK_READ 0 8192\<rparr>"
    using new by (simp add: s task_add_tail_def s2_def s1_def task_init_def size_values)
qed

subsection \<open>What a replay leaves alone\<close>

lemma super_tail_tiny [frame_simps]:
  "super_tail (put_file p f s) = super_tail s" "super_tail (panic s) = super_tail s"
  "super_tail (add_files v s) = super_tail s" "super_tail (s\<lparr>max_file_id := m\<rparr>) = super_tail s"
  "super_tail (s\<lparr>files_by_id := t\<rparr>) = super_tail s" "super_tail (s\<lparr>files_by_name := u\<rparr>) = super_tail s"
  by (simp_all add: super_tail_def put_file_def panic_def add_files_def)

lemma super_tail_add_children [frame_simps]: "super_tail (add_children p v s) = super_tail s"
  by (simp add: add_children_def frame_simps split: option.split)

lemma super_tail_files [frame_simps]:
  "super_tail (snd (init_file name i parent s)) = super_tail s"
  "super_tail (snd (rename_file i name s)) = super_tail s"
  by (auto simp: init_file_def rename_file_def Let_def frame_simps split: prod.split option.split)

lemma super_tail_extents [frame_simps]:
  "super_tail (snd (file_truncate i sz s)) = super_tail s"
  "super_tail (snd (file_bind_extent i k b s)) = super_tail s"
  "super_tail (snd (file_unbind_extent i k s)) = super_tail s"
  "super_tail (extent_super_to_super n A B s) = super_tail s"
  by (rule super_tail_rest; simp add: frame_simps)+

lemma super_tail_delete [frame_simps]: "super_tail (snd (delete_file i s)) = super_tail s"
proof -
  obtain err t where t: "file_truncate i 0 s = (err, t)" by fastforce
  then have "super_tail t = super_tail s" using super_tail_extents(1) [of i 0 s] by (simp only: snd_conv)
  then show ?thesis
    by (auto simp: delete_file_def Let_def t frame_simps split: option.split cyanfs_status.split)
qed

lemma super_tail_replay: "super_tail (snd (journal_replay mem j s)) = super_tail s"
  by (cases j) (simp_all add: frame_simps split: option.split)

lemma super_tail_replay_all: "super_tail (snd (replay_all mem js s)) = super_tail s"
proof (induction js arbitrary: s)
  case (Cons j js)
  then show ?case
    using super_tail_replay [of mem j s] by (auto split: prod.split cyanfs_status.split)
qed simp

end
