(* ===== verification/Compact_Inv.thy ===== *)
theory Compact_Inv
  imports Compact Journal_Device Open_Inv
begin

section \<open>The entries of a compaction\<close>

text \<open>
  What \<open>compact_entries\<close> computes is the list \<open>state_entries\<close>, and applying this list to the table of an
  empty device gives the files, sizes, parents and block maps of the state, and its highest id.
\<close>

subsection \<open>The list of entries\<close>

lemma unat_succ: "n \<noteq> NOT 0 \<Longrightarrow> unat (n + 1) = Suc (unat n)" for n :: u64
  by (metis add.commute add_eq_0_iff bit.compl_zero unatSuc)

lemma compact_add_eq:
  "compact_add mem j (js, n, k) =
     (if mem k \<and> n \<noteq> NOT 0 then Inr (js @ [\<lparr>jn_entry = j, jn_flush = False\<rparr>], n + 1, k + 1) else Inl False)"
  by (simp add: compact_add_def journal_compact_count_entry_def)

lemma compact_add_all_Inr:
  "compact_add_all mem js (l, n, k) = Inr (l', n', k') \<Longrightarrow>
     map jn_entry l' = map jn_entry l @ js \<and> unat n' = unat n + length js"
  by (induction js arbitrary: l n k) (auto simp: compact_add_eq unat_succ split: if_splits)

lemma compact_add_all_Inl: "compact_add_all mem js l = Inl e \<Longrightarrow> \<not> e"
  by (induction js arbitrary: l) (auto simp: compact_add_eq split: if_splits prod.splits)

lemma compact_add_all_succeeds:
  "\<forall>i. mem i \<Longrightarrow> unat n + length js < 2 ^ 64 \<Longrightarrow> \<exists>r. compact_add_all mem js (l, n, k) = Inr r"
proof (induction js arbitrary: l n k)
  case (Cons j js)
  have "n \<noteq> NOT 0" using Cons.prems(2) by (auto simp: unsigned_minus_1_eq_mask mask_eq_exp_minus_1)
  then show ?case using Cons by (simp add: compact_add_eq unat_succ)
qed simp

lemma compact_add_all_append:
  "compact_add_all mem (xs @ ys) l =
     (case compact_add_all mem xs l of Inl e \<Rightarrow> Inl e | Inr l \<Rightarrow> compact_add_all mem ys l)"
  by (induction xs arbitrary: l) (auto split: sum.splits)

definition base_size :: "super \<Rightarrow> cyanfs_file \<Rightarrow> u64" where
  "base_size s f = (case f_parent f of None \<Rightarrow> 0 | Some p \<Rightarrow> fm_size (f_meta (the (get_file s p))))"

definition file_entries :: "super \<Rightarrow> cyanfs_file \<Rightarrow> journal_entry list" where
  "file_entries s f =
     (let m = f_meta f
      in (case f_parent f of
            None \<Rightarrow> JCREATE (fm_name m) (fm_id m)
          | Some _ \<Rightarrow> JFORK (fm_name m) (fm_id m) (fm_parent_id m)) #
         (if base_size s f \<noteq> fm_size m then [JTRUNCATE (fm_id m) (fm_size m)] else []) @ compact_binds f)"

lemma compact_file_entries:
  "\<forall>p. f_parent f = Some p \<longrightarrow> get_file s p \<noteq> None \<Longrightarrow>
     compact_file mem s f l = compact_add_all mem (file_entries s f) l"
  by (cases "f_parent f")
    (auto simp: compact_file_def file_entries_def base_size_def Let_def word_gt_0 split: sum.splits)

lemma compact_files_entries:
  "\<forall>f \<in> set fs. \<forall>p. f_parent f = Some p \<longrightarrow> get_file s p \<noteq> None \<Longrightarrow>
     compact_files mem s fs l = compact_add_all mem (concat (map (file_entries s) fs)) l"
  by (induction fs arbitrary: l) (simp_all add: compact_file_entries compact_add_all_append split: sum.split)

subsection \<open>The marker\<close>

lemma marker_candidate_inj: "inj_on marker_candidate {i. i < 4097}"
proof (rule inj_onI)
  fix i j :: nat
  assume ij: "i \<in> {i. i < 4097}" "j \<in> {i. i < 4097}" and eq: "marker_candidate i = marker_candidate j"
  have small: "k div 255 + 1 < 2 ^ 8" "k mod 255 + 1 < 2 ^ 8" if "k \<in> {i. i < 4097}" for k :: nat
    using that by auto
  have inj: "m = n" if "of_nat m = (of_nat n :: u8)" "m < 2 ^ 8" "n < 2 ^ 8" for m n :: nat
  proof -
    have "unat (of_nat m :: u8) = unat (of_nat n :: u8)" by (simp only: that(1))
    then show ?thesis using that(2,3) by (simp add: unat_of_nat)
  qed
  have "i div 255 + 1 = j div 255 + 1" "i mod 255 + 1 = j mod 255 + 1"
    using eq small [OF ij(1)] small [OF ij(2)] by (intro inj; simp add: marker_candidate_def)+
  then show "i = j" by (metis add_right_cancel div_mult_mod_eq)
qed

lemma marker_found:
  assumes inv: "file_inv s"
  obtains n where "journal_compact_marker_name s = Some n" "idx_find (files_by_name s) n = None" "name_ok n"
proof -
  let ?names = "{n. idx_find (files_by_name s) n \<noteq> None}" and ?ids = "{i. get_file s i \<noteq> None}"
  have "?names \<subseteq> (\<lambda>i. fm_name (f_meta (the (get_file s i)))) ` ?ids"
    using file_invD(3) [OF inv] by (fastforce simp: image_iff)
  then have "card ?names \<le> card ?ids" using finite_files by (rule surj_card_le [rotated])
  also have "\<dots> \<le> 4096" using file_invD(5) [OF inv] by (simp add: idx_size_files)
  finally have small: "card ?names \<le> 4096" .
  define M where "M = Suc (unat CYANFS_SUPER_MAX_FILES)"
  have M: "M = 4097" by (simp add: M_def CYANFS_SUPER_MAX_FILES_def)
  have c: "card (marker_candidate ` {i. i < M}) = M"
    using marker_candidate_inj [folded M] by (subst card_image) simp_all
  have "\<not> marker_candidate ` {i. i < M} \<subseteq> ?names"
  proof
    assume "marker_candidate ` {i. i < M} \<subseteq> ?names"
    from card_mono [OF idx_finite this] show False unfolding c using small M by linarith
  qed
  then obtain i where i: "i < M" "idx_find (files_by_name s) (marker_candidate i) = None" by auto
  note marker = journal_compact_marker_name_def [of s, folded M_def]
  obtain n where n: "journal_compact_marker_name s = Some n"
    using i by (cases "journal_compact_marker_name s") (auto simp: marker find_None_iff dest!: bspec [of _ _ i])
  then have "n \<in> marker_candidate ` {i. i < M} \<and> idx_find (files_by_name s) n = None"
    unfolding marker find_Some_iff by (auto simp: nth_map)
  then obtain k where k: "k < 4097" "n = marker_candidate k" "idx_find (files_by_name s) n = None"
    using M by auto
  have pos: "of_nat m \<noteq> (0 :: u8)" if "0 < m" "m < 2 ^ 8" for m :: nat
  proof
    assume "of_nat m = (0 :: u8)"
    then have "unat (of_nat m :: u8) = 0" by simp
    then show False using that by (simp add: unat_of_nat)
  qed
  have "of_nat (k div 255 + 1) \<noteq> (0 :: u8)" "of_nat (k mod 255 + 1) \<noteq> (0 :: u8)"
    using k(1) by (intro pos; auto)+
  moreover have "clear_after_nul (replicate m 0) = replicate m 0" for m by (cases m) simp_all
  ultimately have "name_ok n"
    by (simp add: k(2) marker_candidate_def name_ok_def name_wf_def cyanfs_file_name_normalize_def)
  then show ?thesis using that n k(3) by blast
qed

subsection \<open>All entries\<close>

definition live_max :: "super \<Rightarrow> cyanfs_file_id_t" where
  "live_max s = (let fs = map snd (idx_items (files_by_id s)) in if fs = [] then 0 else fm_id (f_meta (last fs)))"

definition state_entries :: "super \<Rightarrow> journal_entry list" where
  "state_entries s =
     concat (map (file_entries s) (map snd (idx_items (files_by_id s)))) @
     (if max_file_id s \<le> live_max s then []
      else [JCREATE (the (journal_compact_marker_name s)) (max_file_id s), JDELETE (max_file_id s)])"

lemma files_in_items: "(i, f) \<in> set (idx_items (files_by_id s)) \<longleftrightarrow> get_file s i = Some f"
  by (simp add: get_file_def idx_find_in_items)

lemma compact_entries_eq:
  assumes "file_inv s"
  shows "compact_entries mem s = compact_add_all mem (state_entries s) ([], 0, 0)"
proof -
  obtain n where n: "journal_compact_marker_name s = Some n" using marker_found [OF assms] .
  have "\<forall>f \<in> set (map snd (idx_items (files_by_id s))). \<forall>p. f_parent f = Some p \<longrightarrow> get_file s p \<noteq> None"
    using file_invD(2) [OF assms] by (fastforce simp: files_in_items file_linked_def)
  from compact_files_entries [OF this] show ?thesis
    by (simp add: compact_entries_def live_max_def state_entries_def Let_def compact_add_all_append n
        journal_compact_preserve_max_file_id_def split: sum.split)
qed

subsection \<open>Applying the entries\<close>

lemma block_used_bind:
  assumes "tb_files t i = Some g" "block_used (set_file i (g\<lparr>af_blocks := (af_blocks g)(k \<mapsto> b)\<rparr>) t) c"
  shows "c = b \<or> block_used t c"
  using assms by (fastforce simp: block_used_def set_file_def split: if_splits)

lemma binds_apply:
  assumes "tb_files t i = Some g" "distinct (map fst ks)" "distinct (map (\<lambda>p. ext_backend (snd p)) ks)"
    and "\<forall>(k, n) \<in> set ks. ext_file n = k \<and> fits (af_size g) k \<and> af_blocks g k = None \<and>
      unat (ext_backend n) < tb_total t \<and> \<not> block_used t (ext_backend n)"
  shows "apply_entries (map (\<lambda>(k, n). JBIND i (ucast (ext_file n)) (ucast (ext_backend n))) ks) t =
    Some (set_file i (g\<lparr>af_blocks := (\<lambda>k. case map_of ks k of None \<Rightarrow> af_blocks g k | Some n \<Rightarrow> Some (ext_backend n))\<rparr>) t)"
  using assms
proof (induction ks arbitrary: t g)
  case Nil
  then show ?case by (simp add: set_file_def map_upd_triv)
next
  case (Cons p ks)
  obtain k n where p: "p = (k, n)" by force
  let ?b = "ext_backend n" let ?g = "g\<lparr>af_blocks := (af_blocks g)(k \<mapsto> ?b)\<rparr>" let ?t = "set_file i ?g t"
  have first: "ext_file n = k" "fits (af_size g) k" "af_blocks g k = None" "unat ?b < tb_total t" "\<not> block_used t ?b"
    using Cons.prems(4) by (auto simp: p)
  have "apply_entry (JBIND i (ucast (ext_file n)) (ucast ?b)) t = Some ?t"
    using Cons.prems(1) first unat_bounds(3) [of k] unat_bounds(3) [of ?b] by (simp add: unat_backend)
  moreover have "apply_entries (map (\<lambda>(k, n). JBIND i (ucast (ext_file n)) (ucast (ext_backend n))) ks) ?t =
      Some (set_file i (?g\<lparr>af_blocks := (\<lambda>k. case map_of ks k of None \<Rightarrow> af_blocks ?g k | Some n \<Rightarrow> Some (ext_backend n))\<rparr>) ?t)"
  proof (rule Cons.IH)
    show "tb_files ?t i = Some ?g" by (simp add: set_file_def)
    show "distinct (map fst ks)" "distinct (map (\<lambda>p. ext_backend (snd p)) ks)" using Cons.prems(2,3) by simp_all
    show "\<forall>(k', m) \<in> set ks. ext_file m = k' \<and> fits (af_size ?g) k' \<and> af_blocks ?g k' = None \<and>
        unat (ext_backend m) < tb_total ?t \<and> \<not> block_used ?t (ext_backend m)"
    proof safe
      fix k' m
      assume m: "(k', m) \<in> set ks"
      have ne: "k' \<noteq> k" "ext_backend m \<noteq> ?b" using Cons.prems(2,3) m by (force simp: p)+
      note rest = Cons.prems(4) [THEN bspec, of "(k', m)"]
      show "ext_file m = k'" "fits (af_size ?g) k'" "af_blocks ?g k' = None" "unat (ext_backend m) < tb_total ?t"
        using rest m ne by (simp_all add: set_file_def)
      show False if "block_used ?t (ext_backend m)"
        using block_used_bind [OF Cons.prems(1) that] ne rest m by simp
    qed
  qed
  moreover have "map_of ks k = None" using Cons.prems(2) by (simp add: p map_of_eq_None_iff)
  then have "(\<lambda>k'. case map_of ks k' of None \<Rightarrow> af_blocks ?g k' | Some n \<Rightarrow> Some (ext_backend n)) =
      (\<lambda>k'. case map_of (p # ks) k' of None \<Rightarrow> af_blocks g k' | Some n \<Rightarrow> Some (ext_backend n))"
    by (auto simp: p fun_eq_iff split: option.split)
  ultimately show ?case by (simp add: p set_file_def)
qed

lemma file_binds_ok:
  assumes r: "replay_state s" and f: "get_file s i = Some f"
  shows "distinct (map (\<lambda>p. ext_backend (snd p)) (idx_items (f_extents f)))"
    and "(k, n) \<in> set (idx_items (f_extents f)) \<Longrightarrow>
      ext_file n = k \<and> fits (fm_size (f_meta f)) k \<and> unat (ext_backend n) < total_extents s \<and>
      held_at s (In_File i k) (ext_backend n)"
proof -
  note own = extent_invD(1) [OF replay_stateD(2) [OF r]]
  have held: "held_at s (In_File i k) (ext_backend n)" if "(k, n) \<in> set (idx_items (f_extents f))" for k n
    using that f by (simp add: block_def idx_find_in_items [symmetric])
  have "distinct (idx_items (f_extents f))" using idx.keys_distinct [OF TrueI, of "f_extents f"] by (simp add: distinct_map)
  moreover have "inj_on (\<lambda>p. ext_backend (snd p)) (set (idx_items (f_extents f)))"
  proof (rule inj_onI)
    fix p q assume p: "p \<in> set (idx_items (f_extents f))" and q: "q \<in> set (idx_items (f_extents f))"
      and eq: "ext_backend (snd p) = ext_backend (snd q)"
    have "In_File i (fst p) = In_File i (fst q)"
      using held_unique(1) [OF own held [of "fst q" "snd q"], of "In_File i (fst p)"] held [of "fst p" "snd p"] p q eq by simp
    then show "p = q" using p q by (cases p; cases q) (auto simp: idx_find_in_items [symmetric])
  qed
  ultimately show "distinct (map (\<lambda>p. ext_backend (snd p)) (idx_items (f_extents f)))" by (simp add: distinct_map)
  show "ext_file n = k \<and> fits (fm_size (f_meta f)) k \<and> unat (ext_backend n) < total_extents s \<and>
      held_at s (In_File i k) (ext_backend n)" if "(k, n) \<in> set (idx_items (f_extents f))"
    using held [OF that] held_unique(2) [OF own held [OF that]] that extent_invD(4) [OF replay_stateD(2) [OF r] f]
    by (auto simp: file_extents_ok_def fits_def idx_find_in_items [symmetric])
qed

lemma file_entries_apply:
  assumes r: "replay_state s" and f: "get_file s i = Some f"
    and new: "tb_files t i = None" "\<not> name_used t (fm_name (f_meta f))" "card (dom (tb_files t)) < 4096" "\<not> has_child t i"
    and par: "\<And>p pf. f_parent f = Some p \<Longrightarrow> get_file s p = Some pf \<Longrightarrow> tb_files t p = Some (abs_file pf)"
    and free: "\<And>k b. held_at s (In_File i k) b \<Longrightarrow> \<not> block_used t b" and tot: "tb_total t = total_extents s"
  shows "apply_entries (file_entries s f) t =
    Some (t\<lparr>tb_files := (tb_files t)(i \<mapsto> abs_file f), tb_max_id := max (tb_max_id t) i\<rparr>)"
proof -
  let ?m = "f_meta f"
  have L: "fm_id ?m = i" "i \<noteq> 0" "cyanfs_file_name_normalize (fm_name ?m) = Some (fm_name ?m)"
      "fm_parent_id ?m = (case f_parent f of None \<Rightarrow> 0 | Some p \<Rightarrow> p)"
      "\<And>p. f_parent f = Some p \<Longrightarrow> p < i \<and> get_file s p \<noteq> None"
    using file_invD(2) [OF replay_stateD(3) [OF r] f] by (auto simp: file_linked_def name_ok_def)
  define g where "g sz = \<lparr>af_name = fm_name ?m, af_size = sz, af_parent = f_parent f, af_blocks = Map.empty\<rparr>" for sz
  define u where "u h = t\<lparr>tb_files := (tb_files t)(i \<mapsto> h), tb_max_id := max (tb_max_id t) i\<rparr>" for h
  have made: "apply_entry (case f_parent f of None \<Rightarrow> JCREATE (fm_name ?m) i | Some _ \<Rightarrow> JFORK (fm_name ?m) i (fm_parent_id ?m)) t
      = Some (u (g (base_size s f)))"
  proof (cases "f_parent f")
    case None
    then show ?thesis using new(1-3) L(2,3) by (simp add: add_file_def u_def g_def base_size_def)
  next
    case (Some p)
    obtain pf where pf: "get_file s p = Some pf" "p < i" using L(5) [OF Some] by blast
    then show ?thesis using Some new(1-3) L(2-4) par [OF Some pf(1)] by (simp add: add_file_def u_def g_def base_size_def not_le)
  qed
  have child: "\<not> has_child (u h) i" if "af_parent h = f_parent f" for h
    using new(4) that L(5) by (auto simp: has_child_def u_def)
  have "cyanfs_file_size_validate (fm_size ?m) = Ok"
    using file_invD(1) [OF replay_stateD(3) [OF r] f] by (simp add: file_local_def)
  then have sized: "apply_entries (if base_size s f \<noteq> fm_size ?m then [JTRUNCATE i (fm_size ?m)] else []) (u (g (base_size s f)))
      = Some (u (g (fm_size ?m)))"
    using child [of "g (base_size s f)"] by (auto simp: g_def u_def set_file_def cong: if_cong)
  have used: "block_used (u (g sz)) b \<longleftrightarrow> block_used t b" for sz b
    using new(1) by (simp add: block_used_def u_def g_def) (metis option.distinct(1))
  note ok = file_binds_ok [OF r f]
  have unused: "\<not> block_used t (ext_backend n)" if "(k, n) \<in> set (idx_items (f_extents f))" for k n
    using free ok(2) [OF that] by blast
  have "apply_entries (compact_binds f) (u (g (fm_size ?m))) = Some (set_file i ((g (fm_size ?m))\<lparr>af_blocks :=
      (\<lambda>k. case map_of (idx_items (f_extents f)) k of None \<Rightarrow> af_blocks (g (fm_size ?m)) k
           | Some n \<Rightarrow> Some (ext_backend n))\<rparr>) (u (g (fm_size ?m))))"
    unfolding compact_binds_def L(1) using ok idx.keys_distinct [OF TrueI, of "f_extents f"] unused tot
    by (intro binds_apply) (auto simp: used, auto simp: u_def g_def)
  also have "(g (fm_size ?m))\<lparr>af_blocks := (\<lambda>k. case map_of (idx_items (f_extents f)) k of
      None \<Rightarrow> af_blocks (g (fm_size ?m)) k | Some n \<Rightarrow> Some (ext_backend n))\<rparr> = abs_file f"
    using replay_blocks [OF r f] by (auto simp: g_def abs_file_def fun_eq_iff idx_find.rep_eq split: option.split)
  also have "set_file i (abs_file f) (u (g (fm_size ?m))) = u (abs_file f)" by (simp add: set_file_def u_def)
  finally have "apply_entries (compact_binds f) (u (g (fm_size ?m))) = Some (u (abs_file f))" .
  then show ?thesis
    unfolding file_entries_def Let_def L(1) apply_entries.simps(2) made apply_entries_append bind.bind_lunit sized
    by (simp add: u_def)
qed

subsection \<open>All files\<close>

text \<open>The table after the entries of the first files.\<close>

definition part_table :: "super \<Rightarrow> (cyanfs_file_id_t \<times> cyanfs_file) list \<Rightarrow> table" where
  "part_table s xs =
     \<lparr>tb_files = map_option abs_file \<circ> map_of xs, tb_max_id = (if xs = [] then 0 else fst (last xs)),
      tb_total = total_extents s, tb_journal = {}\<rparr>"

lemma part_table_step:
  assumes r: "replay_state s" and items: "idx_items (files_by_id s) = xs @ (i, f) # ys"
  shows "apply_entries (file_entries s f) (part_table s xs) = Some (part_table s (xs @ [(i, f)]))"
proof -
  note inv = replay_stateD(3) [OF r]
  have sorted: "sorted_wrt (<) (map fst xs @ i # map fst ys)" using idx.items_sorted [OF TrueI, of "files_by_id s"] items by simp
  have dist: "distinct (map fst (xs @ (i, f) # ys))" using idx.keys_distinct [OF TrueI, of "files_by_id s"] items by simp
  have get: "get_file s j = map_of (xs @ (i, f) # ys) j" for j
    by (simp add: get_file_def idx_find.rep_eq items)
  have f: "get_file s i = Some f" unfolding get by (rule map_of_is_SomeI [OF dist]) simp
  have xs: "map_of xs j = (if j < i then get_file s j else None)" for j
  proof -
    have "map_of xs j = None" if "\<not> j < i" using sorted that by (force simp: sorted_wrt_append map_of_eq_None_iff)
    moreover have "map_of ys j = None" if "j < i" using sorted that by (force simp: sorted_wrt_append map_of_eq_None_iff)
    ultimately show ?thesis by (auto simp: get map_add_def split: option.split)
  qed
  let ?t = "part_table s xs"
  have t: "tb_files ?t j = (if j < i then map_option abs_file (get_file s j) else None)" for j
    by (simp add: part_table_def xs)
  have "apply_entries (file_entries s f) ?t =
      Some (?t\<lparr>tb_files := (tb_files ?t)(i \<mapsto> abs_file f), tb_max_id := max (tb_max_id ?t) i\<rparr>)"
  proof (rule file_entries_apply [OF r f])
    show "tb_files ?t i = None" "tb_total ?t = total_extents s" by (simp add: t) (simp add: part_table_def)
    have "fm_name (f_meta g) \<noteq> fm_name (f_meta f)" if "get_file s j = Some g" "j < i" for j g
      using file_invD(2) [OF inv that(1)] file_invD(2) [OF inv f] that(2) by (auto simp: file_linked_def)
    then show "\<not> name_used ?t (fm_name (f_meta f))" by (auto simp: name_used_def t split: if_splits)
    have "dom (tb_files ?t) = fst ` set xs"
      by (auto simp: part_table_def dom_def) (metis dom_map_of_conv_image_fst domI, metis (no_types) map_of_eq_None_iff not_None_eq image_eqI fst_conv)
    then have "card (dom (tb_files ?t)) = length xs" using dist by (simp add: distinct_card flip: set_map)
    also have "\<dots> < idx_size (files_by_id s)" by (simp add: idx_size_def items)
    finally show "card (dom (tb_files ?t)) < 4096" using file_invD(5) [OF inv] by simp
    have "f_parent g \<noteq> Some i" if "get_file s j = Some g" "j < i" for j g
      using file_invD(2) [OF inv that(1)] that(2) by (auto simp: file_linked_def)
    then show "\<not> has_child ?t i" by (auto simp: has_child_def t split: if_splits)
    show "tb_files ?t p = Some (abs_file pf)" if "f_parent f = Some p" "get_file s p = Some pf" for p pf
      using file_invD(2) [OF inv f] that by (simp add: t file_linked_def)
    show "\<not> block_used ?t b" if held: "held_at s (In_File i k) b" for k b
    proof
      assume "block_used ?t b"
      then obtain j g k' where g: "get_file s j = Some g" "j < i" "af_blocks (abs_file g) k' = Some b"
        by (auto simp: block_used_def t split: if_splits) (simp add: part_table_def)
      then have "held_at s (In_File j k') b" using replay_blocks [OF r g(1)] by (simp add: block_def)
      then have "In_File j k' = In_File i k"
        using held_unique(1) [OF extent_invD(1) [OF replay_stateD(2) [OF r]] held] by blast
      then show False using g(2) by simp
    qed
  qed
  moreover have "max (tb_max_id ?t) i = i"
    using sorted by (cases xs rule: rev_cases) (auto simp: part_table_def sorted_wrt_append max_def)
  moreover have "(tb_files ?t)(i \<mapsto> abs_file f) = map_option abs_file \<circ> map_of (xs @ [(i, f)])"
    by (auto simp: fun_eq_iff t xs map_add_def split: option.split)
  ultimately show ?thesis by (simp add: part_table_def)
qed

lemma files_apply:
  assumes r: "replay_state s"
  shows "idx_items (files_by_id s) = xs @ ys \<Longrightarrow>
    apply_entries (concat (map (file_entries s) (map snd xs))) (empty_table (total_extents s)) = Some (part_table s xs)"
proof (induction xs arbitrary: ys rule: rev_induct)
  case Nil
  show ?case by (simp add: part_table_def empty_table_def comp_def)
next
  case (snoc p xs)
  obtain i f where p: "p = (i, f)" by force
  show ?case
    using snoc part_table_step [OF r, of xs i f ys] by (simp add: p apply_entries_append)
qed

text \<open>
  Replaying a journal written by this code, the highest id belongs to the last file made: when it is
  gone, there is room for the marker.
\<close>

definition id_room :: "table \<Rightarrow> bool" where
  "id_room t \<longleftrightarrow> tb_files t (tb_max_id t) \<noteq> None \<or> card (dom (tb_files t)) < 4096"

lemma state_entries_apply:
  assumes r: "replay_state s" and room: "id_room (table_of s)"
  shows "apply_entries (state_entries s) (empty_table (total_extents s)) = Some (live_table s)"
proof -
  let ?xs = "idx_items (files_by_id s)" let ?t = "part_table s ?xs"
  note inv = replay_stateD(3) [OF r]
  have files: "tb_files ?t = abs_files s"
    by (simp add: part_table_def fun_eq_iff abs_files_def get_file_def idx_find.rep_eq)
  have live: "tb_max_id ?t = live_max s"
  proof (cases ?xs rule: rev_cases)
    case (snoc ys p)
    then have "get_file s (fst p) = Some (snd p)" by (simp add: files_in_items [symmetric])
    then show ?thesis using snoc file_invD(2) [OF inv] by (simp add: part_table_def live_max_def file_linked_def Let_def)
  qed (simp add: part_table_def live_max_def)
  have below: "i \<le> live_max s \<and> i \<le> max_file_id s" if "get_file s i = Some f" for i f
  proof -
    have m: "(i, f) \<in> set ?xs" using that by (simp add: files_in_items)
    then obtain ys p where xs: "?xs = ys @ [p]" by (cases ?xs rule: rev_cases) auto
    have "i \<le> fst p" using m idx.items_sorted [OF TrueI, of "files_by_id s"] by (auto simp: xs sorted_wrt_append)
    then show ?thesis using live file_invD(2) [OF inv that] by (simp add: xs part_table_def file_linked_def)
  qed
  have start: "apply_entries (concat (map (file_entries s) (map snd ?xs))) (empty_table (total_extents s)) = Some ?t"
    by (rule files_apply [OF r, of ?xs "[]"]) simp
  show ?thesis
  proof (cases "max_file_id s \<le> live_max s")
    case True
    have "live_max s \<le> max_file_id s"
    proof (cases ?xs rule: rev_cases)
      case (snoc ys p)
      then have "get_file s (fst p) = Some (snd p)" by (simp add: files_in_items [symmetric])
      from below [OF this] show ?thesis using live snoc by (simp add: part_table_def)
    qed (simp add: live_max_def)
    then have "?t = live_table s"
      using True live files by (simp add: part_table_def live_table_def table_of_def)
    then show ?thesis using True start by (simp add: state_entries_def)
  next
    case False
    obtain n where n: "journal_compact_marker_name s = Some n" "idx_find (files_by_name s) n = None" "name_ok n"
      using marker_found [OF inv] .
    let ?m = "max_file_id s"
    have none: "get_file s ?m = None" using below False by (cases "get_file s ?m") (auto simp: not_le)
    then have orphan: "f_parent f \<noteq> Some ?m" if "get_file s c = Some f" for c f
      using file_invD(2) [OF inv that] by (auto simp: file_linked_def)
    have "card (dom (tb_files ?t)) < 4096" using none room by (simp add: id_room_def files)
    moreover have "\<not> name_used ?t n" using n(2) name_used_abs [OF inv, of n]
      by (simp add: name_used_def files lookup_file_by_name_def)
    ultimately have "apply_entry (JCREATE n ?m) ?t = Some (?t\<lparr>tb_files := (tb_files ?t)(?m \<mapsto>
        \<lparr>af_name = n, af_size = 0, af_parent = None, af_blocks = Map.empty\<rparr>), tb_max_id := ?m\<rparr>)"
      using n(3) none False live by (auto simp: add_file_def name_ok_def files max_def)
    moreover have "\<not> has_child (?t\<lparr>tb_files := (tb_files ?t)(?m \<mapsto>
        \<lparr>af_name = n, af_size = 0, af_parent = None, af_blocks = Map.empty\<rparr>), tb_max_id := ?m\<rparr>) ?m"
      using orphan by (auto simp: has_child_def files abs_files_def split: if_splits)
    moreover have "(tb_files ?t)(?m := None) = abs_files s" using none by (simp add: files fun_upd_idem)
    ultimately show ?thesis
      using False start n(1)
      by (simp add: state_entries_def apply_entries_append live_table_def table_of_def part_table_def)
  qed
qed

end
