(* ===== verification/Journal_Sound.thy ===== *)
theory Journal_Sound
  imports Journal_Chain
begin

section \<open>What a parser gets to see\<close>

text \<open>
  Whatever the device holds and whatever it answers, a journal that the loader finishes has handed a
  sequence of well-formed entries to the parser, each accepted, followed by the extents it visited, as
  NEXT entries, each on the device and none twice.
\<close>

definition handed :: "'a loader_parser \<Rightarrow> 'a \<Rightarrow> 'a \<Rightarrow> bool" where
  "handed parser a a' \<longleftrightarrow>
     (\<exists>js. list_all (\<lambda>j. entry_wf j \<and> \<not> is_link j) js \<and> parse_all parser js a = (True, a'))"

lemma handed_refl: "handed parser a a"
  by (auto simp: handed_def intro!: exI [of _ "[]"])

lemma handed_trans: "handed parser a b \<Longrightarrow> handed parser b c \<Longrightarrow> handed parser a c"
  unfolding handed_def
proof (elim exE conjE)
  fix js ks
  assume "list_all (\<lambda>j. entry_wf j \<and> \<not> is_link j) js" "parse_all parser js a = (True, b)"
    "list_all (\<lambda>j. entry_wf j \<and> \<not> is_link j) ks" "parse_all parser ks b = (True, c)"
  then show "\<exists>js. list_all (\<lambda>j. entry_wf j \<and> \<not> is_link j) js \<and> parse_all parser js a = (True, c)"
    by (intro exI [of _ "js @ ks"]) (simp add: parse_all_append)
qed

lemma decode_entries_wf: "decode_entries n p = Some (js, rest) \<Longrightarrow> list_all entry_wf js"
proof (induction n arbitrary: p js)
  case (Suc n)
  then show ?case by (auto split: option.splits dest: decode_entry_canonical(1))
qed simp

lemma entries_handed:
  assumes "cyanfs_journal_validate_record body cnt = Some v" "loader_entries parser (unat cnt) body a = (True, a')"
  shows "handed parser a a'"
proof -
  obtain js rest where d: "decode_entries (unat cnt) body = Some (js, rest)"
    using assms(1) by (auto simp: validate_record_decode split: option.splits)
  have "list_all (\<lambda>j. entry_wf j \<and> \<not> is_link j) (filter (\<lambda>j. \<not> is_link j) js)"
    using decode_entries_wf [OF d] by (auto simp: list_all_iff)
  then show ?thesis using assms(2) loader_entries_decode [OF d, of parser a] by (auto simp: handed_def)
qed

text \<open>One round, by what the parser has got.\<close>

lemma loader_record_handed:
  assumes "loader_record parser mem n page off t a = r"
  shows "case r of
      Inr (off', t', a') \<Rightarrow> handed parser a a' \<and> ld_journals t' = ld_journals t \<and> ld_visited t' = ld_visited t
    | Inl r \<Rightarrow>
        (\<exists>err t' a'. r = journal_loader_end parser err t' a' \<and>
           (\<not> err \<longrightarrow> handed parser a a' \<and> ld_journals t' = ld_journals t \<and> ld_visited t' = ld_visited t)) \<or>
        (\<exists>t' a'. r = journal_loader_read_page t' a' \<and> handed parser a a') \<or>
        (\<exists>b new_set t' a'. r = journal_loader_commit_extent b new_set t' a' \<and> handed parser a a')"
proof -
  define E where "E x \<longleftrightarrow> (\<exists>err t' a'. x = journal_loader_end parser err t' a' \<and>
      (\<not> err \<longrightarrow> handed parser a a' \<and> ld_journals t' = ld_journals t \<and> ld_visited t' = ld_visited t))" for x
  define R where "R x \<longleftrightarrow> (\<exists>t' a'. x = journal_loader_read_page t' a' \<and> handed parser a a')" for x
  define C where "C x \<longleftrightarrow> (\<exists>b new_set t' a'. x = journal_loader_commit_extent b new_set t' a' \<and> handed parser a a')" for x
  have E1: "E (journal_loader_end parser True t' a')" for t' a'
    unfolding E_def by (rule exI [of _ True], rule exI [of _ t'], rule exI [of _ a']) simp
  have E2: "E (loader_stop parser t a)"
    unfolding E_def loader_stop_def
    by (rule exI [of _ "ld_end_id t \<noteq> cyanfs_extent_id_invalid"], rule exI [of _ t], rule exI [of _ a])
      (simp add: handed_refl)
  have E3: "E (journal_loader_end parser False (t\<lparr>ld_cursor := c\<rparr>) b)" if "handed parser a b" for b c
    unfolding E_def by (rule exI [of _ False], rule exI [of _ "t\<lparr>ld_cursor := c\<rparr>"], rule exI [of _ b]) (simp add: that)
  have R: "handed parser a a' \<Longrightarrow> R (journal_loader_read_page t' a')" for t' a' unfolding R_def by blast
  have C: "handed parser a a' \<Longrightarrow> C (journal_loader_commit_extent b new_set t' a')" for b new_set t' a'
    unfolding C_def by blast
  have "case r of
      Inr (off', t', a') \<Rightarrow> handed parser a a' \<and> ld_journals t' = ld_journals t \<and> ld_visited t' = ld_visited t
    | Inl r \<Rightarrow> E r \<or> R r \<or> C r"
  proof (cases "if drop off page = [] then None else cyanfs_journal_decode_header_checked (drop off page)")
    case None
    then show ?thesis using E2 by (auto simp: loader_record_def simp flip: assms)
  next
    case (Some h)
    let ?body = "drop (unat CYANFS_JOURNAL_HEADER_SIZE) (take (unat (jh_size h)) (drop off page))"
    note rec = assms [unfolded loader_record_def Let_def Some option.case, symmetric]
    show ?thesis
    proof (cases "jh_size h < CYANFS_JOURNAL_HEADER_SIZE \<or> jh_size h > CYANFS_JOURNAL_PAGE_SIZE \<or>
        jc_extent_off (ld_cursor t) + jh_size h > CYANFS_EXTENT_SIZE")
      case True
      then show ?thesis using E2 rec by simp
    next
      case False
      note rec = rec [unfolded if_not_P [OF False]]
      show ?thesis
      proof (cases "length (drop off page) < unat (jh_size h) \<or>
          record_sum (sh_uuid (ld_header t)) (drop off page) (jh_size h) \<noteq> jh_crc32 h \<or> jh_seq h \<noteq> jc_seq (ld_cursor t)")
        case True
        then show ?thesis using E2 R [OF handed_refl] rec by (auto split: if_splits)
      next
        case False
        then have g: "\<not> length (drop off page) < unat (jh_size h)"
            "\<not> record_sum (sh_uuid (ld_header t)) (drop off page) (jh_size h) \<noteq> jh_crc32 h"
            "\<not> jh_seq h \<noteq> jc_seq (ld_cursor t)" by simp_all
        note rec = rec [unfolded if_not_P [OF g(1)] if_not_P [OF g(2)] if_not_P [OF g(3)]]
        show ?thesis
        proof (cases "cyanfs_journal_validate_record ?body (jh_count h)")
          case None
          then show ?thesis using rec E1 by simp
        next
          case V: (Some v)
          obtain regular nx where v: "v = (regular, nx)" by (cases v)
          obtain parsed b where P: "loader_entries parser (unat (jh_count h)) ?body a = (parsed, b)"
            by (cases "loader_entries parser (unat (jh_count h)) ?body a")
          have H: "parsed \<Longrightarrow> handed parser a b" using entries_handed [OF V] P by simp
          obtain err ns t1 where L: "journal_loader_prepare_extent mem n (the nx) t = (err, ns, t1)"
            by (cases "journal_loader_prepare_extent mem n (the nx) t")
          show ?thesis
            using rec E1 E3 R C H L unfolding V v P by (cases nx) (auto split: if_splits)
        qed
      qed
    qed
  qed
  then show ?thesis unfolding E_def R_def C_def by (simp split: sum.splits)
qed

lemma loader_end_handed:
  assumes "journal_loader_end parser err t a = Loader_Finish t' c"
  shows "\<not> err" "parse_all parser (map JNEXT (concat (ld_journals t))) a = (True, c)" "ld_cursor t' = ld_cursor t"
    "ld_header t' = ld_header t"
  using assms by (auto simp: journal_loader_end_def loader_link_parse Let_def split: if_splits prod.splits)

lemma commit_result:
  "journal_loader_commit_extent b new_set t a = r \<Longrightarrow> r = Loader_Panic \<or> (\<exists>x l t'. r = Loader_Read x l t' a)"
  by (auto simp: journal_loader_commit_extent_def journal_loader_read_page_def Let_def split: option.splits prod.splits)

text \<open>The entries of the whole run; the extents are those of the loader when it ended.\<close>

definition delivered :: "'a loader_parser \<Rightarrow> u32 \<Rightarrow> 'a \<Rightarrow> 'a loader_result \<Rightarrow> bool" where
  "delivered parser n a r \<longleftrightarrow>
     (case r of
        Loader_Read b l t a' \<Rightarrow> handed parser a a'
      | Loader_Finish t c \<Rightarrow>
          (\<exists>a' es. handed parser a a' \<and> distinct es \<and> (\<forall>i \<in> set es. i < n) \<and>
             parse_all parser (map JNEXT es) a' = (True, c))
      | _ \<Rightarrow> True)"

lemma delivered_end:
  assumes "handed parser a a'" "loader_ok n t" "ld_journals t' = ld_journals t"
  shows "delivered parser n a (journal_loader_end parser err t' a')"
proof (cases "journal_loader_end parser err t' a'")
  case (Loader_Finish u c)
  then show ?thesis
    using loader_end_handed(2) [OF Loader_Finish] assms unfolding delivered_def Loader_Finish loader_result.case
    by (intro exI [of _ a'] exI [of _ "concat (ld_journals t)"]) (auto simp: loader_ok_def)
qed (simp_all add: delivered_def loader_end_result)

lemma delivered_trans:
  assumes "handed parser a b" "delivered parser n b r"
  shows "delivered parser n a r"
proof (cases r)
  case (Loader_Read x l t c)
  then show ?thesis using assms handed_trans by (auto simp: delivered_def)
next
  case (Loader_Finish t c)
  then show ?thesis using assms(2) handed_trans [OF assms(1)] by (auto simp: delivered_def)
qed (simp_all add: delivered_def)

lemma loader_records_delivered:
  assumes "loader_ok n t" "cursor_ok n (ld_cursor t)"
  shows "delivered parser n a (loader_records parser mem n page off t a)"
  using assms
proof (induction parser mem n page off t a rule: loader_records.induct)
  case (1 parser mem n page off t a)
  note H = loader_record_handed [OF refl, where parser = parser and mem = mem and n = n and page = page
      and off = off and t = t and a = a]
  show ?case
  proof (cases "loader_record parser mem n page off t a")
    case (Inl r)
    then have r: "loader_records parser mem n page off t a = r" by (simp add: loader_records.simps)
    from H [unfolded Inl sum.case] consider (e) err t' a' where "r = journal_loader_end parser err t' a'"
        "\<not> err \<longrightarrow> handed parser a a' \<and> ld_journals t' = ld_journals t"
      | (r) t' a' where "r = journal_loader_read_page t' a'" "handed parser a a'"
      | (c) b ns t' a' where "r = journal_loader_commit_extent b ns t' a'" "handed parser a a'"
      by blast
    then show ?thesis
    proof cases
      case e
      show ?thesis
      proof (cases err)
        case True
        then show ?thesis unfolding r e(1) by (simp add: delivered_def journal_loader_end_def Let_def)
      next
        case False
        then show ?thesis unfolding r e(1) using e(2) "1.prems"(1) by (intro delivered_end) auto
      qed
    next
      case r': r
      then show ?thesis unfolding r by (simp add: delivered_def journal_loader_read_page_def Let_def)
    next
      case c
      then show ?thesis using commit_result [OF c(1) [symmetric]] unfolding r by (auto simp: delivered_def)
    qed
  next
    case (Inr v)
    obtain off' t' a' where v: "v = (off', t', a')" by (cases v)
    have "loader_ok n t'" "cursor_ok n (ld_cursor t')" using loader_record_Inr [OF "1.prems" Inr [unfolded v]] by auto
    note D = "1.IH" [OF Inr v [symmetric] refl this]
    have "handed parser a a'" using H Inr v by simp
    from delivered_trans [OF this D] show ?thesis
      using Inr v by (simp add: loader_records.simps [of parser mem n page off])
  qed
qed

lemma parser_page_delivered:
  assumes "loader_ok n t" "cursor_ok n (ld_cursor t)"
  shows "delivered parser n a (journal_loader_parser_page parser mem n err bytes t a)"
proof -
  let ?t = "t\<lparr>ld_cursor := (ld_cursor t)\<lparr>jc_page := bytes @ drop (length bytes) (jc_page (ld_cursor t))\<rparr>\<rparr>"
  have "loader_ok n ?t" "cursor_ok n (ld_cursor ?t)" using assms by (simp_all add: loader_ok_def cursor_ok_def)
  then show ?thesis
    using loader_records_delivered [of n ?t parser a mem bytes 0] delivered_end [OF handed_refl assms(1) refl, of parser a True]
    by (simp add: journal_loader_parser_page_def Let_def)
qed

lemma loader_run_delivered:
  assumes "result_ok n r" "delivered parser n a r"
  shows "\<exists>r'. loader_run parser mem n io k r = Some r' \<and> result_ok n r' \<and> delivered parser n a r' \<and>
    (\<exists>t c. r' = Loader_Finish t c \<or> r' = Loader_Error t c)"
  using assms
proof (induction "case r of Loader_Read b l t a \<Rightarrow> loader_rank n t | _ \<Rightarrow> 0" arbitrary: k r rule: less_induct)
  case less
  show ?case
  proof (cases r)
    case (Loader_Read b l t a')
    have ok: "loader_ok n t" "cursor_ok n (ld_cursor t)"
      using less.prems(1) [unfolded Loader_Read] by (simp_all add: result_ok_def)
    have h: "handed parser a a'" using less.prems(2) [unfolded Loader_Read] by (simp add: delivered_def)
    obtain err bytes where io: "io k b l = (err, bytes)" by (cases "io k b l")
    define q where "q = journal_loader_parser_page parser mem n err bytes t a'"
    have run: "loader_run parser mem n io k r = loader_run parser mem n io (Suc k) q"
      by (subst loader_run.simps) (simp add: Loader_Read io q_def)
    have qok: "result_ok n q" "delivered parser n a q"
      unfolding q_def using parser_page_ok(1) [OF ok] delivered_trans [OF h parser_page_delivered [OF ok]] by auto
    show ?thesis
    proof (cases "\<exists>b' l' t' a''. q = Loader_Read b' l' t' a''")
      case True
      then obtain b' l' t' a'' where q: "q = Loader_Read b' l' t' a''" by blast
      then have "loader_rank n t' < loader_rank n t"
        using parser_page_ok(2) [OF ok, of parser mem err bytes a' b' l' t' a''] q_def by simp
      then show ?thesis using less.hyps [of q "Suc k"] qok q Loader_Read run by simp
    next
      case False
      then show ?thesis using qok run by (cases q) (auto simp: loader_run.simps [of _ _ _ _ "Suc k"] result_ok_def)
    qed
  qed (use less.prems in \<open>auto simp: loader_run.simps result_ok_def\<close>)
qed

lemma parser_header_delivered:
  assumes "loader_ok n t"
  shows "delivered parser n a (journal_loader_parser_header parser mem n err bytes t a)"
proof -
  have e: "delivered parser n a (journal_loader_end parser x t' a)" if "ld_journals t' = ld_journals t" for x t'
    using delivered_end [OF handed_refl assms that] .
  have f: "delivered parser n a (journal_loader_end parser True t' a)" for t'
    by (simp add: delivered_def journal_loader_end_def Let_def)
  have c: "delivered parser n a (journal_loader_commit_extent b ns t' a)" for b ns t'
    using commit_result [OF refl, of b ns t' a] handed_refl [of parser a] by (auto simp: delivered_def)
  show ?thesis
    unfolding journal_loader_parser_header_def Let_def
    using e f c by (auto split: option.split prod.split)
qed

lemma journal_load_sound:
  assumes "loader_ok n t"
  obtains r where "journal_load parser mem n io t a = Some r" "delivered parser n a r"
    "\<exists>t c. r = Loader_Finish t c \<or> r = Loader_Error t c"
proof -
  obtain err bytes where io: "io 0 0 CYANFS_SUPER_BLOCK_SIZE = (err, bytes)"
    by (cases "io 0 0 CYANFS_SUPER_BLOCK_SIZE")
  let ?r = "journal_loader_parser_header parser mem n err bytes t a"
  have "result_ok n ?r" "delivered parser n a ?r"
    by (rule parser_header_ok [OF assms], rule parser_header_delivered [OF assms])
  from loader_run_delivered [OF this, of mem io 1] show ?thesis
    using that by (auto simp: journal_load_def io)
qed

end
