(* ===== verification/Compact_Moves.thy ===== *)
theory Compact_Moves
  imports Compact_Inv Journal_Sound
begin

section \<open>The journal writer and the compaction keep the invariant\<close>

text \<open>
  The journal writer takes free extents for the journal, and a compaction gives old ones back. Neither
  touches a file, and no extent is lost. A compaction has one object and one task in the queue, or it
  has ended; its own super block satisfies the invariant of a replay whatever the device answers, so
  that none of its steps can panic.
\<close>

subsection \<open>Replaying into the super block of the compaction\<close>

lemma compact_init_state:
  assumes "0 < total_extents s" "total_extents s \<le> 2 ^ 30"
  shows "replay_state (compact_init s raw rf)" "table_of (compact_init s raw rf) = empty_table (total_extents s)"
proof -
  let ?q = "compact_init s raw rf"
  note defs = compact_init_def Let_def fold_open_fields
  have free: "idx_find (trees ?q Free_Extents) b = (if unat b < total_extents s then Some (open_extent rf (unat b)) else None)" for b
    using fold_open_find [OF assms(2), of rf b] by (simp add: defs total_extents_def)
  show "replay_state ?q" "table_of ?q = empty_table (total_extents s)"
    by (rule all_free_state [where rf = rf]; use assms free in \<open>simp add: defs total_extents_def has_flag_def\<close>)+
qed

lemma compact_parse:
  assumes "replay_state q" "\<forall>i. mem i 0" "list_all entry_wf js" "apply_entries js (table_of q) = Some t"
  shows "\<exists>q'. parse_all (journal_compact_loader_parser mem) js (q, k) = (True, q', k + length js) \<and>
    replay_state q' \<and> table_of q' = t"
  using assms
proof (induction js arbitrary: q k)
  case (Cons j js)
  then obtain u where u: "apply_entry j (table_of q) = Some u" "apply_entries js u = Some t"
    by (auto simp: bind_eq_Some_conv)
  then obtain r where r: "journal_replay (mem k) j q = (Ok, r)" "replay_state r" "table_of r = u"
    using replay_refines [of q "mem k" j] Cons.prems by (auto simp: replay_matches_def)
  then show ?case
    using Cons.IH [of r "Suc k"] Cons.prems u(2) by (simp add: journal_compact_loader_parser_def)
qed simp

text \<open>What entries keep of a table.\<close>

lemma apply_next: "apply_entries (map JNEXT es) t = Some u \<Longrightarrow> u\<lparr>tb_journal := {}\<rparr> = t\<lparr>tb_journal := {}\<rparr>"
  by (induction es arbitrary: t) (auto simp: bind_eq_Some_conv split: if_splits)

lemma apply_entry_keeps_journal: "\<not> is_link j \<Longrightarrow> apply_entry j t = Some u \<Longrightarrow> tb_journal u = tb_journal t"
  by (cases j) (auto simp: add_file_def set_file_def split: option.splits if_splits)

lemma apply_entries_keep_journal:
  "list_all (\<lambda>j. \<not> is_link j) js \<Longrightarrow> apply_entries js t = Some u \<Longrightarrow> tb_journal u = tb_journal t"
  by (induction js arbitrary: t) (auto simp: bind_eq_Some_conv dest!: apply_entry_keeps_journal)

lemma apply_entry_total: "apply_entry j t = Some u \<Longrightarrow> tb_total u = tb_total t"
  by (cases j) (auto simp: add_file_def set_file_def split: option.splits if_splits)

lemma apply_entries_total: "apply_entries js t = Some u \<Longrightarrow> tb_total u = tb_total t"
  by (induction js arbitrary: t) (auto simp: bind_eq_Some_conv dest!: apply_entry_total)

text \<open>Whatever is replayed into it, the super block of a compaction stays a state of a replay.\<close>

lemma replay_mem: "journal_replay mem j r = (Ok, r') \<Longrightarrow> journal_replay (\<lambda>_. True) j r = (Ok, r')"
  by (cases j) (auto split: if_splits option.splits)

lemma parser_replay_state:
  assumes "journal_compact_loader_parser mem j (q, k) = (Ok, q', k')" "entry_wf j" "replay_state q"
  shows "replay_state q'"
proof -
  have "journal_replay (\<lambda>_. True) j q = (Ok, q')"
    using assms(1) replay_mem by (auto simp: journal_compact_loader_parser_def split: prod.splits)
  then show ?thesis
    using replay_refines [OF assms(3), of "\<lambda>_. True" j] assms(2) by (auto simp: replay_matches_def split: option.splits)
qed

lemma parse_all_replay_state:
  "parse_all (journal_compact_loader_parser mem) js (q, k) = (True, q', k') \<Longrightarrow> list_all entry_wf js \<Longrightarrow>
     replay_state q \<Longrightarrow> replay_state q'"
proof (induction js arbitrary: q k)
  case (Cons j js)
  then show ?case
    using parser_replay_state [of mem j q k] by (auto split: prod.splits cyanfs_status.splits)
qed simp

lemma delivered_replay_state:
  assumes d: "delivered (journal_compact_loader_parser mem) n (q, k) r" and q: "replay_state q"
  shows "r = Loader_Read b l t (q', k') \<Longrightarrow> replay_state q'" "r = Loader_Finish t (q', k') \<Longrightarrow> replay_state q'"
proof -
  have h: "replay_state q1" if "handed (journal_compact_loader_parser mem) (q, k) (q1, k1)" for q1 k1
    using that parse_all_replay_state [OF _ _ q] by (auto simp: handed_def list_all_iff)
  show "r = Loader_Read b l t (q', k') \<Longrightarrow> replay_state q'" using d h by (simp add: delivered_def)
  show "replay_state q'" if r: "r = Loader_Finish t (q', k')"
  proof -
    obtain q1 k1 es where "handed (journal_compact_loader_parser mem) (q, k) (q1, k1)"
        "parse_all (journal_compact_loader_parser mem) (map JNEXT es) (q1, k1) = (True, q', k')"
      using d r by (auto simp: delivered_def)
    then show ?thesis using h parse_all_replay_state [of mem "map JNEXT es" q1 k1] by (simp add: list_all_iff)
  qed
qed

subsection \<open>The writer\<close>

lemma moves_take_free:
  assumes "super_find_nearly_extent s b = Some n"
  shows "moves s (extent_super_to_super n Free_Extents Journal_Extents s)"
  using find_nearly_Some [OF assms] by (auto intro: moves_super_to_super)

lemma moves_next_extent: "moves s (snd (writer_next_extent t w s))"
  by (auto simp: writer_next_extent_def intro: moves_take_free split: option.split)

lemma moves_encode: "moves s (snd (journal_writer_encode err t s))"
  using moves_next_extent [of s t]
  by (auto simp: journal_writer_encode_def split: option.split prod.split) (metis snd_conv)+

lemma moves_writer_put: "moves s (flusher_writer_put a t s)"
  by (rule moves_fields) (simp_all add: flusher_writer_put_def)

lemma moves_write_error: "moves s (flusher_write_error a s)"
proof -
  have "moves t (t\<lparr>flusher_at := g\<rparr>)" for t g by (rule moves_fields) simp_all
  then show ?thesis using moves_trans [OF moves_small(4)] by (simp add: flusher_write_error_def Let_def)
qed

lemma moves_flush_before_write: "moves s (flusher_flush_before_write a s)"
proof -
  have "moves t (t\<lparr>flusher_at := g\<rparr>)" for t g by (rule moves_fields) simp_all
  then show ?thesis
    using moves_trans [OF _ moves_queue(1)] by (simp add: flusher_flush_before_write_def Let_def)
qed

lemma moves_writer_encode: "moves s (snd (flusher_writer_encode a err s))"
proof -
  obtain r u where e: "journal_writer_encode err (flusher_writer a s) s = (r, u)"
    by (cases "journal_writer_encode err (flusher_writer a s) s")
  have u: "moves s u" using moves_encode [of s err "flusher_writer a s"] e by simp
  have w: "moves s (snd (task_add_head (Flusher_Writer a) (task_init (Flusher_Writer a) ty Journal_Writer_Encode
      (flusher_writer_put a t u))))" for ty t
    by (rule moves_trans [OF u moves_trans [OF moves_writer_put moves_queue(1)]]) simp_all
  show ?thesis
    using u moves_trans [OF u moves_write_error] w moves_trans [OF w moves_flush_before_write]
    by (cases r) (simp_all add: flusher_writer_encode_def e Let_def)
qed

subsection \<open>The steps of a compaction\<close>

text \<open>
  A step of the compaction \<open>a\<close> moves extents and then ends the compaction or queues one task of it; what
  the object needs for that task is \<open>comp_ok\<close>.
\<close>

fun comp_of :: "nat \<Rightarrow> task_ref \<Rightarrow> bool" where
  "comp_of a (Compact_Task b) = (b = a)"
| "comp_of a (Compact_Writer b) = (b = a)"
| "comp_of a (Compact_Loader b) = (b = a)"
| "comp_of a _ = False"

lemma comp_of_is_comp: "comp_of a t \<Longrightarrow> is_comp t"
  by (cases t) simp_all

definition comp_ok :: "u32 \<Rightarrow> task_ref \<Rightarrow> task_done \<Rightarrow> compact \<Rightarrow> bool" where
  "comp_ok n x fn t \<longleftrightarrow> replay_state (cp_super t) \<and>
     (\<forall>a. x = Compact_Loader a \<longrightarrow> loader_ok n (cp_loader t) \<and>
        (fn = Journal_Loader_Parser_Page \<longrightarrow> cursor_ok n (ld_cursor (cp_loader t))))"

definition comp_next :: "nat \<Rightarrow> compact option \<Rightarrow> super \<Rightarrow> super \<Rightarrow> bool" where
  "comp_next a q s s' \<longleftrightarrow>
     (case q of
        None \<Rightarrow> moves s s'
      | Some t \<Rightarrow>
          \<exists>u x ty fn. moves s u \<and> comp_of a x \<and> task_fits x fn \<and> comp_ok (sm_total_extents (meta s)) x fn t \<and>
            moves (snd (task_add_tail x (task_init x ty fn u))) s')"

lemma comp_next_queue:
  "moves s u \<Longrightarrow> comp_of a x \<Longrightarrow> task_fits x fn \<Longrightarrow> comp_ok (sm_total_extents (meta s)) x fn t \<Longrightarrow>
     comp_next a (Some t) s (snd (task_add_tail x (task_init x ty fn u)))"
  unfolding comp_next_def option.case using moves_refl by blast

lemma comp_next_None [simp]: "comp_next a None s s' = moves s s'"
  by (simp add: comp_next_def)

lemma comp_error: "comp_next a (fst (journal_compact_error t s)) s (snd (journal_compact_error t s))"
  using moves_trans [OF moves_small(2) moves_small(4)] by (simp add: journal_compact_error_def super_compact_fail_def)

lemma moves_compact_discard:
  "extent_inv s \<Longrightarrow> moves s (snd (compact_discard ns s))"
proof (induction ns s rule: compact_discard.induct)
  case (2 n ns s)
  show ?case
  proof (cases "idx_find (trees s Journal_Extents) (ext_backend n)")
    case (Some m)
    then have "moves s (super_discard_extent m Journal_Extents s)" using step_discard_extent [OF "2.prems" Some] by simp
    moreover from this have "extent_inv (super_discard_extent m Journal_Extents s)"
      using "2.prems" by (simp add: moves_def)
    ultimately show ?thesis using "2.IH" [OF Some] moves_trans Some by simp
  qed simp
qed simp

lemma comp_finish:
  "extent_inv s \<Longrightarrow> comp_next a (fst (journal_compact_finish err t s)) s (snd (journal_compact_finish err t s))"
  using moves_compact_discard [of s "map snd (idx_items (trees (cp_super t) Journal_Extents))"]
    moves_trans [OF _ moves_small(2)] comp_error [of a t s]
    moves_trans [OF _ comp_error [unfolded comp_next_def journal_compact_error_def, simplified]]
  by (auto simp: journal_compact_finish_def Let_def journal_compact_error_def split: prod.split)

lemma comp_flush_super:
  "replay_state (cp_super t) \<Longrightarrow>
     comp_next a (fst (journal_compact_flush_super a err t s)) s (snd (journal_compact_flush_super a err t s))"
  using comp_error [of a t s] by (auto simp: journal_compact_flush_super_def comp_ok_def intro!: comp_next_queue)

lemma comp_write_super:
  "replay_state (cp_super t) \<Longrightarrow>
     comp_next a (fst (journal_compact_write_super a err t s)) s (snd (journal_compact_write_super a err t s))"
  using comp_error [of a t s]
  by (auto simp: journal_compact_write_super_def comp_ok_def Let_def intro!: comp_next_queue split: prod.split)

lemma comp_writer:
  assumes "replay_state (cp_super t)"
  shows "comp_next a (fst (compact_writer_encode a err t s)) s (snd (compact_writer_encode a err t s))"
proof -
  obtain r u where e: "journal_writer_encode err (cp_writer t) s = (r, u)"
    by (cases "journal_writer_encode err (cp_writer t) s")
  have u: "moves s u" using moves_encode [of s err "cp_writer t"] e by simp
  have "comp_next a (fst (journal_compact_error t u)) s (snd (journal_compact_error t u))"
    using moves_trans [OF u] comp_error [of a t u] by (simp add: journal_compact_error_def)
  then show ?thesis
    using assms u by (cases r) (auto simp: compact_writer_encode_def e journal_compact_write_journal_error_def
        journal_compact_write_journal_finish_def comp_ok_def intro!: comp_next_queue)
qed

text \<open>The end of loading: the entries exist, since every parent does.\<close>

lemma compact_entries_no_panic: "file_inv s \<Longrightarrow> compact_entries mem s \<noteq> Inl True"
  using compact_add_all_Inl [of mem "state_entries s"] by (auto simp: compact_entries_eq)

lemma comp_loader_finish:
  assumes "replay_state (cp_super t)"
  shows "comp_next a (fst (journal_compact_loader_finish mem a t s)) s (snd (journal_compact_loader_finish mem a t s))"
proof (cases "compact_entries mem (cp_super t)")
  case (Inl e)
  then show ?thesis
    using compact_entries_no_panic [OF replay_stateD(3) [OF assms], of mem] comp_error [of a t s]
    by (simp add: journal_compact_loader_finish_def)
next
  case (Inr v)
  obtain js n k where v: "v = (js, n, k)" by (cases v)
  show ?thesis
    using comp_error [of a t s] moves_take_free [of s 0] assms
    by (auto simp: journal_compact_loader_finish_def Inr v Let_def journal_compact_loader_error_def
        journal_writer_start_def comp_ok_def intro!: comp_next_queue split: option.split)
qed

lemma comp_loader_next:
  assumes r: "result_ok (sm_total_extents (meta s)) r" "delivered (journal_compact_loader_parser mem_parser) n (cp_super t, 0) r"
    and t: "replay_state (cp_super t)"
  shows "comp_next a (fst (compact_loader_next mem a r t s)) s (snd (compact_loader_next mem a r t s))"
proof (cases r)
  case (Loader_Read b l u v)
  obtain q k where v: "v = (q, k)" by (cases v)
  have "replay_state q" using delivered_replay_state(1) [OF r(2) t] Loader_Read v by simp
  moreover have "loader_ok (sm_total_extents (meta s)) u" "cursor_ok (sm_total_extents (meta s)) (ld_cursor u)"
    using r(1) by (simp_all add: Loader_Read result_ok_def)
  ultimately show ?thesis
    by (auto simp: compact_loader_next_def Loader_Read v comp_ok_def intro!: comp_next_queue)
next
  case (Loader_Finish u v)
  obtain q k where v: "v = (q, k)" by (cases v)
  have "replay_state q" using delivered_replay_state(2) [OF r(2) t] Loader_Finish v by simp
  then show ?thesis
    using comp_loader_finish [of "t\<lparr>cp_loader := u, cp_super := q\<rparr>" a mem s]
    by (simp add: compact_loader_next_def Loader_Finish v)
next
  case (Loader_Error u v)
  obtain q k where v: "v = (q, k)" by (cases v)
  show ?thesis
    using comp_error [of a "t\<lparr>cp_loader := u, cp_super := q\<rparr>" s]
    by (simp add: compact_loader_next_def Loader_Error v journal_compact_loader_error_def)
qed (use r(1) in \<open>simp add: result_ok_def\<close>)

lemma comp_parser:
  assumes "comp_ok (sm_total_extents (meta s)) (Compact_Loader b) fn t"
  shows "comp_next a (fst (compact_parser_header mem_parser mem_loader mem a err bytes t s)) s
      (snd (compact_parser_header mem_parser mem_loader mem a err bytes t s))"
    and "fn = Journal_Loader_Parser_Page \<Longrightarrow>
      comp_next a (fst (compact_parser_page mem_parser mem_loader mem a err bytes t s)) s
      (snd (compact_parser_page mem_parser mem_loader mem a err bytes t s))"
proof -
  have t: "replay_state (cp_super t)" "loader_ok (sm_total_extents (meta s)) (cp_loader t)"
    using assms by (simp_all add: comp_ok_def)
  show "comp_next a (fst (compact_parser_header mem_parser mem_loader mem a err bytes t s)) s
      (snd (compact_parser_header mem_parser mem_loader mem a err bytes t s))"
    unfolding compact_parser_header_def
    by (rule comp_loader_next [OF parser_header_ok [OF t(2)] parser_header_delivered [OF t(2)] t(1)])
  assume "fn = Journal_Loader_Parser_Page"
  then have c: "cursor_ok (sm_total_extents (meta s)) (ld_cursor (cp_loader t))" using assms by (simp add: comp_ok_def)
  show "comp_next a (fst (compact_parser_page mem_parser mem_loader mem a err bytes t s)) s
      (snd (compact_parser_page mem_parser mem_loader mem a err bytes t s))"
    unfolding compact_parser_page_def
    by (rule comp_loader_next [OF parser_page_ok(1) [OF t(2) c] parser_page_delivered [OF t(2) c] t(1)])
qed

subsection \<open>Starting a compaction\<close>

lemma compact_start_moves:
  assumes inv: "super_inv s" and c: "super_compact mem raw raw_file s = (err, q, s')"
  shows "comp_next (next_address s) q s s'" "q \<noteq> None \<Longrightarrow> next_address s < next_address s'"
proof -
  let ?a = "next_address s"
  let ?w = "(set_flag FLAG_COMPACT_WORKING s)\<lparr>next_address := ?a + 1\<rparr>"
  let ?v = "snd (task_add_tail (Compact_Loader ?a) (task_init (Compact_Loader ?a) (TASK_READ 0 CYANFS_SUPER_BLOCK_SIZE)
      Journal_Loader_Parser_Header ?w))"
  have "moves (set_flag FLAG_COMPACT_WORKING s) ?w" by (rule moves_fields) (simp_all add: set_flag_def)
  then have w: "moves s ?w" by (rule moves_trans [OF moves_small(1)])
  have fail: "moves s (super_compact_fail (set_flag FLAG_COMPACT_WORKING s))"
    unfolding super_compact_fail_def
    by (rule moves_trans [OF moves_small(1) moves_trans [OF moves_small(2) moves_small(4)]])
  have na: "next_address (set_flag m s) = ?a" for m by (simp add: set_flag_def)
  have tot: "total_extents ?w = total_extents s" by (simp add: total_extents_def set_flag_def)
  have rs: "replay_state (compact_init ?w r f)" for r f
    using compact_init_state(1) [of ?w r f] super_invD(4,5) [OF inv] unfolding tot by simp
  consider "q = None" "moves s s'"
    | t c where "q = Some t" "cp_super t = compact_init ?w (cp_super raw) raw_file"
        "cp_loader t = (cyanfs_journal_loader_init c (ld_header (cp_loader raw)))\<lparr>ld_end_id := jc_extent_id_ondisk (journal_cursor s)\<rparr>"
        "s' = ?v \<or> s' = super_new_task ?v"
    using c fail
    by (auto simp: super_compact_def Let_def journal_loader_start_def na case_prod_unfold split: if_splits)
      (auto simp: set_flag_def)
  then have "comp_next ?a q s s' \<and> (q \<noteq> None \<longrightarrow> ?a < next_address s')"
  proof cases
    case 2
    have "comp_ok (sm_total_extents (meta s)) (Compact_Loader ?a) Journal_Loader_Parser_Header t"
      using rs loader_ok_init [of "sm_total_extents (meta s)" c "ld_header (cp_loader raw)"]
      by (simp add: comp_ok_def 2 loader_ok_def)
    then have "comp_next ?a q s s'"
      using w 2(4) unfolding comp_next_def 2(1) option.case
      by (intro exI [of _ ?w] exI [of _ "Compact_Loader ?a"] exI conjI) (auto intro: moves_refl)
    moreover have "?a < next_address s'"
      using 2(4) by (auto simp: task_add_tail_def task_init_def super_new_task_def split: option.split)
    ultimately show ?thesis by simp
  qed simp
  then show "comp_next ?a q s s'" "q \<noteq> None \<Longrightarrow> ?a < next_address s'" by simp_all
qed

end
