(* ===== verification/Read_Write.thy ===== *)
theory Read_Write
  imports Super_Api
begin

section \<open>Reading, writing and discarding\<close>

text \<open>
  \<open>src/core/readwrite.c\<close>. The caller's handler is a parameter: it gets the kind of mapping, the backend
  offset and the length of a piece and its own context, and answers with a status. The loops of
  \<open>cyanfs_read\<close>, \<open>cyanfs_write\<close> and \<open>cyanfs_discard\<close> release the files lock between and within their
  iterations; the parameter \<open>env\<close> is what other threads do to the state at the moments when the lock
  is free, numbered in order, and \<open>mem\<close> the outcome of the allocations. A result \<open>None\<close> is a call that
  does not return.
\<close>

datatype map_type = MAP_NOP | MAP_SUBMIT | MAP_REQUEUE

type_synonym 'c handler = "map_type \<Rightarrow> u64 \<Rightarrow> u64 \<Rightarrow> 'c \<Rightarrow> cyanfs_status \<times> 'c"
type_synonym env = "nat \<Rightarrow> super \<Rightarrow> super"

definition extent_zero :: extent where
  "extent_zero = \<lparr>ext_backend = 0, ext_map = False, ext_pending = False, ext_file = 0, ext_error = False\<rparr>"

definition in_range :: "cyanfs_file \<Rightarrow> u64 \<Rightarrow> u64 \<Rightarrow> bool" where
  "in_range f f_off len \<longleftrightarrow> \<not> (f_off > fm_size (f_meta f) \<or> len > fm_size (f_meta f) - f_off)"

subsection \<open>Read\<close>

definition read_dispatch :: "'c handler \<Rightarrow> extent \<Rightarrow> u64 \<Rightarrow> u64 \<Rightarrow> 'c \<Rightarrow> cyanfs_status \<times> 'c" where
  "read_dispatch handler ext f_off l c =
     (if ext_error ext then (IO, c)
      else if \<not> ext_map ext then handler MAP_NOP 0 l c
      else if ext_pending ext then handler MAP_REQUEUE 0 l c
      else handler MAP_SUBMIT (cyanfs_map_extent_offset (ucast (ext_backend ext)) f_off) l c)"

definition read_step ::
    "'c handler \<Rightarrow> super \<Rightarrow> cyanfs_file_id_t \<Rightarrow> u64 \<Rightarrow> u64 \<Rightarrow> 'c \<Rightarrow> (cyanfs_status \<times> 'c) option" where
  "read_step handler s i f_off l c =
     (if ensure_status s \<noteq> Ok then Some (ensure_status s, c)
      else map_option
             (\<lambda>n. read_dispatch handler (case n of None \<Rightarrow> extent_zero | Some v \<Rightarrow> v) f_off l c)
             (file_find_extent_follow s (Some i) f_off))"

partial_function (option) read_loop ::
    "'c handler \<Rightarrow> (nat \<Rightarrow> super) \<Rightarrow> nat \<Rightarrow> cyanfs_file_id_t \<Rightarrow> u64 \<Rightarrow> u64 \<Rightarrow> 'c
     \<Rightarrow> (cyanfs_status \<times> 'c) option" where
  "read_loop handler states k i f_off len c =
     (if len = 0 then Some (Ok, c)
      else
        Option.bind (read_step handler (states k) i f_off (cyanfs_map_extent_space f_off len) c)
          (\<lambda>(err, c).
             if err \<noteq> Ok then Some (err, c)
             else read_loop handler states (k + 1) i (f_off + cyanfs_map_extent_space f_off len)
                    (len - cyanfs_map_extent_space f_off len) c))"

text \<open>A read does not change the state: \<open>states k\<close> is the state that its \<open>k\<close>-th iteration finds.\<close>

definition cyanfs_read ::
    "'c handler \<Rightarrow> (nat \<Rightarrow> super) \<Rightarrow> cyanfs_file_id_t \<Rightarrow> u64 \<Rightarrow> u64 \<Rightarrow> 'c
     \<Rightarrow> (cyanfs_status \<times> 'c) option" where
  "cyanfs_read handler states i f_off len c =
     (case get_file (states 0) i of
        None \<Rightarrow> None
      | Some f \<Rightarrow>
          if len = 0 \<or> \<not> in_range f f_off len then Some (INVAL, c)
          else read_loop handler states 0 i f_off len c)"

subsection \<open>Write\<close>

text \<open>The outcome of the section under the read lock.\<close>

datatype write_found =
    W_Err cyanfs_status
  | W_Mapped extent
  | W_Wait extent
  | W_Alloc "extent option"

definition write_lookup :: "super \<Rightarrow> cyanfs_file_id_t \<Rightarrow> u64 \<Rightarrow> write_found option" where
  "write_lookup s i f_off =
     (if ensure_status s \<noteq> Ok then Some (W_Err (ensure_status s))
      else case get_file s i of
             None \<Rightarrow> None
           | Some f \<Rightarrow>
               (case file_find_extent f f_off of
                  Some n \<Rightarrow> Some (W_Mapped n)
                | None \<Rightarrow>
                    map_option
                      (\<lambda>p. case p of
                             None \<Rightarrow> W_Alloc None
                           | Some p \<Rightarrow>
                               if ext_error p then W_Err IO
                               else if ext_pending p then W_Wait p
                               else W_Alloc (Some p))
                      (file_find_extent_follow s (f_parent f) f_off)))"

text \<open>
  The section under the write lock: the extent that the file has by now or a new one. With a parent
  extent \<open>p\<close> the new extent is pending and a copy task is queued, without one the binding is journaled
  at once. The result has the status, the extent, whether an entry was journaled, whether the queue
  was empty before.
\<close>

definition write_alloc ::
    "cyanfs_file_id_t \<Rightarrow> u64 \<Rightarrow> extent option \<Rightarrow> super
     \<Rightarrow> cyanfs_status \<times> extent option \<times> bool \<times> bool \<times> super" where
  "write_alloc i f_off p s =
     (if ensure_status s \<noteq> Ok then (ensure_status s, None, False, False, s)
      else case get_file s i of
             None \<Rightarrow> (INVAL, None, False, False, panic s)
           | Some f \<Rightarrow>
               (case file_find_extent f f_off of
                  Some n \<Rightarrow> (Ok, Some n, False, False, s)
                | None \<Rightarrow>
                    (case file_alloc_extent i f_off s of
                       (None, s) \<Rightarrow> (NOSPACE, None, False, False, s)
                     | (Some n, s) \<Rightarrow>
                         (let j = JBIND (fm_id (f_meta f)) (ucast (ext_file n)) (ucast (ext_backend n))
                          in case p of
                               Some p \<Rightarrow>
                                 (let s = update_extent i (ext_file n) (\<lambda>n. n\<lparr>ext_pending := True\<rparr>) s;
                                      a = next_address s;
                                      s = s\<lparr>next_address := a + 1,
                                            cow_at := (cow_at s)(a :=
                                              \<lparr>cow_journal = \<lparr>jn_entry = j, jn_flush = True\<rparr>,
                                               cow_file = i, cow_extent = ext_file n\<rparr>)\<rparr>;
                                      s = task_init (Cow_Task a)
                                            (TASK_COPY (cyanfs_map_extent_offset (ucast (ext_backend p)) 0)
                                              (cyanfs_map_extent_offset (ucast (ext_backend n)) 0)
                                              CYANFS_EXTENT_SIZE)
                                            Copy_On_Write_Done s;
                                      (first, s) = task_add_tail (Cow_Task a) s
                                  in (Ok, Some (n\<lparr>ext_pending := True\<rparr>), False, first, s))
                             | None \<Rightarrow>
                                 (Ok, Some n, True, False,
                                  journal_append \<lparr>jn_entry = j, jn_flush = False\<rparr> s)))))"

definition writer_inc :: "super \<Rightarrow> bool \<times> super" where
  "writer_inc s =
     (let w = writer_current_id s in (w, s\<lparr>writers := (writers s)(w := writers s w + 1)\<rparr>))"

definition writer_dec :: "bool \<Rightarrow> super \<Rightarrow> super" where
  "writer_dec w s = s\<lparr>writers := (writers s)(w := writers s w - 1)\<rparr>"

text \<open>
  One iteration up to the call of the handler: the status, the extent that was found (\<open>extent_zero\<close> if
  there is none), the writer counter that was taken, whether an entry was journaled, and the state.
  \<open>env 0\<close> acts between the two sections.
\<close>

definition write_map ::
    "malloc \<Rightarrow> (super \<Rightarrow> super) \<Rightarrow> cyanfs_file_id_t \<Rightarrow> u64 \<Rightarrow> super
     \<Rightarrow> (cyanfs_status \<times> extent \<times> bool option \<times> bool \<times> super) option" where
  "write_map mem env i f_off s =
     map_option
       (\<lambda>found.
          case found of
            W_Err err \<Rightarrow> (err, extent_zero, None, False, s)
          | W_Wait p \<Rightarrow> (Ok, p, None, False, s)
          | W_Mapped n \<Rightarrow> (let (w, s) = writer_inc s in (Ok, n, Some w, False, s))
          | W_Alloc p \<Rightarrow>
              if \<not> mem 0 \<or> (p \<noteq> None \<and> \<not> mem 1) then (NOMEM, extent_zero, None, False, env s)
              else
                (case write_alloc i f_off p (env s) of
                   (err, None, new_journal, call_new_task, s) \<Rightarrow>
                     (err, extent_zero, None, new_journal, s)
                 | (err, Some n, new_journal, call_new_task, s) \<Rightarrow>
                     (let (w, s) = writer_inc s;
                          s = (if call_new_task then super_new_task s else s)
                      in (Ok, n, Some w, new_journal, s))))
       (write_lookup s i f_off)"

definition write_dispatch ::
    "'c handler \<Rightarrow> cyanfs_status \<Rightarrow> extent \<Rightarrow> u64 \<Rightarrow> u64 \<Rightarrow> 'c \<Rightarrow> cyanfs_status \<times> 'c" where
  "write_dispatch handler err ext f_off l c =
     (if ext_error ext then (IO, c)
      else if ext_map ext then
        (if ext_pending ext then handler MAP_REQUEUE 0 l c
         else handler MAP_SUBMIT (cyanfs_map_extent_offset (ucast (ext_backend ext)) f_off) l c)
      else (err, c))"

partial_function (option) write_loop ::
    "'c handler \<Rightarrow> (nat \<Rightarrow> malloc) \<Rightarrow> env \<Rightarrow> nat \<Rightarrow> cyanfs_file_id_t \<Rightarrow> u64 \<Rightarrow> u64 \<Rightarrow> bool \<Rightarrow> super \<Rightarrow> 'c
     \<Rightarrow> (cyanfs_status \<times> bool \<times> super \<times> 'c) option" where
  "write_loop handler mem env k i f_off len new_journal s c =
     (if len = 0 then Some (Ok, new_journal, s, c)
      else
        Option.bind (write_map (mem k) (env (3 * k)) i f_off s)
          (\<lambda>(err, ext, writer, nj, s).
             let (err, c) = write_dispatch handler err ext f_off (cyanfs_map_extent_space f_off len) c;
                 s = env (3 * k + 1) s;
                 s = (case writer of None \<Rightarrow> s | Some w \<Rightarrow> writer_dec w s)
             in if err \<noteq> Ok then Some (err, new_journal \<or> nj, s, c)
                else
                  write_loop handler mem env (k + 1) i
                    (f_off + cyanfs_map_extent_space f_off len)
                    (len - cyanfs_map_extent_space f_off len) (new_journal \<or> nj)
                    (env (3 * k + 2) s) c))"

definition cyanfs_write ::
    "'c handler \<Rightarrow> (nat \<Rightarrow> malloc) \<Rightarrow> bool \<Rightarrow> env \<Rightarrow> cyanfs_file_id_t \<Rightarrow> u64 \<Rightarrow> u64 \<Rightarrow> super \<Rightarrow> 'c
     \<Rightarrow> (cyanfs_status \<times> super \<times> 'c) option" where
  "cyanfs_write handler mem mem_flush env i f_off len s c =
     (case get_file s i of
        None \<Rightarrow> None
      | Some f \<Rightarrow>
          if len = 0 \<or> f_open_type f \<noteq> FILE_READWRITE \<or> \<not> in_range f f_off len then Some (INVAL, s, c)
          else
            map_option
              (\<lambda>(err, new_journal, s, c).
                 (err, if new_journal then super_flush_new_journal mem_flush s else s, c))
              (write_loop handler mem env 0 i f_off len False s c))"

definition copy_on_write_done :: "bool \<Rightarrow> nat \<Rightarrow> cyanfs_status \<Rightarrow> super \<Rightarrow> super" where
  "copy_on_write_done mem a err s =
     (let t = cow_at s a;
          s = update_extent (cow_file t) (cow_extent t) (\<lambda>n. n\<lparr>ext_pending := False\<rparr>) s
      in if err \<noteq> Ok then
           update_extent (cow_file t) (cow_extent t) (\<lambda>n. n\<lparr>ext_error := True\<rparr>) s
         else super_flush_new_journal mem (journal_append (cow_journal t) s))"

subsection \<open>Discard\<close>

datatype discard_found =
    D_Err cyanfs_status
  | D_Done map_type
  | D_Unmap extent

text \<open>The checks from the label \<open>upgraded\<close> on, made under the read lock and again under the write lock.\<close>

definition discard_check :: "super \<Rightarrow> cyanfs_file_id_t \<Rightarrow> u64 \<Rightarrow> u64 \<Rightarrow> discard_found option" where
  "discard_check s i f_off l =
     (if ensure_status s \<noteq> Ok then Some (D_Err (ensure_status s))
      else if cyanfs_extent_begin (cyanfs_extent_from f_off) \<noteq> f_off \<or> l < CYANFS_EXTENT_SIZE
      then Some (D_Done MAP_NOP)
      else case get_file s i of
             None \<Rightarrow> None
           | Some f \<Rightarrow>
               map_option
                 (\<lambda>p. if p \<noteq> None then D_Done MAP_NOP
                      else case file_find_extent f f_off of
                             None \<Rightarrow> D_Done MAP_NOP
                           | Some n \<Rightarrow>
                               if ext_error n then D_Err IO
                               else if ext_pending n then D_Done MAP_REQUEUE
                               else D_Unmap n)
                 (file_find_extent_follow s (f_parent f) f_off))"

text \<open>
  One iteration up to the call of the handler: the error or the kind of mapping, whether the flag
  \<open>new_journal\<close> was set, and the state. \<open>env\<close> acts while the lock is upgraded.
\<close>

definition discard_map ::
    "bool \<Rightarrow> (super \<Rightarrow> super) \<Rightarrow> cyanfs_file_id_t \<Rightarrow> u64 \<Rightarrow> u64 \<Rightarrow> super
     \<Rightarrow> ((cyanfs_status + map_type) \<times> bool \<times> super) option" where
  "discard_map mem env i f_off l s =
     Option.bind (discard_check s i f_off l)
       (\<lambda>found.
          case found of
            D_Err err \<Rightarrow> Some (Inl err, False, s)
          | D_Done m \<Rightarrow> Some (Inr m, False, s)
          | D_Unmap _ \<Rightarrow>
              if \<not> mem then Some (Inl NOMEM, False, env s)
              else
                map_option
                  (\<lambda>found.
                     case found of
                       D_Err err \<Rightarrow> (Inl err, True, env s)
                     | D_Done m \<Rightarrow> (Inr m, True, env s)
                     | D_Unmap n \<Rightarrow>
                         (Inr MAP_NOP, True,
                          journal_append
                            \<lparr>jn_entry = JUNBIND i (cyanfs_extent_from f_off), jn_flush = True\<rparr>
                            (file_unmap_extent i n (env s))))
                  (discard_check (env s) i f_off l))"

partial_function (option) discard_loop ::
    "'c handler \<Rightarrow> malloc \<Rightarrow> env \<Rightarrow> nat \<Rightarrow> cyanfs_file_id_t \<Rightarrow> u64 \<Rightarrow> u64 \<Rightarrow> bool \<Rightarrow> super \<Rightarrow> 'c
     \<Rightarrow> (cyanfs_status \<times> bool \<times> super \<times> 'c) option" where
  "discard_loop handler mem env k i f_off len new_journal s c =
     (if len = 0 then Some (Ok, new_journal, s, c)
      else
        Option.bind (discard_map (mem k) (env (2 * k)) i f_off (cyanfs_map_extent_space f_off len) s)
          (\<lambda>(found, nj, s).
             let (err, c) =
                   (case found of
                      Inl err \<Rightarrow> (err, c)
                    | Inr m \<Rightarrow> handler m 0 (cyanfs_map_extent_space f_off len) c)
             in if err \<noteq> Ok then Some (err, new_journal \<or> nj, s, c)
                else
                  discard_loop handler mem env (k + 1) i
                    (f_off + cyanfs_map_extent_space f_off len)
                    (len - cyanfs_map_extent_space f_off len) (new_journal \<or> nj)
                    (env (2 * k + 1) s) c))"

definition cyanfs_discard ::
    "'c handler \<Rightarrow> malloc \<Rightarrow> bool \<Rightarrow> env \<Rightarrow> cyanfs_file_id_t \<Rightarrow> u64 \<Rightarrow> u64 \<Rightarrow> super \<Rightarrow> 'c
     \<Rightarrow> (cyanfs_status \<times> super \<times> 'c) option" where
  "cyanfs_discard handler mem mem_flush env i f_off len s c =
     (case get_file s i of
        None \<Rightarrow> None
      | Some f \<Rightarrow>
          if len = 0 \<or> f_open_type f \<noteq> FILE_READWRITE \<or> \<not> in_range f f_off len then Some (INVAL, s, c)
          else
            map_option
              (\<lambda>(err, new_journal, s, c).
                 (err, if new_journal then super_flush_new_journal mem_flush s else s, c))
              (discard_loop handler mem env 0 i f_off len False s c))"

subsection \<open>Flush, requeue and seek\<close>

definition cyanfs_flush :: "bool \<Rightarrow> super \<Rightarrow> cyanfs_status \<times> map_type option \<times> super" where
  "cyanfs_flush mem s =
     (let (err, s) = super_flush mem False s
      in if err \<noteq> Ok then (err, None, s)
         else (Ok, Some (if task_head s = [] \<and> active_tasks s = 0 then MAP_SUBMIT else MAP_REQUEUE), s))"

definition cyanfs_requeue :: "bool \<Rightarrow> cyanfs_file_id_t \<Rightarrow> nat \<Rightarrow> super \<Rightarrow> cyanfs_status \<times> super" where
  "cyanfs_requeue mem i ctx s =
     (if \<not> mem then (NOMEM, s)
      else
        (let a = next_address s;
             s = s\<lparr>next_address := a + 1\<rparr>;
             s = task_init (Requeue_Task a) (TASK_REQUEUE i ctx) Task_Free_Done s;
             (first, s) = task_add_tail (Requeue_Task a) s
         in (Ok, if first then super_new_task s else s)))"

definition cyanfs_seek_extent :: "super \<Rightarrow> cyanfs_file_id_t \<Rightarrow> u64 \<Rightarrow> (cyanfs_status \<times> u64) option" where
  "cyanfs_seek_extent s i f_off =
     (case get_file s i of
        None \<Rightarrow> None
      | Some f \<Rightarrow>
          if f_open_type f \<noteq> FILE_READONLY then Some (INVAL, f_off)
          else if f_off \<ge> fm_size (f_meta f) then Some (NOENT, f_off)
          else case idx_nfind (f_extents f) (ucast (cyanfs_extent_from f_off)) of
                 None \<Rightarrow> Some (NOENT, f_off)
               | Some (_, n) \<Rightarrow>
                   (let begin' = cyanfs_extent_begin (ucast (ext_file n))
                    in Some (Ok, if begin' > f_off then begin' else f_off)))"

text \<open>
  The loop over the ancestors of \<open>cyanfs_seek_data\<close>: the first index with an extent that is visible
  through the sizes on the way up; \<open>first\<close> is \<open>cyanfs_extent_id_invalid\<close> while there is none.
\<close>

partial_function (option) seek_ancestors ::
    "super \<Rightarrow> bitfield30 \<Rightarrow> cyanfs_file_id_t option \<Rightarrow> u64 \<Rightarrow> cyanfs_extent_id \<Rightarrow> cyanfs_extent_id option" where
  "seek_ancestors s tmp ancestor visible_size first =
     (case ancestor of
        None \<Rightarrow> Some first
      | Some i \<Rightarrow>
          (case get_file s i of
             None \<Rightarrow> None
           | Some f \<Rightarrow>
               let visible_size = (if fm_size (f_meta f) < visible_size then fm_size (f_meta f)
                                   else visible_size)
               in if cyanfs_extent_begin (ucast tmp) \<ge> visible_size then Some first
                  else case idx_nfind (f_extents f) tmp of
                         None \<Rightarrow> seek_ancestors s tmp (f_parent f) visible_size first
                       | Some (_, n) \<Rightarrow>
                           seek_ancestors s tmp (f_parent f) visible_size
                             (if cyanfs_extent_begin (ucast (ext_file n)) < visible_size \<and>
                                 (first = cyanfs_extent_id_invalid \<or> ucast (ext_file n) < first)
                              then ucast (ext_file n) else first)))"

definition cyanfs_seek_data :: "super \<Rightarrow> cyanfs_file_id_t \<Rightarrow> u64 \<Rightarrow> (cyanfs_status \<times> u64) option" where
  "cyanfs_seek_data s i f_off =
     (case get_file s i of
        None \<Rightarrow> None
      | Some f \<Rightarrow>
          if f_open_type f \<noteq> FILE_READONLY then Some (INVAL, f_off)
          else if f_off \<ge> fm_size (f_meta f) then Some (NOENT, f_off)
          else if ensure_status s \<noteq> Ok then Some (ensure_status s, f_off)
          else
            Option.bind
              (seek_ancestors s (ucast (cyanfs_extent_from f_off)) (Some i) (fm_size (f_meta f))
                cyanfs_extent_id_invalid)
              (\<lambda>first.
                 if first = cyanfs_extent_id_invalid then Some (NOENT, f_off)
                 else
                   Option.bind (file_find_extent_follow s (Some i) (cyanfs_extent_begin first))
                     (\<lambda>n. case n of
                            None \<Rightarrow> None
                          | Some n \<Rightarrow>
                              if ext_error n then Some (IO, f_off)
                              else
                                (let begin' = cyanfs_extent_begin first
                                 in Some (Ok, if begin' > f_off then begin' else f_off)))))"

end
