(* ===== verification/Read_Write_Inv.thy ===== *)
theory Read_Write_Inv
  imports Read_Write Flusher_Inv
begin

section \<open>Correctness of reading and writing\<close>

subsection \<open>The walk to the ancestors\<close>

text \<open>
  What a file shows at an offset: its own extent, or what its parent shows there, as far as the sizes
  on the way allow. Parents are older than their children, so the recursion ends.
\<close>

function resolve :: "super \<Rightarrow> cyanfs_file_id_t option \<Rightarrow> u64 \<Rightarrow> extent option" where
  "resolve s None f_off = None"
| "resolve s (Some i) f_off =
     (case get_file s i of
        None \<Rightarrow> None
      | Some f \<Rightarrow>
          if cyanfs_extent_begin (cyanfs_extent_from f_off) < fm_size (f_meta f) then
            (case file_find_extent f f_off of
               Some n \<Rightarrow> Some n
             | None \<Rightarrow>
                 (case f_parent f of
                    None \<Rightarrow> None
                  | Some p \<Rightarrow> if p < i then resolve s (Some p) f_off else None))
          else None)"
  by pat_completeness auto
termination
  by (relation "measure (\<lambda>(s, f, f_off). case f of None \<Rightarrow> 0 | Some i \<Rightarrow> unat i)")
    (auto simp: word_less_nat_alt)

declare resolve.simps(2) [simp del]

lemma parent_older:
  "file_inv s \<Longrightarrow> get_file s i = Some f \<Longrightarrow> f_parent f = Some p \<Longrightarrow> p < i \<and> get_file s p \<noteq> None"
  by (drule (1) file_invD(2)) (simp add: file_linked_def)

lemma follow_resolve:
  assumes "file_inv s" "\<forall>i. fo = Some i \<longrightarrow> get_file s i \<noteq> None"
  shows "file_find_extent_follow s fo f_off = Some (resolve s fo f_off)"
  using assms
proof (induction s fo f_off rule: resolve.induct)
  case (1 s f_off)
  then show ?case by (subst file_find_extent_follow.simps) simp
next
  case (2 s i f_off)
  then obtain f where f: "get_file s i = Some f" by auto
  show ?case
  proof (cases "cyanfs_extent_begin (cyanfs_extent_from f_off) < fm_size (f_meta f) \<and>
      file_find_extent f f_off = None")
    case False
    then show ?thesis
      using f by (subst file_find_extent_follow.simps) (auto simp: resolve.simps(2) [of s i f_off] split: option.split)
  next
    case True
    show ?thesis
    proof (cases "f_parent f")
      case None
      then show ?thesis
        using f True file_find_extent_follow.simps [of s None f_off]
        by (subst file_find_extent_follow.simps) (simp add: resolve.simps(2) [of s i f_off])
    next
      case (Some p)
      have p: "p < i" "get_file s p \<noteq> None"
        using parent_older [OF "2.prems"(1) f Some] by simp_all
      then have "file_find_extent_follow s (Some p) f_off = Some (resolve s (Some p) f_off)"
        using "2.IH" [OF f] True Some "2.prems" by simp
      then show ?thesis
        using f True Some p by (subst file_find_extent_follow.simps) (simp add: resolve.simps(2) [of s i f_off])
    qed
  qed
qed

lemma resolve_block:
  assumes "resolve s fo f_off = Some n"
  shows "\<exists>i. block s i (ucast (cyanfs_extent_from f_off)) = Some n"
  using assms
proof (induction s fo f_off rule: resolve.induct)
  case (2 s i f_off)
  then obtain f where f: "get_file s i = Some f"
      "cyanfs_extent_begin (cyanfs_extent_from f_off) < fm_size (f_meta f)"
    by (auto simp: resolve.simps(2) [of s i f_off] split: option.splits if_splits)
  show ?case
  proof (cases "file_find_extent f f_off")
    case None
    then obtain p where p: "f_parent f = Some p" "p < i" "resolve s (Some p) f_off = Some n"
      using "2.prems" f by (auto simp: resolve.simps(2) [of s i f_off] split: option.splits if_splits)
    show ?thesis by (rule "2.IH" [OF f(1,2) None p])
  next
    case (Some m)
    then have "block s i (ucast (cyanfs_extent_from f_off)) = Some n"
      using "2.prems" f by (simp add: resolve.simps(2) [of s i f_off] block_def file_find_extent_def)
    then show ?thesis by blast
  qed
qed simp

subsection \<open>Splitting a range at the borders of extents\<close>

text \<open>The bytes from an offset to the end of its extent.\<close>

definition room :: "nat \<Rightarrow> nat" where
  "room off = 2 ^ 20 - off mod 2 ^ 20"

lemma room_pos [simp]: "0 < room off"
  by (simp add: room_def)

lemma room_end: "off mod 2 ^ 20 + room off = 2 ^ 20"
proof -
  have "off mod 2 ^ 20 < 2 ^ 20" by (rule mod_less_divisor) simp
  then show ?thesis unfolding room_def by linarith
qed

function split_range :: "nat \<Rightarrow> nat \<Rightarrow> (nat \<times> nat) list" where
  "split_range off len =
     (if len = 0 then []
      else (off, min len (room off)) # split_range (off + min len (room off)) (len - min len (room off)))"
  by auto
termination
  by (relation "measure snd") simp_all

declare split_range.simps [simp del]

lemma split_range_Nil [simp]: "split_range off 0 = []"
  by (simp add: split_range.simps)

lemma split_range_Cons:
  "0 < len \<Longrightarrow> l = min len (room off) \<Longrightarrow> split_range off len = (off, l) # split_range (off + l) (len - l)"
  by (subst split_range.simps) simp

lemma split_range_induct [case_names Nil Cons]:
  fixes off len :: nat
  assumes "\<And>off. P off 0"
    and "\<And>off len l. 0 < len \<Longrightarrow> l = min len (room off) \<Longrightarrow> 0 < l \<Longrightarrow> P (off + l) (len - l) \<Longrightarrow> P off len"
  shows "P off len"
proof (induction off len rule: split_range.induct)
  case (1 off len)
  then show ?case using assms(1) [of off] assms(2) [of len _ off] by (cases "len = 0") auto
qed

lemma split_range_total: "sum_list (map snd (split_range off len)) = len"
proof (induction off len rule: split_range_induct)
  case (Cons off len l)
  then show ?case by (simp add: split_range_Cons [OF Cons.hyps(1,2)])
qed simp

lemma split_range_bounds:
  "(o', l) \<in> set (split_range off len) \<Longrightarrow>
     off \<le> o' \<and> o' + l \<le> off + len \<and> 0 < l \<and> o' mod 2 ^ 20 + l \<le> 2 ^ 20"
proof (induction off len rule: split_range_induct)
  case (Cons off len k)
  have k: "k \<le> len" "off mod 2 ^ 20 + k \<le> 2 ^ 20"
    using Cons.hyps room_end [of off] by linarith+
  have "(o', l) = (off, k) \<or> (o', l) \<in> set (split_range (off + k) (len - k))"
    using Cons.prems by (simp add: split_range_Cons [OF Cons.hyps(1,2)])
  then show ?case
  proof
    assume "(o', l) = (off, k)"
    then show ?thesis using k Cons.hyps by simp
  next
    assume "(o', l) \<in> set (split_range (off + k) (len - k))"
    then show ?thesis using Cons.IH k by linarith
  qed
qed simp

lemma split_range_contiguous:
  "j < length (split_range off len) \<Longrightarrow>
     fst (split_range off len ! j) = off + sum_list (map snd (take j (split_range off len)))"
proof (induction off len arbitrary: j rule: split_range_induct)
  case (Cons off len k)
  note eq = split_range_Cons [OF Cons.hyps(1,2)]
  show ?case
  proof (cases j)
    case (Suc j')
    then show ?thesis using Cons.IH [of j'] Cons.prems by (simp add: eq)
  qed (simp add: eq)
qed simp

lemma map_space_step:
  assumes "unat off + unat len \<le> 2 ^ 50" "len \<noteq> 0"
  defines "l \<equiv> cyanfs_map_extent_space off len"
  shows "unat l = min (unat len) (room (unat off))" "0 < unat l"
    "unat (off + l) = unat off + unat l" "unat (len - l) = unat len - unat l"
proof -
  have len: "0 < unat len" using assms(2) by (simp add: unat_gt_0)
  have small: "unat off < 2 ^ 52" using assms(1) by simp
  show l: "unat l = min (unat len) (room (unat off))"
  proof -
    have "(unat off div 2 ^ 20 + 1) * 2 ^ 20 = unat off + room (unat off)"
      using div_mult_mod_eq [of "unat off" "2 ^ 20"] room_end [of "unat off"]
      by (simp only: distrib_right mult_1)
    then show ?thesis
      unfolding l_def unat_map_extent_space [OF small] by simp
  qed
  show "0 < unat l" using l len by simp
  have le: "unat l \<le> unat len" using l by simp
  show "unat (off + l) = unat off + unat l"
    using le assms(1) by (subst unat_add_no_wrap) simp_all
  show "unat (len - l) = unat len - unat l" by (rule unat_diff_no_wrap [OF le])
qed

subsection \<open>Read\<close>

text \<open>
  The reference for a read: the pieces of the range in order, each shown what the file shows at its
  offset in the state of the moment, up to the first error.
\<close>

definition shown :: "super \<Rightarrow> cyanfs_file_id_t \<Rightarrow> u64 \<Rightarrow> extent" where
  "shown s i f_off = (case resolve s (Some i) f_off of None \<Rightarrow> extent_zero | Some n \<Rightarrow> n)"

fun read_pieces ::
    "'c handler \<Rightarrow> (nat \<Rightarrow> super) \<Rightarrow> nat \<Rightarrow> cyanfs_file_id_t \<Rightarrow> (nat \<times> nat) list \<Rightarrow> 'c \<Rightarrow> cyanfs_status \<times> 'c" where
  "read_pieces h states k i [] c = (Ok, c)"
| "read_pieces h states k i ((off, l) # ps) c =
     (let (err, c) =
        (if ensure_status (states k) \<noteq> Ok then (ensure_status (states k), c)
         else read_dispatch h (shown (states k) i (of_nat off)) (of_nat off) (of_nat l) c)
      in if err \<noteq> Ok then (err, c) else read_pieces h states (k + 1) i ps c)"

lemma read_step_eq:
  assumes "file_inv s" "get_file s i \<noteq> None"
  shows "read_step h s i f_off l c =
    Some (if ensure_status s \<noteq> Ok then (ensure_status s, c)
          else read_dispatch h (shown s i f_off) f_off l c)"
  using follow_resolve [of s "Some i" f_off] assms
  by (simp add: read_step_def shown_def)

lemma read_loop_pieces:
  assumes "\<And>k. file_inv (states k)" "\<And>k. get_file (states k) i \<noteq> None"
    and "unat f_off + unat len \<le> 2 ^ 50"
  shows "read_loop h states k i f_off len c =
    Some (read_pieces h states k i (split_range (unat f_off) (unat len)) c)"
  using assms(3)
proof (induction "unat f_off" "unat len" arbitrary: f_off len k c rule: split_range_induct)
  case Nil
  then show ?case by (subst read_loop.simps) (simp add: unat_eq_0)
next
  case (Cons l)
  let ?l = "cyanfs_map_extent_space f_off len"
  have nz: "len \<noteq> 0" using Cons.hyps(1) by auto
  note sp = map_space_step [OF Cons.prems nz]
  have l: "l = unat ?l" using sp(1) Cons.hyps(2) by simp
  have IH: "read_loop h states (k + 1) i (f_off + ?l) (len - ?l) c' =
      Some (read_pieces h states (k + 1) i (split_range (unat f_off + l) (unat len - l)) c')" for c'
    using Cons.hyps(4) [of "f_off + ?l" "len - ?l" "k + 1" c'] sp(3,4) Cons.prems Cons.hyps(2) l by simp
  show ?case
    using nz
    by (subst read_loop.simps)
      (simp add: read_step_eq [OF assms(1,2)] split_range_Cons [OF Cons.hyps(1,2)] IH [unfolded Suc_eq_plus1 [symmetric]] IH l
        case_prod_unfold Let_def)
qed

subsection \<open>The file table and single extents\<close>

lemma unat_ucast_up: "unat (ucast k :: u32) = unat k" for k :: bitfield30
  using unat_bounds(3) [of k] by (simp add: unat_ucast_mod)

lemma ucast_up_down: "(ucast (ucast k :: u32) :: bitfield30) = k"
  using unat_bounds(3) [of k] by (simp add: word_unat_eq_iff unat_ucast_up unat_index)

lemma live_file_change:
  assumes ch: "file_change i s s' m" and f: "get_file s i = Some f"
  shows "live_table s' = set_file i ((abs_file f)\<lparr>af_blocks := (\<lambda>k. Option.bind (m k) committed)\<rparr>) (live_table s)"
proof -
  obtain f' where f': "get_file s' i = Some f'" "file_rest f' = file_rest f" "idx_find (f_extents f') = m"
    using ch f by (rule file_change_obtain)
  have "abs_file f' = (abs_file f)\<lparr>af_blocks := (\<lambda>k. Option.bind (m k) committed)\<rparr>"
    by (simp add: abs_file_def f'(3) file_rest_D [OF f'(2)])
  then have "abs_files s' = (abs_files s)(i \<mapsto> (abs_file f)\<lparr>af_blocks := (\<lambda>k. Option.bind (m k) committed)\<rparr>)"
    using f'(1) file_changeD(4) [OF ch] by (auto simp: abs_files_def)
  then show ?thesis
    using total_extents_frame [OF file_changeD(2) [OF ch]] super_rest_D(9) [OF file_changeD(2) [OF ch]]
    by (simp add: live_table_def table_of_def set_file_def)
qed

lemma set_file_same: "abs_files s i = Some f \<Longrightarrow> set_file i f (live_table s) = live_table s"
  by (simp add: set_file_def live_table_def table_of_def fun_upd_idem)

lemma super_inv_change:
  assumes inv: "super_inv s" and ch: "file_change i s s' m" and f: "get_file s i = Some f"
    and pend: "\<And>k n. m k = Some n \<Longrightarrow> ext_pending n \<Longrightarrow> f_open_type f = FILE_READWRITE"
  shows "super_inv s'"
  using inv file_inv_change [OF super_invD(2) [OF inv] ch f pend] file_changeD(1,3) [OF ch]
    total_extents_frame [OF file_changeD(2) [OF ch]]
  by (simp add: super_inv_def)

lemma block_used_live:
  "block_used (live_table s) b \<longleftrightarrow> (\<exists>i k n. block s i k = Some n \<and> committed n = Some b)"
proof -
  have "(\<exists>f. abs_files s i = Some f \<and> af_blocks f k = Some b) \<longleftrightarrow>
      (\<exists>n. block s i k = Some n \<and> committed n = Some b)" for i k
    by (cases "get_file s i") (auto simp: abs_files_def block_def bind_eq_Some_conv)
  then show ?thesis unfolding block_used_def by simp blast
qed

lemma committed_backend: "committed n = Some b \<Longrightarrow> ext_backend n = b"
  by (auto simp: committed_def split: if_splits)

text \<open>An extent that one file holds, and that is not valid yet, can be bound by a journal entry.\<close>

lemma bind_entry:
  assumes inv: "super_inv s" and f: "get_file s i = Some f"
    and m: "\<And>n. idx_find (f_extents f) k = Some n \<Longrightarrow> committed n = None"
    and fit: "fits (fm_size (f_meta f)) k"
    and own: "unat b < total_extents s" "\<And>j l n. block s j l = Some n \<Longrightarrow> committed n = Some b \<Longrightarrow> False"
  shows "apply_entry (JBIND i (ucast k) (ucast b)) (live_table s) =
    Some (set_file i ((abs_file f)\<lparr>af_blocks := (af_blocks (abs_file f))(k \<mapsto> b)\<rparr>) (live_table s))"
proof -
  have "af_blocks (abs_file f) k = None"
    using m by (cases "idx_find (f_extents f) k") auto
  moreover have "\<not> block_used (live_table s) b"
    using own(2) by (auto simp: block_used_live)
  ultimately show ?thesis
    using f fit own(1) unat_bounds(3) [of k] unat_bounds(3) [of b]
    by (simp add: abs_files_get unat_ucast_up ucast_up_down del: abs_file_simps(4))
qed

lemma held_elsewhere:
  assumes "super_inv s" "idx_find (trees s T) b \<noteq> None" "block s j l = Some n"
  shows "ext_backend n \<noteq> b"
proof
  have own: "ownership s" using assms(1) by (simp add: super_inv_def extent_inv_def)
  assume "ext_backend n = b"
  then have "held_at s (In_File j l) b" using assms(3) by simp
  moreover have "held_at s (In_Tree T) b" using assms(2) by simp
  ultimately show False using held_unique(1) [OF own] by blast
qed

lemma held_in_tree: "super_inv s \<Longrightarrow> idx_find (trees s T) b \<noteq> None \<Longrightarrow> unat b < total_extents s"
  using held_unique(2) [of s "In_Tree T" b] by (simp add: super_inv_def extent_inv_def)

lemma keeps_pending_moves: "moves s s' \<Longrightarrow> keeps_pending s s'"
  by (auto simp: moves_def file_view_def keeps_pending_def block_def get_file_def)

subsection \<open>Write\<close>

definition offset_index :: "u64 \<Rightarrow> bitfield30" where
  "offset_index f_off = ucast (cyanfs_extent_from f_off)"

lemma file_find_index: "file_find_extent f f_off = idx_find (f_extents f) (offset_index f_off)"
  by (simp add: file_find_extent_def offset_index_def)

lemma trees_alloc: "T \<noteq> Free_Extents \<Longrightarrow> trees (snd (file_alloc_extent i off s)) T = trees s T"
  by (simp add: file_alloc_extent_def Let_def case_prod_unfold trees_map split: option.split)

lemma addr_inv_trees:
  "addr_inv s \<Longrightarrow> next_address s' = next_address s \<Longrightarrow>
     (\<And>a. trees s' (Flusher_Unused a) = trees s (Flusher_Unused a)) \<Longrightarrow> addr_inv s'"
  by (simp add: addr_inv_def)

text \<open>A file that is open for writing and the offsets at which it can be written.\<close>

definition writable :: "super \<Rightarrow> cyanfs_file_id_t \<Rightarrow> u64 \<Rightarrow> cyanfs_file \<Rightarrow> bool" where
  "writable s i f_off f \<longleftrightarrow>
     get_file s i = Some f \<and> f_open_type f = FILE_READWRITE \<and> unat f_off < unat (fm_size (f_meta f))"

lemma writable_size:
  assumes "super_inv s" "writable s i f_off f"
  shows "unat (fm_size (f_meta f)) \<le> 2 ^ 50"
  using file_invD(1) [OF super_invD(2) [OF assms(1)], of i f] assms(2)
  by (simp add: writable_def file_local_def file_size_validate_Ok)

lemma alloc_outcome:
  assumes inv: "super_inv s" and w: "writable s i f_off f"
    and un: "file_find_extent f f_off = None" and room: "sm_reserved_extents (meta s) < sm_free_extents (meta s)"
  obtains t n where "file_alloc_extent i f_off s = (Some n, t)" "ext_file n = offset_index f_off" "ext_map n"
    "\<not> ext_pending n" "\<not> ext_error n" "idx_find (trees s Free_Extents) (ext_backend n) \<noteq> None"
    "file_change i s t ((idx_find (f_extents f))(offset_index f_off \<mapsto> n))"
    "fits (fm_size (f_meta f)) (offset_index f_off)"
proof -
  have f: "get_file s i = Some f" and lt: "unat f_off < unat (fm_size (f_meta f))"
    using w by (simp_all add: writable_def)
  note sp = file_alloc_spec [OF super_invD(1) [OF inv] f writable_size [OF inv w] lt un]
  then obtain t n where a: "file_alloc_extent i f_off s = (Some n, t)" "ext_file n = offset_index f_off" "ext_map n"
      "\<not> ext_pending n" "\<not> ext_error n" "unat (offset_index f_off) = unat f_off div 2 ^ 20"
      "idx_find (trees s Free_Extents) (ext_backend n) \<noteq> None"
      "file_change i s t ((idx_find (f_extents f))(offset_index f_off \<mapsto> n))"
    using room unfolding offset_index_def by auto
  have "fits (fm_size (f_meta f)) (offset_index f_off)"
    unfolding fits_def a(6) using lt div_times_less_eq_dividend [of "unat f_off" "2 ^ 20"] by linarith
  then show ?thesis using that a by blast
qed

lemma write_alloc_bind:
  assumes inv: "super_inv s" "addr_inv s" and w: "writable s i f_off f" and st: "ensure_status s = Ok"
    and un: "file_find_extent f f_off = None" and room: "sm_reserved_extents (meta s) < sm_free_extents (meta s)"
  obtains s' n where "write_alloc i f_off None s = (Ok, Some n, True, False, s')" "super_inv s'" "addr_inv s'"
    "block s' i (offset_index f_off) = Some n" "ext_map n" "\<not> ext_pending n" "\<not> ext_error n"
    "journaled s (JBIND i (ucast (offset_index f_off)) (ucast (ext_backend n))) s'" "keeps_pending s s'"
    "task_head s' = task_head s" "next_address s' = next_address s" "cow_at s' = cow_at s"
    "active_tasks s' = active_tasks s" "trees s' Journal_Extents = trees s Journal_Extents"
    "idx_find (trees s Free_Extents) (ext_backend n) \<noteq> None"
    "\<exists>f'. get_file s' i = Some f' \<and> file_rest f' = file_rest f" "flags s' = flags s" "quiet s s'"
proof -
  have f: "get_file s i = Some f" using w by (simp add: writable_def)
  obtain t n where a: "file_alloc_extent i f_off s = (Some n, t)" "ext_file n = offset_index f_off" "ext_map n"
    "\<not> ext_pending n" "\<not> ext_error n" "idx_find (trees s Free_Extents) (ext_backend n) \<noteq> None"
    and ch: "file_change i s t ((idx_find (f_extents f))(offset_index f_off \<mapsto> n))"
    and fit: "fits (fm_size (f_meta f)) (offset_index f_off)"
    by (rule alloc_outcome [OF inv(1) w un room])
  note R = super_rest_D [OF file_changeD(2) [OF ch]]
  let ?j = "JBIND i (ucast (offset_index f_off)) (ucast (ext_backend n))"
  let ?s' = "journal_append \<lparr>jn_entry = ?j, jn_flush = False\<rparr> t"
  have id: "fm_id (f_meta f) = i"
    using file_invD(2) [OF super_invD(2) [OF inv(1)] f] by (simp add: file_linked_def)
  have eq: "write_alloc i f_off None s = (Ok, Some n, True, False, ?s')"
    using st f un a(1,2) id by (simp add: write_alloc_def Let_def)
  have t: "super_inv t"
    by (rule super_inv_change [OF inv(1) ch f]) (use w in \<open>simp add: writable_def\<close>)
  have "addr_inv t"
    by (rule addr_inv_trees [OF inv(2) R(21)]) (use trees_alloc [of _ i f_off s] a(1) in simp)
  moreover have "committed n = Some (ext_backend n)" using a by (simp add: committed_def)
  then have "live_table t = set_file i ((abs_file f)\<lparr>af_blocks :=
      (af_blocks (abs_file f))(offset_index f_off \<mapsto> ext_backend n)\<rparr>) (live_table s)"
    unfolding live_file_change [OF ch f] by (auto intro!: arg_cong [where f = "\<lambda>g. set_file i (abs_file f\<lparr>af_blocks := g\<rparr>) (live_table s)"])
  moreover have "block s j l = Some m \<Longrightarrow> committed m = Some (ext_backend n) \<Longrightarrow> False" for j l m
    using held_elsewhere [OF inv(1) a(6), of j l m] committed_backend by blast
  then have "apply_entry ?j (live_table s) = Some (set_file i ((abs_file f)\<lparr>af_blocks :=
      (af_blocks (abs_file f))(offset_index f_off \<mapsto> ext_backend n)\<rparr>) (live_table s))"
    using un held_in_tree [OF inv(1) a(6)]
    by (intro bind_entry [OF inv(1) f _ fit]) (auto simp: file_find_index)
  ultimately have jo: "journaled s ?j ?s'" and ad: "addr_inv ?s'"
    by (simp_all add: journaled_def R addr_inv_def del: apply_entry.simps)
  have bl: "block t = (\<lambda>j. if j = i then (idx_find (f_extents f))(offset_index f_off \<mapsto> n) else block s j)"
    using block_file_change [OF ch] by auto
  have "block ?s' = block t" by (simp add: block_def fun_eq_iff)
  moreover have "block s i = idx_find (f_extents f)" using f by (simp add: block_def fun_eq_iff)
  ultimately have "block ?s' i (offset_index f_off) = Some n" "keeps_pending s ?s'"
    using un by (auto simp: bl keeps_pending_def file_find_index)
  moreover have "trees ?s' Journal_Extents = trees s Journal_Extents"
    using trees_alloc [of Journal_Extents i f_off s] a(1) by simp
  moreover have "\<exists>f'. get_file ?s' i = Some f' \<and> file_rest f' = file_rest f"
    using ch f by (rule file_change_obtain) simp
  moreover have "quiet s ?s'" by (rule quiet_trans [OF quiet_rest [OF file_changeD(2) [OF ch]] quiet_append])
  ultimately show ?thesis
    using that [OF eq _ ad] t a(3-6) jo R by simp
qed

lemma write_alloc_cow:
  assumes inv: "super_inv s" "addr_inv s" and w: "writable s i f_off f" and st: "ensure_status s = Ok"
    and un: "file_find_extent f f_off = None" and room: "sm_reserved_extents (meta s) < sm_free_extents (meta s)"
  obtains s' n where
    "write_alloc i f_off (Some p) s = (Ok, Some n, False, task_head s = [], s')" "super_inv s'" "addr_inv s'"
    "block s' i (offset_index f_off) = Some n" "ext_map n" "ext_pending n" "\<not> ext_error n"
    "live_table s' = live_table s" "journal_log s' = journal_log s" "keeps_pending s s'"
    "active_tasks s' = active_tasks s" "trees s' Journal_Extents = trees s Journal_Extents"
    "idx_find (trees s Free_Extents) (ext_backend n) \<noteq> None"
    "task_head s' = task_head s @ [Cow_Task (next_address s)]" "next_address s' = next_address s + 1"
    "cow_at s' = (cow_at s)(next_address s :=
       \<lparr>cow_journal = \<lparr>jn_entry = JBIND i (ucast (offset_index f_off)) (ucast (ext_backend n)), jn_flush = True\<rparr>,
        cow_file = i, cow_extent = offset_index f_off\<rparr>)"
    "task_at s' (Cow_Task (next_address s)) =
       \<lparr>t_done = Copy_On_Write_Done,
        t_type = TASK_COPY (cyanfs_map_extent_offset (ucast (ext_backend p)) 0)
          (cyanfs_map_extent_offset (ucast (ext_backend n)) 0) CYANFS_EXTENT_SIZE\<rparr>"
    "undisturbed s s'"
proof -
  have f: "get_file s i = Some f" and rw: "f_open_type f = FILE_READWRITE" using w by (simp_all add: writable_def)
  let ?k = "offset_index f_off"
  obtain t n where a: "file_alloc_extent i f_off s = (Some n, t)" "ext_file n = ?k" "ext_map n"
    "\<not> ext_pending n" "\<not> ext_error n" "idx_find (trees s Free_Extents) (ext_backend n) \<noteq> None"
    and ch: "file_change i s t ((idx_find (f_extents f))(?k \<mapsto> n))"
    by (rule alloc_outcome [OF inv(1) w un room])
  obtain g where g: "get_file t i = Some g" "file_rest g = file_rest f"
      "idx_find (f_extents g) = (idx_find (f_extents f))(?k \<mapsto> n)"
    using ch f by (rule file_change_obtain)
  let ?n = "n\<lparr>ext_pending := True\<rparr>" and ?t = "update_extent i ?k (\<lambda>n. n\<lparr>ext_pending := True\<rparr>) t"
  have "file_change i t ?t ((idx_find (f_extents g))(?k \<mapsto> ?n))"
    using a g by (intro update_extent_change [OF file_changeD(1) [OF ch] g(1)]) simp_all
  then have ch2: "file_change i s ?t ((idx_find (f_extents f))(?k \<mapsto> ?n))"
    using file_change_trans [OF ch] by (simp add: g(3))
  note R = super_rest_D [OF file_changeD(2) [OF ch2]]
  have t: "super_inv ?t"
    by (rule super_inv_change [OF inv(1) ch2 f]) (simp add: rw)
  have adt: "addr_inv ?t"
    by (rule addr_inv_trees [OF inv(2) R(21)]) (use trees_alloc [of _ i f_off s] a(1) in simp)
  have "Option.bind (((idx_find (f_extents f))(?k \<mapsto> ?n)) k) committed =
      Option.bind (idx_find (f_extents f) k) committed" for k
    using un by (simp add: file_find_index committed_def)
  then have lt: "live_table ?t = live_table s"
    unfolding live_file_change [OF ch2 f]
    using set_file_same [OF abs_files_get [OF f]] by (simp add: abs_file_def)
  let ?c = "\<lparr>cow_journal = \<lparr>jn_entry = JBIND i (ucast ?k) (ucast (ext_backend n)), jn_flush = True\<rparr>,
        cow_file = i, cow_extent = ?k\<rparr>"
  let ?u = "?t\<lparr>next_address := next_address s + 1, cow_at := (cow_at s)(next_address s := ?c)\<rparr>"
  let ?v = "task_init (Cow_Task (next_address s)) (TASK_COPY (cyanfs_map_extent_offset (ucast (ext_backend p)) 0)
          (cyanfs_map_extent_offset (ucast (ext_backend n)) 0) CYANFS_EXTENT_SIZE) Copy_On_Write_Done ?u"
  let ?s' = "snd (task_add_tail (Cow_Task (next_address s)) ?v)"
  have id: "fm_id (f_meta f) = i"
    using file_invD(2) [OF super_invD(2) [OF inv(1)] f] by (simp add: file_linked_def)
  have eq: "write_alloc i f_off (Some p) s = (Ok, Some ?n, False, task_head s = [], ?s')"
    using st f un a(1,2) id R by (simp add: write_alloc_def Let_def case_prod_unfold)
      (simp add: task_add_tail_def task_init_def R)
  have "core ?s' = core ?t" by (simp add: core_def task_add_tail_def task_init_def)
  note same = core_inv [OF this]
  have "addr_inv ?s'"
    using adt R(21) by (simp add: addr_inv_def task_add_tail_def task_init_def)
  have bl: "block ?s' = block ?t"
    by (simp add: block_def get_file_def fun_eq_iff task_add_tail_def task_init_def)
  have "block s i = idx_find (f_extents f)" using f by (simp add: block_def fun_eq_iff)
  then have "block ?t i ?k = Some ?n" "keeps_pending s ?t"
    using un by (auto simp: block_file_change [OF ch2] keeps_pending_def file_find_index)
  then have "block ?s' i ?k = Some ?n" "keeps_pending s ?s'"
    unfolding keeps_pending_def bl by simp_all
  moreover have "trees ?s' Journal_Extents = trees s Journal_Extents"
    using trees_alloc [of Journal_Extents i f_off s] a(1) by (simp add: task_add_tail_def task_init_def)
  moreover have "undisturbed s ?s'"
    by (auto simp: undisturbed_def fits_task_def task_add_tail_def task_init_def R)
  ultimately show ?thesis
    using that [OF eq _ \<open>addr_inv ?s'\<close>] same t lt a(3,5,6) R
    by (simp add: task_add_tail_def task_init_def)
qed

lemma write_alloc_refuse:
  assumes w: "writable s i f_off f"
  shows "ensure_status s \<noteq> Ok \<Longrightarrow> write_alloc i f_off p s = (ensure_status s, None, False, False, s)"
    and "ensure_status s = Ok \<Longrightarrow> file_find_extent f f_off = Some n \<Longrightarrow>
      write_alloc i f_off p s = (Ok, Some n, False, False, s)"
    and "ensure_status s = Ok \<Longrightarrow> file_find_extent f f_off = None \<Longrightarrow>
      \<not> sm_reserved_extents (meta s) < sm_free_extents (meta s) \<Longrightarrow>
      write_alloc i f_off p s = (NOSPACE, None, False, False, s)"
  using w by (simp_all add: write_alloc_def writable_def file_alloc_extent_def not_less)

subsection \<open>The end of a copy\<close>

definition cow_entry :: "super \<Rightarrow> nat \<Rightarrow> journal_entry" where
  "cow_entry s a = jn_entry (cow_journal (cow_at s a))"

text \<open>What a queued copy relies on: its extent waits for it and its entry binds that extent.\<close>

definition cow_ok :: "super \<Rightarrow> nat \<Rightarrow> bool" where
  "cow_ok s a \<longleftrightarrow>
     (\<exists>n. block s (cow_file (cow_at s a)) (cow_extent (cow_at s a)) = Some n \<and> ext_pending n \<and> \<not> ext_error n \<and>
        cow_entry s a = JBIND (cow_file (cow_at s a)) (ucast (cow_extent (cow_at s a))) (ucast (ext_backend n)))"

definition keeps_other_pending :: "super \<Rightarrow> super \<Rightarrow> cyanfs_file_id_t \<Rightarrow> bitfield30 \<Rightarrow> bool" where
  "keeps_other_pending s s' i k \<longleftrightarrow>
     (\<forall>j l n. (j, l) \<noteq> (i, k) \<longrightarrow> block s j l = Some n \<longrightarrow> ext_pending n \<longrightarrow> block s' j l = Some n)"

lemma block_get: "block s i k = Some n \<Longrightarrow> \<exists>f. get_file s i = Some f \<and> idx_find (f_extents f) k = Some n"
  by (auto simp: block_def split: option.splits)

lemma update_flags_spec:
  assumes inv: "super_inv s" "addr_inv s" and blk: "block s i k = Some n"
    and g: "ext_backend (g n) = ext_backend n" "ext_file (g n) = ext_file n" "ext_map (g n) = ext_map n"
      "ext_pending (g n) \<Longrightarrow> ext_pending n"
  obtains f where "get_file s i = Some f"
    "file_change i s (update_extent i k g s) ((idx_find (f_extents f))(k \<mapsto> g n))"
    "super_inv (update_extent i k g s)" "addr_inv (update_extent i k g s)"
    "keeps_other_pending s (update_extent i k g s) i k" "block (update_extent i k g s) i k = Some (g n)"
proof -
  obtain f where f: "get_file s i = Some f" and n: "idx_find (f_extents f) k = Some n"
    using block_get [OF blk] by blast
  have ok: "ext_file n = k" "ext_map n"
    using extent_invD(4) [OF super_invD(1) [OF inv(1)] f] n by (auto simp: file_extents_ok_def)
  have ch: "file_change i s (update_extent i k g s) ((idx_find (f_extents f))(k \<mapsto> g n))"
    using g ok by (intro update_extent_change [OF super_invD(1) [OF inv(1)] f n]) simp_all
  have "super_inv (update_extent i k g s)"
  proof (rule super_inv_change [OF inv(1) ch f])
    fix l m
    assume m: "((idx_find (f_extents f))(k \<mapsto> g n)) l = Some m" "ext_pending m"
    then obtain m' where "idx_find (f_extents f) l = Some m'" "ext_pending m'"
      using n g(4) by (cases "l = k") auto
    then show "f_open_type f = FILE_READWRITE"
      using file_invD(1) [OF super_invD(2) [OF inv(1)] f] by (auto simp: file_local_def)
  qed
  moreover have "addr_inv (update_extent i k g s)"
    using inv(2) super_rest_D(21) [OF file_changeD(2) [OF ch]] by (simp add: addr_inv_def)
  moreover have "keeps_other_pending s (update_extent i k g s) i k" "block (update_extent i k g s) i k = Some (g n)"
    using f by (auto simp: keeps_other_pending_def block_file_change [OF ch] block_def)
  ultimately show ?thesis using that f ch by blast
qed

lemma cow_done_ok:
  assumes inv: "super_inv s" "addr_inv s" and ok: "cow_ok s a"
  obtains t where "copy_on_write_done mem a Ok s = super_flush_new_journal mem t"
    "super_inv t" "addr_inv t" "journaled s (cow_entry s a) t"
    "keeps_other_pending s t (cow_file (cow_at s a)) (cow_extent (cow_at s a))"
    "task_head t = task_head s" "next_address t = next_address s" "cow_at t = cow_at s"
    "active_tasks t = active_tasks s" "undisturbed s t"
    "\<exists>m. block t (cow_file (cow_at s a)) (cow_extent (cow_at s a)) = Some m \<and> \<not> ext_pending m \<and> \<not> ext_error m"
proof -
  let ?i = "cow_file (cow_at s a)" and ?k = "cow_extent (cow_at s a)"
  let ?g = "\<lambda>n :: extent. n\<lparr>ext_pending := False\<rparr>"
  let ?t = "update_extent ?i ?k ?g s"
  obtain n where n: "block s ?i ?k = Some n" "ext_pending n" "\<not> ext_error n"
      "cow_entry s a = JBIND ?i (ucast ?k) (ucast (ext_backend n))"
    using ok by (auto simp: cow_ok_def)
  obtain f where f: "get_file s ?i = Some f"
    and ch: "file_change ?i s ?t ((idx_find (f_extents f))(?k \<mapsto> ?g n))"
    and t: "super_inv ?t" "addr_inv ?t" "keeps_other_pending s ?t ?i ?k" "block ?t ?i ?k = Some (?g n)"
    by (rule update_flags_spec [OF inv n(1), of ?g]) simp_all
  have fn: "idx_find (f_extents f) ?k = Some n" using block_get [OF n(1)] f by auto
  note R = super_rest_D [OF file_changeD(2) [OF ch]]
  have own: "ownership s" using inv(1) by (simp add: super_inv_def extent_inv_def)
  have at: "held_at s (In_File ?i ?k) (ext_backend n)" using n(1) by simp
  have cn: "committed n = None" using n(2) by (simp add: committed_def)
  have "False" if m: "block s j l = Some m" "committed m = Some (ext_backend n)" for j l m
  proof -
    have "held_at s (In_File j l) (ext_backend n)" using m committed_backend [OF m(2)] by simp
    then have "In_File j l = In_File ?i ?k" using held_unique(1) [OF own at] by blast
    then have "m = n" using m(1) n(1) by simp
    then show False using m(2) cn by simp
  qed
  moreover have "fits (fm_size (f_meta f)) ?k"
    using extent_invD(4) [OF super_invD(1) [OF inv(1)] f] fn by (auto simp: file_extents_ok_def fits_def)
  ultimately have ap: "apply_entry (cow_entry s a) (live_table s) = Some (set_file ?i ((abs_file f)\<lparr>af_blocks :=
      (af_blocks (abs_file f))(?k \<mapsto> ext_backend n)\<rparr>) (live_table s))"
    unfolding n(4) using held_unique(2) [OF own at] fn cn
    by (intro bind_entry [OF inv(1) f]) auto
  have "(\<lambda>l. Option.bind (((idx_find (f_extents f))(?k \<mapsto> ?g n)) l) committed) =
      (af_blocks (abs_file f))(?k \<mapsto> ext_backend n)"
    using n(3) by (auto simp: committed_def)
  then have lt: "live_table ?t = set_file ?i ((abs_file f)\<lparr>af_blocks :=
      (af_blocks (abs_file f))(?k \<mapsto> ext_backend n)\<rparr>) (live_table s)"
    unfolding live_file_change [OF ch f] by simp
  let ?s' = "journal_append (cow_journal (cow_at s a)) ?t"
  have "copy_on_write_done mem a Ok s = super_flush_new_journal mem ?s'"
    by (simp add: copy_on_write_done_def Let_def)
  moreover have "journaled s (cow_entry s a) ?s'"
    using ap lt n(4) by (simp add: journaled_def R del: apply_entry.simps) (simp add: cow_entry_def)
  moreover have "keeps_other_pending s ?s' ?i ?k"
    using t(3) by (simp add: keeps_other_pending_def block_def)
  moreover have "\<exists>m. block ?s' ?i ?k = Some m \<and> \<not> ext_pending m \<and> \<not> ext_error m"
    using t(4) n(3) by (simp add: block_def)
  moreover have "undisturbed s ?s'" by (rule undisturbed_same) (simp_all add: R)
  ultimately show ?thesis using that t(1,2) R by (simp add: addr_inv_def)
qed

lemma cow_done_error:
  fixes mem :: bool
  assumes inv: "super_inv s" "addr_inv s" and ok: "cow_ok s a" and err: "err \<noteq> Ok"
  defines "s' \<equiv> copy_on_write_done mem a err s"
  shows "super_inv s'" "addr_inv s'" "live_table s' = live_table s" "journal_log s' = journal_log s"
    "keeps_other_pending s s' (cow_file (cow_at s a)) (cow_extent (cow_at s a))"
    "task_head s' = task_head s" "next_address s' = next_address s" "cow_at s' = cow_at s"
    "active_tasks s' = active_tasks s" "undisturbed s s'"
    "map_option ext_error (block s' (cow_file (cow_at s a)) (cow_extent (cow_at s a))) = Some True"
proof -
  let ?i = "cow_file (cow_at s a)" and ?k = "cow_extent (cow_at s a)"
  let ?g = "\<lambda>n :: extent. n\<lparr>ext_pending := False\<rparr>" and ?h = "\<lambda>n :: extent. n\<lparr>ext_error := True\<rparr>"
  let ?t = "update_extent ?i ?k ?g s"
  have s': "s' = update_extent ?i ?k ?h ?t"
    using err by (simp add: s'_def copy_on_write_done_def Let_def)
  obtain n where n: "block s ?i ?k = Some n" "ext_pending n" using ok by (auto simp: cow_ok_def)
  obtain f where f: "get_file s ?i = Some f"
    and ch: "file_change ?i s ?t ((idx_find (f_extents f))(?k \<mapsto> ?g n))"
    and t: "super_inv ?t" "addr_inv ?t" "keeps_other_pending s ?t ?i ?k" "block ?t ?i ?k = Some (?g n)"
    by (rule update_flags_spec [OF inv n(1), of ?g]) simp_all
  obtain g where g: "get_file ?t ?i = Some g"
    and ch2: "file_change ?i ?t s' ((idx_find (f_extents g))(?k \<mapsto> ?h (?g n)))"
    and u: "super_inv s'" "addr_inv s'" "keeps_other_pending ?t s' ?i ?k" "block s' ?i ?k = Some (?h (?g n))"
    unfolding s' by (rule update_flags_spec [OF t(1,2,4), of ?h]) simp_all
  have "idx_find (f_extents g) = (idx_find (f_extents f))(?k \<mapsto> ?g n)"
    using file_change_obtain [OF ch f] g by (metis option.sel)
  then have ch3: "file_change ?i s s' ((idx_find (f_extents f))(?k \<mapsto> ?h (?g n)))"
    using file_change_trans [OF ch ch2] by simp
  note R = super_rest_D [OF file_changeD(2) [OF ch3]]
  have fn: "idx_find (f_extents f) ?k = Some n" using block_get [OF n(1)] f by auto
  have "Option.bind (((idx_find (f_extents f))(?k \<mapsto> ?h (?g n))) l) committed =
      Option.bind (idx_find (f_extents f) l) committed" for l
    using fn n(2) by (simp add: committed_def)
  then show "live_table s' = live_table s"
    unfolding live_file_change [OF ch3 f]
    using set_file_same [OF abs_files_get [OF f]] by (simp add: abs_file_def)
  show "super_inv s'" "addr_inv s'" using u by simp_all
  show "journal_log s' = journal_log s" "task_head s' = task_head s" "next_address s' = next_address s"
    "cow_at s' = cow_at s" "active_tasks s' = active_tasks s" using R by simp_all
  show "undisturbed s s'" by (rule undisturbed_same) (simp_all add: R)
  show "map_option ext_error (block s' ?i ?k) = Some True" using u(4) by simp
  show "keeps_other_pending s s' ?i ?k" using t(3) u(3) by (simp add: keeps_other_pending_def)
qed

subsection \<open>Discard\<close>

lemma discard_check_returns:
  assumes "file_inv s" "get_file s i \<noteq> None"
  shows "discard_check s i f_off l \<noteq> None"
proof -
  obtain f where f: "get_file s i = Some f" using assms(2) by blast
  then have "file_find_extent_follow s (f_parent f) f_off = Some (resolve s (f_parent f) f_off)"
    using parent_older [OF assms(1) f] by (intro follow_resolve [OF assms(1)]) auto
  then show ?thesis using f by (simp add: discard_check_def)
qed

lemma discard_check_unmap:
  assumes "discard_check s i f_off l = Some (D_Unmap n)" "get_file s i = Some f"
  shows "file_find_extent f f_off = Some n" "\<not> ext_pending n" "\<not> ext_error n"
    "cyanfs_extent_begin (cyanfs_extent_from f_off) = f_off" "CYANFS_EXTENT_SIZE \<le> l"
  using assms by (auto simp: discard_check_def split: if_splits option.splits)

lemma index_of_offset:
  assumes "unat f_off < 2 ^ 50"
  shows "ucast (offset_index f_off) = cyanfs_extent_from f_off" "unat (cyanfs_extent_from f_off) < 2 ^ 30"
proof -
  have "unat f_off div 2 ^ 20 < 2 ^ 30" using assms by (simp add: less_mult_imp_div_less)
  then show lt: "unat (cyanfs_extent_from f_off) < 2 ^ 30"
    using assms by (simp add: unat_extent_from_small)
  then show "ucast (offset_index f_off) = cyanfs_extent_from f_off"
    by (simp add: word_unat_eq_iff offset_index_def unat_ucast_up unat_index)
qed

lemma discard_unmap:
  assumes inv: "super_inv s" "addr_inv s" and w: "writable s i f_off f"
    and found: "discard_check s i f_off l = Some (D_Unmap n)"
  defines "s' \<equiv> journal_append \<lparr>jn_entry = JUNBIND i (cyanfs_extent_from f_off), jn_flush = True\<rparr>
    (file_unmap_extent i n s)"
  shows "super_inv s'" "addr_inv s'" "journaled s (JUNBIND i (cyanfs_extent_from f_off)) s'"
    "keeps_pending s s'" "task_head s' = task_head s" "next_address s' = next_address s"
    "cow_at s' = cow_at s" "active_tasks s' = active_tasks s" "\<forall>T. T \<noteq> unmap_target s \<longrightarrow> trees s' T = trees s T"
    "quiet s s'"
proof -
  have f: "get_file s i = Some f" and lt: "unat f_off < unat (fm_size (f_meta f))"
    using w by (simp_all add: writable_def)
  let ?k = "offset_index f_off"
  have n: "idx_find (f_extents f) ?k = Some n" "\<not> ext_pending n" "\<not> ext_error n"
    using discard_check_unmap [OF found f] by (simp_all add: file_find_index)
  let ?t = "file_unmap_extent i n s"
  have ch: "file_change i s ?t ((idx_find (f_extents f))(?k := None))"
    by (rule file_unmap_change [OF super_invD(1) [OF inv(1)] f n(1,2)])
  note R = super_rest_D [OF file_changeD(2) [OF ch]]
  have "super_inv ?t"
    by (rule super_inv_change [OF inv(1) ch f]) (use w in \<open>simp add: writable_def\<close>)
  then show "super_inv s'" by (simp add: s'_def)
  show trees: "\<forall>T. T \<noteq> unmap_target s \<longrightarrow> trees s' T = trees s T"
    using trees_unmap by (simp add: s'_def)
  then show "addr_inv s'"
    using inv(2) by (simp add: addr_inv_def s'_def R unmap_target_def)
  have kk: "unat (cyanfs_extent_from f_off) < 2 ^ 30" "ucast (cyanfs_extent_from f_off) = ?k"
    using index_of_offset(2) [of f_off] lt writable_size [OF inv(1) w] by (simp_all add: offset_index_def)
  have "(\<lambda>l. Option.bind (((idx_find (f_extents f))(?k := None)) l) committed) =
      (af_blocks (abs_file f))(?k := None)"
    by auto
  then have lt: "live_table ?t = set_file i ((abs_file f)\<lparr>af_blocks := (af_blocks (abs_file f))(?k := None)\<rparr>)
      (live_table s)"
    unfolding live_file_change [OF ch f] by simp
  have "af_blocks (abs_file f) ?k \<noteq> None" using n by (simp add: committed_def)
  then have "apply_entry (JUNBIND i (cyanfs_extent_from f_off)) (live_table s) = Some (live_table ?t)"
    using kk f lt by (simp add: abs_files_get del: abs_file_simps(4))
  then show "journaled s (JUNBIND i (cyanfs_extent_from f_off)) s'"
    by (simp add: journaled_def s'_def R del: apply_entry.simps)
  have "block s i = idx_find (f_extents f)" using f by (simp add: block_def fun_eq_iff)
  then have "keeps_pending s ?t"
    using n by (auto simp: keeps_pending_def block_file_change [OF ch])
  then show "keeps_pending s s'" by (simp add: keeps_pending_def s'_def block_def)
  show "task_head s' = task_head s" "next_address s' = next_address s" "cow_at s' = cow_at s"
    "active_tasks s' = active_tasks s"
    by (simp_all add: s'_def R)
  show "quiet s s'" unfolding s'_def by (rule quiet_trans [OF quiet_rest [OF file_changeD(2) [OF ch]] quiet_append])
qed

end
