(* ===== verification/System.thy ===== *)
theory System
  imports Compact_Moves Read_Write_Inv
begin

section \<open>The running file system\<close>

text \<open>
  A mounted file system as a transition system. A state is the super block, the task that the
  executor has taken from the queue and not finished yet, and the objects of the compactions under way
  by the number of their allocation; \<open>src/core/core.h\<close> demands one serial executor that finishes every
  task it takes. A step is a call of the interface, one critical section of a write or of a discard,
  the taking of a task, or its completion with any status and, for a read, any bytes. The steps of
  different threads interleave in any order. A file that is closed after it was open for writing has
  no extent that still waits for its copy, as \<open>core.h\<close> demands of \<open>cyanfs_close\<close>.
\<close>

type_synonym heap = "nat \<Rightarrow> compact option"

type_synonym sys = "super \<times> task_ref option \<times> heap"

text \<open>
  What a completion gets from outside: the outcome of its allocations, the contents of uninitialised
  memory, and the bytes that were read.
\<close>

record done_env =
  de_mem :: bool
  de_malloc :: malloc
  de_parser :: "nat \<Rightarrow> malloc"
  de_loader :: malloc
  de_raw :: compact
  de_raw_file :: "nat \<Rightarrow> bitfield30"
  de_bytes :: "u8 list"

definition plain_task_done :: "bool \<Rightarrow> task_ref \<Rightarrow> cyanfs_status \<Rightarrow> super \<Rightarrow> super option" where
  "plain_task_done mem t err s =
     (case (t_done (task_at s t), t) of
        (Discard_Extents_Begin, Discard_Task) \<Rightarrow> Some (discard_extents_begin s)
      | (Discard_Extents_Done, Discard_Task) \<Rightarrow> Some (discard_extents_done s)
      | (Flusher_Free_Done, Flusher_Free a) \<Rightarrow> Some (flusher_free a s)
      | (Flusher_After_Flush, Flusher_After a) \<Rightarrow> Some (flusher_after_flush err s)
      | (Flusher_Before_Flush, Flusher_After a) \<Rightarrow> Some (flusher_before_flush a s)
      | (Flusher_Before_Write_Flush, Flusher_Before a) \<Rightarrow> Some (flusher_before_write_flush a s)
      | (Flusher_Before_Write_Flush_Done, Flusher_Before a) \<Rightarrow>
          Some (flusher_before_write_flush_done a err s)
      | (Copy_On_Write_Done, Cow_Task a) \<Rightarrow> Some (copy_on_write_done mem a err s)
      | (Task_Free_Done, Requeue_Task a) \<Rightarrow> Some s
      | _ \<Rightarrow> None)"

text \<open>The journal writer of a flusher; its end may start a compaction.\<close>

definition flusher_writer_done ::
    "done_env \<Rightarrow> nat \<Rightarrow> cyanfs_status \<Rightarrow> super \<Rightarrow> compact option \<times> super" where
  "flusher_writer_done env a err s =
     (case flusher_writer_encode a err s of
        (True, s) \<Rightarrow> flusher_write_finish (de_malloc env) (de_raw env) (de_raw_file env) a s
      | (False, s) \<Rightarrow> (None, s))"

definition compact_task_done ::
    "done_env \<Rightarrow> nat \<Rightarrow> task_ref \<Rightarrow> cyanfs_status \<Rightarrow> compact \<Rightarrow> super \<Rightarrow> (compact option \<times> super) option" where
  "compact_task_done env a x err t s =
     (case (t_done (task_at s x), x) of
        (Journal_Loader_Parser_Header, Compact_Loader _) \<Rightarrow>
          Some (compact_parser_header (de_parser env) (de_loader env) (de_malloc env) a err (de_bytes env) t s)
      | (Journal_Loader_Parser_Page, Compact_Loader _) \<Rightarrow>
          Some (compact_parser_page (de_parser env) (de_loader env) (de_malloc env) a err (de_bytes env) t s)
      | (Journal_Writer_Encode, Compact_Writer _) \<Rightarrow> Some (compact_writer_encode a err t s)
      | (Journal_Compact_Write_Super, Compact_Task _) \<Rightarrow> Some (journal_compact_write_super a err t s)
      | (Journal_Compact_Flush_Super, Compact_Task _) \<Rightarrow> Some (journal_compact_flush_super a err t s)
      | (Journal_Compact_Finish, Compact_Task _) \<Rightarrow> Some (journal_compact_finish err t s)
      | _ \<Rightarrow> None)"

definition comp_put :: "nat \<Rightarrow> compact option \<Rightarrow> heap \<Rightarrow> heap" where
  "comp_put a q h = (case q of None \<Rightarrow> h | Some t \<Rightarrow> h(a \<mapsto> t))"

text \<open>The end of a task, after its completion function has run.\<close>

definition task_leave :: "super \<Rightarrow> super" where
  "task_leave s = (if active_tasks s = 0 then panic s else s\<lparr>active_tasks := active_tasks s - 1\<rparr>)"

fun comp_id :: "task_ref \<Rightarrow> nat option" where
  "comp_id (Compact_Task a) = Some a"
| "comp_id (Compact_Writer a) = Some a"
| "comp_id (Compact_Loader a) = Some a"
| "comp_id _ = None"

text \<open>\<open>None\<close> is a task whose object is gone or whose completion function does not belong to it.\<close>

definition super_task_done ::
    "done_env \<Rightarrow> task_ref \<Rightarrow> cyanfs_status \<Rightarrow> super \<times> heap \<Rightarrow> (super \<times> heap) option" where
  "super_task_done env x err sh =
     (let (s, h) = sh
      in map_option (\<lambda>(s, h). (task_leave s, h))
           (case comp_id x of
              Some a \<Rightarrow>
                (case h a of
                   None \<Rightarrow> None
                 | Some t \<Rightarrow> map_option (\<lambda>(q, s). (s, h(a := q))) (compact_task_done env a x err t s))
            | None \<Rightarrow>
                (case x of
                   Flusher_Writer a \<Rightarrow>
                     if t_done (task_at s x) \<noteq> Journal_Writer_Encode then None
                     else (let (q, s') = flusher_writer_done env a err s
                           in Some (s', comp_put (next_address s) q h))
                 | _ \<Rightarrow> map_option (\<lambda>s. (s, h)) (plain_task_done (de_mem env) x err s))))"

inductive step :: "sys \<Rightarrow> sys \<Rightarrow> bool" where
  Create: "name_wf n \<Longrightarrow> cyanfs_create mem n s = (err, out, s') \<Longrightarrow> step (s, r, h) (s', r, h)"
| Fork: "name_wf n \<Longrightarrow> cyanfs_fork mem p n s = (err, out, s') \<Longrightarrow> step (s, r, h) (s', r, h)"
| Rename: "name_wf n \<Longrightarrow> cyanfs_rename mem i n s = (err, s') \<Longrightarrow> step (s, r, h) (s', r, h)"
| Truncate: "cyanfs_truncate mem i sz s = (err, s') \<Longrightarrow> step (s, r, h) (s', r, h)"
| Delete: "cyanfs_delete mem i s = (err, s') \<Longrightarrow> step (s, r, h) (s', r, h)"
| Open: "cyanfs_open i w s = (err, out, s') \<Longrightarrow> step (s, r, h) (s', r, h)"
| Close: "get_file s i = Some f \<Longrightarrow> f_open_type f \<noteq> FILE_CLOSED \<Longrightarrow> no_pending f \<Longrightarrow>
    step (s, r, h) (cyanfs_close i s, r, h)"
| Write_Alloc: "writable s i f_off f \<Longrightarrow> write_alloc i f_off p s = (err, ext, nj, call, s') \<Longrightarrow>
    step (s, r, h) (s', r, h)"
| Writer_Inc: "step (s, r, h) (snd (writer_inc s), r, h)"
| Writer_Dec: "step (s, r, h) (writer_dec w s, r, h)"
| Discard_Unmap: "writable s i f_off f \<Longrightarrow> discard_check s i f_off l = Some (D_Unmap n) \<Longrightarrow>
    step (s, r, h)
      (journal_append \<lparr>jn_entry = JUNBIND i (cyanfs_extent_from f_off), jn_flush = True\<rparr>
        (file_unmap_extent i n s), r, h)"
| Flush: "flusher_start mem k ondisk s = (err, s') \<Longrightarrow> step (s, r, h) (s', r, h)"
| Requeue: "cyanfs_requeue mem i ctx s = (err, s') \<Longrightarrow> step (s, r, h) (s', r, h)"
| Compact: "super_compact mem' raw raw_file s = (err, q, s') \<Longrightarrow>
    step (s, r, h) (s', r, comp_put (next_address s) q h)"
| New_Task_Callback: "step (s, r, h) (super_set_new_task_callback fn s, r, h)"
| New_Task: "step (s, r, h) (super_new_task s, r, h)"
| Get_Task: "super_get_task s = (t, s') \<Longrightarrow> step (s, None, h) (s', t, h)"
| Task_Done: "super_task_done env t err (s, h) = Some (s', h') \<Longrightarrow> step (s, Some t, h) (s', None, h')"

inductive_cases stepE: "step x y"

subsection \<open>The invariant\<close>

definition task_list :: "super \<times> task_ref option \<Rightarrow> task_ref list" where
  "task_list x = (case snd x of None \<Rightarrow> [] | Some t \<Rightarrow> [t]) @ task_head (fst x)"

text \<open>The copies under way: each was queued once and waits for an extent of its own.\<close>

definition cows_ok :: "super \<Rightarrow> task_ref list \<Rightarrow> bool" where
  "cows_ok s ts \<longleftrightarrow>
     distinct (filter is_cow ts) \<and>
     (\<forall>a. Cow_Task a \<in> set ts \<longrightarrow> a < next_address s \<and> cow_ok s a) \<and>
     (\<forall>a b. Cow_Task a \<in> set ts \<longrightarrow> Cow_Task b \<in> set ts \<longrightarrow>
        cow_file (cow_at s a) = cow_file (cow_at s b) \<longrightarrow>
        cow_extent (cow_at s a) = cow_extent (cow_at s b) \<longrightarrow> a = b)"

definition sys_inv :: "table \<Rightarrow> super \<times> task_ref option \<Rightarrow> bool" where
  "sys_inv t0 x \<longleftrightarrow>
     super_inv (fst x) \<and> addr_inv (fst x) \<and> cows_ok (fst x) (task_list x) \<and>
     unat (active_tasks (fst x)) = (if snd x = None then 0 else 1) \<and>
     list_all entry_wf (journal_log (fst x)) \<and>
     apply_entries (journal_log (fst x)) t0 = Some (live_table (fst x)) \<and>
     (\<forall>t \<in> set (task_list x). fits_task (fst x) t)"

text \<open>A compaction under way has exactly one task, and its object is fit for it.\<close>

definition comps_ok :: "task_ref list \<Rightarrow> super \<Rightarrow> heap \<Rightarrow> bool" where
  "comps_ok ts s h \<longleftrightarrow>
     (\<forall>a. case h a of
        None \<Rightarrow> filter (comp_of a) ts = []
      | Some t \<Rightarrow> a < next_address s \<and>
          (\<exists>x. filter (comp_of a) ts = [x] \<and> comp_ok (sm_total_extents (meta s)) x (t_done (task_at s x)) t))"

lemma cows_ok_cong:
  assumes "cows_ok s ts" "filter is_cow ts' = filter is_cow ts" "keeps_pending s s'"
    "cow_at s' = cow_at s" "next_address s \<le> next_address s'"
  shows "cows_ok s' ts'"
proof -
  have mem: "Cow_Task a \<in> set ts' \<longleftrightarrow> Cow_Task a \<in> set ts" for a
  proof -
    have "Cow_Task a \<in> set (filter is_cow ts') \<longleftrightarrow> Cow_Task a \<in> set (filter is_cow ts)"
      using assms(2) by simp
    then show ?thesis by simp
  qed
  have "cow_ok s' a" if "cow_ok s a" for a
    using that assms(3,4) by (auto simp: cow_ok_def keeps_pending_def cow_entry_def)
  then show ?thesis
    using assms by (fastforce simp: cows_ok_def mem)
qed

subsection \<open>What a step may do\<close>

lemma sys_invD:
  assumes "sys_inv t0 (s, r)"
  shows "super_inv s" "addr_inv s" "cows_ok s (task_list (s, r))"
    "unat (active_tasks s) = (if r = None then 0 else 1)" "list_all entry_wf (journal_log s)"
    "apply_entries (journal_log s) t0 = Some (live_table s)" "\<forall>t \<in> set (task_list (s, r)). fits_task s t"
  using assms by (simp_all add: sys_inv_def)

lemma cows_quiet:
  assumes "cows_ok s (task_list (s, r))" "quiet s s'" "keeps_pending s s'"
  shows "cows_ok s' (task_list (s', r))"
  using assms quiet_address [OF assms(2)]
  by (intro cows_ok_cong [OF assms(1)]) (simp_all add: quiet_def task_list_def)

lemma tasks_fit:
  assumes "\<forall>t \<in> set (task_list (s, r)). fits_task s t" "undisturbed s s'"
  shows "\<forall>t \<in> set (task_list (s', r)). fits_task s' t"
  using assms by (auto simp: task_list_def undisturbed_def)

text \<open>A step between two states that leaves the compactions alone.\<close>

definition sys_next :: "table \<Rightarrow> task_ref option \<Rightarrow> super \<Rightarrow> super \<Rightarrow> bool" where
  "sys_next t0 r s s' \<longleftrightarrow> sys_inv t0 (s', r) \<and> undisturbed s s'"

lemma sys_next_refl: "sys_inv t0 (s, r) \<Longrightarrow> sys_next t0 r s s"
  by (simp add: sys_next_def)

lemma sys_next_trans: "sys_next t0 r s t \<Longrightarrow> sys_next t0 r t u \<Longrightarrow> sys_next t0 r s u"
  by (auto simp: sys_next_def intro: undisturbed_trans)

text \<open>A step that leaves the file table alone, and a step that journals its change.\<close>

lemma sys_moves:
  assumes inv: "sys_inv t0 (s, r)" and m: "moves s s'"
  shows "sys_next t0 r s s'"
proof -
  note S = sys_invD [OF inv] and M = moves_inv [OF m sys_invD(1) [OF inv]]
  have "cows_ok s' (task_list (s', r))" by (rule cows_quiet [OF S(3) M(5) keeps_pending_moves [OF m]])
  then show ?thesis
    using M S tasks_fit [OF S(7) quiet_undisturbed [OF M(5)]] quiet_undisturbed [OF M(5)]
    by (simp add: sys_next_def sys_inv_def) (simp add: quiet_def)
qed

lemma sys_journaled:
  assumes inv: "sys_inv t0 (s, r)" and s': "super_inv s'" "addr_inv s'" "journaled s j s'"
    and keep: "quiet s s'" "keeps_pending s s'"
  shows "sys_next t0 r s s'"
proof -
  note S = sys_invD [OF inv]
  show ?thesis
    using s' S cows_quiet [OF S(3) keep(1,2)] keep(1) tasks_fit [OF S(7) quiet_undisturbed [OF keep(1)]]
    by (simp add: sys_next_def sys_inv_def journaled_def apply_entries_append) (simp add: quiet_def)
qed

lemma sys_flush_new_journal:
  "sys_inv t0 (s, r) \<Longrightarrow> sys_next t0 r s (super_flush_new_journal mem s)"
  by (rule sys_moves [OF _ moves_flush_new_journal [OF sys_invD(2)]])

lemma addr_inv_same_trees:
  "addr_inv s \<Longrightarrow> quiet s s' \<Longrightarrow> (\<And>a. trees s' (Flusher_Unused a) = trees s (Flusher_Unused a)) \<Longrightarrow>
     addr_inv s'"
  using quiet_address [of s s'] by (auto simp: addr_inv_def)

lemma sys_next_flush: "sys_next t0 r s u \<Longrightarrow> sys_next t0 r s (super_flush_new_journal mem u)"
  by (rule sys_next_trans [OF _ sys_flush_new_journal]) (simp_all add: sys_next_def)

subsection \<open>The calls that change files\<close>

lemma sys_create:
  assumes inv: "sys_inv t0 (s, r)" and n: "name_wf n"
  shows "sys_next t0 r s (snd (snd (cyanfs_create mem n s)))"
proof -
  have "sys_next t0 r s (snd (snd (create_locked m s)))" if ok: "name_ok m" for m
  proof (cases "can_add s m = Ok")
    case True
    then obtain s' where "create_locked m s = (Ok, Some (max_file_id s + 1), s')" "super_inv s'"
        "journaled s (JCREATE m (max_file_id s + 1)) s'" "trees s' = trees s" "quiet s s'" "keeps_pending s s'"
      using create_locked_spec [OF sys_invD(1) [OF inv] ok] by auto
    then show ?thesis
      using sys_journaled [OF inv] addr_inv_same_trees [OF sys_invD(2) [OF inv]] by simp
  qed (use sys_next_refl [OF inv] create_locked_spec [OF sys_invD(1) [OF inv] ok] in simp)
  then show ?thesis
    using sys_next_refl [OF inv] name_ok_normalize [OF _ n] sys_next_flush
    by (auto simp: cyanfs_create_def Let_def case_prod_unfold split: option.split)
qed

lemma sys_fork:
  assumes inv: "sys_inv t0 (s, r)" and n: "name_wf n"
  shows "sys_next t0 r s (snd (snd (cyanfs_fork mem p n s)))"
proof -
  have "sys_next t0 r s (snd (snd (fork_locked p m s)))" if ok: "name_ok m" for m
  proof (cases "can_fork s p m = Ok")
    case True
    then obtain s' where "fork_locked p m s = (Ok, Some (max_file_id s + 1), s')" "super_inv s'"
        "journaled s (JFORK m (max_file_id s + 1) p) s'" "trees s' = trees s" "quiet s s'" "keeps_pending s s'"
      using fork_locked_spec [OF sys_invD(1) [OF inv] ok, of p] by auto
    then show ?thesis
      using sys_journaled [OF inv] addr_inv_same_trees [OF sys_invD(2) [OF inv]] by simp
  qed (use sys_next_refl [OF inv] fork_locked_spec [OF sys_invD(1) [OF inv] ok, of p] in simp)
  then show ?thesis
    using sys_next_refl [OF inv] name_ok_normalize [OF _ n] sys_next_flush
    by (auto simp: cyanfs_fork_def Let_def case_prod_unfold split: option.split)
qed

lemma sys_rename:
  assumes inv: "sys_inv t0 (s, r)" and n: "name_wf n"
  shows "sys_next t0 r s (snd (cyanfs_rename mem i n s))"
proof -
  have "sys_next t0 r s (snd (rename_locked i m s))" if ok: "name_ok m" for m
  proof (cases "can_rename s i m = Ok")
    case True
    then obtain s' where "rename_locked i m s = (Ok, s')" "super_inv s'"
        "journaled s (JRENAME m i) s'" "trees s' = trees s" "quiet s s'" "keeps_pending s s'"
      using rename_locked_spec [OF sys_invD(1) [OF inv] ok, of i] by auto
    then show ?thesis
      using sys_journaled [OF inv] addr_inv_same_trees [OF sys_invD(2) [OF inv]] by simp
  qed (use sys_next_refl [OF inv] rename_locked_spec [OF sys_invD(1) [OF inv] ok, of i] in simp)
  then show ?thesis
    using sys_next_refl [OF inv] name_ok_normalize [OF _ n] sys_next_flush
    by (auto simp: cyanfs_rename_def Let_def case_prod_unfold split: option.split)
qed

lemma sys_truncate:
  assumes inv: "sys_inv t0 (s, r)"
  shows "sys_next t0 r s (snd (cyanfs_truncate mem i sz s))"
proof -
  have "sys_next t0 r s (snd (truncate_locked i sz s))" if ok: "cyanfs_file_size_validate sz = Ok"
  proof (cases "can_change s i = Ok")
    case True
    then obtain s' where "truncate_locked i sz s = (Ok, s')" "super_inv s'"
        "journaled s (JTRUNCATE i sz) s'" "\<forall>T. T \<noteq> unmap_target s \<longrightarrow> trees s' T = trees s T"
        "quiet s s'" "keeps_pending s s'"
      using truncate_locked_spec [OF sys_invD(1) [OF inv] ok, of i] by auto
    then show ?thesis
      using sys_journaled [OF inv] addr_inv_same_trees [OF sys_invD(2) [OF inv]]
      by (simp add: unmap_target_def split: if_splits)
  qed (use sys_next_refl [OF inv] truncate_locked_spec [OF sys_invD(1) [OF inv] ok, of i] in simp)
  then show ?thesis
    using sys_next_refl [OF inv] sys_next_flush by (auto simp: cyanfs_truncate_def Let_def case_prod_unfold)
qed

lemma sys_delete:
  assumes inv: "sys_inv t0 (s, r)"
  shows "sys_next t0 r s (snd (cyanfs_delete mem i s))"
proof -
  have "sys_next t0 r s (snd (delete_locked i s))"
  proof (cases "can_change s i = Ok")
    case True
    then obtain s' where "delete_locked i s = (Ok, s')" "super_inv s'"
        "journaled s (JDELETE i) s'" "\<forall>T. T \<noteq> unmap_target s \<longrightarrow> trees s' T = trees s T"
        "quiet s s'" "keeps_pending s s'"
      using delete_locked_spec [OF sys_invD(1) [OF inv], of i] by auto
    then show ?thesis
      using sys_journaled [OF inv] addr_inv_same_trees [OF sys_invD(2) [OF inv]]
      by (simp add: unmap_target_def split: if_splits)
  qed (use sys_next_refl [OF inv] delete_locked_spec [OF sys_invD(1) [OF inv], of i] in simp)
  then show ?thesis
    using sys_next_refl [OF inv] sys_next_flush by (auto simp: cyanfs_delete_def Let_def case_prod_unfold)
qed

subsection \<open>Opening and closing\<close>

definition reopened :: "cyanfs_file \<Rightarrow> open_type \<Rightarrow> int \<Rightarrow> cyanfs_file" where
  "reopened f ty r = f\<lparr>f_open_type := ty, f_reader := r\<rparr>"

lemma sys_reopen:
  assumes inv: "sys_inv t0 (s, r)" and f: "get_file s i = Some f"
    and ty: "0 \<le> n" "ty = FILE_READONLY \<longleftrightarrow> 0 < n" "ty = FILE_READWRITE \<Longrightarrow> fm_children (f_meta f) = 0"
      "ty \<noteq> FILE_READWRITE \<Longrightarrow> no_pending f"
  shows "sys_next t0 r s (put_file i (reopened f ty n) s)"
proof -
  let ?f = "reopened f ty n" and ?s' = "put_file i (reopened f ty n) s"
  note S = sys_invD [OF inv]
  have same: "f_meta ?f = f_meta f" "f_extents ?f = f_extents f" "f_parent ?f = f_parent f"
    by (simp_all add: reopened_def)
  have rest: "super_rest ?s' = super_rest s" by (simp add: frame_simps)
  have "file_local ?f"
    using file_invD(1) [OF super_invD(2) [OF S(1)] f] ty
    by (auto simp: file_local_def reopened_def no_pending_def)
  then have "file_inv ?s'"
    using same by (intro file_inv_update [OF super_invD(2) [OF S(1)] f _ rest, where f' = ?f])
      (simp_all add: same_links_def)
  moreover have "extent_inv ?s'"
    using same extent_invD(4) [OF super_invD(1) [OF S(1)] f]
    by (intro extent_inv_put [OF super_invD(1) [OF S(1)] f, where f' = ?f])
      (simp_all add: put_file_def total_extents_def file_extents_ok_def)
  ultimately have si: "super_inv ?s'"
    using S(1) by (simp add: super_inv_def total_extents_def)
  have "abs_files ?s' = abs_files s"
    using f same by (auto simp: abs_files_def abs_file_def fun_eq_iff)
  then have lt: "live_table ?s' = live_table s"
    using super_rest_D(9) [OF rest] by (simp add: live_table_def table_of_def total_extents_def)
  have "block ?s' = block s" using f same by (auto simp: block_def fun_eq_iff)
  then have "cows_ok ?s' (task_list (?s', r))"
    by (intro cows_quiet [OF S(3) quiet_rest [OF rest]]) (simp add: keeps_pending_def)
  moreover have "addr_inv ?s'"
    by (rule addr_inv_same_trees [OF S(2) quiet_rest [OF rest]]) simp
  ultimately show ?thesis
    using si lt S super_rest_D(15,22) [OF rest] quiet_undisturbed [OF quiet_rest [OF rest]]
      tasks_fit [OF S(7) quiet_undisturbed [OF quiet_rest [OF rest]]]
    by (simp add: sys_next_def sys_inv_def)
qed

lemma sys_open:
  assumes inv: "sys_inv t0 (s, r)"
  shows "sys_next t0 r s (snd (snd (cyanfs_open i w s)))"
proof (cases "get_file s i")
  case None
  then show ?thesis using sys_next_refl [OF inv] by (simp add: cyanfs_open_def lookup_file_by_id_def Let_def)
next
  case (Some f)
  have loc: "file_local f" "no_pending f" if "f_open_type f \<noteq> FILE_READWRITE"
    using file_invD(1) [OF super_invD(2) [OF sys_invD(1) [OF inv]] Some] that
      closed_no_pending [OF super_invD(2) [OF sys_invD(1) [OF inv]] Some] by simp_all
  have "sys_next t0 r s (put_file i (reopened f FILE_READWRITE (f_reader f)) s)"
    if "f_open_type f = FILE_CLOSED" "fm_children (f_meta f) = 0"
    using that loc(1) by (intro sys_reopen [OF inv Some]) (auto simp: file_local_def)
  moreover have "sys_next t0 r s (put_file i (reopened f FILE_READONLY (f_reader f + 1)) s)"
    if "f_open_type f \<noteq> FILE_READWRITE"
    using that loc by (intro sys_reopen [OF inv Some]) (auto simp: file_local_def)
  ultimately show ?thesis
    using sys_next_refl [OF inv] Some by (simp add: cyanfs_open_def lookup_file_by_id_def Let_def reopened_def)
qed

lemma sys_close:
  assumes inv: "sys_inv t0 (s, r)" and f: "get_file s i = Some f" "f_open_type f \<noteq> FILE_CLOSED" "no_pending f"
  shows "sys_next t0 r s (cyanfs_close i s)"
proof -
  have loc: "file_local f" by (rule file_invD(1) [OF super_invD(2) [OF sys_invD(1) [OF inv]] f(1)])
  have "sys_next t0 r s (put_file i (reopened f FILE_CLOSED (f_reader f)) s)" if "f_open_type f = FILE_READWRITE"
    using that loc f by (intro sys_reopen [OF inv f(1)]) (auto simp: file_local_def)
  moreover have "reopened f FILE_CLOSED 0 = f\<lparr>f_reader := 0, f_open_type := FILE_CLOSED\<rparr>"
    by (simp add: reopened_def)
  moreover have "sys_next t0 r s (put_file i (reopened f FILE_CLOSED 0) s)"
    using f by (intro sys_reopen [OF inv f(1)]) auto
  moreover have "sys_next t0 r s (put_file i (reopened f FILE_READONLY (f_reader f - 1)) s)"
    if "f_open_type f = FILE_READONLY" "f_reader f - 1 \<noteq> 0"
    using that loc f by (intro sys_reopen [OF inv f(1)]) (auto simp: file_local_def)
  moreover have "f\<lparr>f_open_type := FILE_READONLY\<rparr> = f" if "f_open_type f = FILE_READONLY"
    using that by (cases f) simp
  ultimately show ?thesis
    using f by (cases "f_open_type f") (auto simp: cyanfs_close_def Let_def reopened_def [of f "FILE_CLOSED" "f_reader f"]
        reopened_def [of f FILE_READONLY])
qed

subsection \<open>Writing and discarding\<close>

lemma sys_write_bind:
  assumes inv: "sys_inv t0 (s, r)" and w: "writable s i f_off f" and st: "ensure_status s = Ok"
    and un: "file_find_extent f f_off = None" and room: "sm_reserved_extents (meta s) < sm_free_extents (meta s)"
    and res: "write_alloc i f_off None s = (err, ext, nj, call, s')"
  shows "sys_next t0 r s s'"
proof -
  note S = sys_invD [OF inv]
  show ?thesis
    by (rule write_alloc_bind [OF S(1,2) w st un room], rule sys_journaled [OF inv])
      (use res in auto)
qed

lemma cows_ok_new:
  assumes ok: "cows_ok s ts" and keep: "keeps_pending s s'"
    and new: "next_address s' = next_address s + 1"
      "cow_at s' = (cow_at s)(next_address s := c)" "cow_ok s' (next_address s)"
    and fresh: "block s (cow_file c) (cow_extent c) = None"
  shows "cows_ok s' (ts @ [Cow_Task (next_address s)])"
proof -
  let ?a = "next_address s"
  have lt: "a < ?a \<and> cow_ok s a" if "Cow_Task a \<in> set ts" for a using ok that by (simp add: cows_ok_def)
  have "cow_ok s' a" if "Cow_Task a \<in> set ts" for a
    using lt [OF that] keep new(2) by (auto simp: cow_ok_def cow_entry_def keeps_pending_def)
  moreover have "cow_file (cow_at s a) \<noteq> cow_file c \<or> cow_extent (cow_at s a) \<noteq> cow_extent c"
    if "Cow_Task a \<in> set ts" for a
    using lt [OF that] fresh by (auto simp: cow_ok_def)
  moreover have "Cow_Task ?a \<notin> set ts" using lt by blast
  ultimately show ?thesis
    using ok new lt by (fastforce simp: cows_ok_def less_Suc_eq)
qed

lemma sys_write_cow:
  assumes inv: "sys_inv t0 (s, r)" and w: "writable s i f_off f" and st: "ensure_status s = Ok"
    and un: "file_find_extent f f_off = None" and room: "sm_reserved_extents (meta s) < sm_free_extents (meta s)"
    and res: "write_alloc i f_off (Some p) s = (err, ext, nj, call, s')"
  shows "sys_next t0 r s s'"
proof -
  note S = sys_invD [OF inv]
  let ?a = "next_address s" and ?k = "offset_index f_off"
  obtain n where n: "super_inv s'" "addr_inv s'" "block s' i ?k = Some n" "ext_pending n" "\<not> ext_error n"
      "live_table s' = live_table s" "journal_log s' = journal_log s" "keeps_pending s s'"
      "active_tasks s' = active_tasks s" "undisturbed s s'"
      "task_head s' = task_head s @ [Cow_Task ?a]" "next_address s' = ?a + 1"
      "cow_at s' = (cow_at s)(?a := \<lparr>cow_journal = \<lparr>jn_entry = JBIND i (ucast ?k) (ucast (ext_backend n)),
         jn_flush = True\<rparr>, cow_file = i, cow_extent = ?k\<rparr>)"
    by (rule write_alloc_cow [OF S(1,2) w st un room, of p]) (use res in auto)
  have "cow_ok s' ?a" using n by (simp add: cow_ok_def cow_entry_def)
  moreover have "block s i ?k = None"
    using w un by (simp add: block_def writable_def file_find_index)
  ultimately have "cows_ok s' (task_list (s, r) @ [Cow_Task ?a])"
    using n by (intro cows_ok_new [OF S(3) n(8,12,13)]) simp_all
  then show ?thesis
    using n S tasks_fit [OF S(7) n(10)] by (simp add: sys_next_def sys_inv_def task_list_def)
qed

lemma sys_write_alloc:
  assumes inv: "sys_inv t0 (s, r)" and w: "writable s i f_off f"
    and res: "write_alloc i f_off p s = (err, ext, nj, call, s')"
  shows "sys_next t0 r s s'"
proof -
  consider "ensure_status s \<noteq> Ok" | n where "ensure_status s = Ok" "file_find_extent f f_off = Some n"
    | "ensure_status s = Ok" "file_find_extent f f_off = None"
      "\<not> sm_reserved_extents (meta s) < sm_free_extents (meta s)"
    | "ensure_status s = Ok" "file_find_extent f f_off = None"
      "sm_reserved_extents (meta s) < sm_free_extents (meta s)"
    by (cases "file_find_extent f f_off") auto
  then show ?thesis
  proof cases
    case 4
    then show ?thesis
      using sys_write_bind [OF inv w 4] sys_write_cow [OF inv w 4] res by (cases p) auto
  qed (use sys_next_refl [OF inv] res write_alloc_refuse [OF w, where p = p] in auto)
qed

lemma sys_discard:
  assumes inv: "sys_inv t0 (s, r)" and w: "writable s i f_off f"
    and found: "discard_check s i f_off l = Some (D_Unmap n)"
  shows "sys_next t0 r s (journal_append \<lparr>jn_entry = JUNBIND i (cyanfs_extent_from f_off), jn_flush = True\<rparr>
    (file_unmap_extent i n s))"
proof -
  note D = discard_unmap [OF sys_invD(1,2) [OF inv] w found]
  show ?thesis
    by (rule sys_journaled [OF inv D(1,2,3)]) (use D in simp_all)
qed

subsection \<open>Tasks\<close>

lemma moves_counters:
  "moves s (snd (writer_inc s))" "moves s (writer_dec w s)" "moves s (super_set_new_task_callback fn s)"
  by (rule moves_fields; simp add: Let_def writer_inc_def writer_dec_def super_set_new_task_callback_def)+

lemma moves_requeue: "moves s (snd (cyanfs_requeue mem i ctx s))"
proof -
  let ?t = "s\<lparr>next_address := next_address s + 1\<rparr>"
  have "moves s ?t" by (rule moves_fields) simp_all
  then have m: "moves s (snd (task_add_tail (Requeue_Task a) (task_init (Requeue_Task a) ty Task_Free_Done ?t)))" for a ty
    by (rule moves_trans [OF _ moves_queue(2)]) simp_all
  show ?thesis
    using m moves_trans [OF m moves_small(3)] by (simp add: cyanfs_requeue_def Let_def case_prod_unfold)
qed

lemma sys_get_task:
  assumes inv: "sys_inv t0 (s, None)" and res: "super_get_task s = (t, s')"
  shows "sys_inv t0 (s', t)" "task_list (s', t) = task_list (s, None)"
    "task_at s' = task_at s" "next_address s' = next_address s" "meta s' = meta s"
proof -
  show tl: "task_list (s', t) = task_list (s, None)" and at: "task_at s' = task_at s"
    and na: "next_address s' = next_address s" and "meta s' = meta s"
    using res by (auto simp: super_get_task_def task_list_def split: list.splits)
  show "sys_inv t0 (s', t)"
  proof (cases "task_head s")
    case Nil
    then show ?thesis using inv res by (simp add: super_get_task_def)
  next
    case (Cons t' ts)
    then have s': "s' = s\<lparr>task_head := ts, active_tasks := active_tasks s + 1\<rparr>" and t: "t = Some t'"
      using res by (auto simp: super_get_task_def)
    note S = sys_invD [OF inv]
    have c: "core s' = core s" by (simp add: s' core_def)
    have "block s' = block s" by (simp add: s' block_def get_file_def fun_eq_iff)
    then have "cows_ok s' (task_list (s, None))"
      by (intro cows_ok_cong [OF S(3)]) (simp_all add: s' keeps_pending_def)
    moreover have "active_tasks s = 0" using S(4) by (simp add: unat_eq_0)
    moreover have "\<forall>t \<in> set (task_list (s', Some t')). fits_task s' t"
      using S(7) tl t at by (simp add: fits_task_def)
    ultimately show ?thesis
      using S core_inv [OF c] tl by (simp add: sys_inv_def t) (simp add: s' addr_inv_def)
  qed
qed

lemma task_leave_fields [simp]:
  "task_head (task_leave s) = task_head s" "task_at (task_leave s) = task_at s"
  "next_address (task_leave s) = next_address s" "meta (task_leave s) = meta s"
  by (simp_all add: task_leave_def panic_def)

text \<open>The end of a task that is not a copy, after its completion function has run.\<close>

lemma sys_task_leave:
  assumes inv: "sys_inv t0 (s, Some t)" and t: "\<not> is_cow t"
  shows "sys_inv t0 (task_leave s, None)"
proof -
  note S = sys_invD [OF inv]
  let ?s' = "s\<lparr>active_tasks := active_tasks s - 1\<rparr>"
  have act: "unat (active_tasks s) = 1" using S(4) by simp
  then have one: "active_tasks s = 1" by (simp add: word_unat_eq_iff)
  have c: "core ?s' = core s" by (simp add: core_def)
  have "block ?s' = block s" by (simp add: block_def get_file_def fun_eq_iff)
  then have "cows_ok ?s' (task_list (?s', None))"
    using t by (intro cows_ok_cong [OF S(3)]) (simp_all add: task_list_def keeps_pending_def)
  moreover have "addr_inv ?s'" using S(2) by (simp add: addr_inv_def)
  moreover have "\<forall>x \<in> set (task_list (?s', None)). fits_task ?s' x"
    using S(7) by (simp add: task_list_def fits_task_def)
  ultimately show ?thesis
    using S core_inv [OF c] by (simp add: sys_inv_def task_leave_def one)
qed

lemma sys_task_moves:
  assumes "sys_inv t0 (s, Some t)" "\<not> is_cow t" "moves s s'"
  shows "sys_inv t0 (task_leave s', None)" "undisturbed s s'"
  using sys_moves [OF assms(1,3)] sys_task_leave [OF _ assms(2)] by (auto simp: sys_next_def)

lemma cows_ok_done:
  assumes ok: "cows_ok s (Cow_Task a # ts)"
    and keep: "keeps_other_pending s s' (cow_file (cow_at s a)) (cow_extent (cow_at s a))"
    and same: "cow_at s' = cow_at s" "next_address s' = next_address s"
  shows "cows_ok s' ts"
proof -
  have "cow_ok s' b" if b: "Cow_Task b \<in> set ts" for b
  proof -
    have "b \<noteq> a" using ok b by (auto simp: cows_ok_def)
    then have "(cow_file (cow_at s b), cow_extent (cow_at s b)) \<noteq> (cow_file (cow_at s a), cow_extent (cow_at s a))"
      using ok b unfolding cows_ok_def by (metis list.set_intros prod.inject)
    moreover have "cow_ok s b" using ok b by (simp add: cows_ok_def)
    ultimately show ?thesis
      using keep same unfolding cow_ok_def cow_entry_def keeps_other_pending_def by metis
  qed
  then show ?thesis using ok same by (auto simp: cows_ok_def)
qed

lemma sys_copy_done:
  assumes inv: "sys_inv t0 (s, Some (Cow_Task a))"
  shows "sys_inv t0 (task_leave (copy_on_write_done mem a err s), None)" "undisturbed s (copy_on_write_done mem a err s)"
proof -
  note S = sys_invD [OF inv]
  have cows: "cows_ok s (Cow_Task a # task_head s)" using S(3) by (simp add: task_list_def)
  then have ok: "cow_ok s a" by (simp add: cows_ok_def)
  note rem = cows_ok_done [OF cows]
  text \<open>Until the completion function returns, the place of the running task is taken by a task without meaning.\<close>
  define d where "d = Requeue_Task 0"
  have leave: "sys_inv t0 (task_leave u, None)" if "super_inv u" "addr_inv u" "cows_ok u (task_head u)"
      "active_tasks u = 1" "list_all entry_wf (journal_log u)" "apply_entries (journal_log u) t0 = Some (live_table u)"
      "\<forall>x \<in> set (task_head u). fits_task u x" for u
  proof -
    let ?u = "u\<lparr>active_tasks := 0\<rparr>"
    have c: "core ?u = core u" by (simp add: core_def)
    have "block ?u = block u" by (simp add: block_def get_file_def fun_eq_iff)
    then have "cows_ok ?u (task_list (?u, None))"
      by (intro cows_ok_cong [OF that(3)]) (simp_all add: task_list_def keeps_pending_def)
    then show ?thesis
      using that core_inv [OF c] by (simp add: sys_inv_def task_leave_def task_list_def fits_task_def addr_inv_def)
  qed
  have act: "active_tasks s = 1" using S(4) by (simp add: word_unat_eq_iff)
  have fit: "\<forall>x \<in> set (task_head u). fits_task u x" if "undisturbed s u" for u
    using S(7) that by (auto simp: undisturbed_def task_list_def)
  have "sys_inv t0 (task_leave (copy_on_write_done mem a err s), None) \<and> undisturbed s (copy_on_write_done mem a err s)"
  proof (cases "err = Ok")
    case True
    obtain t where eq: "copy_on_write_done mem a Ok s = super_flush_new_journal mem t"
      and t: "super_inv t" "addr_inv t" "journaled s (cow_entry s a) t"
        "keeps_other_pending s t (cow_file (cow_at s a)) (cow_extent (cow_at s a))"
        "task_head t = task_head s" "next_address t = next_address s" "cow_at t = cow_at s"
        "active_tasks t = active_tasks s" "undisturbed s t"
      by (rule cow_done_ok [OF S(1,2) ok, of mem])
    let ?u = "super_flush_new_journal mem t"
    have m: "moves t ?u" by (rule moves_flush_new_journal [OF t(2)])
    note M = moves_inv [OF m t(1)]
    have "cows_ok t (task_list (t, None))" using rem [OF t(4,7,6)] t(5) by (simp add: task_list_def)
    then have "cows_ok ?u (task_head ?u)"
      using cows_quiet [OF _ M(5) keeps_pending_moves [OF m], of None] by (simp add: task_list_def)
    moreover have "active_tasks ?u = 1" using M(5) t(8) act by (simp add: quiet_def)
    moreover have d: "undisturbed s ?u" by (rule undisturbed_trans [OF t(9) quiet_undisturbed [OF M(5)]])
    ultimately show ?thesis
      using leave [of ?u] M t(2,3) S fit [OF d] True eq by (simp add: journaled_def apply_entries_append)
  next
    case False
    note e = cow_done_error [OF S(1,2) ok False, of mem]
    let ?t = "copy_on_write_done mem a err s"
    show ?thesis
      using leave [of ?t] rem [OF e(5,8,7)] e S act fit [OF e(10)] by simp
  qed
  then show "sys_inv t0 (task_leave (copy_on_write_done mem a err s), None)" "undisturbed s (copy_on_write_done mem a err s)"
    by simp_all
qed

lemma plain_done_cases:
  assumes "plain_task_done mem t err s = Some u"
  obtains a where "t = Cow_Task a" "u = copy_on_write_done mem a err s"
  | "\<not> is_cow t" "\<not> is_comp t" "extent_inv s \<Longrightarrow> moves s u"
proof -
  note mv = moves_discard_begin moves_discard_done moves_free moves_after_flush moves_before_flush
    moves_before_write_flush moves_before_write_flush_done moves_refl
  have "(\<exists>a. t = Cow_Task a \<and> u = copy_on_write_done mem a err s) \<or>
      \<not> is_cow t \<and> \<not> is_comp t \<and> (extent_inv s \<longrightarrow> moves s u)"
    using assms unfolding plain_task_done_def by (cases t) (auto split: task_done.splits intro: mv)
  then show ?thesis using that by blast
qed

text \<open>The compactions do not notice what leaves them alone.\<close>

lemma filter_comp_of: "filter (comp_of a) (filter is_comp ts) = filter (comp_of a) ts"
  by (induction ts) (auto dest: comp_of_is_comp)

lemma filter_single: "filter P xs = [x] \<Longrightarrow> P x"
proof -
  assume "filter P xs = [x]"
  then have "x \<in> set (filter P xs)" by simp
  then show ?thesis by simp
qed

lemma comps_ok_cong:
  assumes "comps_ok ts s h" "filter is_comp ts' = filter is_comp ts" "\<forall>t. is_comp t \<longrightarrow> task_at s' t = task_at s t"
    "next_address s \<le> next_address s'" "sm_total_extents (meta s') = sm_total_extents (meta s)"
  shows "comps_ok ts' s' h"
proof -
  have f: "filter (comp_of a) ts' = filter (comp_of a) ts" for a by (metis filter_comp_of assms(2))
  show ?thesis
    unfolding comps_ok_def
  proof
    fix a
    show "case h a of None \<Rightarrow> filter (comp_of a) ts' = []
      | Some t \<Rightarrow> a < next_address s' \<and> (\<exists>x. filter (comp_of a) ts' = [x] \<and>
          comp_ok (sm_total_extents (meta s')) x (t_done (task_at s' x)) t)"
    proof (cases "h a")
      case None
      then show ?thesis using assms(1) f by (auto simp: comps_ok_def dest: spec [of _ a])
    next
      case (Some t)
      have "case h a of None \<Rightarrow> filter (comp_of a) ts = []
          | Some t \<Rightarrow> a < next_address s \<and>
              (\<exists>x. filter (comp_of a) ts = [x] \<and> comp_ok (sm_total_extents (meta s)) x (t_done (task_at s x)) t)"
        using assms(1) by (simp add: comps_ok_def)
      then obtain x where x: "a < next_address s" "filter (comp_of a) ts = [x]"
          "comp_ok (sm_total_extents (meta s)) x (t_done (task_at s x)) t"
        using Some by auto
      then have "comp_of a x" by (auto dest: filter_single)
      then show ?thesis using x f assms(3-5) comp_of_is_comp [of a x] Some by auto
    qed
  qed
qed

lemma comps_undisturbed:
  "comps_ok (task_list (s, r)) s h \<Longrightarrow> undisturbed s s' \<Longrightarrow> comps_ok (task_list (s', r)) s' h"
  by (erule comps_ok_cong) (auto simp: undisturbed_def task_list_def)

text \<open>A step of the compaction \<open>a\<close>, when it has no other task.\<close>

lemma comps_next:
  assumes ok: "comps_ok (ts @ task_head s) s h" and st: "comp_next a q s s'" "a < next_address s'"
    and ts: "filter (comp_of a) (ts' @ task_head s) = []" "\<And>b. b \<noteq> a \<Longrightarrow> filter (comp_of b) ts' = filter (comp_of b) ts"
  shows "comps_ok (ts' @ task_head s') s' (h(a := q))"
proof -
  have u: "undisturbed s u" if "moves s u" for s u using that by (simp add: moves_def quiet_undisturbed)
  obtain x fn where N: "filter is_comp (task_head s') = filter is_comp (task_head s) @ (if q = None then [] else [x])"
      "\<forall>t. is_comp t \<longrightarrow> task_at s' t = task_at s t \<or> q \<noteq> None \<and> t = x \<and> t_done (task_at s' t) = fn"
      "q \<noteq> None \<Longrightarrow> comp_of a x \<and> comp_ok (sm_total_extents (meta s)) x fn (the q) \<and> t_done (task_at s' x) = fn"
      "next_address s \<le> next_address s'" "sm_total_extents (meta s') = sm_total_extents (meta s)"
  proof (cases q)
    case None
    then show ?thesis using that [of undefined undefined] u [of s s'] st(1) by (simp add: undisturbed_def)
  next
    case (Some t)
    then obtain w x ty fn where w: "moves s w" "comp_of a x" "comp_ok (sm_total_extents (meta s)) x fn t"
        "moves (snd (task_add_tail x (task_init x ty fn w))) s'"
      using st(1) by (auto simp: comp_next_def)
    note D = u [OF w(1)] u [OF w(4)] and x = comp_of_is_comp [OF w(2)]
    show ?thesis
    proof (rule that [of x fn])
      show "filter is_comp (task_head s') = filter is_comp (task_head s) @ (if q = None then [] else [x])"
        using D x Some by (simp add: undisturbed_def task_add_tail_def task_init_def)
      show "\<forall>t. is_comp t \<longrightarrow> task_at s' t = task_at s t \<or> q \<noteq> None \<and> t = x \<and> t_done (task_at s' t) = fn"
        using D Some by (auto simp: undisturbed_def task_add_tail_def task_init_def)
      show "comp_of a x \<and> comp_ok (sm_total_extents (meta s)) x fn (the q) \<and> t_done (task_at s' x) = fn" if "q \<noteq> None"
        using D x w Some by (auto simp: undisturbed_def task_add_tail_def task_init_def)
      show "next_address s \<le> next_address s'" "sm_total_extents (meta s') = sm_total_extents (meta s)"
        using D by (simp_all add: undisturbed_def task_add_tail_def task_init_def)
    qed
  qed
  have f: "filter (comp_of b) (task_head s') = filter (comp_of b) (task_head s) @ (if q \<noteq> None \<and> b = a then [x] else [])" for b
  proof -
    have "filter (comp_of b) (task_head s') = filter (comp_of b) (filter is_comp (task_head s) @ (if q = None then [] else [x]))"
      by (metis filter_comp_of N(1))
    moreover have "q \<noteq> None \<Longrightarrow> comp_of b x \<longleftrightarrow> b = a" using N(3) by (cases x) auto
    ultimately show ?thesis using filter_comp_of [of b "task_head s"] by (cases q) (auto simp del: filter_filter)
  qed
  show ?thesis
    unfolding comps_ok_def
  proof
    fix b
    show "case (h(a := q)) b of None \<Rightarrow> filter (comp_of b) (ts' @ task_head s') = []
      | Some t \<Rightarrow> b < next_address s' \<and> (\<exists>x. filter (comp_of b) (ts' @ task_head s') = [x] \<and>
          comp_ok (sm_total_extents (meta s')) x (t_done (task_at s' x)) t)"
    proof (cases "b = a")
      case True
      then show ?thesis using ts(1) st(2) N(3,5) f [of a] by (cases q) auto
    next
      case False
      have o: "case h b of None \<Rightarrow> filter (comp_of b) (ts @ task_head s) = []
          | Some t \<Rightarrow> b < next_address s \<and> (\<exists>x. filter (comp_of b) (ts @ task_head s) = [x] \<and>
              comp_ok (sm_total_extents (meta s)) x (t_done (task_at s x)) t)"
        using ok by (simp add: comps_ok_def)
      have same: "filter (comp_of b) (ts' @ task_head s') = filter (comp_of b) (ts @ task_head s)"
        using f [of b] False ts(2) [OF False] by simp
      have at: "t_done (task_at s' y) = t_done (task_at s y)" if "filter (comp_of b) (ts @ task_head s) = [y]" for y
      proof -
        have y: "comp_of b y" using that by (rule filter_single)
        have "\<not> (q \<noteq> None \<and> y = x)" using N(3) y False by (cases x) auto
        then show ?thesis using N(2) comp_of_is_comp [OF y] by metis
      qed
      show ?thesis
      proof (cases "h b")
        case None
        then show ?thesis using o same False by simp
      next
        case (Some t)
        then show ?thesis using o same False at N(4,5) by auto
      qed
    qed
  qed
qed

subsection \<open>The completion of a task\<close>

definition fs_inv :: "table \<Rightarrow> sys \<Rightarrow> bool" where
  "fs_inv t0 x \<longleftrightarrow>
     (let (s, r, h) = x in sys_inv t0 (s, r) \<and> comps_ok (task_list (s, r)) s h)"

lemma fs_invD:
  assumes "fs_inv t0 (s, r, h)"
  shows "sys_inv t0 (s, r)" "comps_ok (task_list (s, r)) s h"
  using assms by (simp_all add: fs_inv_def)

lemma fs_next:
  assumes "fs_inv t0 (s, r, h)" "sys_next t0 r s s'"
  shows "fs_inv t0 (s', r, h)"
  using assms comps_undisturbed by (auto simp: fs_inv_def sys_next_def)

lemma comps_leave:
  "comps_ok ts s h \<Longrightarrow> comps_ok ts (task_leave s) h"
  by (erule comps_ok_cong) simp_all

lemma sys_queue:
  assumes inv: "sys_inv t0 (s, r)" and x: "\<not> is_cow x" "task_fits x fn"
  shows "sys_inv t0 (snd (task_add_tail x (task_init x ty fn s)), r)"
proof -
  note S = sys_invD [OF inv]
  let ?s = "snd (task_add_tail x (task_init x ty fn s))"
  have f: "core ?s = core s" "cow_at ?s = cow_at s" "next_address ?s = next_address s"
      "active_tasks ?s = active_tasks s" "journal_log ?s = journal_log s" "task_head ?s = task_head s @ [x]"
    by (simp_all add: core_def task_add_tail_def task_init_def)
  have "trees ?s = trees s" "block ?s = block s" using f(1) by (simp_all add: core_def block_def get_file_def fun_eq_iff)
  then have "addr_inv ?s" "cows_ok ?s (task_list (?s, r))"
    using S(2) x(1) f
    by (auto simp: addr_inv_def task_list_def keeps_pending_def intro!: cows_ok_cong [OF S(3)])
  moreover have "\<forall>t \<in> set (task_list (?s, r)). fits_task ?s t"
    using S(7) x(2) by (auto simp: task_list_def fits_task_def task_add_tail_def task_init_def)
  ultimately show ?thesis using S f core_inv [OF f(1)] by (simp add: sys_inv_def)
qed

lemma sys_comp_next:
  assumes inv: "sys_inv t0 (s, r)" and st: "comp_next a q s s'"
  shows "sys_inv t0 (s', r)"
proof (cases q)
  case None
  then show ?thesis using sys_moves [OF inv] st by (simp add: sys_next_def)
next
  case (Some t)
  then obtain u x ty fn where u: "moves s u" "comp_of a x" "task_fits x fn"
      "moves (snd (task_add_tail x (task_init x ty fn u))) s'"
    using st by (auto simp: comp_next_def)
  have "sys_inv t0 (u, r)" using sys_moves [OF inv u(1)] by (simp add: sys_next_def)
  moreover have "\<not> is_cow x" using u(2) by (cases x) simp_all
  ultimately show ?thesis using sys_moves [OF sys_queue [OF _ _ u(3)] u(4)] by (simp add: sys_next_def)
qed

lemma comp_put_fresh: "h a = None \<Longrightarrow> comp_put a q h = h(a := q)"
  by (auto simp: comp_put_def split: option.split)

lemma comps_fresh:
  assumes "comps_ok ts s h"
  shows "h (next_address s) = None" "filter (comp_of (next_address s)) ts = []"
proof -
  have c: "case h (next_address s) of None \<Rightarrow> filter (comp_of (next_address s)) ts = []
      | Some t \<Rightarrow> next_address s < next_address s \<and> (\<exists>x. filter (comp_of (next_address s)) ts = [x] \<and>
          comp_ok (sm_total_extents (meta s)) x (t_done (task_at s x)) t)"
    using assms by (simp add: comps_ok_def)
  then show n: "h (next_address s) = None" by (cases "h (next_address s)") auto
  show "filter (comp_of (next_address s)) ts = []" using c n by simp
qed

lemma fs_compact:
  assumes inv: "fs_inv t0 (s, r, h)" and c: "super_compact mem raw raw_file s = (err, q, s')"
  shows "fs_inv t0 (s', r, comp_put (next_address s) q h)"
proof -
  note I = fs_invD [OF inv] and S = compact_start_moves [OF sys_invD(1) [OF fs_invD(1) [OF inv]] c]
  note F = comps_fresh [OF I(2)]
  have s': "sys_inv t0 (s', r)" by (rule sys_comp_next [OF I(1) S(1)])
  have "comps_ok (task_list (s', r)) s' (h(next_address s := q))"
  proof (cases q)
    case None
    then have "undisturbed s s'" using S(1) by (simp add: moves_def quiet_undisturbed)
    moreover have "h(next_address s := None) = h" using F(1) by auto
    ultimately show ?thesis using comps_undisturbed [OF I(2)] None by simp
  next
    case (Some t)
    show ?thesis
      using comps_next [OF I(2) [unfolded task_list_def fst_conv snd_conv] S(1)] S(2) Some F(2)
      by (simp add: task_list_def)
  qed
  then show ?thesis using s' comp_put_fresh [of h "next_address s" q, OF F(1)] by (simp add: fs_inv_def)
qed

lemma fs_writer_done:
  assumes inv: "fs_inv t0 (s, Some (Flusher_Writer a), h)" and w: "flusher_writer_done env a err s = (q, s')"
  shows "fs_inv t0 (task_leave s', None, comp_put (next_address s) q h)"
proof -
  obtain fin u where e: "flusher_writer_encode a err s = (fin, u)" by (cases "flusher_writer_encode a err s")
  have m: "moves s u" using moves_writer_encode [of s a err] e by simp
  have leave: "fs_inv t0 (task_leave v, None, g)" if "fs_inv t0 (v, Some (Flusher_Writer a), g)" for v g
  proof -
    have "comps_ok (task_list (v, None)) v g"
      by (rule comps_ok_cong [OF fs_invD(2) [OF that]]) (simp_all add: task_list_def)
    then have "comps_ok (task_list (task_leave v, None)) (task_leave v) g"
      using comps_leave by (simp add: task_list_def)
    moreover have "sys_inv t0 (task_leave v, None)" by (rule sys_task_leave [OF fs_invD(1) [OF that]]) simp
    ultimately show ?thesis by (simp add: fs_inv_def)
  qed
  have u: "fs_inv t0 (u, Some (Flusher_Writer a), h)" by (rule fs_next [OF inv sys_moves [OF fs_invD(1) [OF inv] m]])
  show ?thesis
  proof (cases fin)
    case False
    then show ?thesis using leave [OF u] w e by (simp add: flusher_writer_done_def comp_put_def)
  next
    case True
    define v where "v b = (if b then set_flag FLAG_FLUSH u else u)" for b
    have na: "next_address u = next_address s"
      using True e by (auto simp: flusher_writer_encode_def journal_writer_encode_def Let_def
          split: if_splits option.splits prod.splits writer_result.splits)
    have v: "fs_inv t0 (v b, Some (Flusher_Writer a), h)" for b
      using fs_next [OF u sys_moves [OF fs_invD(1) [OF u] moves_small(1)]] u by (simp add: v_def)
    have nv: "next_address (v b) = next_address s" for b using na by (simp add: set_flag_def v_def)
    have "\<exists>b c. flusher_write_finish (de_malloc env) (de_raw env) (de_raw_file env) a u =
        (if c then snd (super_compact (de_malloc env) (de_raw env) (de_raw_file env) (v b)) else (None, v b))"
      unfolding flusher_write_finish_def Let_def v_def by (intro exI) (rule refl)
    then obtain b c where "(q, s') = (if c then snd (super_compact (de_malloc env) (de_raw env) (de_raw_file env) (v b)) else (None, v b))"
      using w e True by (auto simp: flusher_writer_done_def)
    then consider "q = None" "s' = v b"
      | err where "super_compact (de_malloc env) (de_raw env) (de_raw_file env) (v b) = (err, q, s')"
      by (cases "super_compact (de_malloc env) (de_raw env) (de_raw_file env) (v b)") (auto split: if_splits)
    then show ?thesis
    proof cases
      case 1
      then show ?thesis using leave [OF v [of b]] by (simp add: comp_put_def)
    next
      case 2
      then show ?thesis using leave [OF fs_compact [OF v 2]] nv [of b] by simp
    qed
  qed
qed

lemma fs_compact_done:
  assumes inv: "fs_inv t0 (s, Some x, h)" and x: "comp_id x = Some a" "h a = Some t"
    and d: "compact_task_done env a x err t s = Some (q, s')"
  shows "fs_inv t0 (task_leave s', None, h(a := q))"
proof -
  note I = fs_invD [OF inv]
  have of: "comp_of b x \<longleftrightarrow> b = a" for b using x(1) by (cases x) auto
  have "case h a of None \<Rightarrow> filter (comp_of a) (task_list (s, Some x)) = []
      | Some t \<Rightarrow> a < next_address s \<and> (\<exists>y. filter (comp_of a) (task_list (s, Some x)) = [y] \<and>
          comp_ok (sm_total_extents (meta s)) y (t_done (task_at s y)) t)"
    using I(2) by (simp add: comps_ok_def)
  then have c: "a < next_address s" "filter (comp_of a) (task_head s) = []"
      "comp_ok (sm_total_extents (meta s)) x (t_done (task_at s x)) t"
    using x(2) of by (auto simp: task_list_def)
  have rs: "replay_state (cp_super t)" using c(3) by (simp add: comp_ok_def)
  have ext: "extent_inv s" by (rule super_invD(1) [OF sys_invD(1) [OF I(1)]])
  note steps = comp_parser(1) [of s _ _ t a] comp_parser(2) [of s _ _ t a] comp_writer [OF rs, of a] comp_write_super [OF rs, of a]
    comp_flush_super [OF rs, of a] comp_finish [OF ext, of a]
  have st: "comp_next a q s s'"
    using d c(3) steps unfolding compact_task_done_def by (cases x) (auto split: task_done.splits dest!: sym [of _ "(q, s')"], (metis fst_conv snd_conv)+)
  have "a < next_address s'"
    using c(1) st by (cases q) (auto simp: comp_next_def moves_def task_add_tail_def task_init_def dest!: quiet_address)
  then have "comps_ok (task_head s') s' (h(a := q))"
    using comps_next [OF I(2) [unfolded task_list_def fst_conv snd_conv] st, of "[]"] c(2) of by simp
  moreover have "sys_inv t0 (task_leave s', None)"
    by (rule sys_task_leave [OF sys_comp_next [OF I(1) st]]) (use x(1) in \<open>cases x; simp\<close>)
  ultimately show ?thesis using comps_leave by (simp add: fs_inv_def task_list_def)
qed

lemma fs_task_done:
  assumes inv: "fs_inv t0 (s, Some x, h)" and d: "super_task_done env x err (s, h) = Some (s', h')"
  shows "fs_inv t0 (s', None, h')"
proof (cases "comp_id x")
  case (Some a)
  then show ?thesis
    using d fs_compact_done [OF inv Some] by (auto simp: super_task_done_def split: option.splits)
next
  case None
  show ?thesis
  proof (cases "\<exists>a. x = Flusher_Writer a")
    case True
    then show ?thesis
      using d None fs_writer_done inv by (auto simp: super_task_done_def split: if_splits prod.splits)
  next
    case False
    then obtain u where u: "plain_task_done (de_mem env) x err s = Some u" "s' = task_leave u" "h' = h"
      using d None by (cases x) (auto simp: super_task_done_def)
    note I = fs_invD [OF inv]
    have "sys_inv t0 (task_leave u, None) \<and> undisturbed s u"
      using u(1)
    proof (cases rule: plain_done_cases)
      case (1 a)
      then show ?thesis using sys_copy_done [of t0 s a] I(1) by simp
    next
      case 2
      then show ?thesis using sys_task_moves [OF I(1)] super_invD(1) [OF sys_invD(1) [OF I(1)]] by simp
    qed
    moreover from this have "comps_ok (task_list (u, Some x)) u h" using comps_undisturbed [OF I(2)] by blast
    then have "comps_ok (task_list (u, None)) u h"
      by (rule comps_ok_cong) (use None in \<open>cases x; simp add: task_list_def\<close>, simp_all)
    ultimately show ?thesis using comps_leave u by (simp add: fs_inv_def task_list_def)
  qed
qed

text \<open>Every task in the queue can be completed, with any status.\<close>

lemma task_done_defined:
  assumes inv: "fs_inv t0 (s, Some x, h)"
  shows "super_task_done env x err (s, h) \<noteq> None"
proof -
  note I = fs_invD [OF inv]
  have f: "task_fits x (t_done (task_at s x))" using sys_invD(7) [OF I(1)] by (simp add: task_list_def fits_task_def)
  show ?thesis
  proof (cases "comp_id x")
    case (Some a)
    have "case h a of None \<Rightarrow> filter (comp_of a) (task_list (s, Some x)) = [] | Some t \<Rightarrow> True"
      using I(2) by (auto simp: comps_ok_def split: option.splits dest: spec [of _ a])
    moreover have "comp_of a x" using Some by (cases x) auto
    ultimately obtain t where "h a = Some t" by (cases "h a") (auto simp: task_list_def)
    then show ?thesis using f Some by (cases x) (auto simp: super_task_done_def compact_task_done_def)
  next
    case None
    then show ?thesis using f by (cases x) (auto simp: super_task_done_def plain_task_done_def Let_def split: prod.splits)
  qed
qed

subsection \<open>Every reachable state\<close>

lemma step_inv: "step x y \<Longrightarrow> fs_inv t0 x \<Longrightarrow> fs_inv t0 y"
proof (induction rule: step.induct)
  case (Create n mem s err out s' r h)
  then show ?case using fs_next sys_create [of t0 s r n mem] fs_invD(1) by fastforce
next
  case (Fork n mem p s err out s' r h)
  then show ?case using fs_next sys_fork [of t0 s r n mem p] fs_invD(1) by fastforce
next
  case (Rename n mem i s err s' r h)
  then show ?case using fs_next sys_rename [of t0 s r n mem i] fs_invD(1) by fastforce
next
  case (Truncate mem i sz s err s' r h)
  then show ?case using fs_next sys_truncate [of t0 s r mem i sz] fs_invD(1) by fastforce
next
  case (Delete mem i s err s' r h)
  then show ?case using fs_next sys_delete [of t0 s r mem i] fs_invD(1) by fastforce
next
  case (Open i w s err out s' r h)
  then show ?case using fs_next sys_open [of t0 s r i w] fs_invD(1) by fastforce
next
  case Close
  then show ?case using fs_next sys_close fs_invD(1) by blast
next
  case Write_Alloc
  show ?case
    by (rule fs_next [OF Write_Alloc(3) sys_write_alloc [OF fs_invD(1) [OF Write_Alloc(3)] Write_Alloc(1,2)]])
next
  case Discard_Unmap
  then show ?case using fs_next sys_discard fs_invD(1) by blast
next
  case (Flush mem k ondisk s err s' r h)
  then show ?case
    using fs_next sys_moves [OF fs_invD(1) moves_flusher_start [OF sys_invD(2) [OF fs_invD(1)]]] by (metis snd_conv)
next
  case (Requeue mem i ctx s err s' r h)
  then show ?case using fs_next sys_moves [OF fs_invD(1) moves_requeue] by (metis snd_conv)
next
  case Compact
  then show ?case using fs_compact by blast
next
  case (Get_Task s t s' h)
  note G = sys_get_task [OF fs_invD(1) [OF Get_Task(2)] Get_Task(1)]
  have "comps_ok (task_list (s', t)) s' h"
    by (rule comps_ok_cong [OF fs_invD(2) [OF Get_Task(2)]]) (simp_all add: G)
  then show ?case using G(1) by (simp add: fs_inv_def)
next
  case Task_Done
  then show ?case using fs_task_done by blast
qed (use fs_next sys_moves [OF fs_invD(1)] moves_counters moves_small(3) in blast)+

lemma reachable_inv: "step\<^sup>*\<^sup>* x y \<Longrightarrow> fs_inv t0 x \<Longrightarrow> fs_inv t0 y"
  by (induction rule: rtranclp_induct) (auto intro: step_inv)

end
