(* ===== verification/Recovery.thy ===== *)
theory Recovery
  imports System
begin

section \<open>Mounting, running and recovering\<close>

text \<open>
  A mount opens the device, replays the entries of its journal and makes the super block ready. All
  states that the running system reaches afterwards satisfy the invariant, and the journal that was
  replayed together with the entries appended since recovers the file table: replaying it on a newly
  opened super block of the same device succeeds and gives the same files.
\<close>

definition loading :: "super \<Rightarrow> super" where
  "loading s = snd (super_get_task s)"

text \<open>
  \<open>mounted sz js s\<close>: the state \<open>s\<close> results from opening a device of \<open>sz\<close> bytes, taking the task of the
  journal loader, replaying the entries \<open>js\<close>, finishing the open and leaving the task.
\<close>

definition mounted :: "u64 \<Rightarrow> journal_entry list \<Rightarrow> super \<Rightarrow> bool" where
  "mounted sz js s \<longleftrightarrow>
     (\<exists>mem locks raw rf d c r0 mem' r e u.
        super_open mem locks raw rf sz d c = Some r0 \<and>
        replay_all mem' js (loading r0) = (Ok, r) \<and> mem' 0 \<and>
        s = task_leave (super_open_finish e u r))"

lemma super_open_tasks:
  assumes "super_open mem locks raw rf sz d c = Some s"
  shows "active_tasks s = 0"
  using assms
  by (auto simp: super_open_def Let_def task_add_tail_def super_new_task_def task_init_def open_init_def
      fold_open_fields set_flag_def split: if_splits option.splits)

lemma loading_state:
  assumes "super_open mem locks raw rf sz d c = Some s"
  shows "replay_state (loading s)" "addr_inv (loading s)" "\<not> has_flag (loading s) FLAG_ERROR"
    "table_of (loading s) = empty_table ((unat sz - 8192) div 2 ^ 20)" "journal_log (loading s) = []"
    "task_head (loading s) = []" "active_tasks (loading s) = 1"
proof -
  note o = super_open_Some [OF assms]
  obtain a where "task_head s = [Loader_Task a]" using o(7) by blast
  then have l: "loading s = s\<lparr>task_head := [], active_tasks := 1\<rparr>"
    using super_open_tasks [OF assms] by (simp add: loading_def super_get_task_def)
  have c: "core (loading s) = core s" by (simp add: l core_def)
  have "get_file (loading s) = get_file s" by (simp add: l get_file_def fun_eq_iff)
  then show "replay_state (loading s)"
    using o(2) core_inv(1) [OF c] by (simp add: replay_state_def block_def has_flag_def) (simp add: l)
  show "addr_inv (loading s)" using o(3) by (simp add: l addr_inv_def)
  show "\<not> has_flag (loading s) FLAG_ERROR" using o(4) by (simp add: l has_flag_def)
  show "table_of (loading s) = empty_table ((unat sz - 8192) div 2 ^ 20)"
    using o(5) core_inv(2) [OF c] by simp
  show "journal_log (loading s) = []" "task_head (loading s) = []" "active_tasks (loading s) = 1"
    using o(6) by (simp_all add: l)
qed

lemma replay_all_table:
  assumes "replay_state r" "mem 0" "list_all entry_wf js" "replay_all mem js r = (Ok, r')"
  shows "apply_entries js (table_of r) = Some (table_of r') \<and> replay_state r'"
  using assms
proof (induction js arbitrary: r)
  case (Cons j js)
  obtain t where j: "journal_replay mem j r = (Ok, t)" and js: "replay_all mem js t = (Ok, r')"
    using Cons.prems(4) by (auto split: prod.splits cyanfs_status.splits)
  have m: "replay_matches (apply_entry j (table_of r)) r (journal_replay mem j r)"
    using Cons.prems by (intro replay_refines) simp_all
  then have "apply_entry j (table_of r) = Some (table_of t) \<and> replay_state t"
    using j by (auto simp: replay_matches_def split: option.splits)
  then show ?case using Cons.IH [of t] Cons.prems js by simp
qed simp

lemma trees_replay:
  assumes "T \<noteq> Free_Extents" "T \<noteq> Journal_Extents" "replay_state r" "replay_state r'"
  shows "trees r' T = trees r T"
  using assms replay_stateD(5) by metis

lemma mounted_inv:
  assumes "mounted sz js s" "list_all entry_wf js"
  shows "fs_inv (live_table s) (s, None, Map.empty)" "ensure_status s = Ok" "valid_device_size sz" "journal_log s = []"
    "apply_entries js (empty_table ((unat sz - 8192) div 2 ^ 20)) = Some (table_of s)"
proof -
  obtain mem locks raw rf d c r0 mem' r e u where
    o: "super_open mem locks raw rf sz d c = Some r0" and
    rep: "replay_all mem' js (loading r0) = (Ok, r)" "mem' 0" and
    s: "s = task_leave (super_open_finish e u r)"
    using assms(1) by (auto simp: mounted_def)
  show "valid_device_size sz" by (rule super_open_Some(1) [OF o])
  note L = loading_state [OF o]
  have r: "apply_entries js (table_of (loading r0)) = Some (table_of r)" "replay_state r"
    using replay_all_table [OF L(1) rep(2) assms(2) rep(1)] by simp_all
  have "super_tail r = super_tail (loading r0)" using super_tail_replay_all [of mem' js] rep(1) by (metis snd_conv)
  note T = super_tail_D [OF this]
  have ad: "addr_inv r"
    using L(2) trees_replay [OF _ _ L(1) r(2)] by (simp add: addr_inv_def T)
  have "\<not> has_flag r FLAG_ERROR" using L(3) by (simp add: has_flag_def T)
  note F = open_finish_state [OF r(2) this ad]
  let ?t = "super_open_finish e u r"
  have tasks: "task_head ?t = []" "active_tasks ?t = 1"
    using L(6,7) by (simp_all add: super_open_finish_def Let_def set_flag_def T)
  have core: "core s = core ?t" using tasks by (simp add: s task_leave_def core_def)
  have "sys_inv (live_table ?t) (s, None)"
    using F L(5) tasks core_inv [OF core]
    by (simp add: sys_inv_def cows_ok_def task_list_def) (simp add: s task_leave_def T addr_inv_def)
  moreover have "comps_ok (task_list (s, None)) s Map.empty"
    using tasks by (simp add: comps_ok_def task_list_def s)
  ultimately show "fs_inv (live_table s) (s, None, Map.empty)" using core_inv(3) [OF core] by (simp add: fs_inv_def)
  show "ensure_status s = Ok"
    using F(2) [of e u] tasks by (simp add: s task_leave_def ensure_status_def has_flag_def split: if_splits)
  show "journal_log s = []" using F(5) [of e u] L(5) tasks by (simp add: s task_leave_def T)
  show "apply_entries js (empty_table ((unat sz - 8192) div 2 ^ 20)) = Some (table_of s)"
    using r(1) L(4) F(3) [of e u] core_inv(2) [OF core] by simp
qed

lemma running_inv:
  assumes "mounted sz js s0" "list_all entry_wf js" "step\<^sup>*\<^sup>* (s0, None, Map.empty) (s, r, h)"
  shows "fs_inv (live_table s0) (s, r, h)" "super_inv s"
  using reachable_inv [OF assms(3) mounted_inv(1) [OF assms(1,2)]] sys_invD(1) [OF fs_invD(1)] by blast+

text \<open>
  The journal so far means a file table, and so does every prefix of it. A loader hands the extents of
  the journal over last, after all other entries.
\<close>

lemma apply_entries_prefix:
  "apply_entries (js @ ks) t = Some u \<Longrightarrow> \<exists>v. apply_entries js t = Some v"
  by (auto simp: apply_entries_append bind_eq_Some_conv)

lemma journal_wf:
  "list_all (\<lambda>j. entry_wf j \<and> \<not> is_link j) js \<Longrightarrow> list_all entry_wf (js @ map JNEXT es)"
  by (auto simp: list_all_iff)

lemma mounted_regular:
  assumes "mounted sz (js @ map JNEXT es) s" "list_all (\<lambda>j. entry_wf j \<and> \<not> is_link j) js"
  shows "apply_entries js (empty_table ((unat sz - 8192) div 2 ^ 20)) = Some (live_table s)"
proof -
  let ?e = "empty_table ((unat sz - 8192) div 2 ^ 20)"
  from mounted_inv(5) [OF assms(1) journal_wf [OF assms(2)]]
  obtain t where t: "apply_entries js ?e = Some t" "apply_entries (map JNEXT es) t = Some (table_of s)"
    by (auto simp: apply_entries_append bind_eq_Some_conv)
  have "tb_journal t = {}"
    using apply_entries_keep_journal [OF _ t(1)] assms(2) by (simp add: list_all_iff empty_table_def)
  then show ?thesis using apply_next [OF t(2)] t(1) by (simp add: live_table_def)
qed

lemma running_journal:
  assumes "mounted sz (js @ map JNEXT es) s0" "list_all (\<lambda>j. entry_wf j \<and> \<not> is_link j) js"
    "step\<^sup>*\<^sup>* (s0, None, Map.empty) (s, r, h)"
  shows "apply_entries (js @ journal_log s) (empty_table ((unat sz - 8192) div 2 ^ 20)) = Some (live_table s)"
    and "list_all entry_wf (js @ journal_log s)"
proof -
  note S = sys_invD [OF fs_invD(1) [OF running_inv(1) [OF assms(1) journal_wf [OF assms(2)] assms(3)]]]
  show "apply_entries (js @ journal_log s) (empty_table ((unat sz - 8192) div 2 ^ 20)) = Some (live_table s)"
    using mounted_regular [OF assms(1,2)] S(6) by (simp add: apply_entries_append)
  show "list_all entry_wf (js @ journal_log s)" using S(5) assms(2) by (auto simp: list_all_iff)
qed

definition journal_ids :: "super \<Rightarrow> cyanfs_extent_id set" where
  "journal_ids s = {i. unat i < total_extents s \<and> idx_find (trees s Journal_Extents) (ucast i) \<noteq> None}"

lemma apply_next_ok:
  assumes "distinct fs" "\<forall>i \<in> set fs. unat i < 2 ^ 30 \<and> unat i < tb_total t \<and> \<not> block_used t (ucast i)"
  shows "\<exists>u. apply_entries (map JNEXT fs) t = Some u"
  using assms
proof (induction fs arbitrary: t)
  case (Cons i fs)
  let ?t = "t\<lparr>tb_journal := insert (ucast i) (tb_journal t)\<rparr>"
  have "ucast j \<noteq> (ucast i :: bitfield30)" if "j \<in> set fs" for j
    using that Cons.prems ucast_index_inject [of j i] by auto
  then have "\<forall>j \<in> set fs. unat j < 2 ^ 30 \<and> unat j < tb_total ?t \<and> \<not> block_used ?t (ucast j)"
    using Cons.prems(2) by (auto simp: block_used_def)
  then show ?case using Cons.IH [of ?t] Cons.prems by simp
qed simp

lemma journal_ids_unused:
  assumes inv: "super_inv s" and i: "i \<in> journal_ids s"
  shows "unat i < 2 ^ 30 \<and> unat i < tb_total (live_table s) \<and> \<not> block_used (live_table s) (ucast i)"
proof -
  have own: "ownership s" using inv by (simp add: super_inv_def extent_inv_def)
  have h: "held_at s (In_Tree Journal_Extents) (ucast i)" using i by (auto simp: journal_ids_def)
  have "\<not> block_used (live_table s) (ucast i)"
  proof
    assume "block_used (live_table s) (ucast i)"
    then obtain j k f where f: "get_file s j = Some f" "af_blocks (abs_file f) k = Some (ucast i)"
      by (auto simp: block_used_def abs_files_def)
    then have "held_at s (In_File j k) (ucast i)"
      by (auto simp: block_def committed_def bind_eq_Some_conv split: if_splits)
    then show False using held_unique(1) [OF own h] by blast
  qed
  then show ?thesis using i super_invD(5) [OF inv] by (simp add: journal_ids_def)
qed

lemma recover:
  assumes m: "mounted sz (js @ map JNEXT es) s0" "list_all (\<lambda>j. entry_wf j \<and> \<not> is_link j) js"
    and run: "step\<^sup>*\<^sup>* (s0, None, Map.empty) (s, r, h)"
    and o: "super_open mem locks raw rf sz d c = Some q" and mem: "mem' 0"
    and cut: "js @ journal_log s = ks @ rest"
  shows "\<exists>q'. replay_all mem' ks (loading q) = (Ok, q') \<and> replay_state q'"
    and "rest = [] \<Longrightarrow> distinct fs \<Longrightarrow> set fs \<subseteq> journal_ids s \<Longrightarrow>
      \<exists>q'. replay_all mem' (ks @ map JNEXT fs) (loading q) = (Ok, q') \<and> replay_state q' \<and> live_table q' = live_table s"
proof -
  let ?e = "empty_table ((unat sz - 8192) div 2 ^ 20)"
  note J = running_journal [OF m run]
  have wf: "list_all entry_wf ks" using J(2) cut by simp
  have rep: "\<exists>q'. replay_all mem' ls (loading q) = (Ok, q') \<and> replay_state q' \<and> table_of q' = v"
    if "list_all entry_wf ls" "apply_entries ls ?e = Some v" for ls v
    using replay_all_refines [where mem = mem', OF loading_state(1) [OF o] mem] that loading_state(4) [OF o] by metis
  show "\<exists>q'. replay_all mem' ks (loading q) = (Ok, q') \<and> replay_state q'"
    using rep [OF wf] apply_entries_prefix J(1) cut by metis
  assume rest: "rest = []" and fs: "distinct fs" "set fs \<subseteq> journal_ids s"
  note inv = running_inv(2) [OF m(1) journal_wf [OF m(2)] run]
  obtain u where u: "apply_entries (map JNEXT fs) (live_table s) = Some u"
    using apply_next_ok [OF fs(1), of "live_table s"] journal_ids_unused [OF inv] fs(2) by blast
  moreover have "apply_entries ks ?e = Some (live_table s)" using J(1) cut rest by simp
  moreover have "list_all entry_wf (ks @ map JNEXT fs)" using wf by (auto simp: list_all_iff)
  ultimately obtain q' where q': "replay_all mem' (ks @ map JNEXT fs) (loading q) = (Ok, q')" "replay_state q'"
      "table_of q' = u"
    using rep [of "ks @ map JNEXT fs" u] by (auto simp: apply_entries_append)
  then have "live_table q' = live_table s" using apply_next [OF u] by (simp add: live_table_def)
  with q' show "\<exists>q'. replay_all mem' (ks @ map JNEXT fs) (loading q) = (Ok, q') \<and> replay_state q' \<and> live_table q' = live_table s"
    by blast
qed

end
