(* ===== verification/Sample.thy ===== *)
theory Sample
  imports Recovery
begin

section \<open>A sample device\<close>

text \<open>
  A device of 16 extents, mounted with an empty journal, and some states that calls lead to: the
  inputs at which the properties are shown to apply.
\<close>

definition sample_raw :: super where
  "sample_raw =
     \<lparr>files_by_id = idx_empty, files_by_name = idx_empty,
      meta = \<lparr>sm_uuid = [], sm_total_extents = 0, sm_free_extents = 0, sm_journal_extents = 0,
        sm_data_extents = 0, sm_reserved_extents = 0, sm_size = 0, sm_files = 0\<rparr>,
      trees = (\<lambda>_. idx_empty), journal_head = [], journal_count = 0, max_file_id = 0, flags = 0,
      writers = (\<lambda>_. 0), writer_current_id = False,
      journal_cursor = \<lparr>jc_page = [], jc_extent_off = 0, jc_extent_id = 0, jc_extent_id_flush = 0,
        jc_extent_id_ondisk = 0, jc_seq = 0\<rparr>,
      task_head = [], active_tasks = 0, new_task = None, new_task_calls = 0,
      task_at = (\<lambda>_. \<lparr>t_done = Task_Free_Done, t_type = TASK_NOP\<rparr>),
      flusher_at = (\<lambda>_. \<lparr>fl_flush_before_write = False, fl_ondisk = False, fl_writer_head = []\<rparr>),
      cow_at = (\<lambda>_. \<lparr>cow_journal = \<lparr>jn_entry = JNEXT 0, jn_flush = False\<rparr>, cow_file = 0, cow_extent = 0\<rparr>),
      next_address = 0, journal_log = [], panicked = False\<rparr>"

definition sample_size :: u64 where "sample_size = 16785408"

definition sample_opened :: super where
  "sample_opened = the (super_open (\<lambda>_. True) (True, True) sample_raw (\<lambda>_. 0) sample_size False False)"

definition sample :: super where
  "sample = task_leave (super_open_finish 0 (replicate 16 7) (loading sample_opened))"

definition sample_name :: file_name where
  "sample_name = File_Name (97 # replicate 126 0) 0"

lemma sample_size_valid: "valid_device_size sample_size" "(unat sample_size - 8192) div 2 ^ 20 = 16"
  by (simp_all add: valid_device_size_def sample_size_def)

lemma sample_open:
  "super_open (\<lambda>_. True) (True, True) sample_raw (\<lambda>_. 0) sample_size False False = Some sample_opened"
proof -
  have "\<exists>s. super_open (\<lambda>_. True) (True, True) sample_raw (\<lambda>_. 0) sample_size False False = Some s"
    using device_size_iff [of sample_size] sample_size_valid(1)
    by (simp add: super_open_def Let_def case_prod_unfold list_all_iff)
  then show ?thesis by (auto simp: sample_opened_def)
qed

lemma sample_mounted: "mounted sample_size [] sample"
  unfolding mounted_def
  using sample_open
  by (intro exI [of _ "\<lambda>_. True"] exI [of _ "(True, True)"] exI [of _ sample_raw] exI [of _ "\<lambda>_. 0"]
      exI [of _ False] exI [of _ sample_opened] exI [of _ "loading sample_opened"] exI [of _ 0]
      exI [of _ "replicate 16 7"]) (simp add: sample_def)

lemmas sample_inv = mounted_inv [OF sample_mounted, simplified]

lemma sample_super: "super_inv sample" "addr_inv sample"
  using sys_invD [OF fs_invD(1) [OF sample_inv(1)]] by simp_all

lemma sample_table: "table_of sample = empty_table 16"
  using sample_inv(5) sample_size_valid(2) by simp

lemma sample_empty:
  "get_file sample i = None" "lookup_file_by_name sample n = None" "max_file_id sample = 0"
  "total_extents sample = 16"
proof -
  have "abs_files sample = Map.empty" and m: "max_file_id sample = 0" "total_extents sample = 16"
    using sample_table by (simp_all add: table_of_def empty_table_def)
  then have g: "get_file sample i = None" for i by (metis abs_files_None)
  then show "get_file sample i = None" .
  show "lookup_file_by_name sample n = None"
    using file_invD(3) [OF super_invD(2) [OF sample_super(1)], of n] g
    by (cases "lookup_file_by_name sample n") (auto simp: lookup_file_by_name_def)
  show "max_file_id sample = 0" "total_extents sample = 16" by fact+
qed

lemma sample_name_ok [simp]:
  "name_wf sample_name" "cyanfs_file_name_normalize sample_name = Some sample_name" "name_ok sample_name"
proof -
  show w: "name_wf sample_name" by (simp add: name_wf_def sample_name_def)
  have "clear_after_nul (replicate n 0) = replicate n 0" for n by (induction n) simp_all
  then show n: "cyanfs_file_name_normalize sample_name = Some sample_name"
    by (simp add: cyanfs_file_name_normalize_def sample_name_def)
  show "name_ok sample_name" using w n by (simp add: name_ok_def)
qed

lemma sample_can_add: "can_add sample sample_name = Ok"
proof -
  have "idx_size (files_by_id sample) = 0" by (simp add: idx_size_files sample_empty)
  then show ?thesis by (simp add: can_add_def sample_inv(2) sample_empty unsigned_minus_1_eq_mask)
qed

text \<open>A file that was created, given a size and opened for writing.\<close>

definition sample_created :: super where
  "sample_created = snd (snd (cyanfs_create (\<lambda>_. True) sample_name sample))"

definition sample_sized :: super where
  "sample_sized = snd (cyanfs_truncate (\<lambda>_. True) 1 2097152 sample_created)"

definition sample_writing :: super where
  "sample_writing = snd (snd (cyanfs_open 1 True sample_sized))"

lemma flush_new_journal_idle:
  "ensure_status s = Ok \<Longrightarrow> journal_count s \<le> 10000 \<Longrightarrow> \<not> has_flag s FLAG_FLUSH \<Longrightarrow>
     super_flush_new_journal mem s = s"
  by (simp add: super_flush_new_journal_def flusher_start_def Let_def CYANFS_SUPER_MAX_INFLIGHT_JOURNAL_def)

lemma super_open_fields:
  assumes "super_open mem locks raw rf sz d c = Some s"
  shows "flags s = flags (open_init sz d c raw rf)" "journal_count s = journal_count (open_init sz d c raw rf)"
    "meta s = meta (open_init sz d c raw rf)"
  using assms
  by (auto simp: super_open_def Let_def task_add_tail_def task_init_def super_new_task_def
      split: if_splits option.splits)

lemma sample_fields:
  "flags sample = 1" "journal_count sample = 0" "sm_free_extents (meta sample) = 16"
  "sm_reserved_extents (meta sample) = 8" "task_head sample = []"
proof -
  let ?o = "open_init sample_size False False sample_raw (\<lambda>_. 0)"
  note eq = super_open_fields [OF sample_open]
  have tasks: "task_head (loading sample_opened) = []" "active_tasks (loading sample_opened) = 1"
    using loading_state(6,7) [OF sample_open] by simp_all
  have l: "flags (loading sample_opened) = flags ?o" "journal_count (loading sample_opened) = journal_count ?o"
    "meta (loading sample_opened) = meta ?o"
    by (simp_all add: loading_def super_get_task_def eq split: list.split)
  have tot: "cyanfs_extent_from (sample_size - CYANFS_SUPER_BLOCK_SIZE) = 16"
    using device_total(1) [OF sample_size_valid(1)] sample_size_valid(2) by (simp add: word_unat_eq_iff)
  have res: "open_reserved 16 = 8"
    by (simp add: open_reserved_def cyanfs_journal_entry_size_def CYANFS_SUPER_MAX_FILES_def size_values)
  show "flags sample = 1" "journal_count sample = 0" "sm_free_extents (meta sample) = 16"
    "sm_reserved_extents (meta sample) = 8" "task_head sample = []"
    using tasks l
    by (simp_all add: sample_def task_leave_def super_open_finish_def Let_def set_flag_def FLAG_READY_def
        open_init_def fold_open_fields tot res)
qed

lemma sample_created_spec:
  "cyanfs_create (\<lambda>_. True) sample_name sample = (Ok, Some 1, sample_created)"
  "step (sample, None, Map.empty) (sample_created, None, Map.empty)" "super_inv sample_created"
  "get_file sample_created 1 = Some (new_file sample_name 1 None)"
  "flags sample_created = 1" "journal_count sample_created = 1" "trees sample_created = trees sample"
  "journal_log sample_created = [JCREATE sample_name 1]" "sm_reserved_extents (meta sample_created) = 8"
  "get_file sample_created j = (if j = 1 then Some (new_file sample_name 1 None) else None)"
  "task_head sample_created = []" "total_extents sample_created = 16"
proof -
  let ?j = "\<lparr>jn_entry = JCREATE sample_name 1, jn_flush = False\<rparr>"
  obtain t where t: "init_file sample_name 1 None sample = (Ok, t)" "super_inv t" "super_tail t = super_tail sample"
      "trees t = trees sample" "file_added sample t sample_name 1 None"
    by (rule init_file_spec [OF sample_super(1), of 1 sample_name None])
      (auto simp: sample_empty idx_size_files)
  note T = super_tail_D [OF t(3)]
  have c: "create_locked sample_name sample = (Ok, Some 1, journal_append ?j t)"
    using sample_can_add t(1) sample_empty sample_inv(2)
      files_count [OF super_invD(2) [OF sample_super(1)]]
    by (simp add: create_locked_def Let_def idx_size_files can_add_def)
  have idle: "super_flush_new_journal True (journal_append ?j t) = journal_append ?j t"
    by (rule flush_new_journal_idle)
      (simp_all add: ensure_status_def has_flag_simps T sample_fields, simp add: journal_append_def T sample_fields)
  then have e: "cyanfs_create (\<lambda>_. True) sample_name sample = (Ok, Some 1, journal_append ?j t)"
    by (simp add: cyanfs_create_def c)
  then have s: "sample_created = journal_append ?j t" by (simp add: sample_created_def)
  then show created: "cyanfs_create (\<lambda>_. True) sample_name sample = (Ok, Some 1, sample_created)" using e by simp
  show "step (sample, None, Map.empty) (sample_created, None, Map.empty)" by (rule step.Create [OF _ created]) simp
  show "super_inv sample_created" using t(2) by (simp add: s)
  show "get_file sample_created 1 = Some (new_file sample_name 1 None)"
    using file_addedD(8) [OF t(5), of 1] by (simp add: s get_after_init_def)
  show "flags sample_created = 1" "journal_count sample_created = 1" "trees sample_created = trees sample"
    "journal_log sample_created = [JCREATE sample_name 1]" "sm_reserved_extents (meta sample_created) = 8"
    using sample_inv(4) by (simp_all add: s T sample_fields t(4)) (simp add: journal_append_def T sample_fields)
  show "get_file sample_created j = (if j = 1 then Some (new_file sample_name 1 None) else None)"
    using file_addedD(8) [OF t(5), of j] by (simp add: s get_after_init_def sample_empty)
  show "task_head sample_created = []" "total_extents sample_created = 16"
    using total_extents_tail [OF t(3)]
    by (simp_all add: s T sample_fields sample_empty) (simp add: total_extents_def)
qed

lemma sample_sized_spec:
  "cyanfs_truncate (\<lambda>_. True) 1 2097152 sample_created = (Ok, sample_sized)"
  "step (sample_created, None, Map.empty) (sample_sized, None, Map.empty)" "flags sample_sized = 1"
  "\<exists>f. get_file sample_sized 1 = Some f \<and> f_open_type f = FILE_CLOSED \<and> fm_size (f_meta f) = 2097152 \<and>
     fm_children (f_meta f) = 0 \<and> f_parent f = None \<and> (\<forall>k. idx_find (f_extents f) k = None)"
  "trees sample_sized Free_Extents = trees sample Free_Extents"
  "sm_reserved_extents (meta sample_sized) = 8"
proof -
  have sz: "cyanfs_file_size_validate 2097152 = Ok" by (simp add: file_size_validate_Ok)
  note C = sample_created_spec
  let ?f = "new_file sample_name 1 None" and ?j = "\<lparr>jn_entry = JTRUNCATE 1 2097152, jn_flush = True\<rparr>"
  obtain t f' where t: "file_truncate 1 2097152 sample_created = (Ok, t)" "super_rest t = super_rest sample_created"
      "get_file t 1 = Some f'" "file_rest f' = file_rest (?f\<lparr>f_meta := (f_meta ?f)\<lparr>fm_size := 2097152\<rparr>\<rparr>)"
      "idx_find (f_extents f') = (\<lambda>k. if fits 2097152 k then idx_find (f_extents ?f) k else None)"
    by (rule file_truncate_inv [OF C(3,4) _ sz]) simp_all
  note T = super_rest_D [OF t(2)] and R = file_rest_D [OF t(4)]
  have "trees t Free_Extents = trees sample_created Free_Extents"
    using trees_truncate [of Free_Extents sample_created 1 2097152] t(1) C(5)
    by (simp add: unmap_target_def has_flag_simps)
  moreover have l: "truncate_locked 1 2097152 sample_created = (Ok, journal_append ?j t)"
    using C(4,5) t(1) by (simp add: truncate_locked_def Let_def lookup_file_by_id_def ensure_status_def has_flag_simps)
  have idle: "super_flush_new_journal True (journal_append ?j t) = journal_append ?j t"
    by (rule flush_new_journal_idle)
      (simp_all add: ensure_status_def has_flag_simps T C, simp add: journal_append_def T C)
  then have e: "cyanfs_truncate (\<lambda>_. True) 1 2097152 sample_created = (Ok, journal_append ?j t)"
    by (simp add: cyanfs_truncate_def sz l)
  then have s: "sample_sized = journal_append ?j t" by (simp add: sample_sized_def)
  then show sized: "cyanfs_truncate (\<lambda>_. True) 1 2097152 sample_created = (Ok, sample_sized)" using e by simp
  show "step (sample_created, None, Map.empty) (sample_sized, None, Map.empty)" by (rule step.Truncate [OF sized])
  show "flags sample_sized = 1" by (simp add: s T C)
  show "\<exists>f. get_file sample_sized 1 = Some f \<and> f_open_type f = FILE_CLOSED \<and> fm_size (f_meta f) = 2097152 \<and>
     fm_children (f_meta f) = 0 \<and> f_parent f = None \<and> (\<forall>k. idx_find (f_extents f) k = None)"
    using t(3,5) R by (simp add: s)
  show "trees sample_sized Free_Extents = trees sample Free_Extents"
    using calculation by (simp add: s C)
  show "sm_reserved_extents (meta sample_sized) = 8" by (simp add: s T C)
qed

lemma sample_running:
  "step\<^sup>*\<^sup>* (sample, None, Map.empty) (sample_created, None, Map.empty)" "step\<^sup>*\<^sup>* (sample, None, Map.empty) (sample_sized, None, Map.empty)"
  "step\<^sup>*\<^sup>* (sample, None, Map.empty) (sample_writing, None, Map.empty)"
proof -
  show c: "step\<^sup>*\<^sup>* (sample, None, Map.empty) (sample_created, None, Map.empty)" using sample_created_spec(2) by blast
  then show z: "step\<^sup>*\<^sup>* (sample, None, Map.empty) (sample_sized, None, Map.empty)"
    using sample_sized_spec(2) by (rule rtranclp.rtrancl_into_rtrancl)
  have "cyanfs_open 1 True sample_sized =
      (fst (cyanfs_open 1 True sample_sized), fst (snd (cyanfs_open 1 True sample_sized)), sample_writing)"
    by (simp add: sample_writing_def)
  then have "step (sample_sized, None, Map.empty) (sample_writing, None, Map.empty)" by (rule step.Open)
  with z show "step\<^sup>*\<^sup>* (sample, None, Map.empty) (sample_writing, None, Map.empty)" by (rule rtranclp.rtrancl_into_rtrancl)
qed

lemma sample_writing_inv: "sys_inv (live_table sample) (sample_writing, None)"
  by (rule fs_invD(1) [OF reachable_inv [OF sample_running(3) sample_inv(1)]])

lemma sample_writing_spec:
  obtains f where "writable sample_writing 1 0 f" "ensure_status sample_writing = Ok" "file_find_extent f 0 = None"
    "sm_reserved_extents (meta sample_writing) < sm_free_extents (meta sample_writing)" "f_parent f = None"
proof -
  obtain g where g: "get_file sample_sized 1 = Some g" "f_open_type g = FILE_CLOSED" "fm_size (f_meta g) = 2097152"
      "fm_children (f_meta g) = 0" "\<And>k. idx_find (f_extents g) k = None" "f_parent g = None"
    using sample_sized_spec(4) by blast
  note Z = sample_sized_spec
  let ?f = "g\<lparr>f_open_type := FILE_READWRITE\<rparr>"
  have s: "sample_writing = put_file 1 ?f sample_sized"
    using g Z(3) by (simp add: sample_writing_def cyanfs_open_def lookup_file_by_id_def ensure_status_def
        has_flag_simps Let_def)
  have "extent_inv sample_sized"
    using super_invD(1) [OF sys_invD(1) [OF fs_invD(1) [OF reachable_inv [OF sample_running(2) sample_inv(1)]]]] .
  moreover have "extent_inv sample" using super_invD(1) [OF sample_super(1)] .
  ultimately have "sm_free_extents (meta sample_sized) = sm_free_extents (meta sample)"
    by (simp add: extent_inv_def counters_ok_def Z(5))
  then have "sm_reserved_extents (meta sample_writing) < sm_free_extents (meta sample_writing)"
    by (simp add: s Z(6) sample_fields)
  moreover have "flags sample_writing = 1" by (simp add: s put_file_def Z(3))
  then have "ensure_status sample_writing = Ok" by (simp add: ensure_status_def has_flag_simps)
  moreover have "writable sample_writing 1 0 ?f" using g by (simp add: writable_def s)
  moreover have "file_find_extent ?f 0 = None" using g(5) by (simp add: file_find_extent_def)
  moreover have "f_parent ?f = None" using g(6) by simp
  ultimately show ?thesis using that by blast
qed

text \<open>After the first write to the file.\<close>

definition sample_written :: super where
  "sample_written = snd (snd (snd (snd (write_alloc 1 0 None sample_writing))))"

lemma sample_written_spec:
  "step\<^sup>*\<^sup>* (sample, None, Map.empty) (sample_written, None, Map.empty)" "super_inv sample_written" "addr_inv sample_written"
  "\<exists>n. resolve sample_written (Some 1) 0 = Some n \<and> block sample_written 1 0 = Some n \<and>
     ext_map n \<and> \<not> ext_pending n \<and> \<not> ext_error n"
  "\<exists>f. writable sample_written 1 0 f \<and> f_parent f = None" "ensure_status sample_written = Ok"
proof -
  obtain f where f: "writable sample_writing 1 0 f" "ensure_status sample_writing = Ok" "file_find_extent f 0 = None"
    "sm_reserved_extents (meta sample_writing) < sm_free_extents (meta sample_writing)" and par: "f_parent f = None"
    by (rule sample_writing_spec)
  note S = sys_invD [OF sample_writing_inv]
  have k: "offset_index 0 = 0" by (simp add: offset_index_def cyanfs_extent_from_def)
  obtain s n where w: "write_alloc 1 0 None sample_writing = (Ok, Some n, True, False, s)" "super_inv s" "addr_inv s"
      "block s 1 0 = Some n" "ext_map n" "\<not> ext_pending n" "\<not> ext_error n"
      "\<exists>f'. get_file s 1 = Some f' \<and> file_rest f' = file_rest f" "flags s = flags sample_writing"
    using write_alloc_bind [OF S(1,2) f] unfolding k by blast
  have s: "s = sample_written" using w(1) by (simp add: sample_written_def)
  have "step (sample_writing, None, Map.empty) (sample_written, None, Map.empty)"
    using step.Write_Alloc [OF f(1) w(1)] by (simp add: s)
  with sample_running(3) show "step\<^sup>*\<^sup>* (sample, None, Map.empty) (sample_written, None, Map.empty)"
    by (rule rtranclp.rtrancl_into_rtrancl)
  show "super_inv sample_written" "addr_inv sample_written" using w s by simp_all
  obtain g where g: "get_file s 1 = Some g" "idx_find (f_extents g) 0 = Some n" using block_get [OF w(4)] by blast
  have "unat (0 :: bitfield30) * 2 ^ 20 < unat (fm_size (f_meta g))"
    using extent_invD(4) [OF super_invD(1) [OF w(2)] g(1)] g(2) unfolding file_extents_ok_def by blast
  then have "resolve s (Some 1) 0 = Some n"
    using g by (subst resolve.simps(2))
      (simp add: file_find_index k cyanfs_extent_begin_def cyanfs_extent_from_def word_less_nat_alt)
  then show "\<exists>n. resolve sample_written (Some 1) 0 = Some n \<and> block sample_written 1 0 = Some n \<and>
     ext_map n \<and> \<not> ext_pending n \<and> \<not> ext_error n"
    using w s by blast
  obtain g' where g': "get_file s 1 = Some g'" "file_rest g' = file_rest f" using w(8) by blast
  then show "\<exists>f. writable sample_written 1 0 f \<and> f_parent f = None"
    using f(1) par file_rest_D(1,5,7) [OF g'(2)] by (auto simp: writable_def s)
  show "ensure_status sample_written = Ok"
    using f(2) w(9) by (simp add: s ensure_status_def has_flag_def split: if_splits)
qed

text \<open>With a copy under way.\<close>

definition sample_copying :: super where
  "sample_copying = snd (snd (snd (snd (write_alloc 1 0 (Some extent_zero) sample_writing))))"

lemma sample_copying_spec:
  "super_inv sample_copying" "addr_inv sample_copying" "cow_ok sample_copying (next_address sample_writing)"
proof -
  obtain f where f: "writable sample_writing 1 0 f" "ensure_status sample_writing = Ok" "file_find_extent f 0 = None"
    "sm_reserved_extents (meta sample_writing) < sm_free_extents (meta sample_writing)"
    by (rule sample_writing_spec)
  note S = sys_invD [OF sample_writing_inv]
  obtain s n where w: "write_alloc 1 0 (Some extent_zero) sample_writing =
        (Ok, Some n, False, task_head sample_writing = [], s)" "super_inv s" "addr_inv s"
      "block s 1 (offset_index 0) = Some n" "ext_pending n" "\<not> ext_error n"
      "cow_at s = (cow_at sample_writing)(next_address sample_writing :=
         \<lparr>cow_journal = \<lparr>jn_entry = JBIND 1 (ucast (offset_index 0)) (ucast (ext_backend n)), jn_flush = True\<rparr>,
          cow_file = 1, cow_extent = offset_index 0\<rparr>)"
    using write_alloc_cow [OF S(1,2) f, of extent_zero] by metis
  have s: "s = sample_copying" using w(1) by (simp add: sample_copying_def)
  show "super_inv sample_copying" "addr_inv sample_copying" using w s by simp_all
  show "cow_ok sample_copying (next_address sample_writing)"
    using w(4-7) by (simp add: s [symmetric] cow_ok_def cow_entry_def)
qed

end
