(* ===== verification/File_Properties.thy ===== *)
theory File_Properties
  imports Sample
begin

section \<open>Properties of the calls that change files\<close>

text \<open>
  Each call answers with the status that the state of the file system demands; when it refuses, the
  file table and the journal stay as they are, and when it accepts, the new table is the meaning of
  the one entry that it appended to the journal. The table has the files with their names, sizes,
  parents and blocks, and the highest id; the extents of the journal are not part of it.
\<close>

definition refused :: "super \<Rightarrow> super \<Rightarrow> bool" where
  "refused s s' \<longleftrightarrow> super_inv s' \<and> live_table s' = live_table s \<and> journal_log s' = journal_log s"

definition carried_out :: "super \<Rightarrow> journal_entry \<Rightarrow> super \<Rightarrow> bool" where
  "carried_out s j s' \<longleftrightarrow>
     super_inv s' \<and> apply_entry j (live_table s) = Some (live_table s') \<and> journal_log s' = journal_log s @ [j]"

lemma refused_moves: "super_inv s \<Longrightarrow> moves s s' \<Longrightarrow> refused s s'"
  using moves_inv [of s s'] by (simp add: refused_def)

lemma carried_out_moves:
  assumes "super_inv t" "journaled s j t" "moves t s'"
  shows "carried_out s j s'"
  using moves_inv [OF assms(3,1)] assms(2)
  by (simp add: carried_out_def journaled_def del: apply_entry.simps)

lemma addr_inv_added:
  "addr_inv s \<Longrightarrow> quiet s t \<Longrightarrow> \<forall>T. T \<noteq> unmap_target s \<longrightarrow> trees t T = trees s T \<Longrightarrow> addr_inv t"
  by (rule addr_inv_same_trees) (auto simp: unmap_target_def)

lemmas flush_moves = moves_flush_new_journal [OF addr_inv_added]

lemma unmap_target_journal [simp]: "Journal_Extents \<noteq> unmap_target s"
  by (simp add: unmap_target_def)

text \<open>C7: \<open>cyanfs_create\<close> with a valid name and memory available answers NOSPACE at 4096 files or when the
  ids are used up, EXIST for a name in use, and otherwise makes an empty file under the id after the
  largest one, journaled as a CREATE entry; on every other path nothing changes.\<close>

theorem create_correct:
  assumes inv: "super_inv s" "addr_inv s" and n: "name_wf n"
  shows "case cyanfs_create mem n s of (err, out, s') \<Rightarrow>
    (case cyanfs_file_name_normalize n of
       None \<Rightarrow> err = INVAL \<and> out = None \<and> s' = s
     | Some m \<Rightarrow>
         if \<not> mem 0 \<or> \<not> mem 1 then err = NOMEM \<and> out = None \<and> s' = s
         else err = can_add s m \<and>
              (if err = Ok then out = Some (max_file_id s + 1) \<and> carried_out s (JCREATE m (max_file_id s + 1)) s'
               else out = None \<and> refused s s'))"
proof (cases "cyanfs_file_name_normalize n")
  case (Some m)
  note spec = create_locked_spec [OF inv(1) name_ok_normalize [OF Some n]]
  show ?thesis
  proof (cases "can_add s m = Ok")
    case True
    then obtain t where t: "create_locked m s = (Ok, Some (max_file_id s + 1), t)" "super_inv t"
        "journaled s (JCREATE m (max_file_id s + 1)) t" "trees t = trees s" "quiet s t"
      using spec by auto
    have "moves t (super_flush_new_journal (mem 2) t)" by (rule flush_moves [OF inv(2) t(5)]) (simp add: t(4))
    then show ?thesis
      using carried_out_moves [OF t(2,3)] Some True t(1,4) by (simp add: cyanfs_create_def)
  next
    case False
    then show ?thesis
      using spec Some refused_moves [OF inv(1) moves_flush_new_journal [OF inv(2)]] by (simp add: cyanfs_create_def)
  qed
qed (simp add: cyanfs_create_def)

theorem create_correct_witness:
  "case cyanfs_create (\<lambda>_. True) sample_name sample of (err, out, s') \<Rightarrow>
     err = Ok \<and> out = Some 1 \<and> carried_out sample (JCREATE sample_name 1) s'"
  using create_correct [OF sample_super, of sample_name "\<lambda>_. True"] sample_can_add
  by (auto simp: sample_empty(3) case_prod_unfold)

text \<open>C8: \<open>cyanfs_fork\<close> answers NOSPACE at 4096 files or when the ids are used up, NOENT for a missing
  parent, BUSY for a parent that is open for writing, EXIST for a name in use, and otherwise makes a
  child that shares the contents and the size of the parent, journaled as a FORK entry; on every other
  path nothing changes.\<close>

theorem fork_correct:
  assumes inv: "super_inv s" "addr_inv s" and n: "name_wf n"
  shows "case cyanfs_fork mem p n s of (err, out, s') \<Rightarrow>
    (case cyanfs_file_name_normalize n of
       None \<Rightarrow> err = INVAL \<and> out = None \<and> s' = s
     | Some m \<Rightarrow>
         if \<not> mem 0 \<or> \<not> mem 1 then err = NOMEM \<and> out = None \<and> s' = s
         else err = can_fork s p m \<and>
              (if err = Ok then out = Some (max_file_id s + 1) \<and> carried_out s (JFORK m (max_file_id s + 1) p) s'
               else out = None \<and> refused s s'))"
proof (cases "cyanfs_file_name_normalize n")
  case (Some m)
  note spec = fork_locked_spec [OF inv(1) name_ok_normalize [OF Some n], of p]
  show ?thesis
  proof (cases "can_fork s p m = Ok")
    case True
    then obtain t where t: "fork_locked p m s = (Ok, Some (max_file_id s + 1), t)" "super_inv t"
        "journaled s (JFORK m (max_file_id s + 1) p) t" "trees t = trees s" "quiet s t"
      using spec by auto
    have "moves t (super_flush_new_journal (mem 2) t)" by (rule flush_moves [OF inv(2) t(5)]) (simp add: t(4))
    then show ?thesis
      using carried_out_moves [OF t(2,3)] Some True t(1,4) by (simp add: cyanfs_fork_def)
  next
    case False
    then show ?thesis
      using spec Some refused_moves [OF inv(1) moves_flush_new_journal [OF inv(2)]] by (simp add: cyanfs_fork_def)
  qed
qed (simp add: cyanfs_fork_def)

theorem fork_correct_witness:
  "case cyanfs_fork (\<lambda>_. True) 1 sample_name sample of (err, out, s') \<Rightarrow>
     err = NOENT \<and> out = None \<and> refused sample s'"
  using fork_correct [OF sample_super, of sample_name "\<lambda>_. True" 1] sample_can_add
  by (simp add: sample_empty case_prod_unfold can_fork_def can_add_def split: if_splits)

text \<open>C11: \<open>cyanfs_rename\<close> answers EXIST for a name in use and NOENT for a missing file, and otherwise
  changes the name and nothing else, journaled as a RENAME entry.\<close>

theorem rename_correct:
  assumes inv: "super_inv s" "addr_inv s" and n: "name_wf n"
  shows "case cyanfs_rename mem i n s of (err, s') \<Rightarrow>
    (case cyanfs_file_name_normalize n of
       None \<Rightarrow> err = INVAL \<and> s' = s
     | Some m \<Rightarrow>
         if \<not> mem 0 then err = NOMEM \<and> s' = s
         else err = can_rename s i m \<and>
              (if err = Ok then carried_out s (JRENAME m i) s' else refused s s'))"
proof (cases "cyanfs_file_name_normalize n")
  case (Some m)
  note spec = rename_locked_spec [OF inv(1) name_ok_normalize [OF Some n], of i]
  show ?thesis
  proof (cases "can_rename s i m = Ok")
    case True
    then obtain t where t: "rename_locked i m s = (Ok, t)" "super_inv t"
        "journaled s (JRENAME m i) t" "trees t = trees s" "quiet s t"
      using spec by auto
    have "moves t (super_flush_new_journal (mem 1) t)" by (rule flush_moves [OF inv(2) t(5)]) (simp add: t(4))
    then show ?thesis
      using carried_out_moves [OF t(2,3)] Some True t(1,4) by (simp add: cyanfs_rename_def)
  next
    case False
    then show ?thesis
      using spec Some refused_moves [OF inv(1) moves_flush_new_journal [OF inv(2)]] by (simp add: cyanfs_rename_def)
  qed
qed (simp add: cyanfs_rename_def)

definition sample_name2 :: file_name where
  "sample_name2 = File_Name (98 # replicate 126 0) 0"

lemma sample_name2_ok [simp]:
  "name_wf sample_name2" "cyanfs_file_name_normalize sample_name2 = Some sample_name2" "sample_name2 \<noteq> sample_name"
proof -
  show w: "name_wf sample_name2" by (simp add: name_wf_def sample_name2_def)
  have "clear_after_nul (replicate n 0) = replicate n 0" for n by (induction n) simp_all
  then show n: "cyanfs_file_name_normalize sample_name2 = Some sample_name2"
    by (simp add: cyanfs_file_name_normalize_def sample_name2_def)
  show "sample_name2 \<noteq> sample_name" by (simp add: sample_name_def sample_name2_def)
qed

lemma sample_created_inv: "super_inv sample_created" "addr_inv sample_created"
  using sys_invD(1,2) [OF fs_invD(1) [OF reachable_inv [OF sample_running(1) sample_inv(1)]]] by simp_all

lemma sample_created_status: "ensure_status sample_created = Ok"
  by (simp add: ensure_status_def has_flag_simps sample_created_spec(5))

lemma sample_only: "get_file sample_created i \<noteq> None \<Longrightarrow> i = 1"
proof -
  assume "get_file sample_created i \<noteq> None"
  then have i: "abs_files sample_created i \<noteq> None" by simp
  have "live_table sample = empty_table 16" by (simp add: live_table_def sample_table empty_table_def)
  then have "apply_entries [JCREATE sample_name 1] (empty_table 16) = Some (live_table sample_created)"
    using sys_invD(6) [OF fs_invD(1) [OF reachable_inv [OF sample_running(1) sample_inv(1)]]] sample_created_spec(8) by simp
  moreover have "tb_files t i = None" if "apply_entries [JCREATE sample_name 1] (empty_table 16) = Some t" "i \<noteq> 1" for t
    using that by (auto simp: empty_table_def add_file_def split: if_splits)
  ultimately show "i = 1" using i by (metis live_table_simps(1))
qed

lemma sample_unnamed: "lookup_file_by_name sample_created sample_name2 = None"
proof (rule ccontr)
  assume "lookup_file_by_name sample_created sample_name2 \<noteq> None"
  then obtain i f where "get_file sample_created i = Some f" "fm_name (f_meta f) = sample_name2"
    using file_invD(3) [OF super_invD(2) [OF sample_created_inv(1)], of sample_name2]
    by (auto simp: lookup_file_by_name_def)
  then show False using sample_only [of i] sample_created_spec(4) sample_name2_ok(3) [symmetric] by auto
qed

theorem rename_correct_witness:
  "case cyanfs_rename (\<lambda>_. True) 1 sample_name2 sample_created of (err, s') \<Rightarrow>
     err = Ok \<and> carried_out sample_created (JRENAME sample_name2 1) s'"
  using rename_correct [OF sample_created_inv, of sample_name2 "\<lambda>_. True" 1]
  by (auto simp: case_prod_unfold can_rename_def sample_created_status sample_unnamed sample_created_spec(4))

text \<open>C9: \<open>cyanfs_truncate\<close> refuses an invalid size, answers NOENT for a missing file and BUSY for one that
  is open or has children, and otherwise sets the size and drops exactly the extents that begin at or
  behind it, journaled as a TRUNCATE entry.\<close>

theorem truncate_correct:
  assumes inv: "super_inv s" "addr_inv s"
  shows "case cyanfs_truncate mem i sz s of (err, s') \<Rightarrow>
    if cyanfs_file_size_validate sz \<noteq> Ok then err = INVAL \<and> s' = s
    else if \<not> mem 0 then err = NOMEM \<and> s' = s
    else err = can_change s i \<and> (if err = Ok then carried_out s (JTRUNCATE i sz) s' else refused s s')"
proof (cases "cyanfs_file_size_validate sz = Ok")
  case True
  note spec = truncate_locked_spec [OF inv(1) True, of i]
  show ?thesis
  proof (cases "can_change s i = Ok")
    case ok: True
    then obtain t where t: "truncate_locked i sz s = (Ok, t)" "super_inv t" "journaled s (JTRUNCATE i sz) t"
        "\<forall>T. T \<noteq> unmap_target s \<longrightarrow> trees t T = trees s T" "quiet s t"
      using spec by auto
    have "moves t (super_flush_new_journal (mem 1) t)" by (rule flush_moves [OF inv(2) t(5,4)])
    then show ?thesis
      using carried_out_moves [OF t(2,3)] True ok t(1,4) by (simp add: cyanfs_truncate_def)
  next
    case False
    then show ?thesis
      using spec True refused_moves [OF inv(1) moves_flush_new_journal [OF inv(2)]]
      by (simp add: cyanfs_truncate_def)
  qed
next
  case False
  then have "cyanfs_file_size_validate sz = INVAL"
    by (simp add: cyanfs_file_size_validate_def Let_def split: if_splits)
  then show ?thesis by (simp add: cyanfs_truncate_def)
qed

lemma sample_changeable: "can_change sample_created 1 = Ok"
proof -
  have "children sample_created 1 = {}"
    using no_children_iff [OF super_invD(2) [OF sample_created_inv(1)] sample_created_spec(4)] by simp
  then show ?thesis by (simp add: can_change_def sample_created_status sample_created_spec(4))
qed

theorem truncate_correct_witness:
  "case cyanfs_truncate (\<lambda>_. True) 1 2097152 sample_created of (err, s') \<Rightarrow>
     err = Ok \<and> carried_out sample_created (JTRUNCATE 1 2097152) s'"
  using truncate_correct [OF sample_created_inv, where mem = "\<lambda>_. True" and i = 1 and sz = 2097152] sample_changeable
  by (auto simp: case_prod_unfold file_size_validate_Ok)

text \<open>C10: \<open>cyanfs_delete\<close> answers NOENT for a missing file and BUSY for one that is open or has children,
  and otherwise removes the file, its name and its extents, journaled as a DELETE entry.\<close>

theorem delete_correct:
  assumes inv: "super_inv s" "addr_inv s"
  shows "case cyanfs_delete mem i s of (err, s') \<Rightarrow>
    if \<not> mem 0 then err = NOMEM \<and> s' = s
    else err = can_change s i \<and> (if err = Ok then carried_out s (JDELETE i) s' else refused s s')"
proof (cases "can_change s i = Ok")
  case True
  then obtain t where t: "delete_locked i s = (Ok, t)" "super_inv t" "journaled s (JDELETE i) t"
      "\<forall>T. T \<noteq> unmap_target s \<longrightarrow> trees t T = trees s T" "quiet s t"
    using delete_locked_spec [OF inv(1), of i] by auto
  have "moves t (super_flush_new_journal (mem 1) t)" by (rule flush_moves [OF inv(2) t(5,4)])
  then show ?thesis
    using carried_out_moves [OF t(2,3)] True t(1,4) by (simp add: cyanfs_delete_def)
next
  case False
  then show ?thesis
    using delete_locked_spec [OF inv(1), of i] refused_moves [OF inv(1) moves_flush_new_journal [OF inv(2)]]
    by (simp add: cyanfs_delete_def)
qed

theorem delete_correct_witness:
  "case cyanfs_delete (\<lambda>_. True) 1 sample_created of (err, s') \<Rightarrow>
     err = Ok \<and> carried_out sample_created (JDELETE 1) s'"
  using delete_correct [OF sample_created_inv, where mem = "\<lambda>_. True" and i = 1] sample_changeable
  by (auto simp: case_prod_unfold)

end
