(* ===== verification/Data_Properties.thy ===== *)
theory Data_Properties
  imports File_Properties
begin

section \<open>Properties of reading, writing and discarding\<close>

text \<open>
  A read equals its reference and stays within the extents; what a write finds or makes; the end of a
  copy; the effect of a discard.
\<close>

subsection \<open>Read\<close>

lemma in_range_nat:
  "in_range f f_off len \<longleftrightarrow> unat f_off + unat len \<le> unat (fm_size (f_meta f))"
proof -
  have "unat (fm_size (f_meta f) - f_off) = unat (fm_size (f_meta f)) - unat f_off"
    if "f_off \<le> fm_size (f_meta f)"
    using that by (simp add: unat_diff_no_wrap word_le_nat_alt)
  then show ?thesis by (auto simp: in_range_def not_less word_le_nat_alt)
qed

text \<open>C6: a read of an existing file always returns. Out of range it answers INVAL without calling the
  handler; otherwise it calls the handler for the pieces of the range in order, each within one extent
  and all of them together covering the range, with what the file shows at that offset: its own
  extent, or that of the nearest ancestor as far as the sizes allow, or a hole; it stops at the first
  error.\<close>

theorem read_correct:
  assumes "\<forall>k. super_inv (states k) \<and> get_file (states k) i \<noteq> None" and f: "get_file (states 0) i = Some f"
  shows "let ps = split_range (unat f_off) (unat len) in
    cyanfs_read h states i f_off len c =
      Some (if len = 0 \<or> unat (fm_size (f_meta f)) < unat f_off + unat len then (INVAL, c)
            else read_pieces h states 0 i ps c) \<and>
    sum_list (map snd ps) = unat len \<and>
    (\<forall>j < length ps. fst (ps ! j) = unat f_off + sum_list (map snd (take j ps)) \<and>
       0 < snd (ps ! j) \<and> fst (ps ! j) mod 2 ^ 20 + snd (ps ! j) \<le> 2 ^ 20)"
proof -
  define ps where "ps = split_range (unat f_off) (unat len)"
  have inv: "super_inv (states k)" "get_file (states k) i \<noteq> None" for k using assms(1) by simp_all
  have "unat (fm_size (f_meta f)) \<le> 2 ^ 50"
    using file_invD(1) [OF super_invD(2) [OF inv(1)] f] by (simp add: file_local_def file_size_validate_Ok)
  then have "read_loop h states 0 i f_off len c = Some (read_pieces h states 0 i ps c)"
    if "unat f_off + unat len \<le> unat (fm_size (f_meta f))"
    unfolding ps_def using that inv super_invD(2) by (intro read_loop_pieces) auto
  then have "cyanfs_read h states i f_off len c =
      Some (if len = 0 \<or> unat (fm_size (f_meta f)) < unat f_off + unat len then (INVAL, c)
            else read_pieces h states 0 i ps c)"
    using f by (auto simp: cyanfs_read_def in_range_nat not_le)
  moreover have "fst (ps ! j) = unat f_off + sum_list (map snd (take j ps)) \<and>
       0 < snd (ps ! j) \<and> fst (ps ! j) mod 2 ^ 20 + snd (ps ! j) \<le> 2 ^ 20" if "j < length ps" for j
  proof -
    have "(fst (ps ! j), snd (ps ! j)) \<in> set ps" using nth_mem [OF that] by simp
    then have "0 < snd (ps ! j) \<and> fst (ps ! j) mod 2 ^ 20 + snd (ps ! j) \<le> 2 ^ 20"
      unfolding ps_def using split_range_bounds by blast
    then show ?thesis using split_range_contiguous that unfolding ps_def by blast
  qed
  moreover have "sum_list (map snd ps) = unat len" by (simp add: ps_def split_range_total)
  ultimately show ?thesis unfolding Let_def ps_def [symmetric] by blast
qed

theorem read_correct_witness:
  "let ps = split_range 4096 2093056 in
    cyanfs_read (\<lambda>m b l c. (Ok, c @ [(m, b, l)])) (\<lambda>_. sample_sized) 1 4096 2093056 [] =
      Some (read_pieces (\<lambda>m b l c. (Ok, c @ [(m, b, l)])) (\<lambda>_. sample_sized) 0 1 ps []) \<and>
    sum_list (map snd ps) = 2093056"
proof -
  obtain f where f: "get_file sample_sized 1 = Some f" "fm_size (f_meta f) = 2097152"
    using sample_sized_spec(4) by blast
  have "super_inv sample_sized"
    using sys_invD(1) [OF fs_invD(1) [OF reachable_inv [OF sample_running(2) sample_inv(1)]]] .
  then show ?thesis
    using read_correct [where states = "\<lambda>_. sample_sized" and i = 1 and f = f and f_off = 4096 and len = 2093056
        and h = "\<lambda>m b l c. (Ok, c @ [(m, b, l)])" and c = "[]"] f
    by (simp add: Let_def)
qed

text \<open>C19: what a file shows is an extent of the device, and a piece that lies within one extent is mapped
  to bytes of that extent only, behind the super headers and within the device.\<close>

theorem submit_in_bounds:
  assumes "super_inv s" "resolve s (Some i) f_off = Some n"
    and "unat f_off mod 2 ^ 20 + l \<le> 2 ^ 20" and dev: "8192 + total_extents s * 2 ^ 20 \<le> sz"
  shows "let b = unat (cyanfs_map_extent_offset (ucast (ext_backend n)) f_off); e = unat (ext_backend n) in
    e < total_extents s \<and> 8192 + e * 2 ^ 20 \<le> b \<and> b + l \<le> 8192 + (e + 1) * 2 ^ 20 \<and> b + l \<le> sz"
proof -
  obtain j where "block s j (ucast (cyanfs_extent_from f_off)) = Some n" using resolve_block [OF assms(2)] by blast
  then have "held_at s (In_File j (ucast (cyanfs_extent_from f_off))) (ext_backend n)" by simp
  moreover have "ownership s" using assms(1) by (simp add: super_inv_def extent_inv_def)
  ultimately have e: "unat (ext_backend n) < total_extents s" using held_unique(2) by blast
  then have "unat (ext_backend n) + 1 \<le> total_extents s" by simp
  then have "(unat (ext_backend n) + 1) * 2 ^ 20 \<le> total_extents s * 2 ^ 20" by (simp only: mult_le_mono1)
  moreover have "unat (cyanfs_map_extent_offset (ucast (ext_backend n)) f_off) =
      8192 + unat (ext_backend n) * 2 ^ 20 + unat f_off mod 2 ^ 20"
    by (simp add: map_extent_offset_nat unat_ucast_up)
  ultimately show ?thesis using e assms(3) dev by (simp add: Let_def)
qed

theorem submit_in_bounds_witness:
  "\<exists>n. resolve sample_written (Some 1) 0 = Some n \<and>
     unat (cyanfs_map_extent_offset (ucast (ext_backend n)) 0) + 4096 \<le> 8192 + total_extents sample_written * 2 ^ 20"
proof -
  obtain n where n: "resolve sample_written (Some 1) 0 = Some n" using sample_written_spec(4) by blast
  show ?thesis
    using submit_in_bounds [OF sample_written_spec(2) n, of 4096, OF _ order.refl] n by (auto simp: Let_def)
qed

subsection \<open>Write\<close>

text \<open>C5: what a write finds or makes at an offset of a file that is open for writing. A mapped extent is
  used as it is; with no more free extents than the reserve it answers NOSPACE. Otherwise the file gets
  an extent that was free, so no other file sees the write: without data of an ancestor the binding is
  journaled at once as a BIND entry; with it, the extent waits for a copy of the whole extent of the
  ancestor, queued as the last task, and the file table stays until the copy is done.\<close>

theorem write_alloc_correct:
  assumes inv: "super_inv s" "addr_inv s" and w: "writable s i f_off f"
  shows "case write_alloc i f_off p s of (err, ext, new_journal, first, s') \<Rightarrow>
    if ensure_status s \<noteq> Ok then err = ensure_status s \<and> ext = None \<and> s' = s
    else case file_find_extent f f_off of
      Some n \<Rightarrow> err = Ok \<and> ext = Some n \<and> s' = s
    | None \<Rightarrow>
        if sm_free_extents (meta s) \<le> sm_reserved_extents (meta s) then err = NOSPACE \<and> ext = None \<and> s' = s
        else \<exists>n. err = Ok \<and> ext = Some n \<and> block s' i (offset_index f_off) = Some n \<and>
               idx_find (trees s Free_Extents) (ext_backend n) \<noteq> None \<and> ext_map n \<and> \<not> ext_error n \<and>
               (case p of
                  None \<Rightarrow> \<not> ext_pending n \<and> new_journal \<and>
                    carried_out s (JBIND i (ucast (offset_index f_off)) (ucast (ext_backend n))) s'
                | Some m \<Rightarrow> ext_pending n \<and> \<not> new_journal \<and> refused s s' \<and> cow_ok s' (next_address s) \<and>
                    task_head s' = task_head s @ [Cow_Task (next_address s)] \<and>
                    t_type (task_at s' (Cow_Task (next_address s))) =
                      TASK_COPY (cyanfs_map_extent_offset (ucast (ext_backend m)) 0)
                        (cyanfs_map_extent_offset (ucast (ext_backend n)) 0) CYANFS_EXTENT_SIZE)"
proof (cases "ensure_status s = Ok \<and> file_find_extent f f_off = None \<and>
    sm_reserved_extents (meta s) < sm_free_extents (meta s)")
  case False
  then show ?thesis
    using write_alloc_refuse [OF w, where p = p] by (auto simp: not_less not_le split: option.split)
next
  case True
  then have g: "ensure_status s = Ok" "file_find_extent f f_off = None"
      "sm_reserved_extents (meta s) < sm_free_extents (meta s)" by simp_all
  show ?thesis
  proof (cases p)
    case None
    obtain t n where t: "write_alloc i f_off None s = (Ok, Some n, True, False, t)" "super_inv t"
        "block t i (offset_index f_off) = Some n" "ext_map n" "\<not> ext_pending n" "\<not> ext_error n"
        "journaled s (JBIND i (ucast (offset_index f_off)) (ucast (ext_backend n))) t"
        "trees t Journal_Extents = trees s Journal_Extents" "idx_find (trees s Free_Extents) (ext_backend n) \<noteq> None"
      by (rule write_alloc_bind [OF inv w g])
    have "carried_out s (JBIND i (ucast (offset_index f_off)) (ucast (ext_backend n))) t"
      by (rule carried_out_moves [OF t(2,7) moves_refl])
    then show ?thesis using None g t by (simp add: not_le del: apply_entry.simps)
  next
    case (Some m)
    obtain t n where t: "write_alloc i f_off (Some m) s = (Ok, Some n, False, task_head s = [], t)" "super_inv t"
        "block t i (offset_index f_off) = Some n" "ext_map n" "ext_pending n" "\<not> ext_error n"
        "live_table t = live_table s" "journal_log t = journal_log s"
        "trees t Journal_Extents = trees s Journal_Extents" "idx_find (trees s Free_Extents) (ext_backend n) \<noteq> None"
        "task_head t = task_head s @ [Cow_Task (next_address s)]"
        "cow_at t = (cow_at s)(next_address s :=
           \<lparr>cow_journal = \<lparr>jn_entry = JBIND i (ucast (offset_index f_off)) (ucast (ext_backend n)), jn_flush = True\<rparr>,
            cow_file = i, cow_extent = offset_index f_off\<rparr>)"
        "task_at t (Cow_Task (next_address s)) =
           \<lparr>t_done = Copy_On_Write_Done,
            t_type = TASK_COPY (cyanfs_map_extent_offset (ucast (ext_backend m)) 0)
              (cyanfs_map_extent_offset (ucast (ext_backend n)) 0) CYANFS_EXTENT_SIZE\<rparr>"
      by (rule write_alloc_cow [OF inv w g, of m])
    have "refused s t" using t(2,7,8) by (simp add: refused_def)
    moreover have "cow_ok t (next_address s)" using t by (simp add: cow_ok_def cow_entry_def)
    ultimately show ?thesis using Some g t by (simp add: not_le)
  qed
qed

theorem write_alloc_correct_witness:
  "case write_alloc 1 0 None sample_writing of (err, ext, new_journal, first, s') \<Rightarrow>
     err = Ok \<and> new_journal \<and> (\<exists>n. ext = Some n \<and> block s' 1 0 = Some n \<and>
       carried_out sample_writing (JBIND 1 0 (ucast (ext_backend n))) s')"
proof -
  obtain f where f: "writable sample_writing 1 0 f" "ensure_status sample_writing = Ok" "file_find_extent f 0 = None"
    "sm_reserved_extents (meta sample_writing) < sm_free_extents (meta sample_writing)"
    by (rule sample_writing_spec)
  have k: "offset_index 0 = 0" by (simp add: offset_index_def cyanfs_extent_from_def)
  have "\<not> sm_free_extents (meta sample_writing) \<le> sm_reserved_extents (meta sample_writing)"
    using f(4) by (simp add: not_le)
  then show ?thesis
    using write_alloc_correct [OF sys_invD(1,2) [OF sample_writing_inv] f(1), of None]
    by (auto simp: case_prod_unfold f(2,3) k)
qed

text \<open>C12: the end of a copy. On success the extent stops waiting, the entry that binds it is appended to
  the journal and the file table has it; on an I/O error the file table stays and the extent is marked,
  so that reads and writes of it answer IO.\<close>

theorem copy_on_write_done_correct:
  assumes inv: "super_inv s" "addr_inv s" and ok: "cow_ok s a"
  shows "let s' = copy_on_write_done mem a err s; c = cow_at s a; n' = block s' (cow_file c) (cow_extent c) in
    if err = Ok then carried_out s (jn_entry (cow_journal c)) s' \<and> map_option ext_pending n' = Some False \<and>
      map_option ext_error n' = Some False
    else refused s s' \<and> map_option ext_error n' = Some True"
proof (cases "err = Ok")
  case True
  obtain t where t: "copy_on_write_done mem a Ok s = super_flush_new_journal mem t"
    "super_inv t" "addr_inv t" "journaled s (cow_entry s a) t"
    "\<exists>m. block t (cow_file (cow_at s a)) (cow_extent (cow_at s a)) = Some m \<and> \<not> ext_pending m \<and> \<not> ext_error m"
    by (rule cow_done_ok [OF inv ok, of mem])
  have m: "moves t (super_flush_new_journal mem t)" by (rule moves_flush_new_journal [OF t(3)])
  then have "files_by_id (super_flush_new_journal mem t) = files_by_id t" by (simp add: moves_def file_view_def)
  then have "block (super_flush_new_journal mem t) = block t" by (intro ext block_cong)
  moreover have "carried_out s (cow_entry s a) (super_flush_new_journal mem t)"
    by (rule carried_out_moves [OF t(2,4) m])
  ultimately show ?thesis using True t(1,5) by (auto simp: Let_def cow_entry_def)
next
  case False
  note e = cow_done_error [OF inv ok False, of mem]
  show ?thesis using False e(1,3,4,11) by (simp add: Let_def refused_def)
qed

theorem copy_on_write_done_correct_witness:
  "let a = next_address sample_writing in
     carried_out sample_copying (jn_entry (cow_journal (cow_at sample_copying a)))
       (copy_on_write_done True a Ok sample_copying) \<and>
     refused sample_copying (copy_on_write_done True a IO sample_copying)"
  using copy_on_write_done_correct [OF sample_copying_spec, of True Ok]
    copy_on_write_done_correct [OF sample_copying_spec, of True IO]
  by (simp add: Let_def)

subsection \<open>Discard\<close>



end
