(* ===== verification/Journal_Properties.thy ===== *)
theory Journal_Properties
  imports Journal_Device Journal_Sound Format_Properties Sample
begin

section \<open>Properties of the journal on the device\<close>

text \<open>
  The loader terminates, reads within the device and delivers well-formed entries; a formatted device
  and a written journal are loaded as they should be.
\<close>

subsection \<open>The loader\<close>

text \<open>C24: loading a journal returns, with the operation finish or the operation error and without a panic,
  whatever the device answers to the reads (cyclic chains of extents and read errors included), whatever
  the parser does and whichever allocations fail.\<close>

theorem loader_terminates:
  "\<exists>t b. journal_load parser mem n io ((cyanfs_journal_loader_init c h)\<lparr>ld_end_id := end_id\<rparr>) a
     \<in> {Some (Loader_Finish t b), Some (Loader_Error t b)}"
proof -
  let ?t = "(cyanfs_journal_loader_init c h)\<lparr>ld_end_id := end_id\<rparr>"
  have ok: "loader_ok n ?t" using loader_ok_init [of n c h] by (simp add: loader_ok_def)
  obtain err bytes where io: "io 0 0 CYANFS_SUPER_BLOCK_SIZE = (err, bytes)"
    by (cases "io 0 0 CYANFS_SUPER_BLOCK_SIZE")
  have "result_ok n (journal_loader_parser_header parser mem n err bytes ?t a)" by (rule parser_header_ok [OF ok])
  from loader_run_returns [OF this, of parser mem io 1] show ?thesis by (auto simp: journal_load_def io)
qed

text \<open>The reads that stay on the device: the super block, or up to a page within one extent.\<close>

definition read_in_bounds :: "u32 \<Rightarrow> u64 \<Rightarrow> u64 \<Rightarrow> bool" where
  "read_in_bounds n b_off len \<longleftrightarrow>
     b_off = 0 \<and> len = CYANFS_SUPER_BLOCK_SIZE \<or>
     (\<exists>i off. i < n \<and> unat off + unat len \<le> 2 ^ 20 \<and> unat len \<le> 65536 \<and> b_off = cyanfs_map_extent_offset i off)"

lemma read_page_in_bounds:
  assumes "cursor_ok n (ld_cursor t)" "journal_loader_read_page t a = Loader_Read b len t' a'"
  shows "read_in_bounds n b len"
proof -
  let ?c = "ld_cursor t"
  have c: "jc_extent_id ?c < n" "unat (jc_extent_off ?c) \<le> 2 ^ 20"
    using assms(1) by (simp_all add: cursor_ok_def size_values word_le_nat_alt)
  have "unat (CYANFS_EXTENT_SIZE - jc_extent_off ?c) = 2 ^ 20 - unat (jc_extent_off ?c)"
    using c(2) by (subst unat_diff_no_wrap) (simp_all add: size_values)
  then have "unat (jc_extent_off ?c) + unat len \<le> 2 ^ 20 \<and> unat len \<le> 65536"
    using assms(2) c(2)
    by (auto simp: journal_loader_read_page_def Let_def journal_size_values word_less_nat_alt split: if_splits)
  then show ?thesis
    using assms(2) c(1) unfolding read_in_bounds_def
    by (intro disjI2 exI [of _ "jc_extent_id ?c"] exI [of _ "jc_extent_off ?c"])
      (auto simp: journal_loader_read_page_def Let_def)
qed

lemma loader_run_agree:
  assumes "result_ok n r" and agree: "\<And>k b len. read_in_bounds n b len \<Longrightarrow> io k b len = io' k b len"
  shows "loader_run parser mem n io k r = loader_run parser mem n io' k r"
  using assms(1)
proof (induction "case r of Loader_Read b l t a \<Rightarrow> loader_rank n t | _ \<Rightarrow> 0" arbitrary: k r rule: less_induct)
  case less
  show ?case
  proof (cases r)
    case (Loader_Read b l t a)
    have ok: "loader_ok n t" "cursor_ok n (ld_cursor t)" "journal_loader_read_page t a = Loader_Read b l t a"
      using less.prems [unfolded Loader_Read] by (simp_all add: result_ok_def)
    have same: "io k b l = io' k b l" by (rule agree [OF read_page_in_bounds [OF ok(2,3)]])
    obtain err bytes where io: "io' k b l = (err, bytes)" by (cases "io' k b l")
    define q where "q = journal_loader_parser_page parser mem n err bytes t a"
    have run: "loader_run parser mem n io k r = loader_run parser mem n io (Suc k) q"
        "loader_run parser mem n io' k r = loader_run parser mem n io' (Suc k) q"
      by (subst loader_run.simps, simp add: Loader_Read same io q_def)+
    have qok: "result_ok n q" unfolding q_def by (rule parser_page_ok(1) [OF ok(1,2)])
    show ?thesis
    proof (cases "\<exists>b' l' t' a'. q = Loader_Read b' l' t' a'")
      case True
      then obtain b' l' t' a' where q: "q = Loader_Read b' l' t' a'" by blast
      then have "loader_rank n t' < loader_rank n t"
        using parser_page_ok(2) [OF ok(1,2), of parser mem err bytes a b' l' t' a'] q_def by simp
      then show ?thesis using less.hyps [of q "Suc k"] qok q Loader_Read run by simp
    next
      case False
      then show ?thesis unfolding run by (cases q) (simp_all add: loader_run.simps)
    qed
  qed (simp_all add: loader_run.simps)
qed

text \<open>C26: the loader reads the super block and then at most a page at a time within one extent of the
  device: two devices that give the same answers to such reads are loaded with the same result.\<close>

theorem loader_reads_in_bounds:
  assumes "\<And>k b len. read_in_bounds n b len \<Longrightarrow> io k b len = io' k b len"
  shows "journal_load parser mem n io ((cyanfs_journal_loader_init c h)\<lparr>ld_end_id := end_id\<rparr>) a =
    journal_load parser mem n io' ((cyanfs_journal_loader_init c h)\<lparr>ld_end_id := end_id\<rparr>) a"
proof -
  let ?t = "(cyanfs_journal_loader_init c h)\<lparr>ld_end_id := end_id\<rparr>"
  have ok: "loader_ok n ?t" using loader_ok_init [of n c h] by (simp add: loader_ok_def)
  have same: "io 0 0 CYANFS_SUPER_BLOCK_SIZE = io' 0 0 CYANFS_SUPER_BLOCK_SIZE"
    by (rule assms) (simp add: read_in_bounds_def)
  obtain err bytes where io: "io' 0 0 CYANFS_SUPER_BLOCK_SIZE = (err, bytes)"
    by (cases "io' 0 0 CYANFS_SUPER_BLOCK_SIZE")
  have "result_ok n (journal_loader_parser_header parser mem n err bytes ?t a)" by (rule parser_header_ok [OF ok])
  from loader_run_agree [OF this assms, where k = 1] show ?thesis by (simp add: journal_load_def same io)
qed

text \<open>
  For the witnesses: a formatted device of \<open>k\<close> extents, all bytes of which are zero behind the super
  block, and a parser that records what it gets.
\<close>

definition fresh_device :: "nat \<Rightarrow> cyanfs_uuid_t \<Rightarrow> device" where
  "fresh_device k uuid = cyanfs_super_make uuid @ replicate (k * 2 ^ 20) 0"

definition recorder :: "journal_entry list loader_parser" where
  "recorder j a = (Ok, a @ [j])"

lemma parse_all_recorder: "parse_all recorder js a = (True, a @ js)"
  by (induction js arbitrary: a) (simp_all add: recorder_def)

lemma fresh_device_super:
  assumes "length uuid = 16"
  obtains crc where "length (cyanfs_super_make uuid) = 8192"
    "cyanfs_super_parse (take 8192 (fresh_device k uuid)) = Some (made_header uuid 1 crc)"
proof -
  obtain a b c d where s: "cyanfs_super_make uuid = a @ b" "super_slot a (made_header uuid 0 c)"
      "super_slot b (made_header uuid 1 d)"
    using super_make_slots [OF assms] .
  then have "length (cyanfs_super_make uuid) = 8192" by (simp add: super_slot_def)
  then show ?thesis
    using that [of d] super_parse_slots(1) [OF s(2,3)] s(1) by (simp add: fresh_device_def made_header_def)
qed

lemma fresh_device_extent:
  assumes "length uuid = 16" "unat i < k"
  shows "extent_bytes (fresh_device k uuid) i = replicate (2 ^ 20) 0"
proof -
  obtain crc where "length (cyanfs_super_make uuid) = 8192" using fresh_device_super [OF assms(1)] by metis
  moreover have "Suc (unat i) * 2 ^ 20 \<le> k * 2 ^ 20" using assms(2) by (intro mult_right_mono) simp_all
  ultimately show ?thesis
    by (simp add: fresh_device_def extent_bytes_def)
qed

lemma fresh_holds_journal:
  assumes "length uuid = 16" "0 < k" "k < 2 ^ 32"
  obtains crc where "holds_journal (of_nat k) (fresh_device k uuid) (made_header uuid 1 crc) [] [] 0 0 0"
    "cyanfs_super_parse (take 8192 (fresh_device k uuid)) = Some (made_header uuid 1 crc)"
    "read_record uuid 0 (drop 0 (extent_bytes (fresh_device k uuid) 0)) = No_Record"
proof -
  have k: "unat (of_nat k :: u32) = k" using assms(3) by (simp add: unat_of_nat)
  obtain crc where c: "length (cyanfs_super_make uuid) = 8192"
      "cyanfs_super_parse (take 8192 (fresh_device k uuid)) = Some (made_header uuid 1 crc)"
    using fresh_device_super [OF assms(1)] .
  have "holds_journal (of_nat k) (fresh_device k uuid) (made_header uuid 1 crc) [] [] 0 0 0"
    using c k assms(2) chain.Chain_End
    by (simp add: holds_journal_def device_has_def fresh_device_def made_header_def word_less_nat_alt)
  moreover have "extent_bytes (fresh_device k uuid) 0 = replicate (2 ^ 20) 0"
    using assms by (intro fresh_device_extent) simp_all
  ultimately show ?thesis using that c(2) by (simp add: read_record_zero del: replicate.simps)
qed

definition sample_cursor :: journal_cursor where
  "sample_cursor = \<lparr>jc_page = replicate 65536 0, jc_extent_off = 0, jc_extent_id = 0, jc_extent_id_flush = 0,
     jc_extent_id_ondisk = 0, jc_seq = 0\<rparr>"

abbreviation sample_uuid :: cyanfs_uuid_t where
  "sample_uuid \<equiv> replicate 16 7"

text \<open>C27: a device that was formatted by \<open>cyanfs_super_make\<close> and holds zeros otherwise loads as an empty
  journal in extent 0: the parser gets the NEXT entry of that extent and nothing else, and the cursor
  is at the start of the extent with sequence number 0.\<close>

theorem formatted_device_loads:
  assumes "length uuid = 16" "0 < k" "k < 2 ^ 32" "\<forall>i. mem i" "parser (JNEXT 0) a = (Ok, c)"
  shows "\<exists>t. journal_load parser mem (of_nat k) (device_read (fresh_device k uuid)) (cyanfs_journal_loader_init cur h) a =
      Some (Loader_Finish t c) \<and> jc_extent_id (ld_cursor t) = 0 \<and> jc_extent_off (ld_cursor t) = 0 \<and>
    jc_seq (ld_cursor t) = 0 \<and> sh_uuid (ld_header t) = uuid \<and> sh_version (ld_header t) = 1"
proof -
  obtain crc where j: "holds_journal (of_nat k) (fresh_device k uuid) (made_header uuid 1 crc) [] [] 0 0 0"
      "read_record uuid 0 (drop 0 (extent_bytes (fresh_device k uuid) 0)) = No_Record"
    using fresh_holds_journal [OF assms(1-3)] by metis
  show ?thesis
    using load_journal [OF j(1), of mem parser a c cur h] j(2) assms(4,5)
    by (auto simp: made_header_def at_pos_def unat_eq_zero)
qed

theorem formatted_device_loads_witness:
  "\<exists>t. journal_load recorder (\<lambda>_. True) (of_nat 2) (device_read (fresh_device 2 sample_uuid))
      (cyanfs_journal_loader_init sample_cursor (made_header sample_uuid 0 0)) [] =
      Some (Loader_Finish t [JNEXT 0]) \<and> jc_extent_id (ld_cursor t) = 0 \<and> jc_extent_off (ld_cursor t) = 0 \<and>
    jc_seq (ld_cursor t) = 0 \<and> sh_uuid (ld_header t) = sample_uuid \<and> sh_version (ld_header t) = 1"
  by (rule formatted_device_loads) (simp_all add: recorder_def)

theorem loader_reads_in_bounds_witness:
  "journal_load recorder (\<lambda>_. True) 2 (device_read (fresh_device 2 sample_uuid))
      ((cyanfs_journal_loader_init sample_cursor (made_header sample_uuid 0 0))\<lparr>ld_end_id := 5\<rparr>) [] =
   journal_load recorder (\<lambda>_. True) 2
      (\<lambda>k b len. if read_in_bounds 2 b len then device_read (fresh_device 2 sample_uuid) k b len else (IO, []))
      ((cyanfs_journal_loader_init sample_cursor (made_header sample_uuid 0 0))\<lparr>ld_end_id := 5\<rparr>) []"
  by (rule loader_reads_in_bounds) simp

text \<open>C25: when loading finishes, whatever the device holds, the parser has accepted a sequence of regular
  entries with complete names, followed by NEXT entries for the journal extents, which are on the
  device and different from each other.\<close>

theorem loader_delivers:
  assumes "journal_load parser mem n io ((cyanfs_journal_loader_init c h)\<lparr>ld_end_id := end_id\<rparr>) a =
    Some (Loader_Finish t b)"
  shows "\<exists>js es. list_all (\<lambda>j. entry_wf j \<and> \<not> is_link j) js \<and> distinct es \<and> list_all (\<lambda>i. i < n) es \<and>
    parse_all parser (js @ map JNEXT es) a = (True, b)"
proof -
  let ?t = "(cyanfs_journal_loader_init c h)\<lparr>ld_end_id := end_id\<rparr>"
  have ok: "loader_ok n ?t" using loader_ok_init [of n c h] by (simp add: loader_ok_def)
  obtain r where r: "journal_load parser mem n io ?t a = Some r" "delivered parser n a r"
    using journal_load_sound [OF ok, of parser mem io a] by metis
  then obtain a' es js where "distinct es" "\<forall>i \<in> set es. i < n" "parse_all parser (map JNEXT es) a' = (True, b)"
      "list_all (\<lambda>j. entry_wf j \<and> \<not> is_link j) js" "parse_all parser js a = (True, a')"
    using assms by (auto simp: delivered_def handed_def)
  then show ?thesis
    by (intro exI [of _ js] exI [of _ es]) (simp add: parse_all_append list_all_iff)
qed

lemma fresh_device_recorded:
  assumes "length uuid = 16" "0 < k" "k < 2 ^ 32"
  shows "\<exists>t. journal_load recorder (\<lambda>_. True) (of_nat k) (device_read (fresh_device k uuid))
      ((cyanfs_journal_loader_init cur h)\<lparr>ld_end_id := cyanfs_extent_id_invalid\<rparr>) [] =
    Some (Loader_Finish t [JNEXT 0])"
proof -
  have i: "(cyanfs_journal_loader_init cur h)\<lparr>ld_end_id := cyanfs_extent_id_invalid\<rparr> = cyanfs_journal_loader_init cur h"
    by (simp add: cyanfs_journal_loader_init_def)
  obtain crc where j: "holds_journal (of_nat k) (fresh_device k uuid) (made_header uuid 1 crc) [] [] 0 0 0"
      "read_record uuid 0 (drop 0 (extent_bytes (fresh_device k uuid) 0)) = No_Record"
    using fresh_holds_journal [OF assms] by metis
  show ?thesis
    unfolding i using load_journal [OF j(1), of "\<lambda>_. True" recorder "[]" "[JNEXT 0]" cur h] j(2)
    by (auto simp: made_header_def recorder_def)
qed

theorem loader_delivers_witness:
  "\<exists>js es. list_all (\<lambda>j. entry_wf j \<and> \<not> is_link j) js \<and> distinct es \<and> list_all (\<lambda>i. i < of_nat 2) es \<and>
    parse_all recorder (js @ map JNEXT es) [] = (True, [JNEXT 0])"
proof -
  obtain t where "journal_load recorder (\<lambda>_. True) (of_nat 2) (device_read (fresh_device 2 sample_uuid))
      ((cyanfs_journal_loader_init sample_cursor (made_header sample_uuid 0 0))\<lparr>ld_end_id := cyanfs_extent_id_invalid\<rparr>) [] =
    Some (Loader_Finish t [JNEXT 0])"
    using fresh_device_recorded [of sample_uuid 2] by auto
  then show ?thesis by (rule loader_delivers)
qed

subsection \<open>The writer\<close>

text \<open>C23: writing entries behind a journal and loading the device gives the same entries. When the device
  holds a journal and the cursor of the writer is at its end, when each entry could have an extent and
  the sequence numbers suffice, then the writer finishes, the device holds the old entries followed by
  all the new ones in order, extents outside the journal are unchanged, and if nothing valid follows,
  the loader hands exactly these entries to the parser, then the extents of the journal, and leaves
  its cursor where the cursor of the writer is.\<close>

theorem written_journal_loads:
  assumes "holds_journal n dev h js es e off q" "writes_at n t e off q" "writer_ok t" "writer_super n (sh_uuid h) s"
    and "\<forall>i \<in> set (sh_journal_id h # es). \<not> free_id s i" "jw_next_id t = cyanfs_extent_id_invalid"
    and "length (jw_head t) \<le> idx_size (trees s Free_Extents)" "unat q + length (jw_head t) < 2 ^ 64" "\<forall>i. mem i"
  shows "\<exists>t' s' dev' fs e' off' q'. journal_write t s dev = (True, t', s', dev') \<and>
    holds_journal n dev' h (js @ map jn_entry (jw_head t)) (es @ fs) e' off' q' \<and> writes_at n t' e' off' q' \<and>
    (\<forall>i < n. i \<notin> set (sh_journal_id h # es @ fs) \<longrightarrow> extent_bytes dev' i = extent_bytes dev i) \<and>
    (read_record (sh_uuid h) q' (drop off' (extent_bytes dev' e')) = No_Record \<longrightarrow>
     parse_all parser (js @ map jn_entry (jw_head t) @ map JNEXT (sh_journal_id h # es @ fs)) a = (True, c) \<longrightarrow>
     (\<exists>l. journal_load parser mem n (device_read dev') (cyanfs_journal_loader_init cur hdr) a = Some (Loader_Finish l c) \<and>
        at_pos n l e' off' q'))"
proof -
  note J = assms(1) [unfolded holds_journal_def]
  have wr: "writing n (sh_uuid h) (sh_journal_id h) (sh_journal_seq h) js es t s dev"
    using J assms(2-5) unfolding writing_def by blast
  have link: "link_ok n (sh_journal_id h # es) t s" using assms(6) by (simp add: link_ok_def)
  have "jc_seq (jw_cursor t) = q" using assms(2) by (simp add: writes_at_def)
  then obtain t' s' dev' where run: "journal_write t s dev = (True, t', s', dev')"
    using journal_write_succeeds [OF wr link assms(7)] assms(8) by metis
  obtain fs where w: "writing n (sh_uuid h) (sh_journal_id h) (sh_journal_seq h) (js @ map jn_entry (jw_head t)) (es @ fs) t' s' dev'"
      "take 8192 dev' = take 8192 dev"
      "\<forall>i < n. i \<notin> set (sh_journal_id h # es @ fs) \<longrightarrow> extent_bytes dev' i = extent_bytes dev i"
    using journal_write_chain [OF wr link run] by blast
  obtain e' off' q' where at: "writes_at n t' e' off' q'"
      "holds_journal n dev' h (js @ map jn_entry (jw_head t)) (es @ fs) e' off' q'"
    using w(1,2) J unfolding writing_def holds_journal_def by auto
  show ?thesis
    using run at w(3) load_journal [OF at(2) _ assms(9), of parser a c cur hdr]
    by (intro exI [of _ t'] exI [of _ s'] exI [of _ dev'] exI [of _ fs] exI [of _ e'] exI [of _ off'] exI [of _ q'])
      auto
qed

text \<open>For the witness: the sample device after a mount with an empty journal in extent 0.\<close>

definition sample_writer_super :: super where
  "sample_writer_super =
     (let s = super_open_finish 0 sample_uuid (open_init sample_size False False sample_raw (\<lambda>_. 0))
      in extent_super_to_super (open_extent (\<lambda>_. 0) 0) Free_Extents Journal_Extents s)"

definition sample_writer :: journal_writer where
  "sample_writer = (cyanfs_journal_writer_init sample_cursor)
     \<lparr>jw_head := [\<lparr>jn_entry = JCREATE sample_name 1, jn_flush = False\<rparr>]\<rparr>"

lemma sample_writer_super_ok:
  "writer_super (of_nat 16) sample_uuid sample_writer_super" "\<not> free_id sample_writer_super 0"
  "1 \<le> idx_size (trees sample_writer_super Free_Extents)"
proof -
  let ?i = "open_init sample_size False False sample_raw (\<lambda>_. 0)"
  let ?o = "super_open_finish 0 sample_uuid ?i"
  note F = open_init_fields [OF sample_size_valid(1), where d = False and c = False and raw = sample_raw and rf = "\<lambda>_. 0",
      unfolded sample_size_valid(2)]
  note S = open_init_state [OF sample_size_valid(1), where d = False and c = False and raw = sample_raw and rf = "\<lambda>_. 0"]
  have o: "trees ?o = trees ?i" "total_extents ?o = total_extents ?i" "flags ?o = flags ?i OR FLAG_READY"
    "sm_uuid (meta ?o) = sample_uuid"
    by (simp_all add: super_open_finish_def Let_def total_extents_def set_flag_def)
  have inv: "extent_inv ?o" using open_finish_state(1) [OF S(1) F(11) S(2)] super_invD(1) by blast
  have z: "idx_find (trees ?o Free_Extents) 0 = Some (open_extent (\<lambda>_. 0) 0)" using F(13) [of 0] o(1) by simp
  have one: "idx_find (trees ?o Free_Extents) 1 = Some (open_extent (\<lambda>_. 0) 1)" using F(13) [of 1] o(1) by simp
  have b: "ext_backend (open_extent (\<lambda>_. 0) 0) = 0" by (simp add: open_extent_def)
  have d: "sample_writer_super = extent_super_to_super (open_extent (\<lambda>_. 0) 0) Free_Extents Journal_Extents ?o"
    by (simp only: sample_writer_super_def Let_def)
  have t: "trees sample_writer_super Free_Extents = idx_remove 0 (trees ?o Free_Extents)"
    using F(14) [of Journal_Extents] o(1)
    by (simp add: d super_to_super_trees b)
  note R = super_rest_D [OF super_rest_moves(1) [of "open_extent (\<lambda>_. 0) 0" Free_Extents Journal_Extents ?o]]
  have n: "sm_total_extents (meta ?o) = of_nat 16"
    using F(5) o(2) by (simp add: total_extents_def word_unat_eq_iff)
  have e: "\<not> has_flag ?o FLAG_ERROR"
    using F(11) o(3) by (simp add: has_flag_simps FLAG_READY_def bit_simps)
  show "writer_super (of_nat 16) sample_uuid sample_writer_super"
    using super_to_super_inv [OF inv z, of Journal_Extents] n e o(4) R
    by (simp add: writer_super_def d has_flag_def)
  show "\<not> free_id sample_writer_super 0" by (simp add: free_id_def t)
  have "idx_find (trees sample_writer_super Free_Extents) 1 = Some (open_extent (\<lambda>_. 0) 1)" using one by (simp add: t)
  from idx_size_remove [OF this] show "1 \<le> idx_size (trees sample_writer_super Free_Extents)" by simp
qed

theorem written_journal_loads_witness:
  "\<exists>t' s' dev' h e' off' q' fs. journal_write sample_writer sample_writer_super (fresh_device 16 sample_uuid) =
      (True, t', s', dev') \<and> holds_journal (of_nat 16) dev' h [JCREATE sample_name 1] fs e' off' q'"
proof -
  obtain crc where j: "holds_journal (of_nat 16) (fresh_device 16 sample_uuid) (made_header sample_uuid 1 crc) [] [] 0 0 0"
    using fresh_holds_journal [of sample_uuid 16] by auto
  have w: "writes_at (of_nat 16) sample_writer 0 0 0" "writer_ok sample_writer"
    "jw_next_id sample_writer = cyanfs_extent_id_invalid" "length (jw_head sample_writer) = 1"
    "map jn_entry (jw_head sample_writer) = [JCREATE sample_name 1]"
    by (simp_all add: writes_at_def writer_ok_def sample_writer_def cyanfs_journal_writer_init_def sample_cursor_def
        del: replicate.simps)
  let ?h = "made_header sample_uuid 1 crc"
  have h: "sh_uuid ?h = sample_uuid" "sh_journal_id ?h = 0" by (simp_all add: made_header_def)
  have "writer_super (of_nat 16) (sh_uuid ?h) sample_writer_super"
    "\<forall>i \<in> set (sh_journal_id ?h # []). \<not> free_id sample_writer_super i"
    "length (jw_head sample_writer) \<le> idx_size (trees sample_writer_super Free_Extents)"
    "unat (0 :: u64) + length (jw_head sample_writer) < 2 ^ 64" "\<forall>i. (\<lambda>_. True) (i :: nat)"
    using sample_writer_super_ok w(4) unfolding h by simp_all
  note W = written_journal_loads [OF j w(1,2) this(1,2) w(3) this(3-5), where parser = recorder and a = "[]" and c = "[]" and
      cur = sample_cursor and hdr = ?h]
  then obtain t' s' dev' fs e' off' q' where
      "journal_write sample_writer sample_writer_super (fresh_device 16 sample_uuid) = (True, t', s', dev')"
      "holds_journal (of_nat 16) dev' ?h ([] @ map jn_entry (jw_head sample_writer)) ([] @ fs) e' off' q'"
    by (elim exE conjE)
  then show ?thesis unfolding w(5) append_Nil by (intro exI conjI)
qed

end
