(* ===== verification/Compact_Size.thy ===== *)
theory Compact_Size
  imports Compact_Inv
begin

section \<open>The size of a compacted journal\<close>

text \<open>
  The entries that a compaction writes for a table are never more than those of a journal that made
  the table: each entry adds at most one to what has to be written. So the sequence numbers of a
  compaction suffice, and a journal does not grow by it.
\<close>

definition parent_size :: "table \<Rightarrow> afile \<Rightarrow> u64" where
  "parent_size t f =
     (case af_parent f of
        None \<Rightarrow> 0
      | Some p \<Rightarrow> (case tb_files t p of None \<Rightarrow> 0 | Some pf \<Rightarrow> af_size pf))"

definition file_weight :: "table \<Rightarrow> afile \<Rightarrow> nat" where
  "file_weight t f = 1 + of_bool (parent_size t f \<noteq> af_size f) + card (dom (af_blocks f))"

definition id_weight :: "table \<Rightarrow> nat" where
  "id_weight t = (if tb_max_id t \<noteq> 0 \<and> tb_files t (tb_max_id t) = None then 2 else 0)"

definition table_weight :: "table \<Rightarrow> nat" where
  "table_weight t = (\<Sum>i \<in> dom (tb_files t). file_weight t (the (tb_files t i))) + id_weight t"

definition parents_live :: "table \<Rightarrow> bool" where
  "parents_live t \<longleftrightarrow> (\<forall>i f p. tb_files t i = Some f \<longrightarrow> af_parent f = Some p \<longrightarrow> tb_files t p \<noteq> None)"

text \<open>Replacing the file \<open>i\<close> when the parents of the others keep their sizes.\<close>

definition same_size :: "table \<Rightarrow> table \<Rightarrow> cyanfs_file_id_t \<Rightarrow> bool" where
  "same_size t t' p \<longleftrightarrow> map_option af_size (tb_files t' p) = map_option af_size (tb_files t p)"

lemma file_weight_cong:
  "(\<And>p. af_parent f = Some p \<Longrightarrow> same_size t t' p) \<Longrightarrow> file_weight t' f = file_weight t f"
  by (cases "af_parent f") (auto simp: file_weight_def parent_size_def same_size_def split: option.splits)

lemma sum_files_change:
  assumes others: "\<And>j. j \<noteq> i \<Longrightarrow> tb_files t' j = tb_files t j"
    and sizes: "\<And>j f p. j \<noteq> i \<Longrightarrow> tb_files t j = Some f \<Longrightarrow> af_parent f = Some p \<Longrightarrow> same_size t t' p"
  shows "(\<Sum>j \<in> dom (tb_files t'). file_weight t' (the (tb_files t' j))) +
      (case tb_files t i of None \<Rightarrow> 0 | Some f \<Rightarrow> file_weight t f) =
    (\<Sum>j \<in> dom (tb_files t). file_weight t (the (tb_files t j))) +
      (case tb_files t' i of None \<Rightarrow> 0 | Some f \<Rightarrow> file_weight t' f)"
proof -
  define D where "D = dom (tb_files t) - {i}"
  have D: "finite D" "i \<notin> D" by (simp_all add: D_def)
  have D': "dom (tb_files t') - {i} = D" using others by (auto simp: D_def dom_def)
  have same: "(\<Sum>j \<in> D. file_weight t' (the (tb_files t' j))) = (\<Sum>j \<in> D. file_weight t (the (tb_files t j)))"
  proof (rule sum.cong)
    fix j assume "j \<in> D"
    then obtain f where f: "j \<noteq> i" "tb_files t j = Some f" by (auto simp: D_def)
    then show "file_weight t' (the (tb_files t' j)) = file_weight t (the (tb_files t j))"
      using others [of j] sizes [of j f] by (simp add: file_weight_cong)
  qed simp
  have split: "(\<Sum>j \<in> dom (tb_files u). file_weight u (the (tb_files u j))) =
      (\<Sum>j \<in> dom (tb_files u) - {i}. file_weight u (the (tb_files u j))) +
      (case tb_files u i of None \<Rightarrow> 0 | Some f \<Rightarrow> file_weight u f)" for u
  proof (cases "tb_files u i")
    case None
    then have "dom (tb_files u) - {i} = dom (tb_files u)" by auto
    then show ?thesis using None by simp
  next
    case (Some f)
    then have "i \<in> dom (tb_files u)" by auto
    then show ?thesis using Some by (simp add: sum.remove [of _ i])
  qed
  show ?thesis unfolding split [of t] split [of t'] D' using same D_def by simp
qed

subsection \<open>One entry\<close>

lemma add_file_weight:
  assumes t: "parents_live t" and a: "add_file i f t = Some t'" and f: "parent_size t f = af_size f" "af_blocks f = Map.empty"
    and par: "\<And>p. af_parent f = Some p \<Longrightarrow> tb_files t p \<noteq> None"
  shows "table_weight t' \<le> table_weight t + 1" "parents_live t'"
proof -
  have new: "tb_files t i = None" "tb_files t' = (tb_files t)(i \<mapsto> f)" "tb_max_id t' = max (tb_max_id t) i"
    using a by (auto simp: add_file_def split: if_splits)
  have same: "same_size t t' p" if "tb_files t p \<noteq> None" for p
    using that new by (auto simp: same_size_def)
  have "file_weight t' f = 1" using f file_weight_cong [of f t t'] same par by (simp add: file_weight_def)
  moreover have "(\<Sum>j \<in> dom (tb_files t'). file_weight t' (the (tb_files t' j))) +
      (case tb_files t i of None \<Rightarrow> 0 | Some f \<Rightarrow> file_weight t f) =
    (\<Sum>j \<in> dom (tb_files t). file_weight t (the (tb_files t j))) +
      (case tb_files t' i of None \<Rightarrow> 0 | Some f \<Rightarrow> file_weight t' f)"
    by (rule sum_files_change) (use new same t in \<open>auto simp: parents_live_def\<close>)
  moreover have "id_weight t' \<le> id_weight t" using new by (auto simp: id_weight_def max_def)
  ultimately show "table_weight t' \<le> table_weight t + 1" using new by (simp add: table_weight_def)
  show "parents_live t'" using t par new by (auto simp: parents_live_def)
qed

lemma set_file_weight:
  assumes t: "parents_live t" and f: "tb_files t i = Some f" "af_parent g = af_parent f"
    and size: "af_size g = af_size f \<or> \<not> has_child t i" and w: "file_weight t g \<le> file_weight t f + 1"
  shows "table_weight (set_file i g t) \<le> table_weight t + 1" "parents_live (set_file i g t)"
proof -
  let ?t = "set_file i g t"
  have same: "same_size t ?t p" if "tb_files t j = Some h" "af_parent h = Some p" for j h p
    using that size f by (auto simp: same_size_def set_file_def has_child_def)
  have g: "file_weight ?t g = file_weight t g" using same [of i f] f by (intro file_weight_cong) auto
  have "(\<Sum>j \<in> dom (tb_files ?t). file_weight ?t (the (tb_files ?t j))) +
      (case tb_files t i of None \<Rightarrow> 0 | Some f \<Rightarrow> file_weight t f) =
    (\<Sum>j \<in> dom (tb_files t). file_weight t (the (tb_files t j))) +
      (case tb_files ?t i of None \<Rightarrow> 0 | Some f \<Rightarrow> file_weight ?t f)"
    by (rule sum_files_change) (use same in \<open>auto simp: set_file_def\<close>)
  moreover have "id_weight ?t = id_weight t" using f by (auto simp: id_weight_def set_file_def)
  ultimately show "table_weight ?t \<le> table_weight t + 1" using f w g by (simp add: table_weight_def set_file_def)
  show "parents_live ?t" using t f by (auto simp: parents_live_def set_file_def)
qed

lemma delete_weight:
  assumes t: "parents_live t" and i: "tb_files t i = Some f" "\<not> has_child t i"
  defines "t' \<equiv> t\<lparr>tb_files := (tb_files t)(i := None)\<rparr>"
  shows "table_weight t' \<le> table_weight t + 1" "parents_live t'"
proof -
  have "same_size t t' p" if "tb_files t j = Some h" "af_parent h = Some p" for j h p
    using that i(2) by (auto simp: same_size_def t'_def has_child_def)
  then have "(\<Sum>j \<in> dom (tb_files t'). file_weight t' (the (tb_files t' j))) +
      (case tb_files t i of None \<Rightarrow> 0 | Some f \<Rightarrow> file_weight t f) =
    (\<Sum>j \<in> dom (tb_files t). file_weight t (the (tb_files t j))) +
      (case tb_files t' i of None \<Rightarrow> 0 | Some f \<Rightarrow> file_weight t' f)"
    by (intro sum_files_change) (auto simp: t'_def)
  moreover have "id_weight t' \<le> 2" by (simp add: id_weight_def)
  moreover have "1 \<le> file_weight t f" by (simp add: file_weight_def)
  moreover have "tb_files t' i = None" by (simp add: t'_def)
  ultimately show "table_weight t' \<le> table_weight t + 1" using i(1) by (simp add: table_weight_def)
  show "parents_live t'" using t i(2) by (auto simp: parents_live_def t'_def has_child_def)
qed

lemma card_dom_upd: "card (dom (m(k \<mapsto> b))) \<le> Suc (card (dom m))" for m :: "bitfield30 \<Rightarrow> bitfield30 option"
  by (simp add: card_insert_if)

lemma apply_entry_weight:
  assumes t: "parents_live t" and a: "apply_entry j t = Some t'"
  shows "table_weight t' \<le> table_weight t + 1 \<and> parents_live t'"
proof (cases j)
  case (JNEXT b)
  then have eq: "tb_files t' = tb_files t" "tb_max_id t' = tb_max_id t" using a by (auto split: if_splits)
  then have "file_weight t' = file_weight t" by (intro ext file_weight_cong) (simp add: same_size_def)
  then show ?thesis using t eq by (simp add: table_weight_def id_weight_def parents_live_def)
next
  case (JCREATE n i)
  then obtain m where "add_file i \<lparr>af_name = m, af_size = 0, af_parent = None, af_blocks = Map.empty\<rparr> t = Some t'"
    using a by (auto split: option.splits)
  from add_file_weight [OF t this] show ?thesis by (simp add: parent_size_def)
next
  case (JFORK n i p)
  then obtain m pf where p: "tb_files t p = Some pf"
      and add: "add_file i \<lparr>af_name = m, af_size = af_size pf, af_parent = Some p, af_blocks = Map.empty\<rparr> t = Some t'"
    using a by (auto split: option.splits if_splits)
  from add_file_weight [OF t add] show ?thesis by (simp add: parent_size_def p)
next
  case (JTRUNCATE i sz)
  then obtain f where f: "tb_files t i = Some f" "\<not> has_child t i"
      "t' = set_file i (f\<lparr>af_size := sz, af_blocks := (\<lambda>k. if fits sz k then af_blocks f k else None)\<rparr>) t"
    using a by (auto split: option.splits if_splits)
  have "card (dom (\<lambda>k. if fits sz k then af_blocks f k else None)) \<le> card (dom (af_blocks f))"
    by (intro card_mono) (auto split: if_splits)
  then have "file_weight t (f\<lparr>af_size := sz, af_blocks := (\<lambda>k. if fits sz k then af_blocks f k else None)\<rparr>) \<le> file_weight t f + 1"
    by (simp add: file_weight_def of_bool_def)
  then show ?thesis using set_file_weight [OF t f(1)] f(2,3) by simp
next
  case (JDELETE i)
  then show ?thesis using a delete_weight [OF t] by (auto split: if_splits)
next
  case (JBIND i k b)
  then obtain f where f: "tb_files t i = Some f" "t' = set_file i (f\<lparr>af_blocks := (af_blocks f)(ucast k \<mapsto> ucast b)\<rparr>) t"
    using a by (auto split: option.splits if_splits)
  have "file_weight t (f\<lparr>af_blocks := (af_blocks f)(ucast k \<mapsto> ucast b)\<rparr>) \<le> file_weight t f + 1"
    using card_dom_upd [of "af_blocks f" "ucast k" "ucast b"] by (simp add: file_weight_def parent_size_def)
  then show ?thesis using set_file_weight [OF t f(1)] f(2) by simp
next
  case (JUNBIND i k)
  then obtain f where f: "tb_files t i = Some f" "t' = set_file i (f\<lparr>af_blocks := (af_blocks f)(ucast k := None)\<rparr>) t"
    using a by (auto split: option.splits if_splits)
  have "card (dom ((af_blocks f)(ucast k := None))) \<le> card (dom (af_blocks f))" by (intro card_mono) auto
  then have "file_weight t (f\<lparr>af_blocks := (af_blocks f)(ucast k := None)\<rparr>) \<le> file_weight t f + 1"
    by (simp add: file_weight_def parent_size_def)
  then show ?thesis using set_file_weight [OF t f(1)] f(2) by simp
next
  case (JRENAME n i)
  then obtain f m where f: "tb_files t i = Some f" "t' = set_file i (f\<lparr>af_name := m\<rparr>) t"
    using a by (auto split: option.splits if_splits)
  then show ?thesis using set_file_weight [OF t f(1), of "f\<lparr>af_name := m\<rparr>"] by (simp add: file_weight_def parent_size_def)
qed

lemma apply_entries_weight:
  "parents_live t \<Longrightarrow> apply_entries js t = Some t' \<Longrightarrow> table_weight t' \<le> table_weight t + length js \<and> parents_live t'"
proof (induction js arbitrary: t)
  case (Cons j js)
  then obtain u where u: "apply_entry j t = Some u" "apply_entries js u = Some t'" by (auto simp: bind_eq_Some_conv)
  show ?case using apply_entry_weight [OF Cons.prems(1) u(1)] Cons.IH [OF _ u(2)] by simp
qed simp

lemma empty_table_weight: "table_weight (empty_table n) = 0" "parents_live (empty_table n)"
  by (simp_all add: table_weight_def empty_table_def id_weight_def parents_live_def)

subsection \<open>The entries of a state\<close>

lemma file_entries_length:
  assumes r: "replay_state s" and f: "get_file s i = Some f"
  shows "length (file_entries s f) = file_weight (table_of s) (abs_file f)"
proof -
  have "parent_size (table_of s) (abs_file f) = base_size s f"
    using file_invD(2) [OF replay_stateD(3) [OF r] f]
    by (auto simp: parent_size_def base_size_def abs_files_def file_linked_def split: option.split)
  moreover have "card (dom (af_blocks (abs_file f))) = length (idx_items (f_extents f))"
    using replay_blocks [OF r f] by (simp add: dom_def idx_size_card flip: idx_size_def)
  ultimately show ?thesis
    by (simp add: file_entries_def Let_def file_weight_def compact_binds_def)
qed

lemma live_max_bound:
  assumes "file_inv s"
  shows "get_file s i = Some f \<Longrightarrow> i \<le> live_max s" "live_max s \<le> max_file_id s"
    "live_max s = 0 \<or> get_file s (live_max s) \<noteq> None"
proof -
  have items: "idx_items (files_by_id s) = [] \<or> (\<exists>ys p. idx_items (files_by_id s) = ys @ [p] \<and> live_max s = fst p \<and>
      get_file s (fst p) = Some (snd p))"
  proof (cases "idx_items (files_by_id s)" rule: rev_cases)
    case (snoc ys p)
    then have "get_file s (fst p) = Some (snd p)" by (simp add: files_in_items [symmetric])
    then show ?thesis using snoc file_invD(2) [OF assms] by (simp add: live_max_def file_linked_def Let_def)
  qed simp
  show "live_max s \<le> max_file_id s" "live_max s = 0 \<or> get_file s (live_max s) \<noteq> None"
    using items file_invD(2) [OF assms] by (auto simp: live_max_def file_linked_def)
  show "i \<le> live_max s" if "get_file s i = Some f"
  proof -
    have "(i, f) \<in> set (idx_items (files_by_id s))" using that by (simp add: files_in_items)
    then show ?thesis
      using items idx.items_sorted [OF TrueI, of "files_by_id s"] by (fastforce simp: sorted_wrt_append)
  qed
qed

lemma state_entries_length:
  assumes r: "replay_state s"
  shows "length (state_entries s) = table_weight (table_of s)"
proof -
  note inv = replay_stateD(3) [OF r]
  let ?xs = "idx_items (files_by_id s)"
  have "length (concat (map (file_entries s) (map snd ?xs))) = (\<Sum>(i, f) \<leftarrow> ?xs. length (file_entries s f))"
    by (simp add: length_concat comp_def case_prod_unfold)
  also have "\<dots> = (\<Sum>i \<leftarrow> map fst ?xs. file_weight (table_of s) (the (abs_files s i)))"
    unfolding map_map by (intro arg_cong [of _ _ sum_list] map_cong)
      (auto simp: files_in_items file_entries_length [OF r] abs_files_def)
  also have "\<dots> = (\<Sum>i \<in> set (map fst ?xs). file_weight (table_of s) (the (abs_files s i)))"
    by (rule sum_list_distinct_conv_sum_set) (rule idx.keys_distinct [OF TrueI])
  also have "set (map fst ?xs) = dom (abs_files s)"
    by (auto simp: dom_def abs_files_def files_in_items image_iff) (metis files_in_items fst_conv)
  finally have files: "length (concat (map (file_entries s) (map snd ?xs))) =
      (\<Sum>i \<in> dom (tb_files (table_of s)). file_weight (table_of s) (the (tb_files (table_of s) i)))" by simp
  have "max_file_id s \<le> live_max s \<longleftrightarrow> max_file_id s = 0 \<or> get_file s (max_file_id s) \<noteq> None"
    using live_max_bound [OF inv] by (metis antisym option.exhaust word_zero_le)
  then show ?thesis unfolding state_entries_def length_append files table_weight_def
    by (auto simp: id_weight_def)
qed

subsection \<open>Growing ids\<close>

text \<open>
  The code gives a new file an id above all earlier ones. A journal with this property leaves room for
  the marker of a compaction, and the entries of a compaction have it again.
\<close>

fun new_id :: "journal_entry \<Rightarrow> cyanfs_file_id_t option" where
  "new_id (JCREATE _ i) = Some i"
| "new_id (JFORK _ i _) = Some i"
| "new_id _ = None"

fun ids_grow :: "cyanfs_file_id_t \<Rightarrow> journal_entry list \<Rightarrow> bool" where
  "ids_grow m [] = True"
| "ids_grow m (j # js) = (case new_id j of None \<Rightarrow> ids_grow m js | Some i \<Rightarrow> m < i \<and> ids_grow i js)"

definition id_space :: "table \<Rightarrow> bool" where
  "id_space t \<longleftrightarrow> id_room t \<and> card (dom (tb_files t)) \<le> 4096"

lemma apply_entry_space:
  assumes t: "id_space t" and a: "apply_entry j t = Some t'" and i: "\<And>i. new_id j = Some i \<Longrightarrow> tb_max_id t < i"
  shows "id_space t' \<and> tb_max_id t' = (case new_id j of None \<Rightarrow> tb_max_id t | Some i \<Rightarrow> i)"
proof -
  have add: "id_space t' \<and> tb_max_id t' = i" if "add_file i f t = Some t'" "tb_max_id t < i" for i f
    using that by (auto simp: add_file_def id_space_def id_room_def max_def card_insert_if split: if_splits)
  have upd: "id_space (set_file i f t) \<and> tb_max_id (set_file i f t) = tb_max_id t" if "tb_files t i \<noteq> None" for i f
  proof -
    have "dom (tb_files (set_file i f t)) = dom (tb_files t)" using that by (auto simp: set_file_def)
    then show ?thesis using t that by (auto simp: id_space_def id_room_def set_file_def)
  qed
  have del: "id_space (t\<lparr>tb_files := (tb_files t)(i := None)\<rparr>)" if "tb_files t i \<noteq> None" for i
  proof -
    have "card (dom (tb_files t) - {i}) < card (dom (tb_files t))" using that by (intro psubset_card_mono) auto
    then show ?thesis using t by (auto simp: id_space_def id_room_def dom_fun_upd)
  qed
  have "(\<exists>i f. new_id j = Some i \<and> add_file i f t = Some t') \<or> new_id j = None \<and>
      ((\<exists>i f. tb_files t i \<noteq> None \<and> t' = set_file i f t) \<or>
       (\<exists>i. tb_files t i \<noteq> None \<and> t' = t\<lparr>tb_files := (tb_files t)(i := None)\<rparr>) \<or>
       tb_files t' = tb_files t \<and> tb_max_id t' = tb_max_id t)"
    using a by (cases j) (auto split: option.splits if_splits)
  then consider i f where "new_id j = Some i" "add_file i f t = Some t'"
    | i f where "new_id j = None" "tb_files t i \<noteq> None" "t' = set_file i f t"
    | i where "new_id j = None" "tb_files t i \<noteq> None" "t' = t\<lparr>tb_files := (tb_files t)(i := None)\<rparr>"
    | "new_id j = None" "tb_files t' = tb_files t" "tb_max_id t' = tb_max_id t"
    by (elim disjE conjE exE) assumption+
  then show ?thesis
  proof cases
    case 1
    then show ?thesis using add i by simp
  next
    case 2
    then show ?thesis using upd by simp
  next
    case 3
    then show ?thesis using del by simp
  next
    case 4
    then show ?thesis using t by (simp add: id_space_def id_room_def)
  qed
qed

lemma apply_entries_space:
  "id_space t \<Longrightarrow> apply_entries js t = Some t' \<Longrightarrow> ids_grow (tb_max_id t) js \<Longrightarrow> id_space t'"
proof (induction js arbitrary: t)
  case (Cons j js)
  then obtain u where u: "apply_entry j t = Some u" "apply_entries js u = Some t'" by (auto simp: bind_eq_Some_conv)
  have "id_space u \<and> tb_max_id u = (case new_id j of None \<Rightarrow> tb_max_id t | Some i \<Rightarrow> i)"
    using Cons.prems(3) by (intro apply_entry_space [OF Cons.prems(1) u(1)]) auto
  then show ?case using Cons.IH [of u] u(2) Cons.prems(3) by (auto split: option.splits)
qed simp

lemma empty_table_space: "id_space (empty_table n)"
  by (simp add: id_space_def id_room_def empty_table_def)

lemma ids_grow_append:
  "ids_grow m (xs @ ys) \<longleftrightarrow> ids_grow m xs \<and> ids_grow (fold (\<lambda>j m. case new_id j of None \<Rightarrow> m | Some i \<Rightarrow> i) xs m) ys"
  by (induction xs arbitrary: m) (auto split: option.split)

text \<open>Without a hypothesis on the journal: what a compaction of the replayed state needs.\<close>

lemma journal_bounds:
  assumes "apply_entries js (empty_table n) = Some t"
  shows "table_weight t \<le> length js" "ids_grow 0 js \<Longrightarrow> id_room t"
  using apply_entries_weight [OF empty_table_weight(2) assms] empty_table_weight(1) [of n]
    apply_entries_space [OF empty_table_space assms]
  by (simp, simp add: id_space_def empty_table_def)

end
