(* ===== verification/Compact_Device.thy ===== *)
theory Compact_Device
  imports Compact_Size Compact_Moves
begin

section \<open>A compaction on the device\<close>

text \<open>
  A compaction from its start to the write of the super header, on the bytes of a device: it loads the
  part of the journal up to an extent, writes the entries of that state as a new chain that ends at
  this extent, and switches the header. \<open>two_part_journal\<close> is the journal it starts from, \<open>compact_run\<close> the
  run with an executor that completes every task, and \<open>compaction\<close> what the run does.
\<close>

subsection \<open>The page of a loader\<close>

text \<open>A device that answers with no more bytes than were asked for leaves the page its length.\<close>

fun result_loader :: "'a loader_result \<Rightarrow> journal_loader option" where
  "result_loader (Loader_Read _ _ t _) = Some t"
| "result_loader (Loader_Finish t _) = Some t"
| "result_loader (Loader_Error t _) = Some t"
| "result_loader Loader_Panic = None"

abbreviation page_of :: "journal_loader \<Rightarrow> u8 list" where
  "page_of t \<equiv> jc_page (ld_cursor t)"

lemma end_page: "result_loader (journal_loader_end parser err t a) = Some u \<Longrightarrow> page_of u = page_of t"
  by (auto simp: journal_loader_end_def Let_def split: prod.splits if_splits)

lemma read_page_page: "result_loader (journal_loader_read_page t a) = Some t"
  by (simp add: journal_loader_read_page_def Let_def)

lemma prepare_cursor: "journal_loader_prepare_extent mem n b t = (err, new_set, t') \<Longrightarrow> ld_cursor t' = ld_cursor t"
  by (auto simp: journal_loader_prepare_extent_def Let_def split: if_splits)

lemma commit_page: "result_loader (journal_loader_commit_extent b new_set t a) = Some u \<Longrightarrow> page_of u = page_of t"
  by (auto simp: journal_loader_commit_extent_def Let_def read_page_page split: prod.splits option.splits)

definition keeps_page :: "journal_loader \<Rightarrow> 'a loader_result \<Rightarrow> bool" where
  "keeps_page t r \<longleftrightarrow> (\<forall>u. result_loader r = Some u \<longrightarrow> page_of u = page_of t)"

lemma keeps_page_parts:
  "page_of t' = page_of t \<Longrightarrow> keeps_page t (journal_loader_end parser err t' a)"
  "page_of t' = page_of t \<Longrightarrow> keeps_page t (journal_loader_read_page t' a)"
  "page_of t' = page_of t \<Longrightarrow> keeps_page t (journal_loader_commit_extent b new_set t' a)"
  by (auto simp: keeps_page_def read_page_page dest!: end_page commit_page)

lemma loader_record_page:
  assumes "loader_record parser mem n page off t a = Inl r"
  shows "keeps_page t r"
  using assms prepare_cursor
  by (auto simp: loader_record_def loader_stop_def Let_def intro!: keeps_page_parts
      split: option.splits if_splits prod.splits dest!: sym [of _ r])

lemma loader_records_page: "keeps_page t (loader_records parser mem n page off t a)"
proof (induction parser mem n page off t a rule: loader_records.induct)
  case (1 parser mem n page off t a)
  show ?case
  proof (cases "loader_record parser mem n page off t a")
    case (Inl r)
    then show ?thesis using loader_record_page by (subst loader_records.simps) simp
  next
    case (Inr v)
    then obtain off' t' a' where v: "loader_record parser mem n page off t a = Inr (off', t', a')" by (cases v) auto
    obtain h :: journal_header where c: "ld_cursor t' = (ld_cursor t)\<lparr>jc_seq := jc_seq (ld_cursor t'),
        jc_extent_off := jc_extent_off (ld_cursor t) + jh_size h\<rparr>"
      by (rule loader_record_next [OF v]) blast
    have "page_of t' = page_of t" by (subst c) simp
    then show ?thesis using "1.IH" [OF v refl refl] v by (subst loader_records.simps) (simp add: keeps_page_def)
  qed
qed

lemma parser_page_page:
  assumes "length bytes \<le> 65536" "length (page_of t) = 65536"
    and "result_loader (journal_loader_parser_page parser mem n err bytes t a) = Some u"
  shows "length (page_of u) = 65536"
proof (cases "err = Ok")
  case True
  define t' where "t' = t\<lparr>ld_cursor := (ld_cursor t)\<lparr>jc_page := bytes @ drop (length bytes) (page_of t)\<rparr>\<rparr>"
  have eq: "journal_loader_parser_page parser mem n err bytes t a = loader_records parser mem n bytes 0 t' a"
    using True by (simp add: journal_loader_parser_page_def t'_def)
  have "page_of u = page_of t'" using loader_records_page [of t' parser mem n bytes 0 a] assms(3) unfolding eq keeps_page_def by blast
  then show ?thesis using assms(1,2) by (simp add: t'_def)
next
  case False
  then have "journal_loader_parser_page parser mem n err bytes t a = journal_loader_end parser True t a"
    by (simp add: journal_loader_parser_page_def)
  then show ?thesis using assms(2,3) end_page [of parser True t a u] by simp
qed

lemma parser_header_page:
  assumes "length bytes \<le> 65536" "length (page_of t) = 65536"
    and "result_loader (journal_loader_parser_header parser mem n err bytes t a) = Some u"
  shows "length (page_of u) = 65536"
proof -
  let ?p = "bytes @ drop (length bytes) (page_of t)"
  have l: "length ?p = 65536" using assms(1,2) by simp
  have "page_of u = page_of t \<or> page_of u = ?p"
    using assms(3)
    by (auto simp: journal_loader_parser_header_def Let_def split: if_splits option.splits prod.splits
        dest!: prepare_cursor commit_page end_page)
  then show ?thesis using assms(2) l by metis
qed

lemma device_read_length: "length (snd (device_read dev k b len)) \<le> unat len"
  by (simp add: device_read_def)

lemma loader_run_page:
  assumes "result_ok n r" "\<forall>u. result_loader r = Some u \<longrightarrow> length (page_of u) = 65536"
    and "loader_run parser mem n (device_read dev) k r = Some r'" "result_loader r' = Some u"
  shows "length (page_of u) = 65536"
  using assms
proof (induction "case r of Loader_Read b l t a \<Rightarrow> loader_rank n t | _ \<Rightarrow> 0" arbitrary: k r rule: less_induct)
  case less
  show ?case
  proof (cases r)
    case (Loader_Read b l t a)
    have ok: "loader_ok n t" "cursor_ok n (ld_cursor t)" "journal_loader_read_page t a = Loader_Read b l t a"
      using less.prems(1) [unfolded Loader_Read] by (simp_all add: result_ok_def)
    have l: "unat l \<le> 65536"
      using ok(3) by (auto simp: journal_loader_read_page_def Let_def journal_size_values word_less_nat_alt split: if_splits)
    obtain err bytes where io: "device_read dev k b l = (err, bytes)" by (cases "device_read dev k b l")
    define q where "q = journal_loader_parser_page parser mem n err bytes t a"
    have run: "loader_run parser mem n (device_read dev) (Suc k) q = Some r'"
      using less.prems(3) by (subst (asm) loader_run.simps) (simp add: Loader_Read io q_def)
    have "length bytes \<le> 65536" using l device_read_length [of dev k b l] io by simp
    then have page: "\<forall>u. result_loader q = Some u \<longrightarrow> length (page_of u) = 65536"
      using parser_page_page less.prems(2) unfolding q_def Loader_Read by fastforce
    have qok: "result_ok n q" unfolding q_def by (rule parser_page_ok(1) [OF ok(1,2)])
    show ?thesis
    proof (cases "\<exists>b' l' t' a'. q = Loader_Read b' l' t' a'")
      case True
      then obtain b' l' t' a' where q: "q = Loader_Read b' l' t' a'" by blast
      then have "loader_rank n t' < loader_rank n t"
        using parser_page_ok(2) [OF ok(1,2), of parser mem err bytes a b' l' t' a'] q_def by simp
      then show ?thesis using less.hyps [of q "Suc k"] qok q Loader_Read run page less.prems(4) by simp
    next
      case False
      then have "q = r'" using run by (cases q) (simp_all add: loader_run.simps)
      then show ?thesis using page less.prems(4) by simp
    qed
  qed (use less.prems in \<open>auto simp: loader_run.simps\<close>)
qed

lemma journal_load_page:
  assumes "loader_ok n t" "length (page_of t) = 65536"
    and "journal_load parser mem n (device_read dev) t a = Some r" "result_loader r = Some u"
  shows "length (page_of u) = 65536"
proof -
  obtain err bytes where io: "device_read dev 0 0 CYANFS_SUPER_BLOCK_SIZE = (err, bytes)"
    by (cases "device_read dev 0 0 CYANFS_SUPER_BLOCK_SIZE")
  have b: "length bytes \<le> 65536"
    using device_read_length [of dev 0 0 CYANFS_SUPER_BLOCK_SIZE] io by (simp add: size_values)
  show ?thesis
  proof (rule loader_run_page [OF parser_header_ok [OF assms(1)] _ _ assms(4)])
    show "\<forall>u. result_loader (journal_loader_parser_header parser mem n err bytes t a) = Some u \<longrightarrow> length (page_of u) = 65536"
      using parser_header_page [OF b assms(2), where err = err] by auto
    show "loader_run parser mem n (device_read dev) 1 (journal_loader_parser_header parser mem n err bytes t a) = Some r"
      using assms(3) by (simp add: journal_load_def io)
  qed
qed

subsection \<open>What a journal holds\<close>

lemma read_record_wf:
  assumes "read_record uuid q p = Record js l sz"
  shows "list_all (\<lambda>j. entry_wf j \<and> \<not> is_link j) js"
proof -
  obtain n b ks rest where "decode_entries n b = Some (ks, rest)" "js = filter (\<lambda>j. \<not> is_link j) ks"
    using assms by (auto simp: read_record_def Let_def split: option.splits if_splits prod.splits)
  then show ?thesis using decode_entries_wf [of n b ks rest] by (auto simp: list_all_iff)
qed

lemma chain_wf: "chain dev uuid e off q js es e' off' q' \<Longrightarrow> list_all (\<lambda>j. entry_wf j \<and> \<not> is_link j) js"
  by (induction rule: chain.induct) (simp_all add: read_record_wf)

text \<open>A chain that has just reached an extent got there by a link.\<close>

lemma chain_arrives:
  assumes "chain dev uuid e off q js es e' off' q'" "off' = 0" "es \<noteq> []"
  shows "\<exists>j1 ks e1 off1 q1 sz. js = j1 @ ks \<and> chain dev uuid e off q j1 (butlast es) e1 off1 q1 \<and>
    read_record uuid q1 (drop off1 (extent_bytes dev e1)) = Record ks (Some e') sz \<and> q' = q1 + of_nat (length ks)"
  using assms
proof (induction rule: chain.induct)
  case (Chain_Record q off e js sz ks es e' off' q')
  then obtain j1 ls e1 off1 q1 sz1 where I: "ks = j1 @ ls"
      "chain dev uuid e (off + sz) (q + of_nat (length js)) j1 (butlast es) e1 off1 q1"
      "read_record uuid q1 (drop off1 (extent_bytes dev e1)) = Record ls (Some e') sz1" "q' = q1 + of_nat (length ls)"
    by blast
  show ?case using chain.Chain_Record [OF Chain_Record.hyps(1) I(2)] I(1,3,4) by (metis append_assoc)
next
  case (Chain_Link q off e js f sz ks es e' off' q')
  show ?case
  proof (cases "es = []")
    case True
    then have "chain dev uuid f 0 (q + of_nat (length js)) ks [] e' 0 q'"
      using Chain_Link.hyps(2) Chain_Link.prems(1) by simp
    then have "e' = f \<and> ks = [] \<and> q' = q + of_nat (length js)"
      apply (rule chain_nilE)
       apply simp
      subgoal for l sz' l'
        using chain_forward [of dev uuid f "0 + sz'"] read_record_size(2) by fastforce
      done
    then show ?thesis
      using True Chain_Link.hyps(1) chain.Chain_End [of dev uuid e off q]
      by (intro exI [of _ "[]"] exI [of _ js] exI [of _ e] exI [of _ off] exI [of _ q] exI [of _ sz]) simp
  next
    case False
    then obtain j1 ls e1 off1 q1 sz1 where I: "ks = j1 @ ls"
        "chain dev uuid f 0 (q + of_nat (length js)) j1 (butlast es) e1 off1 q1"
        "read_record uuid q1 (drop off1 (extent_bytes dev e1)) = Record ls (Some e') sz1" "q' = q1 + of_nat (length ls)"
      using Chain_Link by blast
    show ?thesis
      using chain.Chain_Link [OF Chain_Link.hyps(1) I(2)] I(1,3,4) False
      by (intro exI [of _ "js @ j1"] exI [of _ ls]) auto
  qed
qed simp

subsection \<open>The two copies of the super header\<close>

lemma super_store_take:
  assumes "4096 \<le> length p" "length (sh_uuid h) = 16" "super_store p h = (b, h')"
  shows "super_store (take 4096 p) h = (take 4096 b, h')"
proof -
  have enc: "take 4096 (cyanfs_super_encode_header q g) = cyanfs_super_encode_header (take 4096 q) g"
    if "length (sh_uuid g) = 16" for q g
    using that by (simp add: cyanfs_super_encode_header_def Let_def take_drop)
  have sum: "super_header_sum (take 4096 q) = super_header_sum q" for q
    by (simp add: super_header_sum_def size_values take_drop)
  define q where "q = cyanfs_super_encode_header p h"
  have h': "h' = h\<lparr>sh_crc32 := super_header_sum q\<rparr>" "b = cyanfs_super_encode_header q h'"
    using assms(3) by (auto simp: super_store_def Let_def q_def)
  then show ?thesis
    using assms(2) by (simp add: super_store_def Let_def enc [OF assms(2), symmetric] q_def [symmetric] sum enc)
qed

text \<open>The copy that a version uses, and its bytes on the device.\<close>

definition slot_bytes :: "device \<Rightarrow> super_header \<Rightarrow> u8 list" where
  "slot_bytes dev h = take 4096 (drop (unat (compact_slot h)) dev)"

lemma slot_values: "unat (compact_slot h) = (if even (sh_version h) then 0 else 4096)"
  by (simp add: compact_slot_def size_values and_one_eq mod_2_eq_odd)

lemma header_switch:
  assumes dev: "8192 \<le> length dev" and h: "super_slot (slot_bytes dev h) h"
    and g: "sh_version g = sh_version h + 1" "sh_version h \<noteq> NOT 0" and x: "length x = 4096"
  defines "dev' \<equiv> device_write (compact_slot g) x dev"
  shows "super_slot x g \<Longrightarrow> cyanfs_super_parse (take 8192 dev') = Some g"
    and "\<not> super_copy_ok x \<Longrightarrow> cyanfs_super_parse (take 8192 dev') = Some h"
    and "slot_bytes dev' g = x" "drop 8192 dev' = drop 8192 dev" "length dev' = length dev"
proof -
  have v: "sh_version g > sh_version h" using unat_succ [OF g(2)] g(1) by (simp add: word_less_nat_alt)
  have par: "even (sh_version g) \<longleftrightarrow> odd (sh_version h)" by (simp add: g(1))
  let ?a = "take 4096 dev" and ?b = "take 4096 (drop 4096 dev)"
  have split: "take 8192 dev' = (if even (sh_version h) then ?a @ x else x @ ?b) \<and> slot_bytes dev' g = x \<and>
      drop 8192 dev' = drop 8192 dev \<and> length dev' = length dev"
    using dev x by (auto simp: dev'_def device_write_def slot_bytes_def slot_values par take_drop min_def)
  have slot: "super_slot (if even (sh_version h) then ?a else ?b) h"
    using h by (simp add: slot_bytes_def slot_values split: if_splits)
  then have len: "length ?a = 4096" "length ?b = 4096" using dev by simp_all
  show "super_slot x g \<Longrightarrow> cyanfs_super_parse (take 8192 dev') = Some g"
    using slot split v super_parse_slots(1) [of ?a h x g] super_parse_slots(1) [of x g ?b h] by (auto split: if_splits)
  show "\<not> super_copy_ok x \<Longrightarrow> cyanfs_super_parse (take 8192 dev') = Some h"
    using slot split x super_parse_slots(2) [of ?a h x] super_parse_slots(3) [of x ?b h] by (auto split: if_splits)
  show "slot_bytes dev' g = x" "drop 8192 dev' = drop 8192 dev" "length dev' = length dev" using split by simp_all
qed

lemma extent_bytes_header:
  "drop 8192 dev' = drop 8192 dev \<Longrightarrow> extent_bytes dev' i = extent_bytes dev i"
proof -
  assume "drop 8192 dev' = drop 8192 dev"
  moreover have "drop (8192 + m) d = drop m (drop 8192 d)" for m and d :: device by (simp add: add.commute)
  ultimately show ?thesis by (simp only: extent_bytes_def)
qed

subsection \<open>The whole compaction\<close>

text \<open>
  The steps of a compaction one after the other on a device without errors: loading, choosing the
  entries, writing them, storing the header. The result has the device before and after the write of
  the header. The list of entries is empty when the loaded journal has nothing left; then the writer
  has nothing to do.
\<close>

definition compact_run ::
    "(nat \<Rightarrow> malloc) \<Rightarrow> malloc \<Rightarrow> malloc \<Rightarrow> nat \<Rightarrow> compact \<Rightarrow> super \<Rightarrow> device \<Rightarrow>
       (compact \<times> super \<times> device \<times> device) option" where
  "compact_run mem_parser mem_loader mem a t s dev =
     (case journal_load (journal_compact_loader_parser mem_parser) mem_loader (sm_total_extents (meta s))
             (device_read dev) (cp_loader t) (cp_super t, 0) of
        Some (Loader_Finish l (q, _)) \<Rightarrow>
          (case journal_compact_loader_finish mem a (t\<lparr>cp_loader := l, cp_super := q\<rparr>) s of
             (Some t, s) \<Rightarrow>
               (case journal_write (cp_writer t) s dev of
                  (True, w, s, dev1) \<Rightarrow>
                    (case journal_compact_write_super a Ok (t\<lparr>cp_writer := w\<rparr>) s of
                       (Some t, s) \<Rightarrow>
                         Some (t, s, dev1,
                               device_write (compact_slot (cp_header t))
                                 (take (unat CYANFS_SUPER_HEADER_SIZE) (jc_page (jw_cursor (cp_writer t)))) dev1)
                     | _ \<Rightarrow> None)
                | _ \<Rightarrow> None)
           | _ \<Rightarrow> None)
      | _ \<Rightarrow> None)"

text \<open>Loading the journal up to the extent where it goes on.\<close>

lemma compact_loads:
  assumes j: "holds_journal n dev h js (es @ [end_id]) end_id 0 q" and mem: "\<forall>i. mem i" "\<forall>k i. mem_parser k i"
    and t: "cp_loader t = (cyanfs_journal_loader_init cur hdr)\<lparr>ld_end_id := end_id\<rparr>" "length (jc_page cur) = 65536"
    and r: "replay_state (cp_super t)" and T: "apply_entries (js @ map JNEXT (sh_journal_id h # es)) (table_of (cp_super t)) = Some T"
  shows "\<exists>l p k. journal_load (journal_compact_loader_parser mem_parser) mem n (device_read dev) (cp_loader t) (cp_super t, 0) =
      Some (Loader_Finish l (p, k)) \<and> jc_seq (ld_cursor l) = q \<and> ld_header l = h \<and> ld_end_id l = end_id \<and>
    length (jc_page (ld_cursor l)) = 65536 \<and> replay_state p \<and> table_of p = T"
proof -
  note J = j [unfolded holds_journal_def]
  have ch: "chain dev (sh_uuid h) (sh_journal_id h) 0 (sh_journal_seq h) js (es @ [end_id]) end_id 0 q" using J by blast
  obtain j1 ks e1 off1 q1 sz where c: "js = j1 @ ks"
      "chain dev (sh_uuid h) (sh_journal_id h) 0 (sh_journal_seq h) j1 es e1 off1 q1"
      "read_record (sh_uuid h) q1 (drop off1 (extent_bytes dev e1)) = Record ks (Some end_id) sz"
      "q = q1 + of_nat (length ks)"
    using chain_arrives [OF ch] by auto
  have first: "holds_journal n dev h j1 es e1 off1 q1" using J c(2) by (auto simp: holds_journal_def)
  have fresh: "end_id \<notin> set (sh_journal_id h # es)" "end_id \<noteq> cyanfs_extent_id_invalid"
    using J extent_not_invalid [of end_id n] by auto
  have "list_all entry_wf (js @ map JNEXT (sh_journal_id h # es))"
    using chain_wf [OF ch] by (auto simp: list_all_iff)
  then obtain p k where p: "parse_all (journal_compact_loader_parser mem_parser) (js @ map JNEXT (sh_journal_id h # es)) (cp_super t, 0) =
      (True, p, k)" "replay_state p" "table_of p = T"
    using compact_parse [OF r _ _ T, of mem_parser 0] mem(2) by blast
  obtain l where l: "journal_load (journal_compact_loader_parser mem_parser) mem n (device_read dev) (cp_loader t) (cp_super t, 0) =
      Some (Loader_Finish l (p, k))" "jc_seq (ld_cursor l) = q" "ld_header l = h" "ld_end_id l = end_id"
    using load_journal_until [OF first c(3) fresh mem(1), of "journal_compact_loader_parser mem_parser" "(cp_super t, 0)" "(p, k)" cur hdr]
      p(1) c(1,4) t(1) by auto
  have "loader_ok n (cp_loader t)" "length (page_of (cp_loader t)) = 65536"
    using loader_ok_init [of n cur hdr] t by (simp_all add: loader_ok_def cyanfs_journal_loader_init_def)
  then have "length (page_of l) = 65536" using journal_load_page [OF _ _ l(1)] by simp
  then show ?thesis using l p(2,3) by blast
qed

text \<open>The end of loading: the writer gets the entries of the state and a free extent.\<close>

lemma state_entries_wf:
  assumes "file_inv s"
  shows "list_all (\<lambda>j. entry_wf j \<and> \<not> is_link j) (state_entries s)"
proof -
  obtain m where m: "journal_compact_marker_name s = Some m" "name_ok m" using marker_found [OF assms] by metis
  have "list_all (\<lambda>j. entry_wf j \<and> \<not> is_link j) (file_entries s f)" if "get_file s i = Some f" for i f
    using file_invD(2) [OF assms that]
    by (auto simp: file_entries_def Let_def compact_binds_def list_all_iff file_linked_def name_ok_def split: option.split)
  then show ?thesis
    using m by (auto simp: state_entries_def list_all_iff files_in_items name_ok_def)
qed

lemma compact_entries_total:
  assumes "file_inv p" "\<forall>i. mem i" "length (state_entries p) < 2 ^ 64"
  obtains js k where "compact_entries mem p = Inr (js, of_nat (length (state_entries p)), k)"
    "map jn_entry js = state_entries p"
proof -
  obtain js m k where r: "compact_entries mem p = Inr (js, m, k)"
    using compact_add_all_succeeds [of mem 0 "state_entries p" "[]" 0] assms by (auto simp: compact_entries_eq)
  then have js: "map jn_entry js = state_entries p" and m: "unat m = length (state_entries p)"
    using compact_add_all_Inr [of mem "state_entries p" "[]" 0 0 js m k] by (auto simp: compact_entries_eq assms(1))
  have "m = of_nat (length (state_entries p))" by (simp flip: m)
  then show ?thesis using r js that by blast
qed

lemma writer_super_cong:
  assumes f: "files_by_id s' = files_by_id s" "trees s' = trees s" "meta s' = meta s"
    "has_flag s' FLAG_ERROR = has_flag s FLAG_ERROR"
  shows "writer_super n uuid s' = writer_super n uuid s" "free_id s' = free_id s"
proof -
  have g: "get_file s' = get_file s" using f by (simp add: get_file_def fun_eq_iff)
  have b: "block s' = block s" by (simp add: block_def g fun_eq_iff)
  have "held_at s' p b \<longleftrightarrow> held_at s p b" for p b by (cases p) (simp_all add: f b)
  then have "extent_inv s' = extent_inv s"
    by (simp add: extent_inv_def ownership_def tree_nodes_ok_def counters_ok_def total_extents_def f g)
  then show "writer_super n uuid s' = writer_super n uuid s" by (simp add: writer_super_def f)
  show "free_id s' = free_id s" by (simp add: free_id_def f fun_eq_iff)
qed

lemma writer_super_queue:
  "writer_super n uuid (snd (task_add_tail r (task_init r ty fn s))) = writer_super n uuid s"
  "free_id (snd (task_add_tail r (task_init r ty fn s))) = free_id s"
  "trees (snd (task_add_tail r (task_init r ty fn s))) = trees s"
  by (intro writer_super_cong; simp add: task_add_tail_def task_init_def has_flag_def)+
    (simp add: task_add_tail_def task_init_def)

lemma compact_finish_loading:
  fixes t :: compact
  defines "l \<equiv> cp_loader t" and "ns \<equiv> state_entries (cp_super t)"
  assumes p: "file_inv (cp_super t)" and mem: "\<forall>i. mem i" and seq: "length ns \<le> unat (jc_seq (ld_cursor l))"
    and ver: "sh_version (ld_header l) \<noteq> NOT 0" and ws: "writer_super n uuid s"
    and free: "trees s Free_Extents \<noteq> idx_empty" and page: "length (jc_page (ld_cursor l)) = 65536"
  obtains e0 t' s' where "journal_compact_loader_finish mem a t s = (Some t', s')"
    "cp_header t' = (ld_header l)\<lparr>sh_journal_seq := jc_seq (ld_cursor l) - of_nat (length ns),
       sh_version := sh_version (ld_header l) + 1, sh_journal_id := e0\<rparr>"
    "map jn_entry (jw_head (cp_writer t')) = ns" "length (jc_page (jw_cursor (cp_writer t'))) = 65536"
    "writer_super n uuid s'" "\<forall>i. free_id s' i \<longrightarrow> free_id s i"
    "ns = [] \<Longrightarrow> e0 = ld_end_id l"
    "ns \<noteq> [] \<Longrightarrow> e0 < n \<and> free_id s e0 \<and> \<not> free_id s' e0 \<and> jw_next_id (cp_writer t') = ld_end_id l \<and>
       writer_ok (cp_writer t') \<and> writes_at n (cp_writer t') e0 0 (jc_seq (ld_cursor l) - of_nat (length ns)) \<and>
       idx_size (trees s Free_Extents) = Suc (idx_size (trees s' Free_Extents))"
proof -
  have small: "length ns < 2 ^ 64" using seq unat_bounds(5) [of "jc_seq (ld_cursor l)"] by simp
  obtain js k where e: "compact_entries mem (cp_super t) = Inr (js, of_nat (length ns), k)" "map jn_entry js = ns"
    using compact_entries_total [OF p mem] small unfolding ns_def by blast
  have un: "unat (of_nat (length ns) :: u64) = length ns" using small by (simp add: unat_of_nat)
  have guard: "\<not> of_nat (length ns) > jc_seq (ld_cursor l)" using seq un by (simp add: word_less_nat_alt)
  have zero: "of_nat (length ns) = (0 :: u64) \<longleftrightarrow> ns = []" using un by (auto simp: word_unat_eq_iff)
  note finish = journal_compact_loader_finish_def [of mem a t s, folded l_def, unfolded e(1) Let_def]
  show ?thesis
  proof (cases "ns = []")
    case True
    define t' where "t' = t\<lparr>cp_header := (ld_header l)\<lparr>sh_journal_seq := jc_seq (ld_cursor l) - of_nat (length ns),
        sh_version := sh_version (ld_header l) + 1, sh_journal_id := ld_end_id l\<rparr>,
        cp_writer := cyanfs_journal_writer_init (ld_cursor l)\<rparr>"
    define s' where "s' = snd (task_add_tail (Compact_Task a) (task_init (Compact_Task a) TASK_NOP Journal_Compact_Write_Super s))"
    have "journal_compact_loader_finish mem a t s = (Some t', s')"
      using True ver guard zero by (simp add: finish t'_def s'_def)
    then show ?thesis
      using True ws page by (intro that [of t' s' "ld_end_id l"])
        (simp_all add: t'_def s'_def cyanfs_journal_writer_init_def writer_super_queue)
  next
    case False
    then obtain m where m: "super_find_nearly_extent s 0 = Some m"
      using free writer_alloc_spec [OF ws] by (cases "super_find_nearly_extent s 0") auto
    define e0 :: cyanfs_extent_id where "e0 = ucast (ext_backend m)"
    define r where "r = extent_super_to_super m Free_Extents Journal_Extents s"
    have A: "e0 < n" "free_id s e0" "writer_super n uuid r" "\<And>i. free_id r i \<longleftrightarrow> free_id s i \<and> i \<noteq> e0"
        "idx_size (trees s Free_Extents) = Suc (idx_size (trees r Free_Extents))"
      using writer_alloc_spec [OF ws] by (auto simp: m e0_def r_def Let_def)
    define cur where "cur = (ld_cursor l)\<lparr>jc_extent_id := e0, jc_extent_off := 0,
        jc_seq := jc_seq (ld_cursor l) - of_nat (length ns)\<rparr>"
    define t' where "t' = t\<lparr>cp_header := (ld_header l)\<lparr>sh_journal_seq := jc_seq (ld_cursor l) - of_nat (length ns),
        sh_version := sh_version (ld_header l) + 1, sh_journal_id := e0\<rparr>,
        cp_writer := (cyanfs_journal_writer_init (ld_cursor l))\<lparr>jw_head := js, jw_next_id := ld_end_id l, jw_cursor := cur\<rparr>\<rparr>"
    define s' where "s' = snd (journal_writer_start (Compact_Writer a) r)"
    have f: "journal_compact_loader_finish mem a t s = (Some t', s')"
      using False ver guard zero m by (simp add: finish t'_def s'_def r_def e0_def cur_def)
    have "writer_ok (cp_writer t')"
      using page state_entries_wf [OF p] e(2)
      by (simp add: writer_ok_def t'_def cur_def ns_def) (metis (mono_tags, lifting) list.pred_map list.pred_mono_strong comp_apply)
    then show ?thesis
      using f False A e(2) page by (intro that [of t' s' e0])
        (simp_all add: t'_def cur_def s'_def journal_writer_start_def writer_super_queue writes_at_def)
  qed
qed

text \<open>Facts about chains that the last step uses.\<close>

lemma chain_agree:
  "chain dev uuid e off q js es e' off' q' \<Longrightarrow> (\<And>i. i \<in> set (e # es) \<Longrightarrow> extent_bytes dev' i = extent_bytes dev i) \<Longrightarrow>
     chain dev' uuid e off q js es e' off' q'"
proof (induction rule: chain.induct)
  case (Chain_Record q off e js sz ks es e' off' q')
  then show ?case by (intro chain.Chain_Record) auto
next
  case (Chain_Link q off e js f sz ks es e' off' q')
  then show ?case by (intro chain.Chain_Link) auto
qed (rule chain.Chain_End)

lemma chain_seq_nat: "chain dev uuid e off q js es e' off' q' \<Longrightarrow> unat q' = unat q + length js"
proof (induction rule: chain.induct)
  have step: "unat (q + of_nat (length js)) = unat q + length js" if "read_record uuid q p = Record js l sz" for q p js l sz
    using read_record_size(6) [OF that] by (subst unat_add_no_wrap) (simp_all add: unat_of_nat)
  {
    case (Chain_Record q off e js sz ks es e' off' q')
    then show ?case using step by simp
  next
    case (Chain_Link q off e js f sz ks es e' off' q')
    then show ?case using step by simp
  }
qed simp

lemma super_slot_uuid: "super_slot p h \<Longrightarrow> length (sh_uuid h) = 16"
proof -
  assume a: "super_slot p h"
  then have p: "length p = 4096" and h: "sh_uuid (fst (cyanfs_super_decode_header p)) = sh_uuid h"
    by (simp_all add: super_slot_def)
  have d: "sh_uuid (fst (cyanfs_super_decode_header p)) = take 16 (drop 8 p)"
    by (simp add: cyanfs_super_decode_header_def cyanfs_get32_def cyanfs_get64_def cyanfs_get_generic_def Let_def)
  show ?thesis unfolding h [symmetric] d using p by simp
qed

lemma table_weight_journal: "table_weight (t\<lparr>tb_journal := J\<rparr>) = table_weight t"
proof -
  have "file_weight (t\<lparr>tb_journal := J\<rparr>) = file_weight t" by (intro ext file_weight_cong) (simp add: same_size_def)
  then show ?thesis by (simp add: table_weight_def id_weight_def)
qed

text \<open>
  The device holds the journal \<open>js\<close>, which the code wrote, up to the link to the extent \<open>end_id\<close>, and
  goes on there with the entries \<open>ls\<close>; the super block uses all of these extents.
\<close>

definition two_part_journal ::
    "u32 \<Rightarrow> super \<Rightarrow> device \<Rightarrow> super_header \<Rightarrow> journal_entry list \<Rightarrow> cyanfs_extent_id list \<Rightarrow> cyanfs_extent_id \<Rightarrow> u64 \<Rightarrow>
      journal_entry list \<Rightarrow> cyanfs_extent_id list \<Rightarrow> cyanfs_extent_id \<Rightarrow> nat \<Rightarrow> u64 \<Rightarrow> bool" where
  "two_part_journal n s dev h js es end_id q ls fs e off q' \<longleftrightarrow>
     holds_journal n dev h js (es @ [end_id]) end_id 0 q \<and> chain dev (sh_uuid h) end_id 0 q ls fs e off q' \<and>
     distinct (sh_journal_id h # es @ end_id # fs) \<and> (\<forall>i \<in> set fs. i < n) \<and>
     (\<forall>i \<in> set (sh_journal_id h # es @ end_id # fs). \<not> free_id s i) \<and>
     super_slot (slot_bytes dev h) h \<and> ids_grow 0 js \<and>
     apply_entries (js @ map JNEXT (sh_journal_id h # es)) (empty_table (total_extents s)) \<noteq> None"

text \<open>A compaction object as \<open>cyanfs_super_compact\<close> makes it.\<close>

definition compact_start :: "super \<Rightarrow> cyanfs_extent_id \<Rightarrow> compact \<Rightarrow> bool" where
  "compact_start s end_id t \<longleftrightarrow>
     (\<exists>c h. cp_loader t = (cyanfs_journal_loader_init c h)\<lparr>ld_end_id := end_id\<rparr> \<and> length (jc_page c) = 65536) \<and>
     replay_state (cp_super t) \<and> table_of (cp_super t) = empty_table (total_extents s)"

lemma super_compact_starts:
  assumes inv: "super_inv s" and c: "super_compact mem raw raw_file s = (err, Some t, s')"
  shows "compact_start s (jc_extent_id_ondisk (journal_cursor s)) t" "err = Ok"
proof -
  let ?s = "set_flag FLAG_COMPACT_WORKING s"
  let ?c = "(journal_cursor (cp_super raw))\<lparr>jc_page := malloc_bytes (unat CYANFS_JOURNAL_PAGE_SIZE)
      (jc_page (journal_cursor (cp_super raw)))\<rparr>"
  have t: "cp_loader t = (cyanfs_journal_loader_init ?c (ld_header (cp_loader raw)))
        \<lparr>ld_end_id := jc_extent_id_ondisk (journal_cursor s)\<rparr>"
      "cp_super t = compact_init (?s\<lparr>next_address := next_address s + 1\<rparr>) (cp_super raw) raw_file" and e: "err = Ok"
    using c by (auto simp: super_compact_def Let_def set_flag_def split: if_splits prod.splits)
  show "err = Ok" by (rule e)
  have tot: "total_extents (?s\<lparr>next_address := next_address s + 1\<rparr>) = total_extents s"
    by (simp add: total_extents_def set_flag_def)
  have page: "length (jc_page ?c) = 65536" by (simp add: journal_size_values)
  note I = compact_init_state [of "?s\<lparr>next_address := next_address s + 1\<rparr>" "cp_super raw" raw_file, unfolded tot,
      OF super_invD(4,5) [OF inv], folded t(2)]
  show "compact_start s (jc_extent_id_ondisk (journal_cursor s)) t"
    unfolding compact_start_def using I
    by (intro conjI exI [of _ ?c] exI [of _ "ld_header (cp_loader raw)"] t(1) page)
qed

lemma super_compact_frame:
  assumes c: "super_compact mem raw raw_file s = (err, Some t, s')"
  shows "files_by_id s' = files_by_id s" "trees s' = trees s" "meta s' = meta s"
    "has_flag s' FLAG_ERROR = has_flag s FLAG_ERROR"
proof -
  have f: "files_by_id s' = files_by_id s" "trees s' = trees s" "meta s' = meta s"
      "flags s' = flags s OR FLAG_COMPACT_WORKING"
    using c by (auto simp: super_compact_def Let_def set_flag_def journal_loader_start_def task_add_tail_def task_init_def
        super_new_task_def split: if_splits prod.splits option.splits)
  then show "files_by_id s' = files_by_id s" "trees s' = trees s" "meta s' = meta s" by blast+
  show "has_flag s' FLAG_ERROR = has_flag s FLAG_ERROR"
    using f(4) by (simp add: has_flag_simps FLAG_COMPACT_WORKING_def bit_simps)
qed

lemma loaded:
  assumes J: "two_part_journal n s dev h js es end_id q ls fs e off q'" and t: "compact_start s end_id t"
    and mem: "\<forall>i. mem i" "\<forall>k i. mem_parser k i"
  obtains l p k T where "journal_load (journal_compact_loader_parser mem_parser) mem n (device_read dev) (cp_loader t)
      (cp_super t, 0) = Some (Loader_Finish l (p, k))"
    "jc_seq (ld_cursor l) = q" "ld_header l = h" "ld_end_id l = end_id" "length (jc_page (ld_cursor l)) = 65536"
    "replay_state p" "apply_entries (js @ map JNEXT (sh_journal_id h # es)) (empty_table (total_extents s)) = Some (table_of p)"
proof -
  obtain T where T: "apply_entries (js @ map JNEXT (sh_journal_id h # es)) (empty_table (total_extents s)) = Some T"
    and j: "holds_journal n dev h js (es @ [end_id]) end_id 0 q"
    using J by (auto simp: two_part_journal_def)
  obtain c g where "cp_loader t = (cyanfs_journal_loader_init c g)\<lparr>ld_end_id := end_id\<rparr>" "length (jc_page c) = 65536"
      "replay_state (cp_super t)" "table_of (cp_super t) = empty_table (total_extents s)"
    using t by (auto simp: compact_start_def)
  from compact_loads [OF j mem this(1-3)] this(4) T show ?thesis using that by auto
qed

text \<open>The entries of the loaded state mean the same as the journal and are not more.\<close>

lemma loaded_entries:
  assumes J: "two_part_journal n s dev h js es end_id q ls fs e off q'" and p: "replay_state p"
    and T: "apply_entries (js @ map JNEXT (sh_journal_id h # es)) (empty_table (total_extents s)) = Some (table_of p)"
  shows "apply_entries (state_entries p) (empty_table (total_extents s)) = apply_entries js (empty_table (total_extents s))"
    "length (state_entries p) \<le> length js" "length js \<le> unat q"
proof -
  have ch: "chain dev (sh_uuid h) (sh_journal_id h) 0 (sh_journal_seq h) js (es @ [end_id]) end_id 0 q"
    and ids: "ids_grow 0 js"
    using J by (simp_all add: two_part_journal_def holds_journal_def)
  obtain u where u: "apply_entries js (empty_table (total_extents s)) = Some u"
      "apply_entries (map JNEXT (sh_journal_id h # es)) u = Some (table_of p)"
    using T by (auto simp: apply_entries_append bind_eq_Some_conv)
  have "tb_journal u = {}"
    using apply_entries_keep_journal [OF _ u(1)] chain_wf [OF ch] by (auto simp: empty_table_def list_all_iff)
  then have live: "live_table p = u" using apply_next [OF u(2)] by (simp add: live_table_def)
  then have tot: "total_extents p = total_extents s"
    using apply_entries_total [OF u(1)] by (auto simp: empty_table_def)
  have w: "table_weight (table_of p) = table_weight u" unfolding live [symmetric] by (simp add: live_table_def table_weight_journal)
  have "id_room (table_of p)"
    using journal_bounds(2) [OF u(1) ids] unfolding live [symmetric] by (simp add: id_room_def)
  then show "apply_entries (state_entries p) (empty_table (total_extents s)) = apply_entries js (empty_table (total_extents s))"
    using state_entries_apply [OF p] tot u(1) live by simp
  show "length (state_entries p) \<le> length js"
    using journal_bounds(1) [OF u(1)] w state_entries_length [OF p] by simp
  show "length js \<le> unat q" using chain_seq_nat [OF ch] by simp
qed

text \<open>Writing the entries: only extents that were free are written, and the last record links \<open>end_id\<close>.\<close>

lemma compact_written:
  assumes dev: "device_has n dev" and x: "end_id < n" "\<not> free_id s end_id" and ns: "map jn_entry (jw_head w) = ns"
    and page: "length (jc_page (jw_cursor w)) = 65536" and ws: "writer_super n uuid r" "\<forall>i. free_id r i \<longrightarrow> free_id s i"
    and none: "ns = [] \<Longrightarrow> e0 = end_id \<and> q0 = q"
    and some: "ns \<noteq> [] \<Longrightarrow> e0 < n \<and> free_id s e0 \<and> \<not> free_id r e0 \<and> jw_next_id w = end_id \<and> writer_ok w \<and>
      writes_at n w e0 0 q0 \<and> length ns \<le> idx_size (trees r Free_Extents) \<and> unat q0 + length ns < 2 ^ 64 \<and>
      q = q0 + of_nat (length ns)"
  obtains w' r' dev' ks where "journal_write w r dev = (True, w', r', dev')" "take 8192 dev' = take 8192 dev"
    "device_has n dev'" "length (jc_page (jw_cursor w')) = 65536"
    "\<forall>i < n. \<not> free_id s i \<longrightarrow> extent_bytes dev' i = extent_bytes dev i" "chain dev' uuid e0 0 q0 ns ks end_id 0 q"
    "distinct (e0 # ks)" "\<forall>i \<in> set (e0 # ks). i < n \<and> (i = end_id \<or> free_id s i)"
proof (cases "ns = []")
  case True
  then have "journal_write w r dev = (True, w, r, dev)"
    using ns writer_encode_done [OF ws(1)] by (simp add: journal_write.simps)
  then show ?thesis
    using that [of w r dev "[]"] dev page x none [OF True] True chain.Chain_End by simp
next
  case False
  have w: "e0 < n" "free_id s e0" "\<not> free_id r e0" "jw_next_id w = end_id" "writer_ok w" "writes_at n w e0 0 q0"
      "length ns \<le> idx_size (trees r Free_Extents)" "unat q0 + length ns < 2 ^ 64" "q = q0 + of_nat (length ns)"
    using some [OF False] by auto
  have ne: "e0 \<noteq> end_id" "end_id \<noteq> cyanfs_extent_id_invalid" using w(2) x extent_not_invalid by blast+
  have wr: "writing n uuid e0 q0 [] [] w r dev"
    using ws(1) w dev chain.Chain_End [of dev uuid e0 0 q0] unfolding writing_def by auto
  have link: "link_ok n (e0 # []) w r" using w(4) x ne ws(2) by (auto simp: link_ok_def)
  have "length (jw_head w) = length ns" using ns by auto
  then obtain w' r' dev' where run: "journal_write w r dev = (True, w', r', dev')"
    using journal_write_succeeds [OF wr link] w(6-8) by (auto simp: writes_at_def)
  have head: "jw_head w \<noteq> []" using False ns by auto
  obtain ks where K: "writing n uuid e0 q0 ns ks w' r' dev'" "take 8192 dev' = take 8192 dev" "ks \<noteq> []" "last ks = end_id"
      "jc_extent_off (jw_cursor w') = 0" "\<forall>i < n. i \<notin> set (e0 # butlast ks) \<longrightarrow> extent_bytes dev' i = extent_bytes dev i"
      "\<forall>i \<in> set ks. i = end_id \<or> free_id r i"
    using journal_write_chain [OF wr link run] head w(4) ne(2) ns by auto
  obtain e off q2 where c: "writes_at n w' e off q2" "chain dev' uuid e0 0 q0 ns ks e off q2" "distinct (e0 # ks)"
      "\<forall>i \<in> set (e0 # ks). i < n" "device_has n dev'" "writer_ok w'"
    using K(1) by (auto simp: writing_def)
  have "off = 0" using c(1) K(5) by (simp add: writes_at_def)
  moreover have "e = end_id" using chain_last [OF c(2)] K(3,4) by simp
  moreover have "q2 = q" using chain_seq [OF c(2)] w(9) by simp
  moreover have frame: "extent_bytes dev' i = extent_bytes dev i" if "i < n" "\<not> free_id s i" for i
  proof -
    have "end_id \<notin> set (butlast ks)" using c(3) K(3,4) by (metis append_butlast_last_id distinct.simps(2) distinct_butlast
          not_distinct_conv_prefix)
    then have "i \<notin> set (e0 # butlast ks)"
      using that w(2) K(7) ws(2) by (auto dest: in_set_butlastD)
    then show ?thesis using K(6) that by blast
  qed
  ultimately show ?thesis
    using that [of w' r' dev' ks] run K(2,7) c w(1,2) ws(2) by (auto simp: writer_ok_def)
qed

lemma slot_bytes_take: "take 8192 dev' = take 8192 dev \<Longrightarrow> slot_bytes dev' h = slot_bytes dev h"
proof -
  assume a: "take 8192 dev' = take 8192 dev"
  have "slot_bytes d h = take 4096 (drop (unat (compact_slot h)) (take 8192 d))" for d
    by (simp add: slot_bytes_def slot_values take_drop min_def)
  then show ?thesis using a by simp
qed

text \<open>Storing the header, and a write of the header that is not complete.\<close>

lemma compact_header:
  fixes t :: compact
  defines "g \<equiv> cp_header t"
  assumes dev: "device_has n dev" and slot: "super_slot (slot_bytes dev h) h"
    and g: "sh_version g = sh_version h + 1" "sh_version h \<noteq> NOT 0" "sh_uuid g = sh_uuid h" "sh_magic g = sh_magic h"
      "sh_journal_id g < n"
    and page: "length (jc_page (jw_cursor (cp_writer t))) = 65536"
  obtains t' s' x crc where "journal_compact_write_super a Ok t s = (Some t', s')" "cp_header t' = g\<lparr>sh_crc32 := crc\<rparr>"
    "take (unat CYANFS_SUPER_HEADER_SIZE) (jc_page (jw_cursor (cp_writer t'))) = x"
    "super_slot x (cp_header t')" "length x = 4096"
proof -
  obtain b g' where st: "super_store (jc_page (jw_cursor (cp_writer t))) g = (b, g')" by fastforce
  have uuid: "length (sh_uuid g) = 16" using super_slot_uuid [OF slot] g(3) by simp
  have st': "super_store (take 4096 (jc_page (jw_cursor (cp_writer t)))) g = (take 4096 b, g')"
    by (rule super_store_take [OF _ uuid st]) (simp add: page)
  have l: "length (take 4096 (jc_page (jw_cursor (cp_writer t)))) = 4096" by (simp add: page)
  note c = super_store_copy [OF l uuid st']
  have "super_slot (take 4096 b) g'"
    using super_slot_store [OF l uuid st'] g(4,5) slot extent_not_invalid by (auto simp: super_slot_def)
  moreover obtain t' s' where "journal_compact_write_super a Ok t s = (Some t', s')" "cp_header t' = g'"
      "jc_page (jw_cursor (cp_writer t')) = b"
    using st by (simp add: journal_compact_write_super_def g_def Let_def)
  ultimately show ?thesis using that c(1,4) by (simp add: size_values)
qed

lemma compaction:
  assumes J: "two_part_journal n s dev h js es end_id q ls fs e off q'" and t: "compact_start s end_id t"
    and ws: "writer_super n (sh_uuid h) s" and ver: "sh_version h \<noteq> NOT 0"
    and mem: "\<forall>i. mem i" "\<forall>i. mem_loader i" "\<forall>k i. mem_parser k i"
    and room: "length js < idx_size (trees s Free_Extents)"
  obtains t' s' dev1 dev2 ns gs where
    "compact_run mem_parser mem_loader mem a t s dev = Some (t', s', dev1, dev2)"
    "\<And>x. length x = 4096 \<Longrightarrow> \<not> super_copy_ok x \<Longrightarrow>
       holds_journal n (device_write (compact_slot (cp_header t')) x dev1) h (js @ ls) (es @ end_id # fs) e off q'"
    "holds_journal n dev1 h (js @ ls) (es @ end_id # fs) e off q'"
    "holds_journal n dev2 (cp_header t') (ns @ ls) gs e off q'"
    "apply_entries (ns @ ls) (empty_table (total_extents s)) = apply_entries (js @ ls) (empty_table (total_extents s))"
    "length ns \<le> length js" "\<forall>i < n. \<not> free_id s i \<longrightarrow> extent_bytes dev2 i = extent_bytes dev i"
    "super_slot (slot_bytes dev2 (cp_header t')) (cp_header t')" "sh_version (cp_header t') = sh_version h + 1"
proof -
  have H: "holds_journal n dev h js (es @ [end_id]) end_id 0 q" "chain dev (sh_uuid h) end_id 0 q ls fs e off q'"
      "distinct (sh_journal_id h # es @ end_id # fs)" "\<forall>i \<in> set fs. i < n"
      "\<forall>i \<in> set (sh_journal_id h # es @ end_id # fs). \<not> free_id s i" "super_slot (slot_bytes dev h) h"
    using J unfolding two_part_journal_def by blast+
  have dev: "device_has n dev" "end_id < n" "cyanfs_super_parse (take 8192 dev) = Some h"
    "chain dev (sh_uuid h) (sh_journal_id h) 0 (sh_journal_seq h) js (es @ [end_id]) end_id 0 q"
    "\<forall>i \<in> set (sh_journal_id h # es @ end_id # fs). i < n"
    using H(1,4) by (auto simp: holds_journal_def)
  have n: "sm_total_extents (meta s) = n" using ws by (simp add: writer_super_def)
  obtain l p k where L: "journal_load (journal_compact_loader_parser mem_parser) mem_loader n (device_read dev) (cp_loader t)
        (cp_super t, 0) = Some (Loader_Finish l (p, k))"
      "jc_seq (ld_cursor l) = q" "ld_header l = h" "ld_end_id l = end_id" "length (jc_page (ld_cursor l)) = 65536"
      "replay_state p" "apply_entries (js @ map JNEXT (sh_journal_id h # es)) (empty_table (total_extents s)) = Some (table_of p)"
    using loaded [OF J t mem(2,3)] by metis
  note E = loaded_entries [OF J L(6,7)]
  define ns where "ns = state_entries p"
  let ?t = "t\<lparr>cp_loader := l, cp_super := p\<rparr>" and ?q0 = "q - of_nat (length ns)"
  have un: "unat (of_nat (length ns) :: u64) = length ns" "length ns \<le> unat q"
    using E(2,3) unat_bounds(5) [of q] by (simp_all add: unat_of_nat ns_def)
  then have q0: "unat ?q0 = unat q - length ns" by (subst unat_diff_no_wrap) simp_all
  have T: "cp_loader ?t = l" "cp_super ?t = p" by simp_all
  have P: "file_inv (cp_super ?t)" "length (state_entries (cp_super ?t)) \<le> unat (jc_seq (ld_cursor (cp_loader ?t)))"
      "sh_version (ld_header (cp_loader ?t)) \<noteq> NOT 0" "length (jc_page (ld_cursor (cp_loader ?t))) = 65536"
    unfolding T using L(2,3,5) ver un(2) replay_stateD(3) [OF L(6)] by (simp_all add: ns_def)
  have nonempty: "trees s Free_Extents \<noteq> idx_empty" using room by auto
  obtain e0 t1 s1 where F: "journal_compact_loader_finish mem a ?t s = (Some t1, s1)"
      "cp_header t1 = h\<lparr>sh_journal_seq := ?q0, sh_version := sh_version h + 1, sh_journal_id := e0\<rparr>"
      "map jn_entry (jw_head (cp_writer t1)) = ns" "length (jc_page (jw_cursor (cp_writer t1))) = 65536"
      "writer_super n (sh_uuid h) s1" "\<forall>i. free_id s1 i \<longrightarrow> free_id s i" "ns = [] \<Longrightarrow> e0 = end_id"
      "ns \<noteq> [] \<Longrightarrow> e0 < n \<and> free_id s e0 \<and> \<not> free_id s1 e0 \<and> jw_next_id (cp_writer t1) = end_id \<and>
         writer_ok (cp_writer t1) \<and> writes_at n (cp_writer t1) e0 0 ?q0 \<and>
         idx_size (trees s Free_Extents) = Suc (idx_size (trees s1 Free_Extents))"
    by (rule compact_finish_loading [OF P(1) mem(1) P(2,3) ws nonempty P(4), of a, unfolded T L(2-4) ns_def [symmetric]])
      (rule that; blast)
  obtain w s2 dev1 ks where W: "journal_write (cp_writer t1) s1 dev = (True, w, s2, dev1)" "take 8192 dev1 = take 8192 dev"
      "device_has n dev1" "length (jc_page (jw_cursor w)) = 65536"
      "\<forall>i < n. \<not> free_id s i \<longrightarrow> extent_bytes dev1 i = extent_bytes dev i" "chain dev1 (sh_uuid h) e0 0 ?q0 ns ks end_id 0 q"
      "distinct (e0 # ks)" "\<forall>i \<in> set (e0 # ks). i < n \<and> (i = end_id \<or> free_id s i)"
    by (rule compact_written [OF dev(1,2) _ F(3-6), of e0 ?q0 q])
      (use F(7,8) H(5) E(2) room q0 un unat_bounds(5) [of q] in \<open>auto simp: ns_def\<close>)
  have s1: "super_slot (slot_bytes dev1 h) h" using H(6) slot_bytes_take [OF W(2)] by simp
  obtain t2 s3 x crc where X: "journal_compact_write_super a Ok (t1\<lparr>cp_writer := w\<rparr>) s2 = (Some t2, s3)"
      "cp_header t2 = (cp_header t1)\<lparr>sh_crc32 := crc\<rparr>"
      "take (unat CYANFS_SUPER_HEADER_SIZE) (jc_page (jw_cursor (cp_writer t2))) = x" "super_slot x (cp_header t2)" "length x = 4096"
    by (rule compact_header [OF W(3) s1, of "t1\<lparr>cp_writer := w\<rparr>"]) (use F(2) ver W(4,8) in auto)
  let ?g = "cp_header t2" and ?dev2 = "device_write (compact_slot (cp_header t2)) x dev1"
  have g: "sh_version ?g = sh_version h + 1" "sh_uuid ?g = sh_uuid h" "sh_journal_id ?g = e0" "sh_journal_seq ?g = ?q0"
    using X(2) F(2) by simp_all
  have len: "8192 \<le> length dev1" using W(3) by (simp add: device_has_def)
  have old: "chain dev' (sh_uuid h) (sh_journal_id h) 0 (sh_journal_seq h) (js @ ls) (es @ end_id # fs) e off q' \<and>
      chain dev' (sh_uuid h) end_id 0 q ls fs e off q'"
    if "\<And>i. extent_bytes dev' i = extent_bytes dev1 i" for dev'
  proof -
    have same: "extent_bytes dev' i = extent_bytes dev i" if "i \<in> set (sh_journal_id h # es @ end_id # fs)" for i
      using that \<open>\<And>i. extent_bytes dev' i = extent_bytes dev1 i\<close> W(5) H(5) dev(5) by metis
    have "chain dev' (sh_uuid h) end_id 0 q ls fs e off q'" by (rule chain_agree [OF H(2)], rule same) auto
    then show ?thesis using chain_agree [OF chain_append [OF dev(4) H(2)], of dev'] same by simp
  qed
  note S = header_switch [OF len s1 g(1) ver]
  show ?thesis
  proof (rule that [of t2 s3 dev1 ?dev2 ns "ks @ fs"])
    show "compact_run mem_parser mem_loader mem a t s dev = Some (t2, s3, dev1, ?dev2)"
      using L(1) F(1) W(1) X(1,3) by (simp add: compact_run_def n)
    show "holds_journal n dev1 h (js @ ls) (es @ end_id # fs) e off q'"
      using old [of dev1] W(2,3) dev(3,5) H(3) by (simp add: holds_journal_def)
    show "holds_journal n (device_write (compact_slot ?g) y dev1) h (js @ ls) (es @ end_id # fs) e off q'"
      if y: "length y = 4096" "\<not> super_copy_ok y" for y
      using old [OF extent_bytes_header [OF S(4) [OF y(1)]]] S(2,5) [OF y(1)] y(2) W(3) dev(5) H(3)
      by (simp add: holds_journal_def device_has_def)
    have "chain ?dev2 (sh_uuid h) e0 0 ?q0 (ns @ ls) (ks @ fs) e off q'"
      using old [OF extent_bytes_header [OF S(4) [OF X(5)]]]
        chain_agree [OF W(6), of ?dev2] extent_bytes_header [OF S(4) [OF X(5)]] by (blast intro: chain_append)
    moreover have "distinct (e0 # ks @ fs)" "\<forall>i \<in> set (e0 # ks @ fs). i < n"
      using W(7,8) H(3,4,5) by auto
    ultimately show "holds_journal n ?dev2 ?g (ns @ ls) (ks @ fs) e off q'"
      using S(1,5) [OF X(5)] X(4) W(3) by (simp add: holds_journal_def g device_has_def)
    show "apply_entries (ns @ ls) (empty_table (total_extents s)) = apply_entries (js @ ls) (empty_table (total_extents s))"
      "length ns \<le> length js"
      using E(1,2) by (simp_all add: apply_entries_append ns_def)
    show "\<forall>i < n. \<not> free_id s i \<longrightarrow> extent_bytes ?dev2 i = extent_bytes dev i"
      using W(5) extent_bytes_header [OF S(4) [OF X(5)]] by simp
    show "super_slot (slot_bytes ?dev2 ?g) ?g" using S(3) [OF X(5)] X(4) by simp
    show "sh_version ?g = sh_version h + 1" by (rule g(1))
  qed
qed

end
