(* ===== verification/Compact_Properties.thy ===== *)
theory Compact_Properties
  imports Compact_Device Journal_Properties
begin

section \<open>Properties of the journal compaction\<close>

text \<open>
  The meaning and the length of the entries of a compaction, the whole compaction on the device, and a
  sample of it.
\<close>

subsection \<open>The entries\<close>

text \<open>C30: the entries that a compaction writes for a loaded state are replayed without error on a newly
  opened super block of the same size and give exactly the files, sizes, parents and block maps of the
  loaded state and its highest file id; there are as many as the compaction counted, and none of them
  is a link. The file of the highest id must exist or the number of files be below the limit, which
  holds for every journal this code writes.\<close>

theorem compact_entries_correct:
  assumes "replay_state s" "id_room (table_of s)" "compact_entries mem s = Inr (js, n, k)"
    and "replay_state q" "table_of q = empty_table (total_extents s)" "mem' 0"
  shows "\<exists>q'. replay_all mem' (map jn_entry js) q = (Ok, q') \<and> super_inv q' \<and> table_of q' = live_table s \<and>
    unat n = length js \<and> list_all (\<lambda>j. entry_wf (jn_entry j) \<and> \<not> is_link (jn_entry j)) js"
proof -
  note inv = replay_stateD(3) [OF assms(1)]
  have js: "map jn_entry js = state_entries s" "unat n = length (state_entries s)"
    using assms(3) compact_add_all_Inr [of mem "state_entries s" "[]" 0 0 js n k] by (simp_all add: compact_entries_eq [OF inv])
  have wf: "list_all (\<lambda>j. entry_wf j \<and> \<not> is_link j) (map jn_entry js)" using state_entries_wf [OF inv] js(1) by simp
  then have "list_all entry_wf (map jn_entry js)" by (auto simp: list_all_iff)
  then obtain q' where "replay_all mem' (map jn_entry js) q = (Ok, q')" "replay_state q'" "table_of q' = live_table s"
    using replay_all_refines [OF assms(4), where mem = mem'] assms(6) state_entries_apply [OF assms(1,2)] assms(5) js(1) by metis
  moreover have "length js = length (state_entries s)" using js(1) by (metis length_map)
  ultimately show ?thesis using replay_stateD(1) js(2) wf by (simp add: list_all_iff)
qed

text \<open>C31: a compaction does not write more entries than the journal had that it replaces, so the sequence
  numbers before the end of the old journal suffice and the journal does not grow.\<close>

theorem compact_not_longer:
  assumes "replay_state q" "table_of q = empty_table n" "mem 0" "list_all entry_wf js" "replay_all mem js q = (Ok, s)"
    and "compact_entries mem' s = Inr (ks, m, k)"
  shows "length ks \<le> length js \<and> unat m \<le> length js"
proof -
  have a: "apply_entries js (empty_table n) = Some (table_of s)" "replay_state s"
    using replay_all_table [OF assms(1,3,4,5)] assms(2) by simp_all
  note inv = replay_stateD(3) [OF a(2)]
  have "map jn_entry ks = state_entries s" "unat m = length (state_entries s)"
    using assms(6) compact_add_all_Inr [of mem' "state_entries s" "[]" 0 0 ks m k] by (simp_all add: compact_entries_eq [OF inv])
  then show ?thesis
    using journal_bounds(1) [OF a(1)] state_entries_length [OF a(2)] by (metis length_map)
qed

text \<open>For the witnesses: the sample device without files, and with one.\<close>

definition sample_fresh :: super where
  "sample_fresh = open_init sample_size False True sample_raw (\<lambda>_. 0)"

definition sample_loaded :: super where
  "sample_loaded = snd (replay_all (\<lambda>_. True) [JCREATE sample_name 1] sample_fresh)"

lemma sample_fresh_state: "replay_state sample_fresh" "table_of sample_fresh = empty_table 16"
  using open_init_state(1,3) [OF sample_size_valid(1), of False True sample_raw "\<lambda>_. 0"] sample_size_valid(2)
  by (simp_all add: sample_fresh_def)

lemma sample_loaded_state:
  "replay_all (\<lambda>_. True) [JCREATE sample_name 1] sample_fresh = (Ok, sample_loaded)" "replay_state sample_loaded"
  "apply_entries [JCREATE sample_name 1] (empty_table 16) = Some (table_of sample_loaded)"
  "total_extents sample_loaded = 16"
proof -
  let ?js = "[JCREATE sample_name 1]"
  obtain t where t: "apply_entries ?js (empty_table 16) = Some t" "tb_total t = 16"
    by (simp add: add_file_def empty_table_def name_used_def)
  obtain q where q: "replay_all (\<lambda>_. True) ?js sample_fresh = (Ok, q)" "replay_state q" "table_of q = t"
    using replay_all_refines [OF sample_fresh_state(1), of "\<lambda>_. True" ?js] t(1) sample_fresh_state(2)
    by (auto simp: entry_wf.simps)
  then have "sample_loaded = q" by (simp add: sample_loaded_def)
  then show "replay_all (\<lambda>_. True) ?js sample_fresh = (Ok, sample_loaded)" "replay_state sample_loaded"
      "apply_entries ?js (empty_table 16) = Some (table_of sample_loaded)" "total_extents sample_loaded = 16"
    using q t by (auto simp: abs_simps)
qed

lemma sample_compact_entries:
  obtains js n k where "compact_entries (\<lambda>_. True) sample_loaded = Inr (js, n, k)" "id_room (table_of sample_loaded)"
proof -
  have b: "table_weight (table_of sample_loaded) \<le> 1" "id_room (table_of sample_loaded)"
    using journal_bounds [OF sample_loaded_state(3)] by simp_all
  then have "length (state_entries sample_loaded) < 2 ^ 64"
    using state_entries_length [OF sample_loaded_state(2)] by simp
  then show ?thesis
    using compact_entries_total [OF replay_stateD(3) [OF sample_loaded_state(2)], of "\<lambda>_. True"] that b(2) by blast
qed

theorem compact_entries_correct_witness:
  "\<exists>js n k q'. compact_entries (\<lambda>_. True) sample_loaded = Inr (js, n, k) \<and>
     replay_all (\<lambda>_. True) (map jn_entry js) sample_fresh = (Ok, q') \<and> table_of q' = live_table sample_loaded"
proof -
  obtain js n k where j: "compact_entries (\<lambda>_. True) sample_loaded = Inr (js, n, k)" "id_room (table_of sample_loaded)"
    by (rule sample_compact_entries)
  then show ?thesis
    using compact_entries_correct [OF sample_loaded_state(2) j(2,1) sample_fresh_state(1), of "\<lambda>_. True"]
      sample_fresh_state(2) sample_loaded_state(4) by auto
qed

theorem compact_not_longer_witness:
  "\<exists>ks m k. compact_entries (\<lambda>_. True) sample_loaded = Inr (ks, m, k) \<and> length ks \<le> 1"
proof -
  obtain js n k where j: "compact_entries (\<lambda>_. True) sample_loaded = Inr (js, n, k)"
    by (rule sample_compact_entries)
  then show ?thesis
    using compact_not_longer [OF sample_fresh_state _ _ sample_loaded_state(1) j] by auto
qed

subsection \<open>The whole compaction\<close>

text \<open>Starting a compaction leaves alone what the journal on the device and the writer depend on.\<close>

lemma compact_begins:
  assumes "super_inv s" "super_compact mem raw raw_file s = (err, Some t, s1)" "jc_extent_id_ondisk (journal_cursor s) = end_id"
    and "two_part_journal n s dev h js es end_id q ls fs e off q'" "writer_super n (sh_uuid h) s"
  shows "two_part_journal n s1 dev h js es end_id q ls fs e off q'" "compact_start s1 end_id t"
    "writer_super n (sh_uuid h) s1" "trees s1 = trees s" "total_extents s1 = total_extents s" "free_id s1 = free_id s"
proof -
  note F = super_compact_frame [OF assms(2)]
  note W = writer_super_cong [OF F]
  show tot: "total_extents s1 = total_extents s" by (simp add: total_extents_def F)
  show "two_part_journal n s1 dev h js es end_id q ls fs e off q'" using assms(4) by (simp add: two_part_journal_def W tot)
  show "compact_start s1 end_id t" using super_compact_starts(1) [OF assms(1,2)] assms(3) by (simp add: compact_start_def tot)
  show "writer_super n (sh_uuid h) s1" "trees s1 = trees s" "free_id s1 = free_id s" using assms(5) W F by simp_all
qed

text \<open>C28: a compaction keeps what the journal means. The device holds the journal \<open>js\<close> up to the extent that
  the flushed journal has reached, and goes on there with \<open>ls\<close>; there are enough free extents and no
  error happens. Then the compaction completes; before the super header is written the device still
  holds the old journal; afterwards it holds \<open>ns @ ls\<close> with \<open>ns\<close> not longer than \<open>js\<close>, which replays to the
  same table as \<open>js @ ls\<close> and ends at the same position, where the running system goes on writing; and
  no extent in use has changed.\<close>

theorem compaction_correct:
  assumes "super_inv s" "super_compact mem raw raw_file s = (err, Some t, s1)" "jc_extent_id_ondisk (journal_cursor s) = end_id"
    and "two_part_journal n s dev h js es end_id q ls fs e off q'" "writer_super n (sh_uuid h) s" "sh_version h \<noteq> NOT 0"
    and "length js < idx_size (trees s Free_Extents)" "\<forall>i. mem' i" "\<forall>i. mem_loader i" "\<forall>k i. mem_parser k i"
  shows "\<exists>t' s' dev1 dev2 ns gs. compact_run mem_parser mem_loader mem' a t s1 dev = Some (t', s', dev1, dev2) \<and>
    holds_journal n dev1 h (js @ ls) (es @ end_id # fs) e off q' \<and>
    holds_journal n dev2 (cp_header t') (ns @ ls) gs e off q' \<and> length ns \<le> length js \<and>
    apply_entries (ns @ ls) (empty_table (total_extents s)) = apply_entries (js @ ls) (empty_table (total_extents s)) \<and>
    (\<forall>i < n. \<not> free_id s i \<longrightarrow> extent_bytes dev2 i = extent_bytes dev i)"
proof -
  note B = compact_begins [OF assms(1-5)]
  show ?thesis
    by (rule compaction [OF B(1-3) assms(6,8-10), where a = a]) (use assms(7) B(4-6) in \<open>auto intro!: exI\<close>)
qed

text \<open>C29: the write of the super header may be incomplete. Whatever bytes it leaves in its copy of the header,
  as long as their checksum is wrong, the device still holds the old journal, since the other copy of
  the header was not touched.\<close>

theorem compaction_torn_header:
  assumes "super_inv s" "super_compact mem raw raw_file s = (err, Some t, s1)" "jc_extent_id_ondisk (journal_cursor s) = end_id"
    and "two_part_journal n s dev h js es end_id q ls fs e off q'" "writer_super n (sh_uuid h) s" "sh_version h \<noteq> NOT 0"
    and "length js < idx_size (trees s Free_Extents)" "\<forall>i. mem' i" "\<forall>i. mem_loader i" "\<forall>k i. mem_parser k i"
    and "compact_run mem_parser mem_loader mem' a t s1 dev = Some (t', s', dev1, dev2)"
    and "length x = 4096" "\<not> super_copy_ok x"
  shows "holds_journal n (device_write (compact_slot (cp_header t')) x dev1) h (js @ ls) (es @ end_id # fs) e off q'"
proof -
  note B = compact_begins [OF assms(1-5)]
  show ?thesis
    by (rule compaction [OF B(1-3) assms(6,8-10), where a = a]) (use assms(7,11-13) B(4) in auto)
qed

subsection \<open>A sample compaction\<close>

text \<open>For the witnesses: a mounted device whose journal fills extent 0 with one entry and goes on in extent 5.\<close>

definition sample_compacting :: super where
  "sample_compacting =
     super_open_finish 5 sample_uuid (snd (replay_all (\<lambda>_. True) [JNEXT 0, JNEXT 5] sample_fresh))"

definition sample_object :: compact where
  "sample_object =
     \<lparr>cp_writer = sample_writer, cp_loader = cyanfs_journal_loader_init sample_cursor (made_header sample_uuid 0 0),
      cp_super = sample_raw, cp_header = made_header sample_uuid 0 0\<rparr>"

lemma sample_compacting_state:
  "super_inv sample_compacting" "writer_super (of_nat 16) sample_uuid sample_compacting" "total_extents sample_compacting = 16"
  "free_id sample_compacting i \<longleftrightarrow> unat i < 16 \<and> i \<noteq> 0 \<and> i \<noteq> 5" "2 \<le> idx_size (trees sample_compacting Free_Extents)"
  "flags sample_compacting = FLAG_COMPACT_ENABLED OR FLAG_READY" "jc_extent_id_ondisk (journal_cursor sample_compacting) = 5"
proof -
  define r where "r = snd (replay_all (\<lambda>_. True) [JNEXT 0, JNEXT 5] sample_fresh)"
  have d: "sample_compacting = super_open_finish 5 sample_uuid r" by (simp only: sample_compacting_def r_def)
  define u where "u = (empty_table 16)\<lparr>tb_journal := {0, 5}\<rparr>"
  have "apply_entries [JNEXT 0, JNEXT 5] (empty_table 16) = Some u"
    by (auto simp: u_def empty_table_def block_used_def)
  then obtain q where "replay_all (\<lambda>_. True) [JNEXT 0, JNEXT 5] sample_fresh = (Ok, q)" "replay_state q" "table_of q = u"
    using replay_all_refines [OF sample_fresh_state(1), of "\<lambda>_. True" "[JNEXT 0, JNEXT 5]"] sample_fresh_state(2) by auto
  then have r: "replay_state r" "table_of r = u" by (simp_all add: r_def)
  have fl: "flags sample_fresh = FLAG_COMPACT_ENABLED"
    by (simp add: sample_fresh_def open_init_def Let_def fold_open_fields set_flag_def)
  have "super_tail r = super_tail sample_fresh" unfolding r_def by (rule super_tail_replay_all)
  then have flags: "flags r = FLAG_COMPACT_ENABLED" using fl super_tail_D by metis
  have tot: "total_extents r = 16" using r(2) by (metis abs_simps(3) u_def table.simps empty_table_def)
  show fs: "flags sample_compacting = FLAG_COMPACT_ENABLED OR FLAG_READY"
    by (simp add: d super_open_finish_def Let_def set_flag_def flags)
  show "jc_extent_id_ondisk (journal_cursor sample_compacting) = 5"
    by (simp add: d super_open_finish_def Let_def)
  show inv: "super_inv sample_compacting" unfolding d
    by (rule super_inv_fields [OF replay_stateD(1) [OF r(1)]]; simp add: super_open_finish_def Let_def set_flag_def)
  show t: "total_extents sample_compacting = 16"
    using tot by (simp add: d super_open_finish_def Let_def set_flag_def total_extents_def)
  have trees: "trees sample_compacting = trees r"
    by (simp add: d super_open_finish_def Let_def set_flag_def)
  have free: "idx_find (trees r Free_Extents) b \<noteq> None \<longleftrightarrow> unat b < 16 \<and> b \<noteq> 0 \<and> b \<noteq> 5" for b
    using replay_free [OF r(1), of b] tot r(2) by (auto simp: block_used_def u_def empty_table_def)
  show "free_id sample_compacting i \<longleftrightarrow> unat i < 16 \<and> i \<noteq> 0 \<and> i \<noteq> 5"
  proof -
    have "(ucast i :: bitfield30) = ucast j \<longleftrightarrow> i = j" if "unat i < 2 ^ 30" "unat j < 2 ^ 30" for j :: cyanfs_extent_id
      using ucast_index_inject [OF that] by simp
    from this [of 0] this [of 5] show ?thesis
      using free [of "ucast i"] unat_index [of i] by (auto simp: free_id_def trees)
  qed
  obtain x y where x: "idx_find (trees r Free_Extents) 1 = Some x" "idx_find (trees r Free_Extents) 2 = Some y"
    using free [of 1] free [of 2] by auto
  then show "2 \<le> idx_size (trees sample_compacting Free_Extents)"
    using idx_size_remove [OF x(1)] idx_size_remove [of "idx_remove 1 (trees r Free_Extents)" 2 y] by (simp add: trees)
  have "\<not> has_flag sample_compacting FLAG_ERROR"
    by (simp add: has_flag_simps fs FLAG_COMPACT_ENABLED_def FLAG_READY_def bit_simps)
  moreover have "sm_total_extents (meta sample_compacting) = of_nat 16" using t by (simp add: total_extents_def word_unat_eq_iff)
  moreover have "sm_uuid (meta sample_compacting) = sample_uuid" by (simp add: d super_open_finish_def Let_def)
  ultimately show "writer_super (of_nat 16) sample_uuid sample_compacting"
    using super_invD(1) [OF inv] by (simp add: writer_super_def)
qed

lemma sample_compact_call:
  obtains t s1 where "super_compact (\<lambda>_. True) sample_object (\<lambda>_. 0) sample_compacting = (Ok, Some t, s1)"
proof -
  have "ensure_status sample_compacting = Ok" "has_flag sample_compacting FLAG_COMPACT_ENABLED"
      "\<not> has_flag sample_compacting FLAG_COMPACT_WORKING"
    unfolding ensure_status_def has_flag_simps
    by (simp_all add: sample_compacting_state(6) FLAG_COMPACT_ENABLED_def FLAG_READY_def bit_simps)
  then show ?thesis
    using that by (cases "journal_loader_start (Compact_Loader (next_address (set_flag FLAG_COMPACT_WORKING sample_compacting)))
      (set_flag FLAG_COMPACT_WORKING sample_compacting
        \<lparr>next_address := Suc (next_address (set_flag FLAG_COMPACT_WORKING sample_compacting))\<rparr>)")
      (simp add: super_compact_def Let_def list_all_iff)
qed

lemma fresh_device_slot:
  assumes "length uuid = 16" "cyanfs_super_parse (take 8192 (fresh_device k uuid)) = Some (made_header uuid 1 crc)"
  shows "super_slot (slot_bytes (fresh_device k uuid) (made_header uuid 1 crc)) (made_header uuid 1 crc)"
proof -
  obtain a b c d where m: "cyanfs_super_make uuid = a @ b" "super_slot a (made_header uuid 0 c)" "super_slot b (made_header uuid 1 d)"
    using super_make_slots [OF assms(1)] .
  have len: "length a = 4096" "length b = 4096" using m by (simp_all add: super_slot_def)
  have "made_header uuid 1 d = made_header uuid 1 crc"
    using super_parse_slots(1) [OF m(2,3)] assms(2) len m(1) by (simp add: fresh_device_def made_header_def)
  moreover have "slot_bytes (fresh_device k uuid) (made_header uuid 1 crc) = b"
    using len m(1) by (simp add: slot_bytes_def slot_values made_header_def fresh_device_def)
  ultimately show ?thesis using m(3) by simp
qed

text \<open>One record with a link, written to an empty journal.\<close>

lemma one_record_journal:
  assumes uuid: "length uuid = 16" and ws: "writer_super n uuid s" and n: "n = of_nat k" "0 < k" "k < 2 ^ 32"
    and w: "writer_ok w" "writes_at n w 0 0 0" "jw_head w = [j]" "jw_next_id w = f"
    and f: "f < n" "f \<noteq> 0" "\<not> free_id s 0" "\<not> free_id s f" and room: "trees s Free_Extents \<noteq> idx_empty"
  obtains dev crc q where "holds_journal n dev (made_header uuid 1 crc) [jn_entry j] [f] f 0 q"
    "super_slot (slot_bytes dev (made_header uuid 1 crc)) (made_header uuid 1 crc)"
proof -
  let ?d = "fresh_device k uuid"
  obtain crc where h: "holds_journal n ?d (made_header uuid 1 crc) [] [] 0 0 0"
      "cyanfs_super_parse (take 8192 ?d) = Some (made_header uuid 1 crc)"
    using fresh_holds_journal [OF uuid n(2,3)] n(1) by metis
  have wr: "writing n uuid 0 0 [] [] w s ?d"
    using h(1) ws w(1,2) f(3) chain.Chain_End [of ?d uuid 0 0 0]
    unfolding writing_def holds_journal_def made_header_def by auto
  have link: "link_ok n (0 # []) w s" using f w(4) by (simp add: link_ok_def)
  obtain b len fl w' s' where e: "journal_writer_encode Ok w s = (Writer_Write b len fl w', s')"
  proof (cases "journal_writer_encode Ok w s")
    case (Pair v r)
    show ?thesis
    proof (cases v)
      case Writer_Error
      have "unat (jc_seq (jw_cursor w)) = 0" using w(2) by (simp add: writes_at_def)
      then show ?thesis using writing_error [OF wr link Pair [unfolded Writer_Error]] room w(3) by simp
    next
      case Writer_Finish
      then show ?thesis using writer_encode_finish [of w s r] Pair w(3) by simp
    qed (use that Pair in blast)
  qed
  have fv: "f \<noteq> cyanfs_extent_id_invalid" using extent_not_invalid [OF f(1)] .
  define dev where "dev = device_write b (take (unat len) (jc_page (jw_cursor w'))) ?d"
  obtain ks fs where S: "writing n uuid 0 0 ks fs w' s' dev" "ks @ map jn_entry (jw_head w') = [jn_entry j]" "ks \<noteq> []"
      "take 8192 dev = take 8192 ?d" "jw_head w' = [] \<Longrightarrow> fs = [f] \<and> jc_extent_off (jw_cursor w') = 0"
    unfolding dev_def by (rule writing_step [OF wr link e]) (use w(3,4) fv in auto)
  have ks: "ks = [jn_entry j]" "jw_head w' = []" using S(2,3) by (cases ks; auto)+
  obtain e1 off1 q where c: "writes_at n w' e1 off1 q" "chain dev uuid 0 0 0 ks fs e1 off1 q" "device_has n dev"
      "distinct (0 # fs)" "\<forall>i \<in> set (0 # fs). i < n"
    using S(1) by (auto simp: writing_def)
  have "fs = [f]" "off1 = 0" "e1 = f" using S(5) [OF ks(2)] c(1) chain_last [OF c(2)] by (auto simp: writes_at_def)
  then have "holds_journal n dev (made_header uuid 1 crc) [jn_entry j] [f] f 0 q"
    using c h(2) S(4) ks(1) by (simp add: holds_journal_def made_header_def)
  moreover have "super_slot (slot_bytes dev (made_header uuid 1 crc)) (made_header uuid 1 crc)"
    using fresh_device_slot [OF uuid h(2)] slot_bytes_take [OF S(4)] by simp
  ultimately show ?thesis using that by blast
qed

lemma sample_two_part:
  obtains dev h q where "two_part_journal (of_nat 16) sample_compacting dev h [JCREATE sample_name 1] [] 5 q [] [] 5 0 q"
    "writer_super (of_nat 16) (sh_uuid h) sample_compacting" "sh_version h \<noteq> NOT 0"
proof -
  let ?w = "sample_writer\<lparr>jw_next_id := 5\<rparr>"
  have w: "writer_ok ?w" "writes_at (of_nat 16) ?w 0 0 0" "jw_head ?w = [\<lparr>jn_entry = JCREATE sample_name 1, jn_flush = False\<rparr>]"
      "jw_next_id ?w = 5"
    by (simp_all add: writes_at_def writer_ok_def sample_writer_def cyanfs_journal_writer_init_def sample_cursor_def
        del: replicate.simps)
  have ne: "trees sample_compacting Free_Extents \<noteq> idx_empty" using sample_compacting_state(5) by auto
  obtain dev crc q where d: "holds_journal (of_nat 16) dev (made_header sample_uuid 1 crc) [JCREATE sample_name 1] [5] 5 0 q"
      "super_slot (slot_bytes dev (made_header sample_uuid 1 crc)) (made_header sample_uuid 1 crc)"
    by (rule one_record_journal [OF _ sample_compacting_state(2) refl _ _ w, simplified])
      (use ne sample_compacting_state(4) in \<open>auto simp del: replicate.simps\<close>)
  have "apply_entries [JCREATE sample_name 1, JNEXT 0] (empty_table 16) \<noteq> None"
    by (simp add: add_file_def empty_table_def name_used_def block_used_def)
  then have "two_part_journal (of_nat 16) sample_compacting dev (made_header sample_uuid 1 crc) [JCREATE sample_name 1] [] 5 q [] [] 5 0 q"
    using d sample_compacting_state(3,4) chain.Chain_End
    by (simp add: two_part_journal_def made_header_def del: replicate.simps)
  then show ?thesis
    using that [of dev "made_header sample_uuid 1 crc" q] sample_compacting_state(2)
    by (simp add: made_header_def unsigned_minus_1_eq_mask del: replicate.simps)
qed

theorem compaction_correct_witness:
  "\<exists>t s1 t' s' dev dev1 dev2 h q ns gs.
     super_compact (\<lambda>_. True) sample_object (\<lambda>_. 0) sample_compacting = (Ok, Some t, s1) \<and>
     compact_run (\<lambda>_ _. True) (\<lambda>_. True) (\<lambda>_. True) 0 t s1 dev = Some (t', s', dev1, dev2) \<and>
     holds_journal (of_nat 16) dev1 h [JCREATE sample_name 1] [5] 5 0 q \<and>
     holds_journal (of_nat 16) dev2 (cp_header t') ns gs 5 0 q \<and> length ns \<le> 1"
proof -
  obtain t s1 where c: "super_compact (\<lambda>_. True) sample_object (\<lambda>_. 0) sample_compacting = (Ok, Some t, s1)"
    by (rule sample_compact_call)
  obtain dev h q where j: "two_part_journal (of_nat 16) sample_compacting dev h [JCREATE sample_name 1] [] 5 q [] [] 5 0 q"
      "writer_super (of_nat 16) (sh_uuid h) sample_compacting" "sh_version h \<noteq> NOT 0"
    by (rule sample_two_part)
  have room: "length [JCREATE sample_name 1] < idx_size (trees sample_compacting Free_Extents)"
    using sample_compacting_state(5) by simp
  obtain t' s' dev1 dev2 ns gs where "compact_run (\<lambda>_ _. True) (\<lambda>_. True) (\<lambda>_. True) 0 t s1 dev = Some (t', s', dev1, dev2)"
      "holds_journal (of_nat 16) dev1 h ([JCREATE sample_name 1] @ []) ([] @ 5 # []) 5 0 q"
      "holds_journal (of_nat 16) dev2 (cp_header t') (ns @ []) gs 5 0 q" "length ns \<le> length [JCREATE sample_name 1]"
    using compaction_correct [OF sample_compacting_state(1) c sample_compacting_state(7) j room,
        of "\<lambda>_. True" "\<lambda>_. True" "\<lambda>_ _. True" 0] by auto
  then show ?thesis using c unfolding append_Nil append_Nil2 by (auto intro!: exI)
qed

text \<open>A copy of the super header whose stored sum is not the sum of its bytes.\<close>

lemma torn_copy:
  obtains x where "length x = 4096" "\<not> super_copy_ok x"
proof -
  define x where "x c = cyanfs_super_encode_header (replicate 4096 0) (made_header sample_uuid 0 c)" for c
  define z where "z = super_header_sum (x 0)"
  have u: "length sample_uuid = 16" by simp
  have "length (x c) = 4096" for c
    using length_super_encode [of "made_header sample_uuid 0 c" "replicate 4096 0"] u
    by (simp add: x_def made_header_def)
  moreover have "drop 4 (x c) = drop 4 (x 0)" for c
    by (simp add: x_def made_header_def cyanfs_super_encode_header_def Let_def del: replicate.simps)
  then have "super_header_sum (x c) = z" for c unfolding z_def super_header_sum_def by metis
  moreover have "sh_crc32 (fst (cyanfs_super_decode_header (x c))) = c" for c
    using decode_encode_super_header [of "made_header sample_uuid 0 c" "replicate 4096 0" "[]"] u
    by (simp add: x_def made_header_def del: replicate.simps)
  ultimately show ?thesis using that [of "x (z + 1)"] by (simp add: super_copy_ok_def)
qed

theorem compaction_torn_header_witness:
  "\<exists>t s1 t' s' dev dev1 dev2 x h q. super_compact (\<lambda>_. True) sample_object (\<lambda>_. 0) sample_compacting = (Ok, Some t, s1) \<and>
     compact_run (\<lambda>_ _. True) (\<lambda>_. True) (\<lambda>_. True) 0 t s1 dev = Some (t', s', dev1, dev2) \<and> \<not> super_copy_ok x \<and>
     holds_journal (of_nat 16) (device_write (compact_slot (cp_header t')) x dev1) h [JCREATE sample_name 1] [5] 5 0 q"
proof -
  obtain t s1 where c: "super_compact (\<lambda>_. True) sample_object (\<lambda>_. 0) sample_compacting = (Ok, Some t, s1)"
    by (rule sample_compact_call)
  obtain dev h q where j: "two_part_journal (of_nat 16) sample_compacting dev h [JCREATE sample_name 1] [] 5 q [] [] 5 0 q"
      "writer_super (of_nat 16) (sh_uuid h) sample_compacting" "sh_version h \<noteq> NOT 0"
    by (rule sample_two_part)
  have room: "length [JCREATE sample_name 1] < idx_size (trees sample_compacting Free_Extents)"
    using sample_compacting_state(5) by simp
  note B = compact_begins [OF sample_compacting_state(1) c sample_compacting_state(7) j(1,2)]
  obtain t' s' dev1 dev2 where r: "compact_run (\<lambda>_ _. True) (\<lambda>_. True) (\<lambda>_. True) 0 t s1 dev = Some (t', s', dev1, dev2)"
    by (rule compaction [OF B(1-3) j(3), of "\<lambda>_. True" "\<lambda>_. True" "\<lambda>_ _. True" 0]) (use room B(4) in auto)
  obtain x where x: "length x = 4096" "\<not> super_copy_ok x" by (rule torn_copy)
  from compaction_torn_header [OF sample_compacting_state(1) c sample_compacting_state(7) j(1-3) room _ _ _ r x]
  have "holds_journal (of_nat 16) (device_write (compact_slot (cp_header t')) x dev1) h [JCREATE sample_name 1] [5] 5 0 q"
    by simp
  then show ?thesis using c r x(2) by blast
qed

end
