(* ===== verification/Rb_Tree.thy ===== *)
theory Rb_Tree
  imports Prelude "HOL-Library.Monad_Syntax"
begin

section \<open>Red-black trees in memory\<close>

text \<open>
  The macros of \<open>src/core/misc/rb_tree.h\<close>, from which the core generates all its containers, on an
  explicit memory. An element is a pointer; its entry has the two children and one word that is the
  parent with the colour in the lowest bit. The memory has the entries of one field of the elements,
  which all trees over that field share; a state is that memory together with the root of one tree.
  \<open>None\<close> is the access through a null pointer or to an element that does not exist, and a loop that
  does not end.

  The C code has each case of its loops twice, once with left and right exchanged. The argument of type
  \<open>side\<close> says which of the two is meant; \<open>LEFT_SIDE\<close> is the case that the code has first. The loop of
  the macro \<open>CYANFS_RB_AUGMENT\<close>, which is empty, only walks to the root.
\<close>

type_synonym ptr = "64 word"

record rb_entry =
  rbe_left :: ptr
  rbe_right :: ptr
  rbe_parent :: ptr

record rb =
  rbh_root :: ptr
  rb_mem :: "ptr \<Rightarrow> rb_entry option"

datatype side = LEFT_SIDE | RIGHT_SIDE

fun other :: "side \<Rightarrow> side" where
  "other LEFT_SIDE = RIGHT_SIDE"
| "other RIGHT_SIDE = LEFT_SIDE"

definition RB_BLACK :: ptr where "RB_BLACK = 0"

definition RB_RED :: ptr where "RB_RED = 1"

definition RB_INIT :: "rb \<Rightarrow> rb" where "RB_INIT s = s\<lparr>rbh_root := 0\<rparr>"

definition RB_EMPTY :: "rb \<Rightarrow> bool" where "RB_EMPTY s \<longleftrightarrow> rbh_root s = 0"

subsection \<open>Access to the fields\<close>

definition rb_entry_at :: "ptr \<Rightarrow> rb \<Rightarrow> rb_entry option" where
  "rb_entry_at elm s = (if elm = 0 then None else rb_mem s elm)"

definition rb_update :: "ptr \<Rightarrow> (rb_entry \<Rightarrow> rb_entry) \<Rightarrow> rb \<Rightarrow> rb option" where
  "rb_update elm f s =
     do { n \<leftarrow> rb_entry_at elm s; Some (s\<lparr>rb_mem := (rb_mem s)(elm \<mapsto> f n)\<rparr>) }"

fun child_of :: "side \<Rightarrow> rb_entry \<Rightarrow> ptr" where
  "child_of LEFT_SIDE n = rbe_left n"
| "child_of RIGHT_SIDE n = rbe_right n"

fun with_child :: "side \<Rightarrow> ptr \<Rightarrow> rb_entry \<Rightarrow> rb_entry" where
  "with_child LEFT_SIDE p n = n\<lparr>rbe_left := p\<rparr>"
| "with_child RIGHT_SIDE p n = n\<lparr>rbe_right := p\<rparr>"

definition RB_CHILD :: "side \<Rightarrow> ptr \<Rightarrow> rb \<Rightarrow> ptr option" where
  "RB_CHILD d elm s = map_option (child_of d) (rb_entry_at elm s)"

abbreviation "RB_LEFT \<equiv> RB_CHILD LEFT_SIDE"
abbreviation "RB_RIGHT \<equiv> RB_CHILD RIGHT_SIDE"

definition RB_CHILD_SET :: "side \<Rightarrow> ptr \<Rightarrow> ptr \<Rightarrow> rb \<Rightarrow> rb option" where
  "RB_CHILD_SET d elm p s = rb_update elm (with_child d p) s"

definition parent_of :: "rb_entry \<Rightarrow> ptr" where
  "parent_of n = rbe_parent n AND NOT 1"

definition color_of :: "rb_entry \<Rightarrow> ptr" where
  "color_of n = rbe_parent n AND 1"

definition RB_PARENT_GET :: "ptr \<Rightarrow> rb \<Rightarrow> ptr option" where
  "RB_PARENT_GET elm s = map_option parent_of (rb_entry_at elm s)"

definition RB_COLOR_GET :: "ptr \<Rightarrow> rb \<Rightarrow> ptr option" where
  "RB_COLOR_GET elm s = map_option color_of (rb_entry_at elm s)"

definition RB_PARENT_SET :: "ptr \<Rightarrow> ptr \<Rightarrow> rb \<Rightarrow> rb option" where
  "RB_PARENT_SET elm p s = rb_update elm (\<lambda>n. n\<lparr>rbe_parent := p OR color_of n\<rparr>) s"

definition RB_COLOR_SET :: "ptr \<Rightarrow> ptr \<Rightarrow> rb \<Rightarrow> rb option" where
  "RB_COLOR_SET elm c s = rb_update elm (\<lambda>n. n\<lparr>rbe_parent := parent_of n OR c\<rparr>) s"

definition RB_SET :: "ptr \<Rightarrow> ptr \<Rightarrow> rb \<Rightarrow> rb option" where
  "RB_SET elm parent s =
     rb_update elm (\<lambda>n. n\<lparr>rbe_parent := parent OR RB_RED, rbe_left := 0, rbe_right := 0\<rparr>) s"

definition RB_SET_BLACKRED :: "ptr \<Rightarrow> ptr \<Rightarrow> rb \<Rightarrow> rb option" where
  "RB_SET_BLACKRED black red s = do { s \<leftarrow> RB_COLOR_SET black RB_BLACK s; RB_COLOR_SET red RB_RED s }"

text \<open>The two conditions that the code writes out: an element that is red, and one that is null or black.\<close>

definition rb_is_red :: "ptr \<Rightarrow> rb \<Rightarrow> bool option" where
  "rb_is_red elm s = (if elm = 0 then Some False else map_option (\<lambda>c. c = RB_RED) (RB_COLOR_GET elm s))"

definition rb_is_black :: "ptr \<Rightarrow> rb \<Rightarrow> bool option" where
  "rb_is_black elm s = (if elm = 0 then Some True else map_option (\<lambda>c. c = RB_BLACK) (RB_COLOR_GET elm s))"

text \<open>The link from the parent of \<open>elm\<close>, or from the head, is redirected to \<open>p\<close>.\<close>

definition rb_relink :: "ptr \<Rightarrow> ptr \<Rightarrow> ptr \<Rightarrow> rb \<Rightarrow> rb option" where
  "rb_relink parent elm p s =
     (if parent \<noteq> 0 then
        do {
          l \<leftarrow> RB_LEFT parent s;
          if l = elm then RB_CHILD_SET LEFT_SIDE parent p s else RB_CHILD_SET RIGHT_SIDE parent p s
        }
      else Some (s\<lparr>rbh_root := p\<rparr>))"

text \<open>\<open>LEFT_SIDE\<close> is \<open>CYANFS_RB_ROTATE_LEFT\<close>, \<open>RIGHT_SIDE\<close> is \<open>CYANFS_RB_ROTATE_RIGHT\<close>.\<close>

definition RB_ROTATE :: "side \<Rightarrow> ptr \<Rightarrow> rb \<Rightarrow> rb option" where
  "RB_ROTATE d elm s =
     do {
       tmp \<leftarrow> RB_CHILD (other d) elm s;
       inner \<leftarrow> RB_CHILD d tmp s;
       s \<leftarrow> RB_CHILD_SET (other d) elm inner s;
       s \<leftarrow> (if inner \<noteq> 0 then RB_PARENT_SET inner elm s else Some s);
       parent \<leftarrow> RB_PARENT_GET elm s;
       s \<leftarrow> RB_PARENT_SET tmp parent s;
       s \<leftarrow> rb_relink parent elm tmp s;
       s \<leftarrow> RB_CHILD_SET d tmp elm s;
       RB_PARENT_SET elm tmp s
     }"

subsection \<open>Insertion\<close>

text \<open>One pass of the loop for a parent on side \<open>d\<close> of its own parent; the result is the next \<open>elm\<close>.\<close>

definition insert_color_step :: "side \<Rightarrow> ptr \<Rightarrow> ptr \<Rightarrow> ptr \<Rightarrow> rb \<Rightarrow> (ptr \<times> rb) option" where
  "insert_color_step d elm parent gparent s =
     do {
       tmp \<leftarrow> RB_CHILD (other d) gparent s;
       red \<leftarrow> rb_is_red tmp s;
       if red then
         do {
           s \<leftarrow> RB_COLOR_SET tmp RB_BLACK s;
           s \<leftarrow> RB_SET_BLACKRED parent gparent s;
           Some (gparent, s)
         }
       else
         do {
           c \<leftarrow> RB_CHILD (other d) parent s;
           (elm, parent, s) \<leftarrow>
             (if c = elm then do { s \<leftarrow> RB_ROTATE d parent s; Some (parent, elm, s) }
              else Some (elm, parent, s));
           s \<leftarrow> RB_SET_BLACKRED parent gparent s;
           s \<leftarrow> RB_ROTATE (other d) gparent s;
           Some (elm, s)
         }
     }"

partial_function (option) insert_color_loop :: "ptr \<Rightarrow> rb \<Rightarrow> rb option" where
  "insert_color_loop elm s =
     do {
       parent \<leftarrow> RB_PARENT_GET elm s;
       red \<leftarrow> rb_is_red parent s;
       if \<not> red then Some s
       else
         do {
           gparent \<leftarrow> RB_PARENT_GET parent s;
           l \<leftarrow> RB_LEFT gparent s;
           (elm, s) \<leftarrow> insert_color_step (if parent = l then LEFT_SIDE else RIGHT_SIDE) elm parent gparent s;
           insert_color_loop elm s
         }
     }"

definition RB_INSERT_COLOR :: "ptr \<Rightarrow> rb \<Rightarrow> rb option" where
  "RB_INSERT_COLOR elm s =
     do { s \<leftarrow> insert_color_loop elm s; RB_COLOR_SET (rbh_root s) RB_BLACK s }"

text \<open>
  The way down from \<open>tmp\<close>, where \<open>parent\<close> and \<open>cmp_res\<close> are those of the last turn: the element with the
  same key, or the place of a new one.
\<close>

partial_function (option) insert_descend ::
    "(ptr \<Rightarrow> ptr \<Rightarrow> int) \<Rightarrow> ptr \<Rightarrow> ptr \<Rightarrow> ptr \<Rightarrow> int \<Rightarrow> rb \<Rightarrow> (ptr + ptr \<times> int) option" where
  "insert_descend cmp elm tmp parent cmp_res s =
     (if tmp = 0 then Some (Inr (parent, cmp_res))
      else
        do {
          cmp_res \<leftarrow> Some (cmp elm tmp);
          if cmp_res < 0 then do { l \<leftarrow> RB_LEFT tmp s; insert_descend cmp elm l tmp cmp_res s }
          else if cmp_res > 0 then do { r \<leftarrow> RB_RIGHT tmp s; insert_descend cmp elm r tmp cmp_res s }
          else Some (Inl tmp)
        })"

definition RB_INSERT :: "(ptr \<Rightarrow> ptr \<Rightarrow> int) \<Rightarrow> ptr \<Rightarrow> rb \<Rightarrow> (ptr \<times> rb) option" where
  "RB_INSERT cmp elm s =
     do {
       p \<leftarrow> insert_descend cmp elm (rbh_root s) 0 0 s;
       case p of
         Inl tmp \<Rightarrow> Some (tmp, s)
       | Inr (parent, cmp_res) \<Rightarrow>
           do {
             s \<leftarrow> RB_SET elm parent s;
             s \<leftarrow> (if parent \<noteq> 0 then
                    RB_CHILD_SET (if cmp_res < 0 then LEFT_SIDE else RIGHT_SIDE) parent elm s
                  else Some (s\<lparr>rbh_root := elm\<rparr>));
             s \<leftarrow> RB_INSERT_COLOR elm s;
             Some (0, s)
           }
     }"

subsection \<open>Removal\<close>

text \<open>The end of the loop: the sibling \<open>tmp\<close> takes the place and the colour of \<open>parent\<close>.\<close>

definition remove_color_finish :: "side \<Rightarrow> ptr \<Rightarrow> ptr \<Rightarrow> rb \<Rightarrow> rb option" where
  "remove_color_finish d parent tmp s =
     do {
       c \<leftarrow> RB_COLOR_GET parent s;
       s \<leftarrow> RB_COLOR_SET tmp c s;
       s \<leftarrow> RB_COLOR_SET parent RB_BLACK s;
       outer \<leftarrow> RB_CHILD (other d) tmp s;
       s \<leftarrow> (if outer \<noteq> 0 then RB_COLOR_SET outer RB_BLACK s else Some s);
       RB_ROTATE d parent s
     }"

text \<open>
  One pass of the loop for an \<open>elm\<close> on side \<open>d\<close> of \<open>parent\<close>: either the next \<open>elm\<close> and \<open>parent\<close>, or the
  root after a \<open>break\<close>.
\<close>

definition remove_color_step :: "side \<Rightarrow> ptr \<Rightarrow> rb \<Rightarrow> ((ptr + ptr \<times> ptr) \<times> rb) option" where
  "remove_color_step d parent s =
     do {
       tmp \<leftarrow> RB_CHILD (other d) parent s;
       c \<leftarrow> RB_COLOR_GET tmp s;
       (tmp, s) \<leftarrow>
         (if c = RB_RED then
            do {
              s \<leftarrow> RB_SET_BLACKRED tmp parent s;
              s \<leftarrow> RB_ROTATE d parent s;
              tmp \<leftarrow> RB_CHILD (other d) parent s;
              Some (tmp, s)
            }
          else Some (tmp, s));
       inner \<leftarrow> RB_CHILD d tmp s;
       outer \<leftarrow> RB_CHILD (other d) tmp s;
       black_inner \<leftarrow> rb_is_black inner s;
       black_outer \<leftarrow> rb_is_black outer s;
       if black_inner \<and> black_outer then
         do {
           s \<leftarrow> RB_COLOR_SET tmp RB_RED s;
           up \<leftarrow> RB_PARENT_GET parent s;
           Some (Inr (parent, up), s)
         }
       else
         do {
           (tmp, s) \<leftarrow>
             (if black_outer then
                do {
                  s \<leftarrow> (if inner \<noteq> 0 then RB_COLOR_SET inner RB_BLACK s else Some s);
                  s \<leftarrow> RB_COLOR_SET tmp RB_RED s;
                  s \<leftarrow> RB_ROTATE (other d) tmp s;
                  tmp \<leftarrow> RB_CHILD (other d) parent s;
                  Some (tmp, s)
                }
              else Some (tmp, s));
           s \<leftarrow> remove_color_finish d parent tmp s;
           Some (Inl (rbh_root s), s)
         }
     }"

partial_function (option) remove_color_loop :: "ptr \<Rightarrow> ptr \<Rightarrow> rb \<Rightarrow> (ptr \<times> rb) option" where
  "remove_color_loop parent elm s =
     do {
       black \<leftarrow> rb_is_black elm s;
       if \<not> (black \<and> elm \<noteq> rbh_root s) then Some (elm, s)
       else
         do {
           l \<leftarrow> RB_LEFT parent s;
           (p, s) \<leftarrow> remove_color_step (if l = elm then LEFT_SIDE else RIGHT_SIDE) parent s;
           case p of
             Inl elm \<Rightarrow> Some (elm, s)
           | Inr (elm, parent) \<Rightarrow> remove_color_loop parent elm s
         }
     }"

definition RB_REMOVE_COLOR :: "ptr \<Rightarrow> ptr \<Rightarrow> rb \<Rightarrow> rb option" where
  "RB_REMOVE_COLOR parent elm s =
     do {
       (elm, s) \<leftarrow> remove_color_loop parent elm s;
       if elm \<noteq> 0 then RB_COLOR_SET elm RB_BLACK s else Some s
     }"

text \<open>The last element on a side below \<open>elm\<close>.\<close>

partial_function (option) rb_last :: "side \<Rightarrow> ptr \<Rightarrow> rb \<Rightarrow> ptr option" where
  "rb_last d elm s =
     do { c \<leftarrow> RB_CHILD d elm s; if c \<noteq> 0 then rb_last d c s else Some elm }"

partial_function (option) rb_augment_up :: "ptr \<Rightarrow> rb \<Rightarrow> unit option" where
  "rb_augment_up p s =
     do { p \<leftarrow> RB_PARENT_GET p s; if p \<noteq> 0 then rb_augment_up p s else Some () }"

text \<open>An element with at most one child leaves the tree: its child takes its place.\<close>

definition rb_unlink :: "ptr \<Rightarrow> ptr \<Rightarrow> rb \<Rightarrow> (ptr \<times> ptr \<times> rb) option" where
  "rb_unlink elm child s =
     do {
       parent \<leftarrow> RB_PARENT_GET elm s;
       color \<leftarrow> RB_COLOR_GET elm s;
       s \<leftarrow> (if child \<noteq> 0 then RB_PARENT_SET child parent s else Some s);
       s \<leftarrow> rb_relink parent elm child s;
       Some (parent, color, s)
     }"

text \<open>The element \<open>elm\<close> takes the place of \<open>old\<close> in the tree.\<close>

definition rb_replace :: "ptr \<Rightarrow> ptr \<Rightarrow> rb \<Rightarrow> rb option" where
  "rb_replace old elm s =
     do {
       n \<leftarrow> rb_entry_at old s;
       s \<leftarrow> rb_update elm (\<lambda>_. n) s;
       p \<leftarrow> RB_PARENT_GET old s;
       s \<leftarrow> rb_relink p old elm s;
       l \<leftarrow> RB_LEFT old s;
       s \<leftarrow> RB_PARENT_SET l elm s;
       r \<leftarrow> RB_RIGHT old s;
       if r \<noteq> 0 then RB_PARENT_SET r elm s else Some s
     }"

definition RB_REMOVE :: "ptr \<Rightarrow> rb \<Rightarrow> (ptr \<times> rb) option" where
  "RB_REMOVE elm s =
     do {
       l \<leftarrow> RB_LEFT elm s;
       r \<leftarrow> RB_RIGHT elm s;
       (parent, child, color, s) \<leftarrow>
         (if l = 0 \<or> r = 0 then
            do {
              child \<leftarrow> Some (if l = 0 then r else l);
              (parent, color, s) \<leftarrow> rb_unlink elm child s;
              Some (parent, child, color, s)
            }
          else
            do {
              succ \<leftarrow> rb_last LEFT_SIDE r s;
              child \<leftarrow> RB_RIGHT succ s;
              (parent, color, s) \<leftarrow> rb_unlink succ child s;
              up \<leftarrow> RB_PARENT_GET succ s;
              parent \<leftarrow> Some (if up = elm then succ else parent);
              s \<leftarrow> rb_replace elm succ s;
              _ \<leftarrow> (if parent \<noteq> 0 then rb_augment_up parent s else Some ());
              Some (parent, child, color, s)
            });
       s \<leftarrow> (if color = RB_BLACK then RB_REMOVE_COLOR parent child s else Some s);
       Some (elm, s)
     }"

subsection \<open>Searching and walking\<close>

partial_function (option) rb_find_from :: "(ptr \<Rightarrow> ptr \<Rightarrow> int) \<Rightarrow> ptr \<Rightarrow> ptr \<Rightarrow> rb \<Rightarrow> ptr option" where
  "rb_find_from cmp elm tmp s =
     (if tmp = 0 then Some 0
      else
        do {
          cmp_res \<leftarrow> Some (cmp elm tmp);
          if cmp_res < 0 then do { l \<leftarrow> RB_LEFT tmp s; rb_find_from cmp elm l s }
          else if cmp_res > 0 then do { r \<leftarrow> RB_RIGHT tmp s; rb_find_from cmp elm r s }
          else Some tmp
        })"

definition RB_FIND :: "(ptr \<Rightarrow> ptr \<Rightarrow> int) \<Rightarrow> ptr \<Rightarrow> rb \<Rightarrow> ptr option" where
  "RB_FIND cmp elm s = rb_find_from cmp elm (rbh_root s) s"

partial_function (option) rb_nfind_from ::
    "(ptr \<Rightarrow> ptr \<Rightarrow> int) \<Rightarrow> ptr \<Rightarrow> ptr \<Rightarrow> ptr \<Rightarrow> rb \<Rightarrow> ptr option" where
  "rb_nfind_from cmp elm tmp res s =
     (if tmp = 0 then Some res
      else
        do {
          cmp_res \<leftarrow> Some (cmp elm tmp);
          if cmp_res < 0 then do { l \<leftarrow> RB_LEFT tmp s; rb_nfind_from cmp elm l tmp s }
          else if cmp_res > 0 then do { r \<leftarrow> RB_RIGHT tmp s; rb_nfind_from cmp elm r res s }
          else Some tmp
        })"

definition RB_NFIND :: "(ptr \<Rightarrow> ptr \<Rightarrow> int) \<Rightarrow> ptr \<Rightarrow> rb \<Rightarrow> ptr option" where
  "RB_NFIND cmp elm s = rb_nfind_from cmp elm (rbh_root s) 0 s"

text \<open>The way up from \<open>elm\<close> while it is on side \<open>d\<close> of its parent; the result is the parent then.\<close>

partial_function (option) rb_climb :: "side \<Rightarrow> ptr \<Rightarrow> rb \<Rightarrow> ptr option" where
  "rb_climb d elm s =
     do {
       parent \<leftarrow> RB_PARENT_GET elm s;
       if parent = 0 then Some 0
       else
         do {
           c \<leftarrow> RB_CHILD d parent s;
           if elm = c then rb_climb d parent s else Some parent
         }
     }"

text \<open>\<open>RIGHT_SIDE\<close> is \<open>CYANFS_RB_NEXT\<close>, \<open>LEFT_SIDE\<close> is \<open>CYANFS_RB_PREV\<close>.\<close>

definition RB_STEP :: "side \<Rightarrow> ptr \<Rightarrow> rb \<Rightarrow> ptr option" where
  "RB_STEP d elm s =
     do {
       c \<leftarrow> RB_CHILD d elm s;
       if c \<noteq> 0 then rb_last (other d) c s
       else
         do {
           parent \<leftarrow> RB_PARENT_GET elm s;
           opp \<leftarrow> (if parent = 0 then Some 0 else RB_CHILD (other d) parent s);
           if parent \<noteq> 0 \<and> elm = opp then Some parent else rb_climb d elm s
         }
     }"

partial_function (option) rb_minmax_from :: "side \<Rightarrow> ptr \<Rightarrow> ptr \<Rightarrow> rb \<Rightarrow> ptr option" where
  "rb_minmax_from d tmp parent s =
     (if tmp = 0 then Some parent
      else do { c \<leftarrow> RB_CHILD d tmp s; rb_minmax_from d c tmp s })"

definition RB_MINMAX :: "side \<Rightarrow> rb \<Rightarrow> ptr option" where
  "RB_MINMAX d s = rb_minmax_from d (rbh_root s) 0 s"

text \<open>The elements that a loop \<open>CYANFS_RB_FOREACH\<close> (\<open>LEFT_SIDE\<close>) or its reverse visits, in order.\<close>

partial_function (option) rb_visit :: "side \<Rightarrow> ptr \<Rightarrow> rb \<Rightarrow> ptr list option" where
  "rb_visit d x s =
     (if x = 0 then Some []
      else do { y \<leftarrow> RB_STEP (other d) x s; xs \<leftarrow> rb_visit d y s; Some (x # xs) })"

definition RB_FOREACH :: "side \<Rightarrow> rb \<Rightarrow> ptr list option" where
  "RB_FOREACH d s = do { x \<leftarrow> RB_MINMAX d s; rb_visit d x s }"

end
