(* ===== verification/Rb_Tree_Inv.thy ===== *)
theory Rb_Tree_Inv
  imports Rb_Tree "HOL-Library.Tree"
begin

section \<open>The trees that a memory holds\<close>

text \<open>
  A memory holds a tree of pointers and colours when the entries of its elements are linked that way.
  The functions work at one place of a tree, so a tree is also seen as a focus, the subtree there,
  together with its context, the way from the focus up to the root.
\<close>

datatype rb_color = Black | Red

lemma not_Red [simp]: "c \<noteq> Red \<longleftrightarrow> c = Black"
  by (cases c) simp_all

lemma not_Black [simp]: "c \<noteq> Black \<longleftrightarrow> c = Red"
  by (cases c) simp_all

type_synonym rbt = "(ptr \<times> rb_color) tree"

fun color_bit :: "rb_color \<Rightarrow> ptr" where
  "color_bit Black = RB_BLACK"
| "color_bit Red = RB_RED"

fun rtop :: "rbt \<Rightarrow> ptr" where
  "rtop Leaf = 0"
| "rtop (Node l x r) = fst x"

fun color :: "rbt \<Rightarrow> rb_color" where
  "color Leaf = Black"
| "color (Node l x r) = snd x"

definition addrs :: "rbt \<Rightarrow> ptr list" where
  "addrs t = map fst (inorder t)"

definition element :: "ptr \<Rightarrow> bool" where
  "element a \<longleftrightarrow> a \<noteq> 0 \<and> a AND 1 = 0"

fun entry :: "side \<Rightarrow> ptr \<Rightarrow> ptr \<Rightarrow> ptr \<Rightarrow> rb_color \<Rightarrow> rb_entry" where
  "entry LEFT_SIDE x y p c = \<lparr>rbe_left = x, rbe_right = y, rbe_parent = p OR color_bit c\<rparr>"
| "entry RIGHT_SIDE x y p c = \<lparr>rbe_left = y, rbe_right = x, rbe_parent = p OR color_bit c\<rparr>"

fun join :: "side \<Rightarrow> rbt \<Rightarrow> ptr \<times> rb_color \<Rightarrow> rbt \<Rightarrow> rbt" where
  "join LEFT_SIDE t x u = Node t x u"
| "join RIGHT_SIDE t x u = Node u x t"

primrec tree_at :: "(ptr \<Rightarrow> rb_entry option) \<Rightarrow> ptr \<Rightarrow> rbt \<Rightarrow> bool" where
  "tree_at m p Leaf = True"
| "tree_at m p (Node l x r) =
     (element (fst x) \<and> m (fst x) = Some (entry LEFT_SIDE (rtop l) (rtop r) p (snd x)) \<and>
      tree_at m (fst x) l \<and> tree_at m (fst x) r)"

type_synonym ctx = "(side \<times> (ptr \<times> rb_color) \<times> rbt) list"

fun par :: "ctx \<Rightarrow> ptr" where
  "par [] = 0"
| "par ((d, x, u) # cs) = fst x"

fun par_color :: "ctx \<Rightarrow> rb_color" where
  "par_color [] = Black"
| "par_color ((d, x, u) # cs) = snd x"

fun ctx_root :: "ptr \<Rightarrow> ctx \<Rightarrow> ptr" where
  "ctx_root p [] = p"
| "ctx_root p ((d, x, u) # cs) = ctx_root (fst x) cs"

fun ctx_addrs :: "ctx \<Rightarrow> ptr list" where
  "ctx_addrs [] = []"
| "ctx_addrs ((d, x, u) # cs) = fst x # addrs u @ ctx_addrs cs"

fun ctx_at :: "(ptr \<Rightarrow> rb_entry option) \<Rightarrow> ptr \<Rightarrow> ctx \<Rightarrow> bool" where
  "ctx_at m p [] = True"
| "ctx_at m p ((d, x, u) # cs) =
     (element (fst x) \<and> m (fst x) = Some (entry d p (rtop u) (par cs) (snd x)) \<and>
      tree_at m (fst x) u \<and> ctx_at m (fst x) cs)"

fun plug :: "ctx \<Rightarrow> rbt \<Rightarrow> rbt" where
  "plug [] t = t"
| "plug ((d, x, u) # cs) t = plug cs (join d t x u)"

definition rb_at :: "rb \<Rightarrow> ctx \<Rightarrow> rbt \<Rightarrow> bool" where
  "rb_at s cs t \<longleftrightarrow>
     tree_at (rb_mem s) (par cs) t \<and> ctx_at (rb_mem s) (rtop t) cs \<and> rbh_root s = ctx_root (rtop t) cs \<and>
     distinct (addrs t @ ctx_addrs cs)"

definition nodes :: "ctx \<Rightarrow> rbt \<Rightarrow> ptr set" where
  "nodes cs t = set (addrs t) \<union> set (ctx_addrs cs)"

definition only :: "ptr set \<Rightarrow> rb \<Rightarrow> rb \<Rightarrow> bool" where
  "only N s s' \<longleftrightarrow> (\<forall>a. a \<notin> N \<longrightarrow> rb_mem s' a = rb_mem s a)"

subsection \<open>Entries\<close>

lemma other_other [simp]: "other (other d) = d"
  by (cases d) simp_all

lemma other_neq [simp]: "other d \<noteq> d" "d \<noteq> other d"
  by (cases d; simp)+

lemma element_0 [simp]: "\<not> element 0"
  by (simp add: element_def)

lemma elementD: "element a \<Longrightarrow> a \<noteq> 0" "element a \<Longrightarrow> a AND 1 = 0"
  by (simp_all add: element_def)

lemma and_color [simp]: "color_bit c AND 1 = color_bit c" "color_bit c AND - 2 = 0"
  by (cases c; simp add: RB_BLACK_def RB_RED_def)+

lemma aligned_and_not: "p AND NOT 1 = p" if "p AND 1 = 0" for p :: ptr
proof -
  have "p = p AND (1 OR NOT 1)" by simp
  also have "\<dots> = (p AND 1) OR (p AND NOT 1)" by (simp only: bit.conj_disj_distrib)
  finally show ?thesis using that by simp
qed

lemma aligned_parent [simp]: "p AND 1 = 0 \<Longrightarrow> (p OR color_bit c) AND - 2 = p"
  using aligned_and_not [of p] by (simp add: bit.conj_disj_distrib2)

lemma aligned_color [simp]: "p AND 1 = 0 \<Longrightarrow> (p OR color_bit c) AND 1 = color_bit c"
  by (simp add: bit.conj_disj_distrib2)

lemma entry_fields [simp]:
  "child_of d (entry d x y p c) = x" "child_of (other d) (entry d x y p c) = y"
  "with_child d z (entry d x y p c) = entry d z y p c" "with_child (other d) z (entry d x y p c) = entry d x z p c"
  by (cases d; simp)+

lemma entry_other: "entry (other d) x y p c = entry d y x p c"
  by (cases d) simp_all

lemma entry_links [simp]:
  "p AND 1 = 0 \<Longrightarrow> parent_of (entry d x y p c) = p" "p AND 1 = 0 \<Longrightarrow> color_of (entry d x y p c) = color_bit c"
  "(entry d x y p c)\<lparr>rbe_parent := q OR color_bit c'\<rparr> = entry d x y q c'"
  by (cases d; simp add: parent_of_def color_of_def)+

lemma color_bits [simp]: "color_bit c = RB_RED \<longleftrightarrow> c = Red" "color_bit c = RB_BLACK \<longleftrightarrow> c = Black"
  by (cases c; simp add: RB_BLACK_def RB_RED_def)+

lemma colors_differ [simp]: "RB_BLACK \<noteq> RB_RED" "RB_RED \<noteq> RB_BLACK"
  by (simp_all add: RB_BLACK_def RB_RED_def)

subsection \<open>Trees\<close>

lemma addrs_simps [simp]:
  "addrs Leaf = []" "addrs (Node l x r) = addrs l @ fst x # addrs r"
  by (simp_all add: addrs_def)

lemma set_addrs_join [simp]: "set (addrs (join d t x u)) = insert (fst x) (set (addrs t) \<union> set (addrs u))"
  by (cases d) auto

lemma distinct_addrs_join [simp]:
  "distinct (addrs (join d t x u)) \<longleftrightarrow> distinct (addrs t) \<and> distinct (addrs u) \<and> fst x \<notin> set (addrs t) \<and>
     fst x \<notin> set (addrs u) \<and> set (addrs t) \<inter> set (addrs u) = {}"
  by (cases d) auto

lemma join_simps [simp]: "rtop (join d t x u) = fst x" "color (join d t x u) = snd x" "join d t x u \<noteq> Leaf"
  by (cases d; simp)+

lemma join_other: "join (other d) t x u = join d u x t"
  by (cases d) simp_all

lemma tree_at_join:
  "tree_at m p (join d t x u) \<longleftrightarrow>
     element (fst x) \<and> m (fst x) = Some (entry d (rtop t) (rtop u) p (snd x)) \<and> tree_at m (fst x) t \<and> tree_at m (fst x) u"
  by (cases d) auto

lemma tree_cases_join:
  assumes "t \<noteq> Leaf"
  obtains a c l r where "t = join d l (a, c) r"
  using assms by (cases t; cases d) (metis join.simps surj_pair)+

lemma top_zero: "tree_at m p t \<Longrightarrow> rtop t = 0 \<longleftrightarrow> t = Leaf"
  by (cases t) auto

lemma top_in: "t \<noteq> Leaf \<Longrightarrow> rtop t \<in> set (addrs t)"
  by (cases t) auto

lemma tree_at_element: "tree_at m p t \<Longrightarrow> a \<in> set (addrs t) \<Longrightarrow> element a"
  by (induction t arbitrary: p) auto

lemma tree_at_frame:
  "\<forall>a \<in> set (addrs t). m' a = m a \<Longrightarrow> tree_at m' p t = tree_at m p t"
  by (induction t arbitrary: p) auto

lemma tree_at_upd [simp]: "a \<notin> set (addrs t) \<Longrightarrow> tree_at (m(a := n)) p t = tree_at m p t"
  by (rule tree_at_frame) auto

lemma ctx_at_frame:
  "\<forall>a \<in> set (ctx_addrs cs). m' a = m a \<Longrightarrow> ctx_at m' p cs = ctx_at m p cs"
proof (induction cs arbitrary: p)
  case (Cons f cs)
  then show ?case using tree_at_frame [of _ m' m] by (cases f) auto
qed simp

lemma ctx_at_upd [simp]: "a \<notin> set (ctx_addrs cs) \<Longrightarrow> ctx_at (m(a := n)) p cs = ctx_at m p cs"
  by (rule ctx_at_frame) auto

lemma par_aligned: "ctx_at m p cs \<Longrightarrow> par cs AND 1 = 0"
  by (cases cs rule: par.cases) (simp_all add: elementD)

lemma par_in: "cs \<noteq> [] \<Longrightarrow> par cs \<in> set (ctx_addrs cs)"
  by (cases cs rule: par.cases) auto

lemma ctx_root_in: "cs \<noteq> [] \<Longrightarrow> ctx_root p cs \<in> set (ctx_addrs cs)"
  by (induction p cs rule: ctx_root.induct) (auto, (metis ctx_root.simps(1))?)

subsection \<open>Moving the focus\<close>

lemma rb_at_Cons: "rb_at s ((d, x, u) # cs) t \<longleftrightarrow> rb_at s cs (join d t x u)"
  by (auto simp: rb_at_def tree_at_join)

lemma rb_at_other: "rb_at s cs (join d t x u) \<longleftrightarrow> rb_at s ((other d, x, t) # cs) u"
  by (simp add: rb_at_Cons join_other)

lemma nodes_Cons: "nodes ((d, x, u) # cs) t = nodes cs (join d t x u)"
  by (auto simp: nodes_def)

lemma nodes_join:
  "nodes cs (join d t x u) = insert (fst x) (set (addrs t) \<union> set (addrs u) \<union> set (ctx_addrs cs))"
  by (auto simp: nodes_def)

lemma rb_at_plug: "rb_at s cs t \<longleftrightarrow> rb_at s [] (plug cs t)"
  by (induction cs t rule: plug.induct) (simp_all add: rb_at_Cons)

lemma only_refl [simp]: "only N s s"
  by (simp add: only_def)

lemma only_trans: "only N s t \<Longrightarrow> only N t u \<Longrightarrow> only N s u"
  by (simp add: only_def)

lemma only_mono: "only N s t \<Longrightarrow> N \<subseteq> M \<Longrightarrow> only M s t"
  by (auto simp: only_def)

lemma only_trans2: "only N s t \<Longrightarrow> only M t u \<Longrightarrow> N \<subseteq> K \<Longrightarrow> M \<subseteq> K \<Longrightarrow> only K s u"
  by (metis only_mono only_trans)

subsection \<open>Reading and writing at the focus\<close>

lemma rb_at_entry:
  assumes "rb_at s cs (join d t (a, c) u)"
  shows "rb_entry_at a s = Some (entry d (rtop t) (rtop u) (par cs) c)" "element a" "par cs AND 1 = 0"
proof -
  have "tree_at (rb_mem s) (par cs) (join d t (a, c) u)" "ctx_at (rb_mem s) a cs"
    using assms by (simp_all add: rb_at_def)
  then show "rb_entry_at a s = Some (entry d (rtop t) (rtop u) (par cs) c)" "element a" "par cs AND 1 = 0"
    by (auto simp: tree_at_join rb_entry_at_def par_aligned)
qed

lemma rb_at_read:
  assumes "rb_at s cs (join d t (a, c) u)"
  shows "RB_CHILD d a s = Some (rtop t)" "RB_CHILD (other d) a s = Some (rtop u)" "RB_PARENT_GET a s = Some (par cs)"
    "RB_COLOR_GET a s = Some (color_bit c)" "a \<noteq> 0"
  using rb_at_entry [OF assms] elementD
  by (simp_all add: RB_CHILD_def RB_PARENT_GET_def RB_COLOR_GET_def)

lemma rb_at_top: "rb_at s cs t \<Longrightarrow> rtop t = 0 \<longleftrightarrow> t = Leaf"
  by (auto simp: rb_at_def top_zero)

lemma rb_at_par: "rb_at s cs t \<Longrightarrow> par cs = 0 \<longleftrightarrow> cs = []"
  by (cases cs rule: par.cases) (auto simp: rb_at_def)

lemma rb_at_is_red: "rb_at s cs t \<Longrightarrow> rb_is_red (rtop t) s = Some (color t = Red)"
  and rb_at_is_black: "rb_at s cs t \<Longrightarrow> rb_is_black (rtop t) s = Some (color t = Black)"
proof -
  assume r: "rb_at s cs t"
  have "rb_is_red (rtop t) s = Some (color t = Red) \<and> rb_is_black (rtop t) s = Some (color t = Black)"
  proof (cases "t = Leaf")
    case False
    then obtain a c l u where "t = join LEFT_SIDE l (a, c) u" by (rule tree_cases_join)
    then show ?thesis using rb_at_read(4,5) [of s cs LEFT_SIDE l a c u] r by (simp add: rb_is_red_def rb_is_black_def)
  qed (simp add: rb_is_red_def rb_is_black_def)
  then show "rb_is_red (rtop t) s = Some (color t = Red)" "rb_is_black (rtop t) s = Some (color t = Black)"
    by simp_all
qed

lemma rb_at_color_set:
  assumes "rb_at s cs (join d t (a, c) u)"
  obtains s' where "RB_COLOR_SET a (color_bit c') s = Some s'" "rb_at s' cs (join d t (a, c') u)"
    "only (nodes cs (join d t (a, c) u)) s s'"
proof
  let ?s = "s\<lparr>rb_mem := (rb_mem s)(a \<mapsto> entry d (rtop t) (rtop u) (par cs) c')\<rparr>"
  show "RB_COLOR_SET a (color_bit c') s = Some ?s"
    using rb_at_entry [OF assms] by (simp add: RB_COLOR_SET_def rb_update_def)
  show "rb_at ?s cs (join d t (a, c') u)"
    using assms by (auto simp: rb_at_def tree_at_join)
  show "only (nodes cs (join d t (a, c) u)) s ?s" by (simp add: only_def nodes_join)
qed

subsection \<open>Links\<close>

lemma tree_at_only: "only N s s' \<Longrightarrow> set (addrs t) \<inter> N = {} \<Longrightarrow> tree_at (rb_mem s') p t = tree_at (rb_mem s) p t"
  by (rule tree_at_frame) (auto simp: only_def)

lemma ctx_at_only:
  "only N s s' \<Longrightarrow> set (ctx_addrs cs) \<inter> N = {} \<Longrightarrow> ctx_at (rb_mem s') p cs = ctx_at (rb_mem s) p cs"
  by (rule ctx_at_frame) (auto simp: only_def)

lemma onlyD: "only N s s' \<Longrightarrow> a \<notin> N \<Longrightarrow> rb_mem s' a = rb_mem s a"
  by (simp add: only_def)

lemma only_update: "a \<in> N \<Longrightarrow> only N s (s\<lparr>rb_mem := (rb_mem s)(a := n)\<rparr>)"
  by (simp add: only_def)

lemma rb_update_element:
  "element a \<Longrightarrow> rb_mem s a = Some n \<Longrightarrow> rb_update a f s = Some (s\<lparr>rb_mem := (rb_mem s)(a \<mapsto> f n)\<rparr>)"
  by (simp add: rb_update_def rb_entry_at_def elementD)

lemma set_parent:
  assumes t: "tree_at (rb_mem s) p t" "distinct (addrs t)" and p: "p AND 1 = 0"
  obtains s' where "(if rtop t \<noteq> 0 then RB_PARENT_SET (rtop t) q s else Some s) = Some s'"
    "tree_at (rb_mem s') q t" "only (set (addrs t)) s s'" "rbh_root s' = rbh_root s"
proof (cases t)
  case Leaf
  then show ?thesis using that by auto
next
  case (Node l x r)
  then have t': "t = join LEFT_SIDE l x r" by simp
  let ?s = "s\<lparr>rb_mem := (rb_mem s)(fst x \<mapsto> entry LEFT_SIDE (rtop l) (rtop r) q (snd x))\<rparr>"
  show ?thesis
  proof (rule that [of ?s])
    show "(if rtop t \<noteq> 0 then RB_PARENT_SET (rtop t) q s else Some s) = Some ?s"
      using t(1) p unfolding t' tree_at_join
      by (simp add: RB_PARENT_SET_def rb_update_element elementD del: join.simps entry.simps)
    show "tree_at (rb_mem ?s) q t" using t unfolding t' tree_at_join by (simp del: join.simps(1) entry.simps)
  qed (simp_all add: t' only_update)
qed

lemma relink:
  assumes c: "ctx_at (rb_mem s) p cs" "rbh_root s = ctx_root p cs" "distinct (ctx_addrs cs)"
    and p: "p \<noteq> 0" "p \<notin> set (ctx_addrs cs)"
  obtains s' where "rb_relink (par cs) p q s = Some s'" "ctx_at (rb_mem s') q cs" "rbh_root s' = ctx_root q cs"
    "only (set (ctx_addrs cs)) s s'"
proof (cases cs rule: par.cases)
  case 1
  then show ?thesis using that [of "s\<lparr>rbh_root := q\<rparr>"] by (simp add: rb_relink_def only_def)
next
  case (2 d x u cs')
  let ?s = "s\<lparr>rb_mem := (rb_mem s)(fst x \<mapsto> entry d q (rtop u) (par cs') (snd x))\<rparr>"
  have m: "element (fst x)" "rb_mem s (fst x) = Some (entry d p (rtop u) (par cs') (snd x))" using c(1) 2 by simp_all
  then have r: "RB_CHILD e (fst x) s = Some (child_of e (entry d p (rtop u) (par cs') (snd x)))" for e
    by (simp add: RB_CHILD_def rb_entry_at_def elementD)
  have "rtop u \<noteq> p" using p 2 top_in [of u] by (cases u) auto
  then have "rb_relink (par cs) p q s = Some ?s"
    using m r by (cases d) (simp_all add: 2 rb_relink_def RB_CHILD_SET_def rb_update_element elementD)
  then show ?thesis
    using that [of ?s] c 2 by (simp add: only_update)
qed

lemma rb_at_rotate:
  assumes r: "rb_at s cs (join d A (x, c) (join d B (y, e) C))"
  obtains s' where "RB_ROTATE d x s = Some s'" "rb_at s' cs (join d (join d A (x, c) B) (y, e) C)"
    "only (nodes cs (join d A (x, c) (join d B (y, e) C))) s s'"
proof -
  have m: "rb_mem s x = Some (entry d (rtop A) y (par cs) c)" "rb_mem s y = Some (entry d (rtop B) (rtop C) x e)"
    and el: "element x" "element y" and al: "par cs AND 1 = 0"
    and t: "tree_at (rb_mem s) x A" "tree_at (rb_mem s) y B" "tree_at (rb_mem s) y C" "ctx_at (rb_mem s) x cs"
    and root: "rbh_root s = ctx_root x cs"
    and dist: "distinct (addrs A)" "distinct (addrs B)" "distinct (addrs C)" "distinct (ctx_addrs cs)"
      "x \<noteq> y" "x \<notin> set (addrs A)" "x \<notin> set (addrs B)" "x \<notin> set (addrs C)" "x \<notin> set (ctx_addrs cs)"
      "y \<notin> set (addrs A)" "y \<notin> set (addrs B)" "y \<notin> set (addrs C)" "y \<notin> set (ctx_addrs cs)"
      "set (addrs A) \<inter> set (addrs B) = {}" "set (addrs A) \<inter> set (addrs C) = {}" "set (addrs B) \<inter> set (addrs C) = {}"
      "set (addrs A) \<inter> set (ctx_addrs cs) = {}" "set (addrs B) \<inter> set (ctx_addrs cs) = {}"
      "set (addrs C) \<inter> set (ctx_addrs cs) = {}"
    using r par_aligned by (auto simp: rb_at_def tree_at_join)
  define s1 where "s1 = s\<lparr>rb_mem := (rb_mem s)(x \<mapsto> entry d (rtop A) (rtop B) (par cs) c)\<rparr>"
  have "tree_at (rb_mem s1) y B" using t dist by (simp add: s1_def)
  from set_parent [OF this dist(2) elementD(2) [OF el(2)], of x]
  obtain s2 where s2: "(if rtop B \<noteq> 0 then RB_PARENT_SET (rtop B) x s1 else Some s1) = Some s2"
    "tree_at (rb_mem s2) x B" "only (set (addrs B)) s1 s2" "rbh_root s2 = rbh_root s1" .
  have m2: "rb_mem s2 x = Some (entry d (rtop A) (rtop B) (par cs) c)" "rb_mem s2 y = rb_mem s y"
    using onlyD [OF s2(3)] dist by (simp_all add: s1_def)
  define s3 where "s3 = s2\<lparr>rb_mem := (rb_mem s2)(y \<mapsto> entry d (rtop B) (rtop C) (par cs) e)\<rparr>"
  have "ctx_at (rb_mem s3) x cs"
    using t(4) ctx_at_only [OF s2(3), of cs x] dist by (simp add: s3_def s1_def Int_commute)
  moreover have "rbh_root s3 = ctx_root x cs" using root s2(4) by (simp add: s3_def s1_def)
  ultimately obtain s4 where s4: "rb_relink (par cs) x y s3 = Some s4" "ctx_at (rb_mem s4) y cs"
      "rbh_root s4 = ctx_root y cs" "only (set (ctx_addrs cs)) s3 s4"
    using relink [of s3 x cs y] dist elementD(1) [OF el(1)] by blast
  have m4: "rb_mem s4 x = Some (entry d (rtop A) (rtop B) (par cs) c)"
      "rb_mem s4 y = Some (entry d (rtop B) (rtop C) (par cs) e)"
    using onlyD [OF s4(4)] m2 dist by (simp_all add: s3_def)
  define s6 where "s6 = s4\<lparr>rb_mem := (rb_mem s4)(y \<mapsto> entry d x (rtop C) (par cs) e, x \<mapsto> entry d (rtop A) (rtop B) y c)\<rparr>"
  have "RB_CHILD (other d) x s = Some y" "RB_CHILD d y s = Some (rtop B)" "RB_PARENT_GET x s2 = Some (par cs)"
    using m m2 el al by (simp_all add: RB_CHILD_def RB_PARENT_GET_def rb_entry_at_def elementD)
  moreover have "RB_CHILD_SET (other d) x (rtop B) s = Some s1" "RB_PARENT_SET y (par cs) s2 = Some s3"
    using m m2 el by (simp_all add: RB_CHILD_SET_def RB_PARENT_SET_def rb_update_element elementD s1_def s3_def)
  moreover have "RB_CHILD_SET d y x s4 \<bind> RB_PARENT_SET x y = Some s6"
    using m4 el al dist(5) by (simp add: RB_CHILD_SET_def RB_PARENT_SET_def rb_update_element s6_def)
  ultimately have "RB_ROTATE d x s = Some s6"
    using s2(1) s4(1) by (simp only: RB_ROTATE_def Option.bind.bind_lunit)
  moreover have "rb_at s6 cs (join d (join d A (x, c) B) (y, e) C)"
  proof -
    have 1: "tree_at (rb_mem s6) p t = tree_at (rb_mem s2) p t"
      if "x \<notin> set (addrs t)" "y \<notin> set (addrs t)" "set (addrs t) \<inter> set (ctx_addrs cs) = {}" for p t
      using that tree_at_only [OF s4(4), of t p] by (simp add: s6_def s3_def)
    have 2: "tree_at (rb_mem s2) p t = tree_at (rb_mem s) p t"
      if "x \<notin> set (addrs t)" "set (addrs t) \<inter> set (addrs B) = {}" for p t
      using that tree_at_only [OF s2(3), of t p] by (simp add: s1_def)
    show ?thesis
      using t s2(2) s4(2,3) el dist 1 [of A] 1 [of B] 1 [of C] 2 [of A] 2 [of C] Int_commute [of "set (addrs C)"]
      by (auto simp: rb_at_def tree_at_join s6_def)
  qed
  moreover have "only (nodes cs (join d A (x, c) (join d B (y, e) C))) s s6"
    using s2(3) s4(4) by (auto simp: only_def nodes_join s6_def s3_def s1_def)
  ultimately show ?thesis by (rule that)
qed

subsection \<open>Colours and heights\<close>

text \<open>
  A subtree is balanced when no red element has a red child and all its paths have the same number of
  black elements. A context fits a number \<open>n\<close> when a balanced subtree of that black height completes
  it to a balanced tree with a black root.
\<close>

primrec bheight :: "rbt \<Rightarrow> nat" where
  "bheight Leaf = 0"
| "bheight (Node l x r) = (if snd x = Black then Suc (bheight l) else bheight l)"

primrec balanced :: "rbt \<Rightarrow> bool" where
  "balanced Leaf = True"
| "balanced (Node l x r) =
     (balanced l \<and> balanced r \<and> bheight l = bheight r \<and> (snd x = Red \<longrightarrow> color l = Black \<and> color r = Black))"

fun ctx_fits :: "nat \<Rightarrow> ctx \<Rightarrow> bool" where
  "ctx_fits n [] = True"
| "ctx_fits n ((d, x, u) # cs) =
     (balanced u \<and> bheight u = n \<and> (snd x = Red \<longrightarrow> color u = Black \<and> cs \<noteq> [] \<and> par_color cs = Black) \<and>
      ctx_fits (if snd x = Black then Suc n else n) cs)"

lemma balanced_join:
  "balanced (join d t x u) \<longleftrightarrow>
     balanced t \<and> balanced u \<and> bheight t = bheight u \<and> (snd x = Red \<longrightarrow> color t = Black \<and> color u = Black)"
  by (cases d) auto

lemma bheight_join:
  "bheight t = bheight u \<Longrightarrow> bheight (join d t x u) = (if snd x = Black then Suc (bheight t) else bheight t)"
  by (cases d) auto

lemma balanced_plug:
  "balanced t \<Longrightarrow> ctx_fits (bheight t) cs \<Longrightarrow> (par_color cs = Red \<Longrightarrow> color t = Black) \<Longrightarrow> balanced (plug cs t)"
  "balanced (plug cs t) \<Longrightarrow> color (plug cs t) = Black \<Longrightarrow>
     balanced t \<and> ctx_fits (bheight t) cs \<and> (par_color cs = Red \<longrightarrow> color t = Black)"
proof (induction cs t rule: plug.induct)
  case (2 d x u cs t)
  {
    case 1
    then show ?case using 2 by (auto simp: balanced_join bheight_join)
  next
    case 2
    then show ?case using "2.IH"(2) by (cases cs rule: par_color.cases) (auto simp: balanced_join bheight_join split: if_splits)
  }
qed auto

text \<open>The elements in order.\<close>

lemma addrs_rotate: "addrs (join d (join d A x B) y C) = addrs (join d A x (join d B y C))"
  by (cases d) simp_all

lemma addrs_join_cong:
  "addrs t = addrs t' \<Longrightarrow> addrs u = addrs u' \<Longrightarrow> addrs (join d t (a, c) u) = addrs (join d t' (a, c') u')"
  by (cases d) simp_all

lemma addrs_plug_cong: "addrs t = addrs t' \<Longrightarrow> addrs (plug cs t) = addrs (plug cs t')"
proof (induction cs arbitrary: t t')
  case (Cons f cs)
  obtain d a c u where f: "f = (d, (a, c), u)" by (metis surj_pair)
  show ?case unfolding f plug.simps by (intro Cons.IH addrs_join_cong Cons.prems refl)
qed simp

lemma set_addrs_plug: "set (addrs (plug cs t)) = nodes cs t"
  by (induction cs t rule: plug.induct) (auto simp: nodes_def)

lemma color_plug: "cs \<noteq> [] \<Longrightarrow> color (plug cs t) = color (plug cs t')"
proof (induction cs arbitrary: t t')
  case (Cons f cs)
  obtain d x u where f: "f = (d, x, u)" by (cases f)
  show ?case
  proof (cases "cs = []")
    case False
    then have "color (plug cs (join d t x u)) = color (plug cs (join d t' x u))" by (rule Cons.IH)
    then show ?thesis by (simp only: f plug.simps)
  qed (simp add: f)
qed simp

lemma rb_at_siblings:
  assumes r: "rb_at s cs (join d t (a, c) u)" and ne: "t \<noteq> Leaf \<or> u \<noteq> Leaf"
  shows "rtop t \<noteq> rtop u"
proof
  assume eq: "rtop t = rtop u"
  have "rb_at s ((other d, (a, c), t) # cs) u" "rb_at s ((d, (a, c), u) # cs) t" using r by (simp_all add: rb_at_Cons join_other)
  then have "t \<noteq> Leaf" "u \<noteq> Leaf" using ne eq rb_at_top by metis+
  then have "rtop t \<in> set (addrs t)" "rtop u \<in> set (addrs u)" by (simp_all add: top_in)
  then show False using eq r by (auto simp: rb_at_def)
qed

lemma rb_at_side:
  assumes r: "rb_at s ((d, (g, c), w) # cs) t" and ne: "t \<noteq> Leaf \<or> w \<noteq> Leaf"
  obtains l where "RB_LEFT g s = Some l" "l = rtop t \<longleftrightarrow> d = LEFT_SIDE"
  using that rb_at_read(1,2) [OF r [unfolded rb_at_Cons]] rb_at_siblings [OF r [unfolded rb_at_Cons] ne] by (cases d) auto

lemma rb_at_black:
  assumes "rb_at s cs (join d t (a, c) u)"
  obtains s' where "RB_COLOR_SET a RB_BLACK s = Some s'" "rb_at s' cs (join d t (a, Black) u)"
    "only (nodes cs (join d t (a, c) u)) s s'"
  using rb_at_color_set [OF assms, of Black] by auto

lemma rb_at_red:
  assumes "rb_at s cs (join d t (a, c) u)"
  obtains s' where "RB_COLOR_SET a RB_RED s = Some s'" "rb_at s' cs (join d t (a, Red) u)"
    "only (nodes cs (join d t (a, c) u)) s s'"
  using rb_at_color_set [OF assms, of Red] by auto

lemma rb_at_blackred:
  assumes "rb_at s cs (join d (join e t (p, c) u) (g, c') w)"
  obtains s' where "RB_SET_BLACKRED p g s = Some s'" "rb_at s' cs (join d (join e t (p, Black) u) (g, Red) w)"
    "only (nodes cs (join d (join e t (p, c) u) (g, c') w)) s s'"
proof -
  have "rb_at s ((d, (g, c'), w) # cs) (join e t (p, c) u)" using assms by (simp add: rb_at_Cons)
  then obtain s1 where 1: "RB_COLOR_SET p RB_BLACK s = Some s1" "rb_at s1 ((d, (g, c'), w) # cs) (join e t (p, Black) u)"
      "only (nodes ((d, (g, c'), w) # cs) (join e t (p, c) u)) s s1"
    by (rule rb_at_black)
  obtain s2 where 2: "RB_COLOR_SET g RB_RED s1 = Some s2" "rb_at s2 cs (join d (join e t (p, Black) u) (g, Red) w)"
      "only (nodes cs (join d (join e t (p, Black) u) (g, c') w)) s1 s2"
    by (rule rb_at_red [OF 1(2) [unfolded rb_at_Cons]])
  have "only (nodes cs (join d (join e t (p, c) u) (g, c') w)) s s2"
    by (rule only_trans2 [OF 1(3) 2(3)]) (auto simp: nodes_def)
  then show ?thesis using that 1(1) 2 by (simp add: RB_SET_BLACKRED_def)
qed

subsection \<open>The colours after an insertion\<close>

text \<open>The two outcomes of a pass: the red elements move up, or the tree is balanced.\<close>

lemma insert_step_red:
  assumes r: "rb_at s cs (join d (join e t (p, Red) u) (g, Black) w)" and w: "color w = Red" and t: "rtop t = a"
  obtains s' w' where "insert_color_step d a p g s = Some (g, s')" "color w' = Black" "addrs w' = addrs w"
    "balanced w \<Longrightarrow> balanced w' \<and> bheight w' = Suc (bheight w)"
    "rb_at s' cs (join d (join e t (p, Black) u) (g, Red) w')"
    "only (nodes cs (join d (join e t (p, Red) u) (g, Black) w)) s s'"
proof -
  let ?N = "nodes cs (join d (join e t (p, Red) u) (g, Black) w)"
  obtain b c x y where w': "w = join d x (b, c) y" using w by (metis color.simps(1) rb_color.distinct(1) tree_cases_join)
  have c: "c = Red" using w w' by simp
  have rw: "rb_at s ((other d, (g, Black), join e t (p, Red) u) # cs) w" using r by (simp add: rb_at_Cons join_other)
  obtain s1 where 1: "RB_COLOR_SET b RB_BLACK s = Some s1"
      "rb_at s1 ((other d, (g, Black), join e t (p, Red) u) # cs) (join d x (b, Black) y)" "only ?N s s1"
    using rb_at_black [OF rw [unfolded w' c]] by (metis c join_other nodes_Cons w')
  have "rb_at s1 cs (join d (join e t (p, Red) u) (g, Black) (join d x (b, Black) y))"
    using 1(2) by (simp add: rb_at_Cons join_other)
  then obtain s2 where 2: "RB_SET_BLACKRED p g s1 = Some s2"
      "rb_at s2 cs (join d (join e t (p, Black) u) (g, Red) (join d x (b, Black) y))"
      "only (nodes cs (join d (join e t (p, Red) u) (g, Black) (join d x (b, Black) y))) s1 s2"
    by (rule rb_at_blackred)
  have "only ?N s s2" by (rule only_trans2 [OF 1(3) 2(3)]) (auto simp: nodes_def w')
  moreover have "insert_color_step d a p g s = Some (g, s2)"
    using rb_at_read(2) [OF r] rb_at_is_red [OF rw] w 1(1) 2(1) by (simp add: insert_color_step_def w')
  moreover have "balanced (join d x (b, Black) y) \<and> bheight (join d x (b, Black) y) = Suc (bheight w)" if "balanced w"
    using that by (simp add: w' c balanced_join bheight_join)
  ultimately show ?thesis
    using that [of s2 "join d x (b, Black) y"] 2(2) addrs_join_cong [OF refl refl] by (simp add: w')
qed

lemma insert_step_outer:
  assumes r: "rb_at s cs (join d (join d t (p, Red) u) (g, Black) w)" and w: "color w = Black"
    and t: "rtop t = a" "t \<noteq> Leaf"
  obtains s' where "insert_color_step d a p g s = Some (a, s')"
    "rb_at s' cs (join d t (p, Black) (join d u (g, Red) w))"
    "only (nodes cs (join d (join d t (p, Red) u) (g, Black) w)) s s'"
proof -
  let ?N = "nodes cs (join d (join d t (p, Red) u) (g, Black) w)"
  have rw: "rb_at s ((other d, (g, Black), join d t (p, Red) u) # cs) w" using r by (simp add: rb_at_Cons join_other)
  have rp: "rb_at s ((d, (g, Black), w) # cs) (join d t (p, Red) u)" using r by (simp add: rb_at_Cons)
  have ne: "rtop u \<noteq> a" using rb_at_siblings [OF rp] t by auto
  obtain s1 where 1: "RB_SET_BLACKRED p g s = Some s1" "rb_at s1 cs (join d (join d t (p, Black) u) (g, Red) w)" "only ?N s s1"
    by (rule rb_at_blackred [OF r])
  have "rb_at s1 cs (join (other d) w (g, Red) (join (other d) u (p, Black) t))" using 1(2) by (simp add: join_other)
  then obtain s2 where 2: "RB_ROTATE (other d) g s1 = Some s2"
      "rb_at s2 cs (join (other d) (join (other d) w (g, Red) u) (p, Black) t)"
      "only (nodes cs (join (other d) w (g, Red) (join (other d) u (p, Black) t))) s1 s2"
    by (rule rb_at_rotate)
  have "only ?N s s2" by (rule only_trans2 [OF 1(3) 2(3)]) (auto simp: nodes_def)
  moreover have "insert_color_step d a p g s = Some (a, s2)"
    using rb_at_read(2) [OF r] rb_at_is_red [OF rw] w rb_at_read(2) [OF rp] ne 1(1) 2(1)
    by (simp add: insert_color_step_def)
  ultimately show ?thesis using that 2(2) by (simp add: join_other)
qed

lemma insert_step_inner:
  assumes r: "rb_at s cs (join d (join d u (p, Red) (join d x (a, Red) y)) (g, Black) w)" and w: "color w = Black"
  obtains s' where "insert_color_step d a p g s = Some (p, s')"
    "rb_at s' cs (join d (join d u (p, Red) x) (a, Black) (join d y (g, Red) w))"
    "only (nodes cs (join d (join d u (p, Red) (join d x (a, Red) y)) (g, Black) w)) s s'"
proof -
  let ?N = "nodes cs (join d (join d u (p, Red) (join d x (a, Red) y)) (g, Black) w)"
  have rw: "rb_at s ((other d, (g, Black), join d u (p, Red) (join d x (a, Red) y)) # cs) w"
    using r by (simp add: rb_at_Cons join_other)
  have rp: "rb_at s ((d, (g, Black), w) # cs) (join d u (p, Red) (join d x (a, Red) y))" using r by (simp add: rb_at_Cons)
  obtain s1 where 1: "RB_ROTATE d p s = Some s1" "rb_at s1 ((d, (g, Black), w) # cs) (join d (join d u (p, Red) x) (a, Red) y)"
      "only (nodes ((d, (g, Black), w) # cs) (join d u (p, Red) (join d x (a, Red) y))) s s1"
    by (rule rb_at_rotate [OF rp])
  obtain s2 where 2: "RB_SET_BLACKRED a g s1 = Some s2" "rb_at s2 cs (join d (join d (join d u (p, Red) x) (a, Black) y) (g, Red) w)"
      "only (nodes cs (join d (join d (join d u (p, Red) x) (a, Red) y) (g, Black) w)) s1 s2"
    by (rule rb_at_blackred [OF 1(2) [unfolded rb_at_Cons]])
  have "rb_at s2 cs (join (other d) w (g, Red) (join (other d) y (a, Black) (join d u (p, Red) x)))"
    using 2(2) by (simp add: join_other)
  then obtain s3 where 3: "RB_ROTATE (other d) g s2 = Some s3"
      "rb_at s3 cs (join (other d) (join (other d) w (g, Red) y) (a, Black) (join d u (p, Red) x))"
      "only (nodes cs (join (other d) w (g, Red) (join (other d) y (a, Black) (join d u (p, Red) x)))) s2 s3"
    by (rule rb_at_rotate)
  have "only ?N s s2" by (rule only_trans2 [OF 1(3) 2(3)]) (auto simp: nodes_def)
  then have "only ?N s s3" by (rule only_trans2 [OF _ 3(3)]) (auto simp: nodes_def)
  moreover have "insert_color_step d a p g s = Some (p, s3)"
    using rb_at_read(2) [OF r] rb_at_is_red [OF rw] w rb_at_read(2) [OF rp] 1(1) 2(1) 3(1)
    by (simp add: insert_color_step_def)
  ultimately show ?thesis using that 3(2) by (simp add: join_other)
qed

lemma rb_at_par_red:
  "rb_at s cs t \<Longrightarrow> rb_is_red (par cs) s = Some (par_color cs = Red)"
proof (cases cs rule: par.cases)
  case (2 d x u cs')
  moreover assume "rb_at s cs t"
  ultimately show ?thesis using rb_at_is_red [of s cs' "join d t x u"] by (simp add: rb_at_Cons)
qed (simp add: rb_is_red_def)

lemma rb_at_parent:
  assumes "rb_at s cs t" "t \<noteq> Leaf"
  shows "RB_PARENT_GET (rtop t) s = Some (par cs)"
proof -
  obtain a c l r where "t = join LEFT_SIDE l (a, c) r" using assms(2) by (rule tree_cases_join)
  then show ?thesis using rb_at_read(3) [of s cs LEFT_SIDE l a c r] assms(1) by simp
qed

lemma insert_color_done:
  assumes "rb_at s cs t" "t \<noteq> Leaf" "par_color cs = Black"
  shows "insert_color_loop (rtop t) s = Some s"
  using rb_at_parent [OF assms(1,2)] rb_at_par_red [OF assms(1)] assms(3)
  by (subst insert_color_loop.simps) simp

lemma insert_step:
  assumes r: "rb_at s cs (join d (join e t (p, Red) u) (g, Black) w)" and w: "color w = Black"
    and t: "color t = Red" "balanced t" "balanced u" "balanced w" "color u = Black" "bheight u = bheight t" "bheight w = bheight t"
  obtains s' b s1 t' where "insert_color_step d (rtop t) p g s = Some (b, s')" "insert_color_loop b s' = Some s'"
    "rb_at s' cs t'" "balanced t'" "bheight t' = Suc (bheight t)" "color t' = Black"
    "addrs t' = addrs (join d (join e t (p, Red) u) (g, Black) w)"
    "only (nodes cs (join d (join e t (p, Red) u) (g, Black) w)) s s'"
proof -
  have ne: "t \<noteq> Leaf" using t(1) by auto
  show ?thesis
  proof (cases "e = d")
    case True
    let ?t = "join d t (p, Black) (join d u (g, Red) w)"
    obtain s' where 1: "insert_color_step d (rtop t) p g s = Some (rtop t, s')" "rb_at s' cs ?t"
        "only (nodes cs (join d (join d t (p, Red) u) (g, Black) w)) s s'"
      by (rule insert_step_outer [OF r [unfolded True] w refl ne])
    have "insert_color_loop (rtop t) s' = Some s'"
      by (rule insert_color_done [of _ "(d, (p, Black), join d u (g, Red) w) # cs"]) (use 1(2) ne in \<open>simp_all add: rb_at_Cons\<close>)
    moreover have "balanced ?t" "bheight ?t = Suc (bheight t)" using t w by (simp_all add: balanced_join bheight_join)
    moreover have "addrs ?t = addrs (join d (join d t (p, Red) u) (g, Black) w)" by (cases d) simp_all
    ultimately show ?thesis using that 1 True by simp
  next
    case False
    then have e: "e = other d" by (cases e; cases d) auto
    obtain a c x y where t': "t = join d x (a, c) y" using ne by (rule tree_cases_join)
    let ?t = "join d (join d u (p, Red) x) (a, Black) (join d y (g, Red) w)"
    have c: "c = Red" and r': "rb_at s cs (join d (join d u (p, Red) (join d x (a, Red) y)) (g, Black) w)"
      using t(1) r by (simp_all add: t' e join_other)
    obtain s' where 1: "insert_color_step d a p g s = Some (p, s')" "rb_at s' cs ?t"
        "only (nodes cs (join d (join d u (p, Red) (join d x (a, Red) y)) (g, Black) w)) s s'"
      by (rule insert_step_inner [OF r' w])
    have "insert_color_loop (rtop (join d u (p, Red) x)) s' = Some s'"
      by (rule insert_color_done [of _ "(d, (a, Black), join d y (g, Red) w) # cs"]) (use 1(2) in \<open>simp_all add: rb_at_Cons\<close>)
    moreover have "balanced ?t" "bheight ?t = Suc (bheight t)"
      using t w by (auto simp: t' c balanced_join bheight_join)
    moreover have "addrs ?t = addrs (join d (join e t (p, Red) u) (g, Black) w)" by (cases d) (simp_all add: t' e)
    ultimately show ?thesis using that 1 by (simp add: t' c e join_other)
  qed
qed

lemma insert_color_loop_ok:
  assumes "rb_at s cs t" "color t = Red" "balanced t" "ctx_fits (bheight t) cs"
  shows "\<exists>s' t'. insert_color_loop (rtop t) s = Some s' \<and> rb_at s' [] t' \<and> addrs t' = addrs (plug cs t) \<and>
    balanced t' \<and> only (nodes cs t) s s'"
  using assms
proof (induction "length cs" arbitrary: cs t s rule: less_induct)
  case less
  have ne: "t \<noteq> Leaf" using less.prems(2) by auto
  show ?case
  proof (cases "par_color cs = Black")
    case True
    then show ?thesis
      using insert_color_done [OF less.prems(1) ne] less.prems balanced_plug(1) [of t cs] rb_at_plug by auto
  next
    case False
    then obtain e p u cs1 where cs: "cs = (e, (p, Red), u) # cs1" by (cases cs rule: par_color.cases) auto
    with less.prems(4) have "cs1 \<noteq> []" "par_color cs1 = Black" by auto
    then obtain d g w cs2 where cs1: "cs1 = (d, (g, Black), w) # cs2" by (cases cs1 rule: par_color.cases) auto
    let ?t = "join d (join e t (p, Red) u) (g, Black) w"
    have r: "rb_at s cs2 ?t" using less.prems(1) by (simp add: cs cs1 rb_at_Cons)
    have rp: "rb_at s ((d, (g, Black), w) # cs2) (join e t (p, Red) u)" using r by (simp add: rb_at_Cons)
    have C: "balanced u" "bheight u = bheight t" "color u = Black" "balanced w" "bheight w = bheight t"
        "ctx_fits (Suc (bheight t)) cs2"
      using less.prems(4) by (auto simp: cs cs1)
    obtain l where l: "RB_LEFT g s = Some l" "l = p \<longleftrightarrow> d = LEFT_SIDE" using rb_at_side [OF rp] by auto
    have side: "(if p = l then LEFT_SIDE else RIGHT_SIDE) = d" using l(2) by (cases d) auto
    have loop: "insert_color_loop (rtop t) s = do { (b, s) \<leftarrow> insert_color_step d (rtop t) p g s; insert_color_loop b s }"
      using rb_at_parent [OF less.prems(1) ne] rb_at_par_red [OF less.prems(1)] rb_at_read(3) [OF rp] l(1)
      by (subst insert_color_loop.simps) (simp add: cs side)
    have N: "nodes cs t = nodes cs2 ?t" by (simp add: cs cs1 nodes_Cons)
    show ?thesis
    proof (cases "color w")
      case Red
      then obtain s' w' where 1: "insert_color_step d (rtop t) p g s = Some (g, s')" "color w' = Black" "addrs w' = addrs w"
          "balanced w'" "bheight w' = Suc (bheight w)" "rb_at s' cs2 (join d (join e t (p, Black) u) (g, Red) w')"
          "only (nodes cs2 ?t) s s'"
        using insert_step_red [OF r Red refl] C(4) by metis
      let ?t' = "join d (join e t (p, Black) u) (g, Red) w'"
      have b: "balanced ?t'" "bheight ?t' = Suc (bheight t)"
        using 1(2,4,5) C less.prems(3) by (simp_all add: balanced_join bheight_join)
      have a: "addrs ?t' = addrs ?t" using 1(3) by (intro addrs_join_cong refl)
      have "length cs2 < length cs" "ctx_fits (bheight ?t') cs2" using C(6) b(2) by (simp_all add: cs cs1)
      from less.hyps [OF this(1) 1(6) _ b(1) this(2)]
      obtain s'' t'' where 2: "insert_color_loop g s' = Some s''" "rb_at s'' [] t''"
          "addrs t'' = addrs (plug cs2 ?t')" "balanced t''" "only (nodes cs2 ?t') s' s''"
        by auto
      have "only (nodes cs2 ?t) s s''"
        by (rule only_trans2 [OF 1(7) 2(5)]) (simp_all add: a nodes_def)
      moreover have "addrs t'' = addrs (plug cs t)" using 2(3) addrs_plug_cong [OF a, of cs2] by (simp add: cs cs1)
      ultimately show ?thesis using loop 1(1) 2 by (auto simp: N)
    next
      case Black
      obtain s' b t' where 1: "insert_color_step d (rtop t) p g s = Some (b, s')" "insert_color_loop b s' = Some s'"
          "rb_at s' cs2 t'" "balanced t'" "bheight t' = Suc (bheight t)" "color t' = Black" "addrs t' = addrs ?t"
          "only (nodes cs2 ?t) s s'"
        using insert_step [OF r Black less.prems(2,3) C(1,4,3,2,5)] by metis
      have "balanced (plug cs2 t')" using balanced_plug(1) [OF 1(4), of cs2] 1(5,6) C(6) by simp
      moreover have "rb_at s' [] (plug cs2 t')" using 1(3) rb_at_plug by blast
      moreover have "addrs (plug cs2 t') = addrs (plug cs t)" using addrs_plug_cong [OF 1(7)] by (simp add: cs cs1)
      ultimately show ?thesis using loop 1(1,2,8) by (auto simp: N)
    qed
  qed
qed

text \<open>A tree of the code: linked, balanced, with a black root, and ordered by the comparison.\<close>

definition rb_tree :: "rb \<Rightarrow> rbt \<Rightarrow> bool" where
  "rb_tree s t \<longleftrightarrow> rb_at s [] t \<and> balanced t \<and> color t = Black"

lemma rb_tree_root: "rb_tree s t \<Longrightarrow> rbh_root s = rtop t"
  by (simp add: rb_tree_def rb_at_def)

lemma rb_black_root:
  assumes r: "rb_at s [] t" "balanced t" "t \<noteq> Leaf"
  obtains s' t' where "RB_COLOR_SET (rbh_root s) RB_BLACK s = Some s'" "rb_tree s' t'" "addrs t' = addrs t"
    "only (set (addrs t)) s s'"
proof -
  obtain a c l u where t: "t = join LEFT_SIDE l (a, c) u" using r(3) by (rule tree_cases_join)
  obtain s' where "RB_COLOR_SET a RB_BLACK s = Some s'" "rb_at s' [] (join LEFT_SIDE l (a, Black) u)"
      "only (nodes [] (join LEFT_SIDE l (a, c) u)) s s'"
    by (rule rb_at_black [OF r(1) [unfolded t]])
  moreover have "rbh_root s = a" using r(1) by (simp add: t rb_at_def)
  moreover have "balanced (join LEFT_SIDE l (a, Black) u)" using r(2) by (simp add: t balanced_join)
  ultimately show ?thesis using that [of s' "join LEFT_SIDE l (a, Black) u"] by (simp add: rb_tree_def t nodes_def)
qed

lemma insert_color_ok:
  assumes "rb_at s cs t" "color t = Red" "balanced t" "ctx_fits (bheight t) cs"
  obtains s' t' where "RB_INSERT_COLOR (rtop t) s = Some s'" "rb_tree s' t'" "addrs t' = addrs (plug cs t)"
    "only (nodes cs t) s s'"
proof -
  obtain s1 t1 where 1: "insert_color_loop (rtop t) s = Some s1" "rb_at s1 [] t1" "addrs t1 = addrs (plug cs t)"
      "balanced t1" "only (nodes cs t) s s1"
    using insert_color_loop_ok [OF assms] by blast
  have n: "set (addrs t1) = nodes cs t" using 1(3) set_addrs_plug by metis
  moreover have "rtop t \<in> nodes cs t" using assms(2) top_in [of t] by (cases t) (auto simp: nodes_def)
  ultimately have "t1 \<noteq> Leaf" by auto
  then obtain s2 t2 where 2: "RB_COLOR_SET (rbh_root s1) RB_BLACK s1 = Some s2" "rb_tree s2 t2" "addrs t2 = addrs t1"
      "only (set (addrs t1)) s1 s2"
    using rb_black_root [OF 1(2,4)] by metis
  then show ?thesis using that 1 only_trans [OF 1(5)] n by (simp add: RB_INSERT_COLOR_def)
qed

subsection \<open>Insertion\<close>

text \<open>
  The comparison orders the elements like their keys. The search goes down to a leaf, around which the
  keys before are smaller and the keys behind are larger.
\<close>

fun before :: "ctx \<Rightarrow> ptr list" where
  "before [] = []"
| "before ((LEFT_SIDE, x, u) # cs) = before cs"
| "before ((RIGHT_SIDE, x, u) # cs) = before cs @ addrs u @ [fst x]"

fun behind :: "ctx \<Rightarrow> ptr list" where
  "behind [] = []"
| "behind ((LEFT_SIDE, x, u) # cs) = fst x # addrs u @ behind cs"
| "behind ((RIGHT_SIDE, x, u) # cs) = behind cs"

lemma addrs_plug: "addrs (plug cs t) = before cs @ addrs t @ behind cs"
proof (induction cs arbitrary: t)
  case (Cons f cs)
  then show ?case by (cases f; cases "fst f") auto
qed simp

end
