(* ===== verification/Rb_Tree_Search.thy ===== *)
theory Rb_Tree_Search
  imports Rb_Tree_Inv
begin

section \<open>Searching in a tree in memory\<close>

text \<open>
  What the searches of \<open>rb_tree.h\<close> find. The comparison of the elements is an argument of the macros;
  the locale \<open>key_order\<close> states what a tree needs of it: that it compares the elements by a key.
\<close>

definition keys_sorted :: "(ptr \<Rightarrow> 'k::linorder) \<Rightarrow> ptr list \<Rightarrow> bool" where
  "keys_sorted key xs \<longleftrightarrow> sorted_wrt (\<lambda>a b. key a < key b) xs"

lemma keys_sorted_append:
  "keys_sorted key (xs @ ys) \<longleftrightarrow>
     keys_sorted key xs \<and> keys_sorted key ys \<and> (\<forall>a \<in> set xs. \<forall>b \<in> set ys. key a < key b)"
  "keys_sorted key (a # ys) \<longleftrightarrow> keys_sorted key ys \<and> (\<forall>b \<in> set ys. key a < key b)" "keys_sorted key []"
  by (auto simp: keys_sorted_def sorted_wrt_append)

lemma find_append:
  "List.find P (xs @ ys) = (case List.find P xs of None \<Rightarrow> List.find P ys | Some a \<Rightarrow> Some a)"
  by (induction xs) auto

lemma tree_at_read:
  assumes "tree_at (rb_mem s) p (Node l x r)"
  shows "RB_LEFT (fst x) s = Some (rtop l)" "RB_RIGHT (fst x) s = Some (rtop r)" "fst x \<noteq> 0"
  using assms by (simp_all add: RB_CHILD_def rb_entry_at_def elementD)

text \<open>The place of a new element: a leaf with the smaller keys before it and the larger ones behind.\<close>

definition place :: "(ptr \<Rightarrow> 'k::linorder) \<Rightarrow> ptr \<Rightarrow> ctx \<Rightarrow> bool" where
  "place key elm cs \<longleftrightarrow> (\<forall>a \<in> set (before cs). key a < key elm) \<and> (\<forall>a \<in> set (behind cs). key elm < key a)"

fun turned :: "int \<Rightarrow> ctx \<Rightarrow> bool" where
  "turned c [] = True"
| "turned c ((d, x, u) # cs) = (if d = LEFT_SIDE then c < 0 else c > 0)"

locale key_order =
  fixes cmp :: "ptr \<Rightarrow> ptr \<Rightarrow> int" and key :: "ptr \<Rightarrow> 'k::linorder"
  assumes cmp_less: "cmp a b < 0 \<longleftrightarrow> key a < key b"
    and cmp_greater: "cmp a b > 0 \<longleftrightarrow> key b < key a"
begin

lemma find_from:
  assumes "tree_at (rb_mem s) p t" "keys_sorted key (addrs t)"
  shows "rb_find_from cmp elm (rtop t) s = Some (case List.find (\<lambda>a. key a = key elm) (addrs t) of None \<Rightarrow> 0 | Some a \<Rightarrow> a)"
  using assms
proof (induction t arbitrary: p)
  case Leaf
  then show ?case by (subst rb_find_from.simps) simp
next
  case (Node l x r)
  note R = tree_at_read [OF Node.prems(1)]
  have S: "keys_sorted key (addrs l)" "keys_sorted key (addrs r)" "\<forall>a \<in> set (addrs l). key a < key (fst x)"
      "\<forall>a \<in> set (addrs r). key (fst x) < key a"
    using Node.prems(2) by (auto simp: keys_sorted_append)
  have T: "tree_at (rb_mem s) (fst x) l" "tree_at (rb_mem s) (fst x) r" using Node.prems(1) by simp_all
  consider "key elm < key (fst x)" | "key elm = key (fst x)" | "key (fst x) < key elm" by (rule linorder_cases)
  then show ?case
  proof cases
    case 1
    then have "List.find (\<lambda>a. key a = key elm) (fst x # addrs r) = None"
      using S(4) by (auto simp: find_None_iff)
    then have "List.find (\<lambda>a. key a = key elm) (addrs (Node l x r)) = List.find (\<lambda>a. key a = key elm) (addrs l)"
      by (simp add: find_append split: option.split)
    moreover have "cmp elm (fst x) < 0" using 1 cmp_less by simp
    ultimately show ?thesis using R Node.IH(1) [OF T(1) S(1)] by (subst rb_find_from.simps) simp
  next
    case 2
    then have "List.find (\<lambda>a. key a = key elm) (addrs l) = None" using S(3) by (auto simp: find_None_iff)
    moreover have "\<not> cmp elm (fst x) < 0" "\<not> cmp elm (fst x) > 0" using 2 cmp_less cmp_greater by simp_all
    ultimately show ?thesis using R(3) 2 by (subst rb_find_from.simps) (simp add: find_append)
  next
    case 3
    then have "List.find (\<lambda>a. key a = key elm) (addrs l) = None" using S(3) by (auto simp: find_None_iff)
    then have "List.find (\<lambda>a. key a = key elm) (addrs (Node l x r)) = List.find (\<lambda>a. key a = key elm) (addrs r)"
      using 3 by (auto simp: find_append)
    moreover have "\<not> cmp elm (fst x) < 0" "cmp elm (fst x) > 0" using 3 cmp_less cmp_greater by auto
    ultimately show ?thesis using R Node.IH(2) [OF T(2) S(2)] by (subst rb_find_from.simps) simp
  qed
qed

lemma nfind_from:
  assumes "tree_at (rb_mem s) p t" "keys_sorted key (addrs t)"
  shows "rb_nfind_from cmp elm (rtop t) res s =
    Some (case List.find (\<lambda>a. key elm \<le> key a) (addrs t) of None \<Rightarrow> res | Some a \<Rightarrow> a)"
  using assms
proof (induction t arbitrary: p res)
  case Leaf
  then show ?case by (subst rb_nfind_from.simps) simp
next
  case (Node l x r)
  note R = tree_at_read [OF Node.prems(1)]
  have S: "keys_sorted key (addrs l)" "keys_sorted key (addrs r)" "\<forall>a \<in> set (addrs l). key a < key (fst x)"
    using Node.prems(2) by (auto simp: keys_sorted_append)
  have l: "List.find (\<lambda>a. key elm \<le> key a) (addrs l) = None" if "key (fst x) \<le> key elm"
    using S(3) that by (fastforce simp: find_None_iff)
  have T: "tree_at (rb_mem s) (fst x) l" "tree_at (rb_mem s) (fst x) r" using Node.prems(1) by simp_all
  consider "key elm < key (fst x)" | "key elm = key (fst x)" | "key (fst x) < key elm" by (rule linorder_cases)
  then show ?case
  proof cases
    case 1
    moreover have "cmp elm (fst x) < 0" using 1 cmp_less by simp
    ultimately show ?thesis
      using R Node.IH(1) [OF T(1) S(1)]
      by (subst rb_nfind_from.simps) (simp add: find_append less_imp_le split: option.split)
  next
    case 2
    moreover have "\<not> cmp elm (fst x) < 0" "\<not> cmp elm (fst x) > 0" using 2 cmp_less cmp_greater by simp_all
    ultimately show ?thesis using R(3) l by (subst rb_nfind_from.simps) (simp add: find_append)
  next
    case 3
    moreover have "\<not> cmp elm (fst x) < 0" "cmp elm (fst x) > 0" using 3 cmp_less cmp_greater by auto
    ultimately show ?thesis
      using R Node.IH(2) [OF T(2) S(2)] l by (subst rb_nfind_from.simps) (auto simp: find_append)
  qed
qed

lemma descend:
  assumes "rb_at s cs t" "keys_sorted key (addrs t)" "place key elm cs" "turned c cs"
  shows "(\<exists>b. insert_descend cmp elm (rtop t) (par cs) c s = Some (Inl b) \<and> b \<in> set (addrs t) \<and> key b = key elm) \<or>
    (\<exists>cs' c'. insert_descend cmp elm (rtop t) (par cs) c s = Some (Inr (par cs', c')) \<and>
       plug cs' Leaf = plug cs t \<and> place key elm cs' \<and> turned c' cs')"
  using assms
proof (induction t arbitrary: cs c)
  case Leaf
  then show ?case by (subst (1 2) insert_descend.simps) auto
next
  case (Node l x r)
  have T: "tree_at (rb_mem s) (par cs) (Node l x r)" using Node.prems(1) by (simp add: rb_at_def)
  note R = tree_at_read [OF this]
  have S: "keys_sorted key (addrs l)" "keys_sorted key (addrs r)" "\<forall>a \<in> set (addrs l). key a < key (fst x)"
      "\<forall>a \<in> set (addrs r). key (fst x) < key a"
    using Node.prems(2) by (auto simp: keys_sorted_append)
  consider "key elm < key (fst x)" | "key elm = key (fst x)" | "key (fst x) < key elm" by (rule linorder_cases)
  then show ?case
  proof cases
    case 1
    let ?cs = "(LEFT_SIDE, x, r) # cs"
    have c: "cmp elm (fst x) < 0" using 1 cmp_less by simp
    have "rb_at s ?cs l" using Node.prems(1) by (simp add: rb_at_Cons)
    moreover have "place key elm ?cs" using Node.prems(3) 1 S(4) by (auto simp: place_def)
    moreover have "turned (cmp elm (fst x)) ?cs" using c by simp
    moreover have "insert_descend cmp elm (rtop (Node l x r)) (par cs) c s =
        insert_descend cmp elm (rtop l) (par ?cs) (cmp elm (fst x)) s"
      using R c by (subst insert_descend.simps) simp
    ultimately show ?thesis using Node.IH(1) [of ?cs "cmp elm (fst x)"] S(1) by auto
  next
    case 2
    moreover have "\<not> cmp elm (fst x) < 0" "\<not> cmp elm (fst x) > 0" using 2 cmp_less cmp_greater by simp_all
    ultimately show ?thesis using R(3) by (subst (1 2) insert_descend.simps) auto
  next
    case 3
    let ?cs = "(RIGHT_SIDE, x, l) # cs"
    have c: "\<not> cmp elm (fst x) < 0" "cmp elm (fst x) > 0" using 3 cmp_less cmp_greater by auto
    have "rb_at s ?cs r" using Node.prems(1) by (simp add: rb_at_Cons)
    moreover have "place key elm ?cs" using Node.prems(3) 3 S(3) by (auto simp: place_def)
    moreover have "turned (cmp elm (fst x)) ?cs" using c by simp
    moreover have "insert_descend cmp elm (rtop (Node l x r)) (par cs) c s =
        insert_descend cmp elm (rtop r) (par ?cs) (cmp elm (fst x)) s"
      using R c by (subst insert_descend.simps) simp
    ultimately show ?thesis using Node.IH(2) [of ?cs "cmp elm (fst x)"] S(2) by auto
  qed
qed

lemma insert_ok:
  assumes t: "rb_tree s t" "keys_sorted key (addrs t)" and e: "element elm" "elm \<notin> set (addrs t)" "rb_mem s elm \<noteq> None"
  shows "(\<exists>b. RB_INSERT cmp elm s = Some (b, s) \<and> b \<in> set (addrs t) \<and> key b = key elm) \<or>
    (\<exists>s' t' xs ys. RB_INSERT cmp elm s = Some (0, s') \<and> rb_tree s' t' \<and> addrs t = xs @ ys \<and>
       addrs t' = xs @ elm # ys \<and> keys_sorted key (addrs t') \<and> only (insert elm (set (addrs t))) s s')"
proof -
  note r = t(1) [unfolded rb_tree_def]
  have root: "rbh_root s = rtop t" using rb_tree_root [OF t(1)] .
  have "place key elm []" by (simp add: place_def)
  from descend [OF conjunct1 [OF r] t(2) this, of 0]
  consider b where "insert_descend cmp elm (rtop t) 0 0 s = Some (Inl b)" "b \<in> set (addrs t)" "key b = key elm"
    | cs c where "insert_descend cmp elm (rtop t) 0 0 s = Some (Inr (par cs, c))" "plug cs Leaf = t" "place key elm cs" "turned c cs"
    by auto
  then show ?thesis
  proof cases
    case 1
    then show ?thesis by (auto simp: RB_INSERT_def root)
  next
    case 2
    let ?e = "Node Leaf (elm, Red) Leaf"
    have rc: "rb_at s cs Leaf" using r 2(2) rb_at_plug by blast
    have ctx: "elm \<notin> set (ctx_addrs cs)" "ctx_at (rb_mem s) 0 cs" "distinct (ctx_addrs cs)"
      using e(2) set_addrs_plug [of cs Leaf] rc by (auto simp: 2(2) nodes_def rb_at_def)
    define s1 where "s1 = s\<lparr>rb_mem := (rb_mem s)(elm \<mapsto> entry LEFT_SIDE 0 0 (par cs) Red)\<rparr>"
    obtain n where n: "rb_mem s elm = Some n" using e(3) by blast
    have s1: "RB_SET elm (par cs) s = Some s1" using e(1) n by (cases n) (simp add: RB_SET_def rb_update_element s1_def)
    have "\<exists>s2. (if par cs \<noteq> 0 then RB_CHILD_SET (if c < 0 then LEFT_SIDE else RIGHT_SIDE) (par cs) elm s1
        else Some (s1\<lparr>rbh_root := elm\<rparr>)) = Some s2 \<and> rb_at s2 cs ?e \<and> only (insert elm (set (addrs t))) s s2"
    proof (cases cs rule: par.cases)
      case 1
      then show ?thesis using e by (auto simp: rb_at_def s1_def only_def)
    next
      case (2 d x u cs')
      let ?s = "s1\<lparr>rb_mem := (rb_mem s1)(fst x \<mapsto> entry d elm (rtop u) (par cs') (snd x))\<rparr>"
      have x: "element (fst x)" "rb_mem s1 (fst x) = Some (entry d 0 (rtop u) (par cs') (snd x))" "fst x \<noteq> elm"
        "fst x \<in> set (addrs t)"
        using ctx 2 set_addrs_plug [of cs Leaf] \<open>plug cs Leaf = t\<close> by (auto simp: s1_def nodes_def)
      have d: "(if c < 0 then LEFT_SIDE else RIGHT_SIDE) = d" using \<open>turned c cs\<close> 2 by (cases d) auto
      have "RB_CHILD_SET d (fst x) elm s1 = Some ?s" using x by (simp add: RB_CHILD_SET_def rb_update_element)
      moreover have "rb_at ?s cs ?e"
        using rc x(1,3) ctx(1) e(1) by (auto simp: rb_at_def 2 s1_def)
      moreover have "only (insert elm (set (addrs t))) s ?s" using x(4) by (auto simp: only_def s1_def)
      ultimately show ?thesis using x(1) d by (auto simp: 2 elementD)
    qed
    then obtain s2 where s2: "(if par cs \<noteq> 0 then RB_CHILD_SET (if c < 0 then LEFT_SIDE else RIGHT_SIDE) (par cs) elm s1
        else Some (s1\<lparr>rbh_root := elm\<rparr>)) = Some s2" "rb_at s2 cs ?e" "only (insert elm (set (addrs t))) s s2"
      by blast
    have f: "ctx_fits (bheight ?e) cs" using balanced_plug(2) [of cs Leaf] r by (simp add: 2(2))
    obtain s3 t' where 3: "RB_INSERT_COLOR (rtop ?e) s2 = Some s3" "rb_tree s3 t'" "addrs t' = addrs (plug cs ?e)"
        "only (nodes cs ?e) s2 s3"
      by (rule insert_color_ok [OF s2(2) _ _ f]) simp_all
    have a: "addrs t' = before cs @ elm # behind cs" "addrs t = before cs @ behind cs"
      using 3(3) addrs_plug [of cs] 2(2) [symmetric] by simp_all
    then have k: "keys_sorted key (addrs t')" using t(2) 2(3) by (auto simp: keys_sorted_append place_def)
    have "nodes cs ?e = insert elm (set (addrs t))" using set_addrs_plug [of cs Leaf] 2(2) by (auto simp: nodes_def)
    then have "only (insert elm (set (addrs t))) s s3" using only_trans [OF s2(3)] 3(4) by simp
    moreover have "RB_INSERT cmp elm s = Some (0, s3)"
      using 2(1) s1 s2(1) 3(1) by (simp add: RB_INSERT_def root split: if_splits)
    ultimately show ?thesis using 3(2) a k by blast
  qed
qed

end

end
