(* ===== verification/Rb_Tree_Remove.thy ===== *)
theory Rb_Tree_Remove
  imports Rb_Tree_Inv
begin

section \<open>Removing from a tree in memory\<close>

text \<open>
  A removal takes an element with at most one child out of the tree, where it was, or where its successor
  was, which then takes its place. If that element was black, the black height of its subtree is one
  short, and the loop over the colours moves this upwards until it is made good.
\<close>

subsection \<open>The cases of a pass\<close>

lemma nodes_color: "nodes cs (join d t (a, c) u) = nodes cs (join d t (a, c') u)"
  by (simp add: nodes_join)

lemma remove_finish:
  assumes r: "rb_at s cs (join d t (p, c) (join d wi (b, e) (join d x (o', f) y)))"
  obtains s' where "remove_color_finish d p b s = Some s'"
    "rb_at s' cs (join d (join d t (p, Black) wi) (b, c) (join d x (o', Black) y))"
    "only (nodes cs (join d t (p, c) (join d wi (b, e) (join d x (o', f) y)))) s s'"
proof -
  let ?N = "nodes cs (join d t (p, c) (join d wi (b, e) (join d x (o', f) y)))"
  have "rb_at s ((other d, (p, c), t) # cs) (join d wi (b, e) (join d x (o', f) y))"
    using r by (simp add: rb_at_Cons join_other)
  then obtain s1 where 1: "RB_COLOR_SET b (color_bit c) s = Some s1"
      "rb_at s1 ((other d, (p, c), t) # cs) (join d wi (b, c) (join d x (o', f) y))"
      "only (nodes ((other d, (p, c), t) # cs) (join d wi (b, e) (join d x (o', f) y))) s s1"
    by (rule rb_at_color_set)
  have "rb_at s1 cs (join d t (p, c) (join d wi (b, c) (join d x (o', f) y)))" using 1(2) by (simp add: rb_at_Cons join_other)
  then obtain s2 where 2: "RB_COLOR_SET p RB_BLACK s1 = Some s2"
      "rb_at s2 cs (join d t (p, Black) (join d wi (b, c) (join d x (o', f) y)))"
      "only (nodes cs (join d t (p, c) (join d wi (b, c) (join d x (o', f) y)))) s1 s2"
    by (rule rb_at_black)
  have rb: "rb_at s2 ((other d, (p, Black), t) # cs) (join d wi (b, c) (join d x (o', f) y))"
    using 2(2) by (simp add: rb_at_Cons join_other)
  then have "rb_at s2 ((other d, (b, c), wi) # (other d, (p, Black), t) # cs) (join d x (o', f) y)"
    by (simp add: rb_at_Cons join_other)
  then obtain s3 where 3: "RB_COLOR_SET o' RB_BLACK s2 = Some s3"
      "rb_at s3 ((other d, (b, c), wi) # (other d, (p, Black), t) # cs) (join d x (o', Black) y)"
      "only (nodes ((other d, (b, c), wi) # (other d, (p, Black), t) # cs) (join d x (o', f) y)) s2 s3" and o: "o' \<noteq> 0"
    using rb_at_read(5) by (metis rb_at_black)
  have "rb_at s3 cs (join d t (p, Black) (join d wi (b, c) (join d x (o', Black) y)))"
    using 3(2) by (simp add: rb_at_Cons join_other)
  then obtain s4 where 4: "RB_ROTATE d p s3 = Some s4"
      "rb_at s4 cs (join d (join d t (p, Black) wi) (b, c) (join d x (o', Black) y))"
      "only (nodes cs (join d t (p, Black) (join d wi (b, c) (join d x (o', Black) y)))) s3 s4"
    by (rule rb_at_rotate)
  have "only ?N s s2" by (rule only_trans2 [OF 1(3) 2(3)]) (auto simp: nodes_def)
  then have "only ?N s s3" by (rule only_trans2 [OF _ 3(3)]) (auto simp: nodes_def)
  then have "only ?N s s4" by (rule only_trans2 [OF _ 4(3)]) (auto simp: nodes_def)
  moreover have "remove_color_finish d p b s = Some s4"
    using rb_at_read(4) [OF r] 1(1) 2(1) rb_at_read(2) [OF rb] 3(1) 4(1) o by (simp add: remove_color_finish_def)
  ultimately show ?thesis using that 4(2) by blast
qed

lemma remove_step_red:
  assumes r: "rb_at s cs (join d t (p, c) (join d wi (b, Red) wo))" and w: "color wi = Black" "wi \<noteq> Leaf"
  obtains s' where "remove_color_step d p s = remove_color_step d p s'"
    "rb_at s' ((d, (b, Black), wo) # cs) (join d t (p, Red) wi)"
    "only (nodes cs (join d t (p, c) (join d wi (b, Red) wo))) s s'"
proof -
  let ?N = "nodes cs (join d t (p, c) (join d wi (b, Red) wo))"
  have "rb_at s cs (join (other d) (join d wi (b, Red) wo) (p, c) t)" using r by (simp add: join_other)
  then obtain s1 where 1: "RB_SET_BLACKRED b p s = Some s1" "rb_at s1 cs (join (other d) (join d wi (b, Black) wo) (p, Red) t)"
      "only (nodes cs (join (other d) (join d wi (b, Red) wo) (p, c) t)) s s1"
    by (rule rb_at_blackred)
  have "rb_at s1 cs (join d t (p, Red) (join d wi (b, Black) wo))" using 1(2) by (simp add: join_other)
  then obtain s2 where 2: "RB_ROTATE d p s1 = Some s2" "rb_at s2 cs (join d (join d t (p, Red) wi) (b, Black) wo)"
      "only (nodes cs (join d t (p, Red) (join d wi (b, Black) wo))) s1 s2"
    by (rule rb_at_rotate)
  have r2: "rb_at s2 ((d, (b, Black), wo) # cs) (join d t (p, Red) wi)" using 2(2) by (simp add: rb_at_Cons)
  obtain a e x y where wi: "wi = join d x (a, e) y" using w(2) by (rule tree_cases_join)
  have "rb_at s ((other d, (p, c), t) # cs) (join d wi (b, Red) wo)"
    and "rb_at s2 ((other d, (p, Red), t) # (d, (b, Black), wo) # cs) (join d x (a, e) y)"
    using r r2 by (simp_all add: rb_at_Cons join_other wi)
  note R = rb_at_read(4) [OF this(1)] rb_at_read(4) [OF this(2)]
  have "remove_color_step d p s = remove_color_step d p s2"
    using rb_at_read(2) [OF r] R rb_at_read(2) [OF r2] 1(1) 2(1) w(1) by (simp add: remove_color_step_def wi)
  moreover have "only ?N s s2" by (rule only_trans2 [OF 1(3) 2(3)]) (auto simp: nodes_def)
  ultimately show ?thesis using that r2 by blast
qed

lemma remove_step_black:
  assumes r: "rb_at s cs (join d t (p, c) (join d wi (b, Black) wo))" and w: "color wi = Black" "color wo = Black"
  obtains s' where "remove_color_step d p s = Some (Inr (p, par cs), s')"
    "rb_at s' cs (join d t (p, c) (join d wi (b, Red) wo))"
    "only (nodes cs (join d t (p, c) (join d wi (b, Black) wo))) s s'"
proof -
  have rb: "rb_at s ((other d, (p, c), t) # cs) (join d wi (b, Black) wo)" using r by (simp add: rb_at_Cons join_other)
  then obtain s' where 1: "RB_COLOR_SET b RB_RED s = Some s'" "rb_at s' ((other d, (p, c), t) # cs) (join d wi (b, Red) wo)"
      "only (nodes ((other d, (p, c), t) # cs) (join d wi (b, Black) wo)) s s'"
    by (rule rb_at_red)
  have r': "rb_at s' cs (join d t (p, c) (join d wi (b, Red) wo))" using 1(2) by (simp add: rb_at_Cons join_other)
  have "rb_at s ((d, (b, Black), wo) # (other d, (p, c), t) # cs) wi"
    "rb_at s ((other d, (b, Black), wi) # (other d, (p, c), t) # cs) wo"
    using rb by (simp_all add: rb_at_Cons join_other)
  note B = rb_at_is_black [OF this(1)] rb_at_is_black [OF this(2)]
  have "remove_color_step d p s = Some (Inr (p, par cs), s')"
    using rb_at_read(2) [OF r] rb_at_read(1,2,4) [OF rb] B w 1(1) rb_at_read(3) [OF r'] by (simp add: remove_color_step_def)
  moreover have "only (nodes cs (join d t (p, c) (join d wi (b, Black) wo))) s s'"
    using 1(3) by (simp add: nodes_Cons join_other)
  ultimately show ?thesis using that r' by blast
qed

lemma remove_step_outer:
  assumes r: "rb_at s cs (join d t (p, c) (join d wi (b, Black) (join d x (o', Red) y)))"
  obtains s' where "remove_color_step d p s = Some (Inl (rbh_root s'), s')"
    "rb_at s' cs (join d (join d t (p, Black) wi) (b, c) (join d x (o', Black) y))"
    "only (nodes cs (join d t (p, c) (join d wi (b, Black) (join d x (o', Red) y)))) s s'"
proof -
  have rb: "rb_at s ((other d, (p, c), t) # cs) (join d wi (b, Black) (join d x (o', Red) y))"
    using r by (simp add: rb_at_Cons join_other)
  have "rb_at s ((d, (b, Black), join d x (o', Red) y) # (other d, (p, c), t) # cs) wi"
    "rb_at s ((other d, (b, Black), wi) # (other d, (p, c), t) # cs) (join d x (o', Red) y)"
    using rb by (simp_all add: rb_at_Cons join_other)
  note B = rb_at_is_black [OF this(1)] rb_at_is_black [OF this(2)]
  obtain s' where 1: "remove_color_finish d p b s = Some s'"
      "rb_at s' cs (join d (join d t (p, Black) wi) (b, c) (join d x (o', Black) y))"
      "only (nodes cs (join d t (p, c) (join d wi (b, Black) (join d x (o', Red) y)))) s s'"
    by (rule remove_finish [OF r])
  have "remove_color_step d p s = Some (Inl (rbh_root s'), s')"
    using rb_at_read(2) [OF r] rb_at_read(1,2,4) [OF rb] B 1(1) by (simp add: remove_color_step_def)
  then show ?thesis using that 1(2,3) by blast
qed

lemma remove_step_inner:
  assumes r: "rb_at s cs (join d t (p, c) (join d (join d x (i, Red) y) (b, Black) wo))" and w: "color wo = Black"
  obtains s' where "remove_color_step d p s = Some (Inl (rbh_root s'), s')"
    "rb_at s' cs (join d (join d t (p, Black) x) (i, c) (join d y (b, Black) wo))"
    "only (nodes cs (join d t (p, c) (join d (join d x (i, Red) y) (b, Black) wo))) s s'"
proof -
  let ?N = "nodes cs (join d t (p, c) (join d (join d x (i, Red) y) (b, Black) wo))" and ?cs = "(other d, (p, c), t) # cs"
  have rb: "rb_at s ?cs (join d (join d x (i, Red) y) (b, Black) wo)" using r by (simp add: rb_at_Cons join_other)
  then have ri: "rb_at s ((d, (b, Black), wo) # ?cs) (join d x (i, Red) y)"
    and ro: "rb_at s ((other d, (b, Black), join d x (i, Red) y) # ?cs) wo"
    by (simp_all add: rb_at_Cons join_other)
  note B = rb_at_is_black [OF ri] rb_at_is_black [OF ro]
  obtain s1 where 1: "RB_COLOR_SET i RB_BLACK s = Some s1" "rb_at s1 ((d, (b, Black), wo) # ?cs) (join d x (i, Black) y)"
      "only (nodes ((d, (b, Black), wo) # ?cs) (join d x (i, Red) y)) s s1"
    by (rule rb_at_black [OF ri])
  obtain s2 where 2: "RB_COLOR_SET b RB_RED s1 = Some s2" "rb_at s2 ?cs (join d (join d x (i, Black) y) (b, Red) wo)"
      "only (nodes ?cs (join d (join d x (i, Black) y) (b, Black) wo)) s1 s2"
    using 1(2) unfolding rb_at_Cons [of _ d] by (rule rb_at_red)
  have "rb_at s2 ?cs (join (other d) wo (b, Red) (join (other d) y (i, Black) x))" using 2(2) by (simp add: join_other)
  then obtain s3 where 3: "RB_ROTATE (other d) b s2 = Some s3"
      "rb_at s3 ?cs (join (other d) (join (other d) wo (b, Red) y) (i, Black) x)"
      "only (nodes ?cs (join (other d) wo (b, Red) (join (other d) y (i, Black) x))) s2 s3"
    by (rule rb_at_rotate)
  have r3: "rb_at s3 cs (join d t (p, c) (join d x (i, Black) (join d y (b, Red) wo)))"
    using 3(2) by (simp add: rb_at_Cons join_other)
  obtain s4 where 4: "remove_color_finish d p i s3 = Some s4"
      "rb_at s4 cs (join d (join d t (p, Black) x) (i, c) (join d y (b, Black) wo))"
      "only (nodes cs (join d t (p, c) (join d x (i, Black) (join d y (b, Red) wo)))) s3 s4"
    by (rule remove_finish [OF r3])
  have "only ?N s s2" by (rule only_trans2 [OF 1(3) 2(3)]) (auto simp: nodes_def)
  then have "only ?N s s3" by (rule only_trans2 [OF _ 3(3)]) (auto simp: nodes_def)
  then have "only ?N s s4" by (rule only_trans2 [OF _ 4(3)]) (auto simp: nodes_def)
  moreover have "remove_color_step d p s = Some (Inl (rbh_root s4), s4)"
    using rb_at_read(2) [OF r] rb_at_read(1,2,4) [OF rb] rb_at_read(5) [OF ri] B w 1(1) 2(1) 3(1) rb_at_read(2) [OF r3] 4(1)
    by (simp add: remove_color_step_def)
  ultimately show ?thesis using that 4(2) by blast
qed

subsection \<open>The loop\<close>

fun blacken :: "rbt \<Rightarrow> rbt" where
  "blacken Leaf = Leaf"
| "blacken (Node l x r) = Node l (fst x, Black) r"

text \<open>A subtree whose black height is one short of \<open>Suc n\<close>, unless its root is red and can be painted.\<close>

definition lacking :: "nat \<Rightarrow> rbt \<Rightarrow> bool" where
  "lacking n t \<longleftrightarrow> balanced (blacken t) \<and> bheight (blacken t) = (if color t = Black then n else Suc n)"

lemma blacken_simps [simp]:
  "blacken (join d t x u) = join d t (fst x, Black) u" "addrs (blacken t) = addrs t" "color (blacken t) = Black"
  "color t = Black \<Longrightarrow> blacken t = t" "nodes cs (blacken t) = nodes cs t"
  by (cases d; simp) (cases t; auto simp: nodes_def)+

lemma ctx_fits_root: "ctx_fits n cs \<Longrightarrow> cs \<noteq> [] \<Longrightarrow> color (plug cs t) = Black"
proof (induction n cs arbitrary: t rule: ctx_fits.induct)
  case (2 n d x u cs)
  then show ?case by (cases "cs = []"; cases "snd x") auto
qed simp

lemma REMOVE_COLOR_rec:
  "RB_REMOVE_COLOR parent elm s =
     do {
       black \<leftarrow> rb_is_black elm s;
       if \<not> (black \<and> elm \<noteq> rbh_root s) then (if elm \<noteq> 0 then RB_COLOR_SET elm RB_BLACK s else Some s)
       else
         do {
           l \<leftarrow> RB_LEFT parent s;
           (p, s) \<leftarrow> remove_color_step (if l = elm then LEFT_SIDE else RIGHT_SIDE) parent s;
           case p of
             Inl elm \<Rightarrow> (if elm \<noteq> 0 then RB_COLOR_SET elm RB_BLACK s else Some s)
           | Inr (elm, parent) \<Rightarrow> RB_REMOVE_COLOR parent elm s
         }
     }"
  unfolding RB_REMOVE_COLOR_def
  by (subst remove_color_loop.simps) (auto split: Option.bind_split sum.split)

text \<open>The loop ends at a red element, or at the root.\<close>

lemma remove_color_exit:
  assumes r: "rb_at s cs t" and t: "lacking n t" "ctx_fits (Suc n) cs" and e: "color t = Red \<or> cs = []"
  obtains s' t' where "RB_REMOVE_COLOR q (rtop t) s = Some s'" "rb_tree s' t'" "addrs t' = addrs (plug cs t)"
    "only (nodes cs t) s s'"
proof -
  have ex: "RB_REMOVE_COLOR q (rtop t) s = (if rtop t \<noteq> 0 then RB_COLOR_SET (rtop t) RB_BLACK s else Some s)"
    using rb_at_is_black [OF r] e r by (subst REMOVE_COLOR_rec) (auto simp: rb_at_def)
  show ?thesis
  proof (cases "t = Leaf")
    case True
    then show ?thesis using that [of s Leaf] ex e r by (auto simp: rb_tree_def)
  next
    case False
    then obtain a c l u where t': "t = join LEFT_SIDE l (a, c) u" by (rule tree_cases_join)
    obtain s' where 1: "RB_COLOR_SET a RB_BLACK s = Some s'" "rb_at s' cs (blacken t)" "only (nodes cs t) s s'"
      using rb_at_black [OF r [unfolded t']] unfolding t' blacken_simps fst_conv by metis
    have "cs = [] \<or> bheight (blacken t) = Suc n" using t(1) e by (auto simp: lacking_def)
    then have "balanced (plug cs (blacken t))" using t balanced_plug(1) [of "blacken t" cs] by (auto simp: lacking_def)
    moreover have "color (plug cs (blacken t)) = Black" using ctx_fits_root [OF t(2)] by (cases "cs = []") simp_all
    ultimately have "rb_tree s' (plug cs (blacken t))" using 1(2) rb_at_plug by (auto simp: rb_tree_def)
    moreover have "addrs (plug cs (blacken t)) = addrs (plug cs t)" by (intro addrs_plug_cong) simp
    ultimately show ?thesis using that 1 ex rb_at_read(5) [OF r [unfolded t']] by (simp add: t')
  qed
qed

lemma remove_color_root:
  assumes r: "rb_at s cs t" and t: "balanced t" "ctx_fits (bheight t) cs" "par_color cs = Red \<longrightarrow> color t = Black" "t \<noteq> Leaf"
  obtains s' t' where "(if rbh_root s \<noteq> 0 then RB_COLOR_SET (rbh_root s) RB_BLACK s else Some s) = Some s'" "rb_tree s' t'"
    "addrs t' = addrs (plug cs t)" "only (nodes cs t) s s'"
proof -
  have p: "rb_at s [] (plug cs t)" "balanced (plug cs t)" using r t balanced_plug(1) rb_at_plug by auto
  have "nodes cs t \<noteq> {}" using top_in [OF t(4)] by (auto simp: nodes_def)
  then have ne: "plug cs t \<noteq> Leaf" using set_addrs_plug [of cs t] by auto
  obtain s' t' where "RB_COLOR_SET (rbh_root s) RB_BLACK s = Some s'" "rb_tree s' t'" "addrs t' = addrs (plug cs t)"
      "only (set (addrs (plug cs t))) s s'"
    by (rule rb_black_root [OF p ne])
  moreover have "rbh_root s \<noteq> 0" using p(1) ne by (auto simp: rb_at_def top_zero)
  ultimately show ?thesis using that by (simp add: set_addrs_plug)
qed

text \<open>What a pass with a black sibling does: the lack moves up, or the tree is balanced.\<close>

lemma remove_pass:
  assumes r: "rb_at s cs (join d t (p, c) w)"
    and w: "color w = Black" "balanced w" "bheight w = Suc n" and t: "lacking n t" "color t = Black"
  shows "\<exists>s' t'. rb_at s' cs t' \<and> t' \<noteq> Leaf \<and> rtop t' \<in> nodes cs t' \<and> addrs t' = addrs (join d t (p, c) w) \<and>
    only (nodes cs (join d t (p, c) w)) s s' \<and> color t' = c \<and>
    (remove_color_step d p s = Some (Inr (rtop t', par cs), s') \<and> lacking (if c = Black then Suc n else n) t' \<or>
     remove_color_step d p s = Some (Inl (rbh_root s'), s') \<and> balanced t' \<and>
       bheight t' = Suc (if c = Black then Suc n else n))"
proof -
  have "w \<noteq> Leaf" using w(3) by auto
  then obtain b e wi wo where w': "w = join d wi (b, e) wo" by (rule tree_cases_join)
  have W: "e = Black" "balanced wi" "balanced wo" "bheight wi = n" "bheight wo = n"
    using w by (auto simp: w' balanced_join bheight_join)
  have T: "balanced t" "bheight t = n" using t by (simp_all add: lacking_def)
  consider "color wi = Black" "color wo = Black" | "color wo = Red" | "color wi = Red" "color wo = Black"
    by (metis rb_color.exhaust)
  then show ?thesis
  proof cases
    case 1
    obtain s' where s': "remove_color_step d p s = Some (Inr (p, par cs), s')"
        "rb_at s' cs (join d t (p, c) (join d wi (b, Red) wo))" "only (nodes cs (join d t (p, c) w)) s s'"
      using remove_step_black [OF r [unfolded w' W(1)] 1] by (metis w' W(1))
    have "lacking (if c = Black then Suc n else n) (join d t (p, c) (join d wi (b, Red) wo))"
      using W T 1 by (cases c) (simp_all add: lacking_def balanced_join bheight_join)
    moreover have "addrs (join d t (p, c) (join d wi (b, Red) wo)) = addrs (join d t (p, c) w)"
      unfolding w' by (intro addrs_join_cong refl)
    ultimately show ?thesis
      using s' by (intro exI [of _ s'] exI [of _ "join d t (p, c) (join d wi (b, Red) wo)"]) (simp add: nodes_join)
  next
    case 2
    then have "wo \<noteq> Leaf" by auto
    then obtain o' f x y where wo: "wo = join d x (o', f) y" by (rule tree_cases_join)
    have f: "f = Red" using 2 by (simp add: wo)
    let ?t = "join d (join d t (p, Black) wi) (b, c) (join d x (o', Black) y)"
    obtain s' where s': "remove_color_step d p s = Some (Inl (rbh_root s'), s')" "rb_at s' cs ?t"
        "only (nodes cs (join d t (p, c) w)) s s'"
      using remove_step_outer [OF r [unfolded w' W(1) wo f]] by (metis w' W(1) wo f)
    have "balanced ?t" "bheight ?t = (if c = Black then Suc (Suc n) else Suc n)"
      using W T by (auto simp: wo f balanced_join bheight_join)
    moreover have "addrs ?t = addrs (join d t (p, c) w)" by (cases d) (simp_all add: w' wo)
    ultimately show ?thesis
      using s' by (intro exI [of _ s'] exI [of _ ?t]) (simp add: nodes_join)
  next
    case 3
    then have "wi \<noteq> Leaf" by auto
    then obtain i f x y where wi: "wi = join d x (i, f) y" by (rule tree_cases_join)
    have f: "f = Red" using 3 by (simp add: wi)
    let ?t = "join d (join d t (p, Black) x) (i, c) (join d y (b, Black) wo)"
    obtain s' where s': "remove_color_step d p s = Some (Inl (rbh_root s'), s')" "rb_at s' cs ?t"
        "only (nodes cs (join d t (p, c) w)) s s'"
      using remove_step_inner [OF r [unfolded w' W(1) wi f] 3(2)] by (metis w' W(1) wi f)
    have "balanced ?t" "bheight ?t = (if c = Black then Suc (Suc n) else Suc n)"
      using W T by (auto simp: wi f balanced_join bheight_join)
    moreover have "addrs ?t = addrs (join d t (p, c) w)" by (cases d) (simp_all add: w' wi)
    ultimately show ?thesis
      using s' by (intro exI [of _ s'] exI [of _ ?t]) (simp add: nodes_join)
  qed
qed

definition after_pass :: "(ptr + ptr \<times> ptr) \<times> rb \<Rightarrow> rb option" where
  "after_pass x =
     (let (p, s) = x
      in case p of
           Inl elm \<Rightarrow> (if elm \<noteq> 0 then RB_COLOR_SET elm RB_BLACK s else Some s)
         | Inr (elm, parent) \<Rightarrow> RB_REMOVE_COLOR parent elm s)"

definition repaired :: "rb \<Rightarrow> ctx \<Rightarrow> rbt \<Rightarrow> rb option \<Rightarrow> bool" where
  "repaired s cs t x \<longleftrightarrow>
     (\<exists>s' t'. x = Some s' \<and> rb_tree s' t' \<and> addrs t' = addrs (plug cs t) \<and> only (nodes cs t) s s')"

lemma repaired_trans:
  assumes "repaired s' cs t' x" "addrs t' = addrs t" "only (nodes cs t) s s'"
  shows "repaired s cs t x"
proof -
  have "nodes cs t' = nodes cs t" using assms(2) by (simp add: nodes_def)
  then show ?thesis
    using assms addrs_plug_cong [OF assms(2), of cs] only_trans [OF assms(3)] unfolding repaired_def by metis
qed

lemma exit_repaired:
  assumes "rb_at s cs t" "lacking n t" "ctx_fits (Suc n) cs" "color t = Red \<or> cs = []"
  shows "repaired s cs t (RB_REMOVE_COLOR q (rtop t) s)"
  by (rule remove_color_exit [OF assms, of q]) (auto simp: repaired_def)

lemma root_repaired:
  assumes "rb_at s cs t" "balanced t" "ctx_fits (bheight t) cs" "par_color cs = Red \<longrightarrow> color t = Black" "t \<noteq> Leaf"
  shows "repaired s cs t (if rbh_root s \<noteq> 0 then RB_COLOR_SET (rbh_root s) RB_BLACK s else Some s)"
  by (rule remove_color_root [OF assms]) (auto simp: repaired_def)

lemma remove_pass_repaired:
  assumes r: "rb_at s cs (join d t (p, c) w)"
    and w: "color w = Black" "balanced w" "bheight w = Suc n" and t: "lacking n t" "color t = Black"
    and cs: "ctx_fits (if c = Black then Suc (Suc n) else Suc n) cs" "c = Red \<longrightarrow> par_color cs = Black"
    and IH: "\<And>t s n. c = Black \<Longrightarrow> rb_at s cs t \<Longrightarrow> lacking n t \<Longrightarrow> ctx_fits (Suc n) cs \<Longrightarrow>
      repaired s cs t (RB_REMOVE_COLOR (par cs) (rtop t) s)"
  shows "repaired s cs (join d t (p, c) w) (remove_color_step d p s \<bind> after_pass)"
proof -
  let ?n = "if c = Black then Suc n else n"
  obtain s' t' where 1: "rb_at s' cs t'" "t' \<noteq> Leaf" "addrs t' = addrs (join d t (p, c) w)"
      "only (nodes cs (join d t (p, c) w)) s s'" "color t' = c" and
    2: "remove_color_step d p s = Some (Inr (rtop t', par cs), s') \<and> lacking ?n t' \<or>
     remove_color_step d p s = Some (Inl (rbh_root s'), s') \<and> balanced t' \<and> bheight t' = Suc ?n"
    using remove_pass [OF r w t] by blast
  have fits: "ctx_fits (Suc ?n) cs" using cs(1) by (cases c) auto
  from 2 have "repaired s' cs t' (remove_color_step d p s \<bind> after_pass)"
  proof
    assume a: "remove_color_step d p s = Some (Inr (rtop t', par cs), s') \<and> lacking ?n t'"
    have "repaired s' cs t' (RB_REMOVE_COLOR (par cs) (rtop t') s')"
    proof (cases c)
      case Black
      then show ?thesis using IH 1(1) a fits by blast
    next
      case Red
      then have "color t' = Red \<or> cs = []" using 1(5) by simp
      then show ?thesis by (rule exit_repaired [OF 1(1) conjunct2 [OF a] fits])
    qed
    then show ?thesis using a by (simp add: after_pass_def)
  next
    assume a: "remove_color_step d p s = Some (Inl (rbh_root s'), s') \<and> balanced t' \<and> bheight t' = Suc ?n"
    then have "balanced t'" "ctx_fits (bheight t') cs" "par_color cs = Red \<longrightarrow> color t' = Black"
      using fits cs(2) 1(5) by (auto simp: not_Red)
    note root_repaired [OF 1(1) this 1(2)]
    then show ?thesis using a by (simp add: after_pass_def)
  qed
  then show ?thesis by (rule repaired_trans [OF _ 1(3,4)])
qed

lemma rb_at_elements: "rb_at s cs t \<Longrightarrow> a \<in> nodes cs t \<Longrightarrow> element a"
proof -
  assume "rb_at s cs t" and a: "a \<in> nodes cs t"
  then have "tree_at (rb_mem s) 0 (plug cs t)" unfolding rb_at_plug [of s cs t] by (simp add: rb_at_def)
  moreover have "a \<in> set (addrs (plug cs t))" using a unfolding set_addrs_plug .
  ultimately show ?thesis by (rule tree_at_element)
qed

lemma rb_at_not_root:
  assumes "rb_at s cs t" "cs \<noteq> []"
  shows "rtop t \<noteq> rbh_root s"
proof -
  have "rbh_root s \<in> set (ctx_addrs cs)" using assms ctx_root_in [OF assms(2), of "rtop t"] by (simp add: rb_at_def)
  then have "element (rbh_root s)" "rbh_root s \<notin> set (addrs t)"
    using assms(1) by (auto simp: nodes_def rb_at_def intro: rb_at_elements [OF assms(1)])
  then show ?thesis using top_in [of t] by (cases "t = Leaf") auto
qed

lemma remove_color_ok:
  "rb_at s cs t \<Longrightarrow> lacking n t \<Longrightarrow> ctx_fits (Suc n) cs \<Longrightarrow> repaired s cs t (RB_REMOVE_COLOR (par cs) (rtop t) s)"
proof (induction cs arbitrary: s t n)
  case Nil
  show ?case by (rule exit_repaired [OF Nil]) simp
next
  case (Cons f cs)
  obtain d x w where "f = (d, x, w)" by (cases f)
  moreover obtain p c where "x = (p, c)" by (cases x)
  ultimately have f: "f = (d, (p, c), w)" by simp
  show ?case
  proof (cases "color t")
    case Red
    then show ?thesis using exit_repaired [OF Cons.prems] by simp
  next
    case Black
    have r: "rb_at s cs (join d t (p, c) w)" using Cons.prems(1) by (simp add: f rb_at_Cons)
    have W: "balanced w" "bheight w = Suc n" "c = Red \<longrightarrow> color w = Black \<and> par_color cs = Black"
        "ctx_fits (if c = Black then Suc (Suc n) else Suc n) cs"
      using Cons.prems(3) by (simp_all add: f)
    have ne: "w \<noteq> Leaf" using W(2) by auto
    obtain l where l: "RB_LEFT p s = Some l" "l = rtop t \<longleftrightarrow> d = LEFT_SIDE"
      using rb_at_side [OF Cons.prems(1) [unfolded f]] ne by blast
    have side: "(if l = rtop t then LEFT_SIDE else RIGHT_SIDE) = d" using l(2) by (cases d) auto
    have "rtop t \<noteq> rbh_root s" by (rule rb_at_not_root [OF Cons.prems(1)]) simp
    then have rec: "RB_REMOVE_COLOR p (rtop t) s = remove_color_step d p s \<bind> after_pass"
      using rb_at_is_black [OF Cons.prems(1)] Black l(1) side
      by (subst REMOVE_COLOR_rec) (auto simp: after_pass_def Let_def split: Option.bind_split)
    have goal: "repaired s (f # cs) t x = repaired s cs (join d t (p, c) w) x" for x
      by (simp add: repaired_def f nodes_Cons)
    show ?thesis
    proof (cases "color w")
      case Black
      have "repaired s cs (join d t (p, c) w) (remove_color_step d p s \<bind> after_pass)"
        by (rule remove_pass_repaired [OF r Black W(1,2) Cons.prems(2) \<open>color t = Black\<close> W(4)]) (use W(3) Cons.IH in auto)
      then show ?thesis using rec goal by (simp add: f)
    next
      case Red
      obtain b e wi wo where w': "w = join d wi (b, e) wo" using ne by (rule tree_cases_join)
      have e: "e = Red" "c = Black" using Red W(3) by (auto simp: w')
      have I: "color wi = Black" "balanced wi" "bheight wi = Suc n" "balanced wo" "bheight wo = Suc n"
        using W(1,2) by (auto simp: w' e balanced_join bheight_join)
      then have "wi \<noteq> Leaf" by auto
      then obtain s1 where 1: "remove_color_step d p s = remove_color_step d p s1"
          "rb_at s1 ((d, (b, Black), wo) # cs) (join d t (p, Red) wi)" "only (nodes cs (join d t (p, c) w)) s s1"
        using remove_step_red [OF r [unfolded w' e] I(1)] by (metis w' e)
      let ?cs = "(d, (b, Black), wo) # cs"
      have "ctx_fits (if Red = Black then Suc (Suc n) else Suc n) ?cs" using I(4,5) W(4) by (simp add: e)
      then have rp: "repaired s1 ?cs (join d t (p, Red) wi) (remove_color_step d p s1 \<bind> after_pass)"
        by (intro remove_pass_repaired [OF 1(2) I(1,2,3) Cons.prems(2) \<open>color t = Black\<close>]) simp_all
      then have "repaired s1 cs (join d (join d t (p, Red) wi) (b, Black) wo) (remove_color_step d p s1 \<bind> after_pass)"
        by (simp add: repaired_def nodes_Cons)
      then have "repaired s cs (join d t (p, c) w) (remove_color_step d p s1 \<bind> after_pass)"
        by (rule repaired_trans [OF _ _ 1(3)]) (cases d; simp add: w')
      then show ?thesis using rec goal 1(1) by (simp add: f)
    qed
  qed
qed

subsection \<open>Taking an element out\<close>

lemma unlink_ok:
  assumes r: "rb_at s cs (join d t (a, c) Leaf)"
  obtains s' where "rb_unlink a (rtop t) s = Some (par cs, color_bit c, s')" "rb_at s' cs t"
    "only (nodes cs t) s s'"
proof -
  have T: "tree_at (rb_mem s) a t" "ctx_at (rb_mem s) a cs" "rbh_root s = ctx_root a cs" "element a" "distinct (addrs t)"
      "distinct (ctx_addrs cs)" "set (addrs t) \<inter> set (ctx_addrs cs) = {}" "a \<notin> set (addrs t)" "a \<notin> set (ctx_addrs cs)"
    using r by (auto simp: rb_at_def tree_at_join)
  note R = rb_at_read [OF r]
  obtain s1 where 1: "(if rtop t \<noteq> 0 then RB_PARENT_SET (rtop t) (par cs) s else Some s) = Some s1"
      "tree_at (rb_mem s1) (par cs) t" "only (set (addrs t)) s s1" "rbh_root s1 = rbh_root s"
    by (rule set_parent [OF T(1,5) elementD(2) [OF T(4)]])
  have "ctx_at (rb_mem s1) a cs" using T(2,7) ctx_at_only [OF 1(3), of cs a] by (simp add: Int_commute)
  then obtain s2 where 2: "rb_relink (par cs) a (rtop t) s1 = Some s2" "ctx_at (rb_mem s2) (rtop t) cs"
      "rbh_root s2 = ctx_root (rtop t) cs" "only (set (ctx_addrs cs)) s1 s2"
    using relink [of s1 a cs "rtop t"] 1(4) T elementD(1) [OF T(4)] by metis
  have "rb_at s2 cs t" using 1(2) 2(2,3) T(5,6,7) tree_at_only [OF 2(4), of t "par cs"] by (simp add: rb_at_def)
  moreover have "only (nodes cs t) s s2" by (rule only_trans2 [OF 1(3) 2(4)]) (auto simp: nodes_def)
  moreover have "rb_unlink a (rtop t) s = Some (par cs, color_bit c, s2)"
    using R(3,4) 1(1) 2(1) unfolding rb_unlink_def by (simp only: Option.bind.bind_lunit)
  ultimately show ?thesis by (rule that [rotated])
qed

lemma replace_ok:
  assumes r: "rb_at s cs (Node l (a, c) r)" and e: "element e" "e \<notin> nodes cs (Node l (a, c) r)" "rb_mem s e \<noteq> None"
    and l: "l \<noteq> Leaf"
  obtains s' where "rb_replace a e s = Some s'" "rb_at s' cs (Node l (e, c) r)"
    "only (insert e (nodes cs (Node l (a, c) r))) s s'"
proof -
  let ?N = "insert e (nodes cs (Node l (a, c) r))"
  have T: "tree_at (rb_mem s) a l" "tree_at (rb_mem s) a r" "ctx_at (rb_mem s) a cs" "rbh_root s = ctx_root a cs" "element a"
      "distinct (addrs l)" "distinct (addrs r)" "distinct (ctx_addrs cs)" "set (addrs l) \<inter> set (addrs r) = {}"
      "set (addrs l) \<inter> set (ctx_addrs cs) = {}" "set (addrs r) \<inter> set (ctx_addrs cs) = {}"
      "a \<notin> set (addrs l)" "a \<notin> set (addrs r)" "a \<notin> set (ctx_addrs cs)" "rb_mem s a = Some (entry LEFT_SIDE (rtop l) (rtop r) (par cs) c)"
    using r by (auto simp: rb_at_def)
  have ne: "a \<noteq> e" "e \<notin> set (addrs l)" "e \<notin> set (addrs r)" "e \<notin> set (ctx_addrs cs)" using e(2) by (auto simp: nodes_def)
  have al: "par cs AND 1 = 0" using T(3) by (rule par_aligned)
  have lt: "rtop l \<noteq> 0" using l T(1) top_zero by blast
  define s1 where "s1 = s\<lparr>rb_mem := (rb_mem s)(e \<mapsto> entry LEFT_SIDE (rtop l) (rtop r) (par cs) c)\<rparr>"
  have s1: "rb_update e (\<lambda>_. entry LEFT_SIDE (rtop l) (rtop r) (par cs) c) s = Some s1"
    using e by (auto simp: rb_update_element s1_def)
  have "ctx_at (rb_mem s1) a cs" "rbh_root s1 = ctx_root a cs" using T(3,4) ne by (simp_all add: s1_def)
  then obtain s2 where 2: "rb_relink (par cs) a e s1 = Some s2" "ctx_at (rb_mem s2) e cs" "rbh_root s2 = ctx_root e cs"
      "only (set (ctx_addrs cs)) s1 s2"
    using relink [of s1 a cs e] T(8,14) elementD(1) [OF T(5)] by metis
  have t2: "tree_at (rb_mem s2) p u = tree_at (rb_mem s) p u" if "set (addrs u) \<inter> set (ctx_addrs cs) = {}" "e \<notin> set (addrs u)" for p u
    using that tree_at_only [OF 2(4), of u p] by (simp add: s1_def)
  obtain s3 where 3: "(if rtop l \<noteq> 0 then RB_PARENT_SET (rtop l) e s2 else Some s2) = Some s3"
      "tree_at (rb_mem s3) e l" "only (set (addrs l)) s2 s3" "rbh_root s3 = rbh_root s2"
    by (rule set_parent [OF _ T(6) elementD(2) [OF T(5)], of s2 e]) (use T(1,10) ne t2 in simp)
  have "tree_at (rb_mem s3) a r" using T(2,9,11) ne t2 tree_at_only [OF 3(3), of r a] by (simp add: Int_commute)
  then obtain s4 where 4: "(if rtop r \<noteq> 0 then RB_PARENT_SET (rtop r) e s3 else Some s3) = Some s4"
      "tree_at (rb_mem s4) e r" "only (set (addrs r)) s3 s4" "rbh_root s4 = rbh_root s3"
    by (rule set_parent [OF _ T(7) elementD(2) [OF T(5)], of s3 e])
  have ae: "rb_mem s1 a = rb_mem s a" "rb_mem s2 a = rb_mem s a" "rb_mem s3 a = rb_mem s a"
    using onlyD [OF 2(4), of a] onlyD [OF 3(3), of a] T(12,14) ne(1) by (simp_all add: s1_def)
  have E: "rbe_left (entry LEFT_SIDE x y p f) = x" "rbe_right (entry LEFT_SIDE x y p f) = y" for x y p f by simp_all
  have "rb_replace a e s = Some s4"
    using T(5,15) s1 ae al 2(1) 3(1) 4(1) lt
    by (simp add: rb_replace_def rb_entry_at_def RB_PARENT_GET_def RB_CHILD_def elementD E del: entry.simps)
  moreover have "rb_at s4 cs (Node l (e, c) r)"
  proof -
    have "rb_mem s4 e = Some (entry LEFT_SIDE (rtop l) (rtop r) (par cs) c)"
      using onlyD [OF 2(4), of e] onlyD [OF 3(3), of e] onlyD [OF 4(3), of e] ne by (simp add: s1_def)
    moreover have "tree_at (rb_mem s4) e l" using 3(2) T(9) tree_at_only [OF 4(3), of l e] by simp
    moreover have "ctx_at (rb_mem s4) e cs"
      using 2(2) T(10,11) ctx_at_only [OF 3(3), of cs e] ctx_at_only [OF 4(3), of cs e] by (simp add: Int_commute)
    ultimately show ?thesis using 2(3) 3(4) 4(2,4) T(6-14) ne e(1) by (auto simp: rb_at_def)
  qed
  moreover have "only ?N s s4"
  proof -
    have "only ?N s s1" by (simp add: s1_def only_def)
    then have "only ?N s s2" by (rule only_trans2 [OF _ 2(4)]) (auto simp: nodes_def)
    then have "only ?N s s3" by (rule only_trans2 [OF _ 3(3)]) (auto simp: nodes_def)
    then show ?thesis by (rule only_trans2 [OF _ 4(3)]) (auto simp: nodes_def)
  qed
  ultimately show ?thesis by (rule that)
qed

subsection \<open>The successor\<close>

lemma plug_append [simp]: "plug (ds @ cs) t = plug cs (plug ds t)"
  by (induction ds t rule: plug.induct) simp_all

lemma last_ok:
  assumes "tree_at (rb_mem s) p t" "t \<noteq> Leaf"
  shows "\<exists>ds x u. t = plug ds (join d Leaf x u) \<and> (\<forall>f \<in> set ds. fst f = d) \<and> rb_last d (rtop t) s = Some (fst x)"
  using assms
proof (induction "size t" arbitrary: p t rule: less_induct)
  case less
  obtain a c t1 u where t: "t = join d t1 (a, c) u" using less.prems(2) by (rule tree_cases_join)
  have tr: "tree_at (rb_mem s) a t1" "element a" "RB_CHILD d a s = Some (rtop t1)"
    using less.prems(1) unfolding t tree_at_join by (simp_all add: RB_CHILD_def rb_entry_at_def elementD)
  show ?case
  proof (cases "t1 = Leaf")
    case True
    have "rb_last d (rtop t) s = Some a" using tr(3) by (subst rb_last.simps) (simp add: t True)
    then show ?thesis by (intro exI [of _ "[]"] exI [of _ "(a, c)"] exI [of _ u]) (simp add: t True)
  next
    case False
    have "rb_last d (rtop t) s = rb_last d (rtop t1) s"
      using tr(3) top_zero [OF tr(1)] False by (subst rb_last.simps) (simp add: t)
    moreover have "size t1 < size t" by (cases d) (simp_all add: t)
    then obtain ds x v where "t1 = plug ds (join d Leaf x v)" "\<forall>f \<in> set ds. fst f = d" "rb_last d (rtop t1) s = Some (fst x)"
      using less.hyps [OF _ tr(1) False] by blast
    ultimately show ?thesis
      by (intro exI [of _ "ds @ [(d, (a, c), u)]"] exI [of _ x] exI [of _ v]) (auto simp: t)
  qed
qed

lemma augment_up_ok: "rb_at s cs t \<Longrightarrow> t \<noteq> Leaf \<Longrightarrow> rb_augment_up (rtop t) s = Some ()"
proof (induction cs arbitrary: t)
  case Nil
  then show ?case using rb_at_parent [OF Nil] by (subst rb_augment_up.simps) simp
next
  case (Cons f cs)
  obtain d x u where f: "f = (d, x, u)" by (cases f)
  have "rb_at s cs (join d t x u)" using Cons.prems(1) by (simp add: f rb_at_Cons)
  then have "rb_augment_up (fst x) s = Some ()" using Cons.IH [of "join d t x u"] by simp
  then show ?case
    using rb_at_parent [OF Cons.prems] by (subst rb_augment_up.simps) (simp add: f)
qed

subsection \<open>The whole removal\<close>

lemma focus_on:
  assumes "a \<in> set (addrs t)"
  obtains cs l c r where "t = plug cs (Node l (a, c) r)"
  using assms
proof (induction t arbitrary: thesis)
  case (Node l x r)
  consider "a \<in> set (addrs l)" | "a = fst x" | "a \<in> set (addrs r)" using Node.prems(2) by auto
  then show ?case
  proof cases
    case 1
    then obtain cs u c v where "l = plug cs (Node u (a, c) v)" using Node.IH(1) by blast
    then show ?thesis using Node.prems(1) [of "cs @ [(LEFT_SIDE, x, r)]" u c v] by simp
  next
    case 2
    then show ?thesis using Node.prems(1) [of "[]" l "snd x" r] by simp
  next
    case 3
    then obtain cs u c v where "r = plug cs (Node u (a, c) v)" using Node.IH(2) by blast
    then show ?thesis using Node.prems(1) [of "cs @ [(RIGHT_SIDE, x, l)]" u c v] by simp
  qed
qed simp

text \<open>The colours after the element of a subtree without a second child is gone.\<close>

lemma unlinked_repaired:
  assumes r: "rb_at s cs t" and b: "balanced (join d t (a, c) Leaf)" "ctx_fits (bheight (join d t (a, c) Leaf)) cs"
      "par_color cs = Red \<longrightarrow> c = Black" "cs = [] \<longrightarrow> c = Black"
  shows "repaired s cs t (if color_bit c = RB_BLACK then RB_REMOVE_COLOR (par cs) (rtop t) s else Some s)"
proof (cases c)
  case Black
  have "balanced t" "bheight t = 0" using b(1) by (simp_all add: balanced_join)
  then have "lacking 0 t" by (cases t) (auto simp: lacking_def split: if_splits)
  moreover have "ctx_fits (Suc 0) cs" using b(1,2) Black by (simp add: balanced_join bheight_join)
  ultimately show ?thesis using remove_color_ok [OF r] Black by simp
next
  case Red
  have t: "balanced t" "bheight t = 0" "color t = Black" "ctx_fits (bheight t) cs" using b(1,2) Red by (simp_all add: balanced_join bheight_join)
  then have "balanced (plug cs t)" by (intro balanced_plug(1)) simp_all
  moreover have "color (plug cs t) = Black" using ctx_fits_root [OF t(4)] b(4) Red by auto
  ultimately have "rb_tree s (plug cs t)" using r rb_at_plug by (auto simp: rb_tree_def)
  then show ?thesis using Red by (auto simp: repaired_def)
qed

lemma remove_one:
  assumes r: "rb_at s cs (join d t (a, c) Leaf)" and b: "balanced (plug cs (join d t (a, c) Leaf))"
      "color (plug cs (join d t (a, c) Leaf)) = Black"
  shows "repaired s cs t
    (do { (parent, color, s) \<leftarrow> rb_unlink a (rtop t) s; if color = RB_BLACK then RB_REMOVE_COLOR parent (rtop t) s else Some s })"
proof -
  obtain s1 where 1: "rb_unlink a (rtop t) s = Some (par cs, color_bit c, s1)" "rb_at s1 cs t" "only (nodes cs t) s s1"
    by (rule unlink_ok [OF r])
  have B: "balanced (join d t (a, c) Leaf)" "ctx_fits (bheight (join d t (a, c) Leaf)) cs" "par_color cs = Red \<longrightarrow> c = Black"
    using balanced_plug(2) [OF b] by simp_all
  have "cs = [] \<longrightarrow> c = Black" using b(2) by auto
  from unlinked_repaired [OF 1(2) B this] have "repaired s1 cs t (if color_bit c = RB_BLACK then RB_REMOVE_COLOR (par cs) (rtop t) s1 else Some s1)" .
  then show ?thesis using repaired_trans [OF _ refl 1(3)] 1(1) by simp
qed

lemma ctx_rename:
  "ctx_fits n (ds @ (d, (a, c), u) # cs) = ctx_fits n (ds @ (d, (e, c), u) # cs)"
  "par_color (ds @ (d, (a, c), u) # cs) = par_color (ds @ (d, (e, c), u) # cs)"
proof (induction n ds rule: ctx_fits.induct)
  case (2 n d' x v ds)
  {
    case 1
    then show ?case using 2 by simp
  next
    case 2
    then show ?case by simp
  }
qed simp_all

lemma ctx_append:
  "before (ds @ cs) = before cs @ before ds" "behind (ds @ cs) = behind ds @ behind cs"
  by (induction ds rule: before.induct) simp_all

lemma before_left: "\<forall>f \<in> set ds. fst f = LEFT_SIDE \<Longrightarrow> before ds = []"
  by (induction ds rule: before.induct) auto

definition removed :: "rb \<Rightarrow> ctx \<Rightarrow> rbt \<Rightarrow> ptr \<Rightarrow> rbt \<Rightarrow> bool" where
  "removed s cs l a r \<longleftrightarrow>
     (\<exists>s' t'. RB_REMOVE a s = Some (a, s') \<and> rb_tree s' t' \<and>
        addrs t' = before cs @ addrs l @ addrs r @ behind cs \<and>
        only (insert a (set (before cs @ addrs l @ addrs r @ behind cs))) s s')"

lemma nodes_ctx: "nodes cs t = set (before cs @ addrs t @ behind cs)"
  using set_addrs_plug [of cs t] by (simp add: addrs_plug)

lemma remove_leaf:
  assumes r: "rb_at s cs (Node l (a, c) r)" and b: "balanced (plug cs (Node l (a, c) r))" "color (plug cs (Node l (a, c) r)) = Black"
    and l: "l = Leaf \<or> r = Leaf"
  shows "removed s cs l a r"
proof -
  define d t where "d = (if l = Leaf then RIGHT_SIDE else LEFT_SIDE)" and "t = (if l = Leaf then r else l)"
  have T: "Node l (a, c) r = join d t (a, c) Leaf" using l by (auto simp: d_def t_def)
  have tr: "tree_at (rb_mem s) (par cs) (Node l (a, c) r)" using r by (simp add: rb_at_def)
  then have top: "rtop l = 0 \<longleftrightarrow> l = Leaf" "rtop r = 0 \<longleftrightarrow> r = Leaf" using top_zero [of "rb_mem s" a] by auto
  have R: "RB_LEFT a s = Some (rtop l)" "RB_RIGHT a s = Some (rtop r)"
    using rb_at_read(1,2) [of s cs LEFT_SIDE l a c r] r by simp_all
  have child: "(if rtop l = 0 then rtop r else rtop l) = rtop t" using top by (simp add: t_def)
  obtain s' t' where 1: "(do { (parent, color, s) \<leftarrow> rb_unlink a (rtop t) s;
        if color = RB_BLACK then RB_REMOVE_COLOR parent (rtop t) s else Some s }) = Some s'"
      "rb_tree s' t'" "addrs t' = addrs (plug cs t)" "only (nodes cs t) s s'"
    using remove_one [OF r [unfolded T]] b unfolding T repaired_def by blast
  have "RB_REMOVE a s = Some (a, s')"
    using R top l child 1(1) by (auto simp: RB_REMOVE_def bind_eq_Some_conv split: prod.splits)
  moreover have "addrs t = addrs l @ addrs r" using l by (auto simp: t_def)
  ultimately show ?thesis
    using 1(2-4) unfolding removed_def by (auto simp: addrs_plug nodes_ctx intro: only_mono)
qed

lemma remove_two:
  assumes r: "rb_at s cs (Node l (a, c) r)" and b: "balanced (plug cs (Node l (a, c) r))" "color (plug cs (Node l (a, c) r)) = Black"
    and ne: "l \<noteq> Leaf" "r \<noteq> Leaf"
  shows "removed s cs l a r"
proof -
  have tr: "tree_at (rb_mem s) a r" "tree_at (rb_mem s) a l" using r by (simp_all add: rb_at_def)
  then have top: "rtop l \<noteq> 0" "rtop r \<noteq> 0" using ne top_zero by blast+
  have R: "RB_LEFT a s = Some (rtop l)" "RB_RIGHT a s = Some (rtop r)"
    using rb_at_read(1,2) [of s cs LEFT_SIDE l a c r] r by simp_all
  obtain ds x u where L: "r = plug ds (join LEFT_SIDE Leaf x u)" "\<forall>f \<in> set ds. fst f = LEFT_SIDE"
      "rb_last LEFT_SIDE (rtop r) s = Some (fst x)"
    using last_ok [OF tr(1) ne(2)] by blast
  obtain e k where x: "x = (e, k)" by (cases x)
  let ?cs = "\<lambda>a. ds @ (RIGHT_SIDE, (a, c), l) # cs"
  have p: "plug cs (Node l (a, c) r) = plug (?cs a) (join RIGHT_SIDE u (e, k) Leaf)" by (simp add: L(1) x)
  have r1: "rb_at s (?cs a) (join RIGHT_SIDE u (e, k) Leaf)" using r rb_at_plug [of s cs] rb_at_plug [of s "?cs a"] p by simp
  obtain s1 where 1: "rb_unlink e (rtop u) s = Some (par (?cs a), color_bit k, s1)" "rb_at s1 (?cs a) u"
      "only (nodes (?cs a) u) s s1"
    by (rule unlink_ok [OF r1])
  have e: "e \<notin> nodes (?cs a) u" "element e" "rb_mem s e \<noteq> None"
    using r1 rb_at_entry(1,2) [OF r1] by (auto simp: rb_at_def nodes_def rb_entry_at_def split: if_splits)
  have me: "rb_mem s1 e = rb_mem s e" using onlyD [OF 1(3) e(1)] .
  have up: "RB_PARENT_GET e s1 = Some (par (?cs a))"
    using rb_at_read(3,5) [OF r1] me by (simp add: RB_PARENT_GET_def rb_entry_at_def)
  have r2: "rb_at s1 cs (Node l (a, c) (plug ds u))" using 1(2) rb_at_plug [of s1 cs] rb_at_plug [of s1 "?cs a"] by simp
  have n2: "nodes cs (Node l (a, c) (plug ds u)) = nodes (?cs a) u"
    using set_addrs_plug [of cs "Node l (a, c) (plug ds u)"] set_addrs_plug [of "?cs a" u] by simp
  obtain s2 where 2: "rb_replace a e s1 = Some s2" "rb_at s2 cs (Node l (e, c) (plug ds u))"
      "only (insert e (nodes cs (Node l (a, c) (plug ds u)))) s1 s2"
    by (rule replace_ok [OF r2]) (use e me n2 ne(1) in auto)
  have r3: "rb_at s2 (?cs e) u" using 2(2) rb_at_plug [of s2 cs] rb_at_plug [of s2 "?cs e"] by simp
  have "par (?cs a) = a \<longleftrightarrow> ds = []"
  proof (cases ds rule: par.cases)
    case (2 d' y v ds')
    moreover have "distinct (ctx_addrs (?cs a))" using r1 by (simp add: rb_at_def)
    moreover have "a \<in> set (ctx_addrs (ds' @ (RIGHT_SIDE, (a, c), l) # cs))" by (induction ds' rule: ctx_addrs.induct) auto
    ultimately show ?thesis by auto
  qed simp
  then have par: "(if par (?cs a) = a then e else par (?cs a)) = par (?cs e)" by (cases ds rule: par.cases) simp_all
  have aug: "rb_augment_up (par (?cs e)) s2 = Some ()" "par (?cs e) \<noteq> 0"
  proof -
    obtain d' y v cs' where c: "?cs e = (d', y, v) # cs'" by (cases "?cs e" rule: par.cases) auto
    have "rb_at s2 cs' (join d' u y v)" using r3 unfolding c by (simp add: rb_at_Cons)
    then show "rb_augment_up (par (?cs e)) s2 = Some ()" using augment_up_ok [of s2 cs' "join d' u y v"] by (simp add: c)
    show "par (?cs e) \<noteq> 0" using rb_at_par [OF r3] by simp
  qed
  have B: "balanced (join RIGHT_SIDE u (e, k) Leaf)" "ctx_fits (bheight (join RIGHT_SIDE u (e, k) Leaf)) (?cs e)"
      "par_color (?cs e) = Red \<longrightarrow> k = Black" "?cs e = [] \<longrightarrow> k = Black"
    using balanced_plug(2) [OF b [unfolded p]] ctx_rename(1) [of _ ds RIGHT_SIDE a c l cs e]
      ctx_rename(2) [of ds RIGHT_SIDE a c l cs e] by simp_all
  obtain s3 t' where 3: "(if color_bit k = RB_BLACK then RB_REMOVE_COLOR (par (?cs e)) (rtop u) s2 else Some s2) = Some s3"
      "rb_tree s3 t'" "addrs t' = addrs (plug (?cs e) u)" "only (nodes (?cs e) u) s2 s3"
    using unlinked_repaired [OF r3 B] unfolding repaired_def by blast
  have child: "RB_RIGHT e s = Some (rtop u)" using rb_at_read(1) [OF r1] .
  have "RB_REMOVE a s = Some (a, s3)"
    using R top L(3) child 1(1) up par 2(1) aug 3(1) by (simp add: RB_REMOVE_def x)
  moreover have a: "addrs t' = before cs @ addrs l @ addrs r @ behind cs"
    using 3(3) before_left [OF L(2)] unfolding addrs_plug L(1) by (simp add: ctx_append x)
  moreover have "only (insert a (set (before cs @ addrs l @ addrs r @ behind cs))) s s3"
  proof -
    let ?N = "insert a (set (before cs @ addrs l @ addrs r @ behind cs))"
    have n: "nodes (?cs a) u \<subseteq> ?N" "nodes (?cs e) u \<subseteq> ?N" "e \<in> ?N"
      using before_left [OF L(2)] unfolding nodes_ctx L(1) addrs_plug by (auto simp: ctx_append x)
    then have "only ?N s s2" by (intro only_trans2 [OF 1(3) 2(3)]) (simp_all add: n2)
    then show ?thesis by (rule only_trans2 [OF _ 3(4)]) (use n(2) in simp_all)
  qed
  ultimately show ?thesis using 3(2) unfolding removed_def by blast
qed

lemma remove_ok:
  assumes t: "rb_tree s t" "a \<in> set (addrs t)"
  obtains s' t' xs ys where "RB_REMOVE a s = Some (a, s')" "rb_tree s' t'" "addrs t = xs @ a # ys" "addrs t' = xs @ ys"
    "only (set (addrs t)) s s'"
proof -
  obtain cs l c r where f: "t = plug cs (Node l (a, c) r)" using t(2) by (rule focus_on)
  have r: "rb_at s cs (Node l (a, c) r)" using t(1) rb_at_plug by (auto simp: rb_tree_def f)
  have b: "balanced (plug cs (Node l (a, c) r))" "color (plug cs (Node l (a, c) r)) = Black" using t(1) by (auto simp: rb_tree_def f)
  have "removed s cs l a r" using remove_leaf [OF r b] remove_two [OF r b] by blast
  moreover have "addrs t = (before cs @ addrs l) @ a # (addrs r @ behind cs)" by (simp add: f addrs_plug)
  moreover from this have "insert a (set (before cs @ addrs l @ addrs r @ behind cs)) = set (addrs t)" by auto
  ultimately show ?thesis using that unfolding removed_def by (metis append.assoc)
qed

end
