(* ===== verification/Rb_Tree_Walk.thy ===== *)
theory Rb_Tree_Walk
  imports Rb_Tree_Remove
begin

section \<open>Walking through a tree in memory\<close>

text \<open>
  The first and the last element, the next and the previous one, and the loops over all elements, in the
  order of the tree or in its reverse.
\<close>

definition directed :: "side \<Rightarrow> ptr list \<Rightarrow> ptr list" where
  "directed d xs = (if d = LEFT_SIDE then xs else rev xs)"

fun front :: "ptr list \<Rightarrow> ptr" where
  "front [] = 0"
| "front (a # xs) = a"

fun ahead :: "side \<Rightarrow> ctx \<Rightarrow> ptr list" where
  "ahead d [] = []"
| "ahead d ((e, x, u) # cs) = (if e = d then fst x # directed d (addrs u) @ ahead d cs else ahead d cs)"

fun passed :: "side \<Rightarrow> ctx \<Rightarrow> ptr list" where
  "passed d [] = []"
| "passed d ((e, x, u) # cs) = (if e = d then passed d cs else passed d cs @ directed d (addrs u) @ [fst x])"

lemma directed_simps [simp]: "directed d [] = []" "set (directed d xs) = set xs" "distinct (directed d xs) = distinct xs"
  by (simp_all add: directed_def)

lemma directed_join [simp]:
  "directed d (addrs (join d t x u)) = directed d (addrs t) @ fst x # directed d (addrs u)"
  by (cases d) (simp_all add: directed_def)

lemma directed_join_other:
  "e \<noteq> d \<Longrightarrow> directed d (addrs (join e t x u)) = directed d (addrs u) @ fst x # directed d (addrs t)"
  using directed_join [of d u x t] by (cases e; cases d) simp_all

lemma directed_plug: "directed d (addrs (plug cs t)) = passed d cs @ directed d (addrs t) @ ahead d cs"
proof (induction cs arbitrary: t)
  case (Cons f cs)
  obtain e x u where f: "f = (e, x, u)" by (cases f)
  show ?case using Cons.IH [of "join e t x u"] by (cases "e = d") (simp_all add: f directed_join_other)
qed simp

lemma minmax_from:
  assumes "tree_at (rb_mem s) p t"
  shows "rb_minmax_from d (rtop t) q s = Some (front (directed d (addrs t) @ [q]))"
  using assms
proof (induction "size t" arbitrary: p t q rule: less_induct)
  case less
  show ?case
  proof (cases "t = Leaf")
    case True
    then show ?thesis by (subst rb_minmax_from.simps) simp
  next
    case False
    then obtain a c t1 u where t: "t = join d t1 (a, c) u" by (rule tree_cases_join)
    have tr: "tree_at (rb_mem s) a t1" "element a" "RB_CHILD d a s = Some (rtop t1)"
      using less.prems unfolding t tree_at_join by (simp_all add: RB_CHILD_def rb_entry_at_def elementD)
    have "size t1 < size t" by (cases d) (simp_all add: t)
    from less.hyps [OF this tr(1), of a] show ?thesis
      using tr(2,3) by (subst rb_minmax_from.simps) (cases "directed d (addrs t1)"; simp add: t elementD)
  qed
qed

lemma minmax_ok: "rb_tree s t \<Longrightarrow> RB_MINMAX d s = Some (front (directed d (addrs t)))"
  using minmax_from [of s 0 t d 0] rb_tree_root [of s t]
  by (cases "directed d (addrs t)") (auto simp: RB_MINMAX_def rb_tree_def rb_at_def)

lemma climb_ok: "rb_at s cs t \<Longrightarrow> t \<noteq> Leaf \<Longrightarrow> rb_climb (other d) (rtop t) s = Some (front (ahead d cs))"
proof (induction cs arbitrary: t)
  case Nil
  then show ?case using rb_at_parent [OF Nil] by (subst rb_climb.simps) simp
next
  case (Cons f cs)
  obtain e x u where "f = (e, x, u)" by (cases f)
  moreover obtain a c where "x = (a, c)" by (cases x)
  ultimately have f: "f = (e, (a, c), u)" by simp
  have r: "rb_at s cs (join e t (a, c) u)" using Cons.prems(1) by (simp add: f rb_at_Cons)
  note R = rb_at_read [OF r] and P = rb_at_parent [OF Cons.prems, unfolded f par.simps fst_conv]
  show ?case
  proof (cases "e = d")
    case True
    have "rtop t \<noteq> rtop u" using rb_at_siblings [OF r] Cons.prems(2) by blast
    then show ?thesis using R(2,5) P True by (subst rb_climb.simps) (simp add: f)
  next
    case False
    then have e: "e = other d" by (cases e; cases d) auto
    have "rb_climb (other d) a s = Some (front (ahead d cs))" using Cons.IH [OF r] by simp
    then show ?thesis using R(1,5) P False by (subst rb_climb.simps) (simp add: f e)
  qed
qed

lemma front_last:
  assumes "tree_at (rb_mem s) p t" "t \<noteq> Leaf"
  shows "rb_last d (rtop t) s = Some (front (directed d (addrs t)))"
proof -
  obtain ds x u where "t = plug ds (join d Leaf x u)" "\<forall>f \<in> set ds. fst f = d" "rb_last d (rtop t) s = Some (fst x)"
    using last_ok [OF assms, of d] by blast
  moreover have "passed d ds = []" if "\<forall>f \<in> set ds. fst f = d" using that by (induction d ds rule: passed.induct) auto
  ultimately show ?thesis by (simp add: directed_plug)
qed

lemma step_ok:
  assumes t: "rb_tree s t" and xs: "directed d (addrs t) = xs @ a # ys"
  shows "RB_STEP (other d) a s = Some (front ys)"
proof -
  have "a \<in> set (directed d (addrs t))" unfolding xs by simp
  then have "a \<in> set (addrs t)" by simp
  then obtain cs l c r where f: "t = plug cs (Node l (a, c) r)" by (rule focus_on)
  obtain a' c' A B where j: "Node l (a, c) r = join d A (a', c') B" by (rule tree_cases_join [of "Node l (a, c) r" d]) simp
  then have j: "Node l (a, c) r = join d A (a, c) B" by (cases d) simp_all
  have r: "rb_at s cs (join d A (a, c) B)" using t rb_at_plug by (auto simp: rb_tree_def f j)
  have "distinct (addrs t)" using t by (simp add: rb_tree_def rb_at_def)
  then have dist: "distinct (xs @ a # ys)" using xs by (metis directed_simps(3))
  have eq: "xs @ a # ys = (passed d cs @ directed d (addrs A)) @ a # (directed d (addrs B) @ ahead d cs)"
    unfolding xs [symmetric] f j directed_plug by simp
  moreover have "distinct ((passed d cs @ directed d (addrs A)) @ a # (directed d (addrs B) @ ahead d cs))" using dist unfolding eq .
  ultimately have ys: "ys = directed d (addrs B) @ ahead d cs"
    using dist by (auto simp: append_eq_append_conv2 append_eq_Cons_conv Cons_eq_append_conv)
  note R = rb_at_read [OF r]
  show ?thesis
  proof (cases "B = Leaf")
    case False
    have tb: "tree_at (rb_mem s) a B" using r by (simp add: rb_at_def tree_at_join)
    then show ?thesis
      using R(2) False front_last [OF tb False, of d] top_zero [OF tb] top_in [OF False]
      by (cases "directed d (addrs B)") (auto simp: RB_STEP_def ys, (metis directed_simps(2) empty_iff empty_set))
  next
    case True
    have c: "rb_climb (other d) a s = Some (front (ahead d cs))" using climb_ok [OF r] by simp
    show ?thesis
    proof (cases cs rule: par.cases)
      case 1
      then show ?thesis using R(2,3) c True by (simp add: RB_STEP_def ys)
    next
      case (2 e x u cs')
      then have "rb_at s cs' (join e (join d A (a, c) B) x u)" using r by (simp add: rb_at_Cons)
      then have q: "rb_at s cs' (join e (join d A (a, c) B) (fst x, snd x) u)" by simp
      have "a \<noteq> rtop u" using rb_at_siblings [OF q] by simp
      then show ?thesis
        using R(2,3) c True rb_at_read(1,2,5) [OF q] by (cases e; cases d) (auto simp: RB_STEP_def ys 2)
    qed
  qed
qed

lemma visit_ok:
  assumes t: "rb_tree s t"
  shows "directed d (addrs t) = xs @ ys \<Longrightarrow> rb_visit d (front ys) s = Some ys"
proof (induction ys arbitrary: xs)
  case Nil
  show ?case by (subst rb_visit.simps) simp
next
  case (Cons a ys)
  have "a \<in> set (directed d (addrs t))" unfolding Cons.prems by simp
  then have "a \<noteq> 0" using t tree_at_element [of "rb_mem s" 0 t a] by (auto simp: rb_tree_def rb_at_def elementD)
  moreover have "rb_visit d (front ys) s = Some ys" using Cons.IH [of "xs @ [a]"] Cons.prems by simp
  ultimately show ?case using step_ok [OF t Cons.prems] by (subst rb_visit.simps) simp
qed

lemma foreach_ok: "rb_tree s t \<Longrightarrow> RB_FOREACH d s = Some (directed d (addrs t))"
  using minmax_ok [of s t d] visit_ok [of s t d "[]" "directed d (addrs t)"] by (simp add: RB_FOREACH_def)

end
