(* ===== verification/Rb_Tree_Index.thy ===== *)
theory Rb_Tree_Index
  imports Rb_Tree_Search Rb_Tree_Walk Super_State
begin

section \<open>The red-black trees implement the indexes\<close>

text \<open>
  The components keep their containers as values of the type \<open>index\<close>. Here the trees of
  \<open>src/core/misc/rb_tree.h\<close> are shown to implement it: a memory holds an index when it holds a balanced
  tree whose elements, in order, are those of the index, and every operation on the memory does what the
  operation on the index says. The comparisons that the core generates its trees with compare by the
  keys of the indexes.
\<close>

subsection \<open>The comparisons\<close>

definition extent_compare_file :: "extent \<Rightarrow> extent \<Rightarrow> int" where
  "extent_compare_file a b =
     (if ext_file a > ext_file b then 1 else if ext_file a < ext_file b then - 1 else 0)"

definition extent_compare_backend :: "extent \<Rightarrow> extent \<Rightarrow> int" where
  "extent_compare_backend a b =
     (if ext_backend a > ext_backend b then 1 else if ext_backend a < ext_backend b then - 1 else 0)"

definition file_id_compare :: "cyanfs_file \<Rightarrow> cyanfs_file \<Rightarrow> int" where
  "file_id_compare a b =
     (if fm_id (f_meta a) > fm_id (f_meta b) then 1 else if fm_id (f_meta a) < fm_id (f_meta b) then - 1 else 0)"

fun memcmp :: "u8 list \<Rightarrow> u8 list \<Rightarrow> int" where
  "memcmp (a # as) (b # bs) = (if a = b then memcmp as bs else uint a - uint b)"
| "memcmp _ _ = 0"

definition file_name_compare :: "cyanfs_file \<Rightarrow> cyanfs_file \<Rightarrow> int" where
  "file_name_compare a b = memcmp (name_bytes (fm_name (f_meta a))) (name_bytes (fm_name (f_meta b)))"

definition journal_visited_extent_compare :: "cyanfs_extent_id \<Rightarrow> cyanfs_extent_id \<Rightarrow> int" where
  "journal_visited_extent_compare a b = (if a > b then 1 else if a < b then - 1 else 0)"

interpretation file_extents: key_order "\<lambda>a b. extent_compare_file (obj a) (obj b)" "\<lambda>a. ext_file (obj a)" for obj
  by unfold_locales (auto simp: extent_compare_file_def)

interpretation backend_extents: key_order "\<lambda>a b. extent_compare_backend (obj a) (obj b)" "\<lambda>a. ext_backend (obj a)" for obj
  by unfold_locales (auto simp: extent_compare_backend_def)

interpretation files_id: key_order "\<lambda>a b. file_id_compare (obj a) (obj b)" "\<lambda>a. fm_id (f_meta (obj a))" for obj
  by unfold_locales (auto simp: file_id_compare_def)

interpretation visited: key_order "\<lambda>a b. journal_visited_extent_compare (obj a) (obj b)" "\<lambda>a. obj a" for obj
  by unfold_locales (auto simp: journal_visited_extent_compare_def)

lemma memcmp_order:
  "length xs = length ys \<Longrightarrow> (memcmp xs ys < 0 \<longleftrightarrow> xs < ys) \<and> (memcmp xs ys > 0 \<longleftrightarrow> ys < xs)"
  by (induction xs ys rule: memcmp.induct) (auto simp: word_less_def Cons_less_Cons)

text \<open>Names are arrays of the same length, as in the code.\<close>

lemma files_name_order:
  assumes "\<And>a. name_wf (fm_name (f_meta (obj a)))"
  shows "key_order (\<lambda>a b. file_name_compare (obj a) (obj b)) (\<lambda>a. fm_name (f_meta (obj a)))"
proof unfold_locales
  fix a b
  have "length (name_bytes (fm_name (f_meta (obj a)))) = length (name_bytes (fm_name (f_meta (obj b))))"
    using assms [of a] assms [of b] by (simp add: name_wf_def name_bytes_def)
  note M = memcmp_order [OF this]
  show "file_name_compare (obj a) (obj b) < 0 \<longleftrightarrow> fm_name (f_meta (obj a)) < fm_name (f_meta (obj b))"
    "0 < file_name_compare (obj a) (obj b) \<longleftrightarrow> fm_name (f_meta (obj b)) < fm_name (f_meta (obj a))"
    using M by (simp_all add: file_name_compare_def less_file_name_def)
qed

subsection \<open>The operations\<close>

definition null_or :: "ptr option \<Rightarrow> ptr" where
  "null_or x = (case x of None \<Rightarrow> 0 | Some a \<Rightarrow> a)"

definition rb_holds :: "(ptr \<Rightarrow> 'k::linorder) \<Rightarrow> rb \<Rightarrow> ('k, ptr) index \<Rightarrow> bool" where
  "rb_holds key s ix \<longleftrightarrow> (\<exists>t. rb_tree s t \<and> idx_items ix = map (\<lambda>a. (key a, a)) (addrs t))"

definition members :: "('k::linorder, ptr) index \<Rightarrow> ptr set" where
  "members ix = snd ` set (idx_items ix)"

lemma holds_sorted:
  assumes "idx_items ix = map (\<lambda>a. (key a, a)) (addrs t)"
  shows "keys_sorted key (addrs t)" "members ix = set (addrs t)"
  using idx.items_sorted [OF TrueI, of ix] assms
  by (auto simp: keys_sorted_def sorted_wrt_map comp_def members_def image_image)

lemma map_of_keys:
  "map_of (map (\<lambda>a. (key a, a)) xs) k = List.find (\<lambda>a. key a = k) xs"
  by (induction xs) auto

lemma find_keys:
  "List.find (\<lambda>p. k \<le> fst p) (map (\<lambda>a. (key a, a)) xs) = map_option (\<lambda>a. (key a, a)) (List.find (\<lambda>a. k \<le> key a) xs)"
  by (induction xs) auto

context key_order
begin

lemma holds_find:
  assumes "rb_holds key s ix"
  shows "RB_FIND cmp elm s = Some (null_or (idx_find ix (key elm)))"
proof -
  obtain t where t: "rb_tree s t" "idx_items ix = map (\<lambda>a. (key a, a)) (addrs t)" using assms by (auto simp: rb_holds_def)
  then show ?thesis
    using find_from [of s 0 t elm] holds_sorted(1) [OF t(2)] rb_tree_root [OF t(1)]
    by (simp add: RB_FIND_def rb_tree_def rb_at_def null_or_def idx_find.rep_eq map_of_keys)
qed

lemma holds_nfind:
  assumes "rb_holds key s ix"
  shows "RB_NFIND cmp elm s = Some (null_or (map_option snd (idx_nfind ix (key elm))))"
proof -
  obtain t where t: "rb_tree s t" "idx_items ix = map (\<lambda>a. (key a, a)) (addrs t)" using assms by (auto simp: rb_holds_def)
  then show ?thesis
    using nfind_from [of s 0 t elm 0] holds_sorted(1) [OF t(2)] rb_tree_root [OF t(1)]
    by (simp add: RB_NFIND_def rb_tree_def rb_at_def null_or_def idx_nfind.rep_eq find_keys option.case_eq_if option.map_sel)
qed

lemma holds_insert:
  assumes h: "rb_holds key s ix" and e: "element elm" "elm \<notin> members ix" "rb_mem s elm \<noteq> None"
  shows "\<exists>s'. RB_INSERT cmp elm s = Some (null_or (fst (idx_insert (key elm) elm ix)), s') \<and>
    rb_holds key s' (snd (idx_insert (key elm) elm ix)) \<and> only (insert elm (members ix)) s s'"
proof -
  obtain t where t: "rb_tree s t" "idx_items ix = map (\<lambda>a. (key a, a)) (addrs t)" using h by (auto simp: rb_holds_def)
  note S = holds_sorted [OF t(2)]
  from insert_ok [OF t(1) S(1) e(1) e(2) [unfolded S(2)] e(3)] show ?thesis
  proof
    assume "\<exists>b. RB_INSERT cmp elm s = Some (b, s) \<and> b \<in> set (addrs t) \<and> key b = key elm"
    then obtain b where b: "RB_INSERT cmp elm s = Some (b, s)" "b \<in> set (addrs t)" "key b = key elm" by blast
    then have "idx_find ix (key elm) = Some b" by (auto simp: idx_find_in_items t(2) image_iff)
    then show ?thesis using b(1) h by (simp add: null_or_def)
  next
    assume "\<exists>s' t' xs ys. RB_INSERT cmp elm s = Some (0, s') \<and> rb_tree s' t' \<and> addrs t = xs @ ys \<and>
       addrs t' = xs @ elm # ys \<and> keys_sorted key (addrs t') \<and> only (insert elm (set (addrs t))) s s'"
    then obtain s' t' xs ys where i: "RB_INSERT cmp elm s = Some (0, s')" "rb_tree s' t'" "addrs t = xs @ ys"
        "addrs t' = xs @ elm # ys" "keys_sorted key (addrs t')" "only (insert elm (set (addrs t))) s s'"
      by blast
    have k: "\<forall>a \<in> set xs. key a < key elm" "\<forall>a \<in> set ys. key elm < key a" using i(5) by (auto simp: i(4) keys_sorted_append)
    then have f: "filter (\<lambda>a. key a < key elm) (addrs t) = xs" "filter (\<lambda>a. key elm < key a) (addrs t) = ys"
      by (auto simp: i(3) filter_empty_conv filter_id_conv dest: less_asym)
    have "idx_find ix (key elm) = None"
      using k by (auto simp: idx_find.rep_eq t(2) map_of_keys find_None_iff i(3))
    moreover have "idx_items (idx_put (key elm) elm ix) = map (\<lambda>a. (key a, a)) (addrs t')"
      using f by (simp add: idx_put.rep_eq t(2) i(4) filter_map comp_def)
    ultimately show ?thesis using i(1,2,6) S(2) by (auto simp: null_or_def rb_holds_def)
  qed
qed

end

lemma holds_remove:
  assumes h: "rb_holds key s ix" and e: "elm \<in> members ix"
  shows "\<exists>s'. RB_REMOVE elm s = Some (elm, s') \<and> rb_holds key s' (idx_remove (key elm) ix) \<and> only (members ix) s s'"
proof -
  obtain t where t: "rb_tree s t" "idx_items ix = map (\<lambda>a. (key a, a)) (addrs t)" using h by (auto simp: rb_holds_def)
  note S = holds_sorted [OF t(2)]
  obtain s' t' xs ys where r: "RB_REMOVE elm s = Some (elm, s')" "rb_tree s' t'" "addrs t = xs @ elm # ys" "addrs t' = xs @ ys"
      "only (set (addrs t)) s s'"
    using remove_ok [OF t(1)] e S(2) by blast
  have "\<forall>a \<in> set (xs @ ys). key a \<noteq> key elm" using S(1) by (auto simp: r(3) keys_sorted_append)
  then have "filter (\<lambda>a. key a \<noteq> key elm) (addrs t) = xs @ ys" by (auto simp: r(3) filter_id_conv)
  then have "idx_items (idx_remove (key elm) ix) = map (\<lambda>a. (key a, a)) (addrs t')"
    by (simp add: idx_remove.rep_eq t(2) r(4) filter_map comp_def)
  then show ?thesis using r(1,2,5) S(2) by (auto simp: rb_holds_def)
qed

lemma holds_walk:
  assumes "rb_holds key s ix"
  shows "RB_FOREACH LEFT_SIDE s = Some (map snd (idx_items ix))" "RB_MINMAX LEFT_SIDE s = Some (null_or (map_option snd (idx_min ix)))"
    "RB_FOREACH RIGHT_SIDE s = Some (rev (map snd (idx_items ix)))"
proof -
  obtain t where t: "rb_tree s t" "idx_items ix = map (\<lambda>a. (key a, a)) (addrs t)" using assms by (auto simp: rb_holds_def)
  show "RB_FOREACH LEFT_SIDE s = Some (map snd (idx_items ix))" "RB_MINMAX LEFT_SIDE s = Some (null_or (map_option snd (idx_min ix)))"
    "RB_FOREACH RIGHT_SIDE s = Some (rev (map snd (idx_items ix)))"
    using foreach_ok [OF t(1)] minmax_ok [OF t(1)]
    by (simp_all add: t(2) comp_def directed_def) (cases "addrs t"; simp add: idx_min_def null_or_def t(2))
qed

lemma holds_next:
  assumes "rb_holds key s ix" "idx_items ix = xs @ (k, a) # ys"
  shows "RB_STEP RIGHT_SIDE a s = Some (front (map snd ys))"
proof -
  obtain t where t: "rb_tree s t" "idx_items ix = map (\<lambda>a. (key a, a)) (addrs t)" using assms by (auto simp: rb_holds_def)
  have "map snd (idx_items ix) = addrs t" by (simp add: t(2) comp_def)
  then have "directed LEFT_SIDE (addrs t) = map snd xs @ a # map snd ys" using assms(2) by (simp add: directed_def)
  from step_ok [OF t(1) this] show ?thesis by simp
qed

lemma holds_empty:
  "rb_holds key (RB_INIT s) idx_empty" "rb_holds key s ix \<Longrightarrow> RB_EMPTY s \<longleftrightarrow> ix = idx_empty"
proof -
  show "rb_holds key (RB_INIT s) idx_empty"
    by (auto simp: rb_holds_def RB_INIT_def rb_tree_def rb_at_def intro!: exI [of _ Leaf])
  assume "rb_holds key s ix"
  then obtain t where t: "rb_tree s t" "idx_items ix = map (\<lambda>a. (key a, a)) (addrs t)" by (auto simp: rb_holds_def)
  have "rtop t = 0 \<longleftrightarrow> t = Leaf" using t(1) rb_at_top by (auto simp: rb_tree_def)
  moreover have "addrs t = [] \<longleftrightarrow> t = Leaf" by (cases t) simp_all
  moreover have "ix = idx_empty \<longleftrightarrow> idx_items ix = []" by (simp add: idx_items_inject [symmetric])
  ultimately show "RB_EMPTY s \<longleftrightarrow> ix = idx_empty" by (simp add: RB_EMPTY_def rb_tree_root [OF t(1)] t(2))
qed

subsection \<open>The depth of a tree\<close>

lemma height_bheight: "balanced t \<Longrightarrow> height t \<le> 2 * bheight t + (if color t = Red then 1 else 0)"
proof (induction t)
  case (Node l x r)
  then show ?case by (cases "snd x"; cases "color l"; cases "color r") auto
qed simp

lemma bheight_size: "balanced t \<Longrightarrow> 2 ^ bheight t \<le> length (addrs t) + 1"
  by (induction t) (auto split: if_splits)

lemma height_size:
  assumes "rb_tree s t"
  shows "2 ^ height t \<le> (length (addrs t) + 1)\<^sup>2"
proof -
  have b: "balanced t" "color t = Black" using assms by (simp_all add: rb_tree_def)
  have "(2 :: nat) ^ height t \<le> 2 ^ (2 * bheight t)" using height_bheight [OF b(1)] b(2) by (intro power_increasing) auto
  also have "\<dots> = (2 ^ bheight t)\<^sup>2" by (simp add: power_mult [symmetric] mult.commute)
  also have "\<dots> \<le> (length (addrs t) + 1)\<^sup>2" using bheight_size [OF b(1)] by (intro power_mono) simp_all
  finally show ?thesis .
qed

end
