(* ===== verification/Linked_List.thy ===== *)
theory Linked_List
  imports Prelude "HOL-Library.Monad_Syntax"
begin

section \<open>Linked lists in memory\<close>

text \<open>
  The circular lists of \<open>src/core/misc/list.h\<close>, in which the core queues its tasks and its journal
  entries, on an explicit memory of list heads. \<open>None\<close> is the access to a head that does not exist.
  A list is its own head and the entries that are linked behind it; the model of the core keeps the
  sequence of the entries. Here the functions are shown to work on that sequence.
\<close>

type_synonym addr = "64 word"

record list_head =
  lh_next :: addr
  lh_prev :: addr

type_synonym list_mem = "addr \<Rightarrow> list_head option"

definition list_next :: "addr \<Rightarrow> list_mem \<Rightarrow> addr option" where
  "list_next a m = map_option lh_next (m a)"

definition list_prev :: "addr \<Rightarrow> list_mem \<Rightarrow> addr option" where
  "list_prev a m = map_option lh_prev (m a)"

definition set_next :: "addr \<Rightarrow> addr \<Rightarrow> list_mem \<Rightarrow> list_mem option" where
  "set_next a b m = map_option (\<lambda>n. m(a \<mapsto> n\<lparr>lh_next := b\<rparr>)) (m a)"

definition set_prev :: "addr \<Rightarrow> addr \<Rightarrow> list_mem \<Rightarrow> list_mem option" where
  "set_prev a b m = map_option (\<lambda>n. m(a \<mapsto> n\<lparr>lh_prev := b\<rparr>)) (m a)"

definition INIT_LIST_HEAD :: "addr \<Rightarrow> list_mem \<Rightarrow> list_mem option" where
  "INIT_LIST_HEAD l m = do { m \<leftarrow> set_next l l m; set_prev l l m }"

definition list_add_between :: "addr \<Rightarrow> addr \<Rightarrow> addr \<Rightarrow> list_mem \<Rightarrow> list_mem option" where
  "list_add_between new prev nxt m =
     do {
       m \<leftarrow> set_prev nxt new m;
       m \<leftarrow> set_next new nxt m;
       m \<leftarrow> set_prev new prev m;
       set_next prev new m
     }"

definition list_add :: "addr \<Rightarrow> addr \<Rightarrow> list_mem \<Rightarrow> list_mem option" where
  "list_add new head m = do { n \<leftarrow> list_next head m; list_add_between new head n m }"

definition list_add_tail :: "addr \<Rightarrow> addr \<Rightarrow> list_mem \<Rightarrow> list_mem option" where
  "list_add_tail new head m = do { p \<leftarrow> list_prev head m; list_add_between new p head m }"

definition list_del_between :: "addr \<Rightarrow> addr \<Rightarrow> list_mem \<Rightarrow> list_mem option" where
  "list_del_between prev nxt m = do { m \<leftarrow> set_prev nxt prev m; set_next prev nxt m }"

definition list_del :: "addr \<Rightarrow> list_mem \<Rightarrow> list_mem option" where
  "list_del e m = do { p \<leftarrow> list_prev e m; n \<leftarrow> list_next e m; list_del_between p n m }"

definition list_is_first :: "addr \<Rightarrow> addr \<Rightarrow> list_mem \<Rightarrow> bool option" where
  "list_is_first l head m = do { p \<leftarrow> list_prev l m; Some (p = head) }"

definition list_is_last :: "addr \<Rightarrow> addr \<Rightarrow> list_mem \<Rightarrow> bool option" where
  "list_is_last l head m = do { n \<leftarrow> list_next l m; Some (n = head) }"

definition list_empty :: "addr \<Rightarrow> list_mem \<Rightarrow> bool option" where
  "list_empty head m = do { n \<leftarrow> list_next head m; Some (n = head) }"

definition list_is_singular :: "addr \<Rightarrow> list_mem \<Rightarrow> bool option" where
  "list_is_singular head m =
     do {
       e \<leftarrow> list_empty head m;
       n \<leftarrow> list_next head m;
       p \<leftarrow> list_prev head m;
       Some (\<not> e \<and> n = p)
     }"

definition list_splice_between :: "addr \<Rightarrow> addr \<Rightarrow> addr \<Rightarrow> list_mem \<Rightarrow> list_mem option" where
  "list_splice_between l prev nxt m =
     do {
       first \<leftarrow> list_next l m;
       last \<leftarrow> list_prev l m;
       m \<leftarrow> set_prev first prev m;
       m \<leftarrow> set_next prev first m;
       m \<leftarrow> set_next last nxt m;
       set_prev nxt last m
     }"

definition list_splice :: "addr \<Rightarrow> addr \<Rightarrow> list_mem \<Rightarrow> list_mem option" where
  "list_splice l head m =
     do {
       e \<leftarrow> list_empty l m;
       if \<not> e then do { n \<leftarrow> list_next head m; list_splice_between l head n m } else Some m
     }"

definition list_splice_tail :: "addr \<Rightarrow> addr \<Rightarrow> list_mem \<Rightarrow> list_mem option" where
  "list_splice_tail l head m =
     do {
       e \<leftarrow> list_empty l m;
       if \<not> e then do { p \<leftarrow> list_prev head m; list_splice_between l p head m } else Some m
     }"

definition list_splice_init :: "addr \<Rightarrow> addr \<Rightarrow> list_mem \<Rightarrow> list_mem option" where
  "list_splice_init l head m =
     do {
       e \<leftarrow> list_empty l m;
       if \<not> e then
         do { n \<leftarrow> list_next head m; m \<leftarrow> list_splice_between l head n m; INIT_LIST_HEAD l m }
       else Some m
     }"

definition list_splice_tail_init :: "addr \<Rightarrow> addr \<Rightarrow> list_mem \<Rightarrow> list_mem option" where
  "list_splice_tail_init l head m =
     do {
       e \<leftarrow> list_empty l m;
       if \<not> e then
         do { p \<leftarrow> list_prev head m; m \<leftarrow> list_splice_between l p head m; INIT_LIST_HEAD l m }
       else Some m
     }"

text \<open>The entries that \<open>cyanfs_list_for_each\<close> and \<open>cyanfs_list_for_each_prev\<close> visit.\<close>

partial_function (option) list_visit :: "addr \<Rightarrow> addr \<Rightarrow> list_mem \<Rightarrow> addr list option" where
  "list_visit pos head m =
     (if pos = head then Some []
      else do { n \<leftarrow> list_next pos m; xs \<leftarrow> list_visit n head m; Some (pos # xs) })"

definition list_for_each :: "addr \<Rightarrow> list_mem \<Rightarrow> addr list option" where
  "list_for_each head m = do { n \<leftarrow> list_next head m; list_visit n head m }"

partial_function (option) list_visit_prev :: "addr \<Rightarrow> addr \<Rightarrow> list_mem \<Rightarrow> addr list option" where
  "list_visit_prev pos head m =
     (if pos = head then Some []
      else do { p \<leftarrow> list_prev pos m; xs \<leftarrow> list_visit_prev p head m; Some (pos # xs) })"

definition list_for_each_prev :: "addr \<Rightarrow> list_mem \<Rightarrow> addr list option" where
  "list_for_each_prev head m = do { p \<leftarrow> list_prev head m; list_visit_prev p head m }"

subsection \<open>Fields\<close>

lemma set_next_ok:
  "list_next a m \<noteq> None \<Longrightarrow> \<exists>m'. set_next a b m = Some m' \<and>
     (\<forall>x. list_next x m' = (if x = a then Some b else list_next x m)) \<and> (\<forall>x. list_prev x m' = list_prev x m)"
  by (auto simp: set_next_def list_next_def list_prev_def)

lemma set_prev_ok:
  "list_prev a m \<noteq> None \<Longrightarrow> \<exists>m'. set_prev a b m = Some m' \<and>
     (\<forall>x. list_prev x m' = (if x = a then Some b else list_prev x m)) \<and> (\<forall>x. list_next x m' = list_next x m)"
  by (auto simp: set_prev_def list_next_def list_prev_def)

lemma next_prev: "list_next a m \<noteq> None \<longleftrightarrow> list_prev a m \<noteq> None"
  by (simp add: list_next_def list_prev_def)

subsection \<open>Sequences of entries\<close>

text \<open>The entries \<open>xs\<close> follow \<open>a\<close>, each linked to the next one in both directions.\<close>

definition linked :: "list_mem \<Rightarrow> addr \<Rightarrow> addr \<Rightarrow> bool" where
  "linked m a b \<longleftrightarrow> list_next a m = Some b \<and> list_prev b m = Some a"

fun path :: "list_mem \<Rightarrow> addr \<Rightarrow> addr list \<Rightarrow> bool" where
  "path m a [] = True"
| "path m a (x # xs) = (linked m a x \<and> path m x xs)"

definition ring :: "list_mem \<Rightarrow> addr \<Rightarrow> addr list \<Rightarrow> bool" where
  "ring m h xs \<longleftrightarrow> path m h (xs @ [h]) \<and> distinct (h # xs)"

lemma path_append: "path m a (xs @ ys) \<longleftrightarrow> path m a xs \<and> path m (last (a # xs)) ys"
  by (induction m a xs rule: path.induct) auto

lemma path_frame:
  assumes "path m a xs" "\<And>x. x \<in> set (butlast (a # xs)) \<Longrightarrow> list_next x m' = list_next x m"
    "\<And>x. x \<in> set xs \<Longrightarrow> list_prev x m' = list_prev x m"
  shows "path m' a xs"
  using assms by (induction m a xs rule: path.induct) (auto simp: linked_def)

lemma ring_split:
  "ring m h (xs @ ys) \<longleftrightarrow>
     path m h xs \<and> linked m (last (h # xs)) (hd (ys @ [h])) \<and> path m (hd (ys @ [h])) (tl (ys @ [h])) \<and>
     distinct (h # xs @ ys)"
  by (cases ys) (auto simp: ring_def path_append)

lemma last_in: "last (h # xs) \<in> insert h (set xs)" "hd (ys @ [h]) \<in> insert h (set ys)"
  by (auto simp: last_in_set hd_append)

lemma butlast_path: "butlast (hd (ys @ [h]) # tl (ys @ [h])) = ys"
  by (cases ys) auto

lemma set_tl: "set (tl (ys @ [h])) \<subseteq> insert h (set ys)"
  by (cases ys) auto

lemma ring_next: "ring m h xs \<Longrightarrow> list_next h m = Some (hd (xs @ [h]))"
  and ring_prev: "ring m h xs \<Longrightarrow> list_prev h m = Some (last (h # xs))"
  using ring_split [of m h "[]" xs] ring_split [of m h xs "[]"] by (auto simp: linked_def)

lemma ring_empty: "ring m h xs \<Longrightarrow> list_empty h m = Some (xs = [])"
  using ring_next [of m h xs] by (cases xs) (auto simp: list_empty_def ring_def)

text \<open>The position of a new entry: behind \<open>xs\<close> and before \<open>ys\<close>.\<close>

lemma hd_notin: "distinct (h # ys) \<Longrightarrow> hd (ys @ [h]) \<notin> set (tl (ys @ [h]))"
  by (cases ys) auto

lemma last_notin: "distinct (h # xs) \<Longrightarrow> last (h # xs) \<notin> set (butlast (h # xs))"
  by (metis append_butlast_last_id distinct.simps(2) distinct_append disjoint_insert(2) list.distinct(1) list.set(2) not_distinct_conv_prefix)

lemma add_between:
  assumes r: "ring m h (xs @ ys)" and new: "new \<notin> set (h # xs @ ys)" "m new \<noteq> None"
  obtains m' where "list_add_between new (last (h # xs)) (hd (ys @ [h])) m = Some m'" "ring m' h (xs @ new # ys)"
    "\<And>a. a \<notin> set (h # new # xs @ ys) \<Longrightarrow> m' a = m a"
proof -
  let ?p = "last (h # xs)" and ?n = "hd (ys @ [h])"
  note R = r [unfolded ring_split]
  have L: "list_next ?p m = Some ?n" "list_prev ?n m = Some ?p" using R by (simp_all add: linked_def)
  then obtain np nn nw where N: "m ?p = Some np" "m ?n = Some nn" "m new = Some nw" using new(2) by (auto simp: list_next_def list_prev_def)
  have d: "?p \<noteq> new" "?n \<noteq> new" "new \<noteq> ?p" "new \<noteq> ?n" using new(1) last_in(1) [of h xs] last_in(2) [of ys h] by auto
  obtain m1 where 1: "set_prev ?n new m = Some m1" "\<And>x. list_prev x m1 = (if x = ?n then Some new else list_prev x m)"
      "\<And>x. list_next x m1 = list_next x m"
    using set_prev_ok [of ?n m new] L(2) by blast
  have "list_next new m1 \<noteq> None" using 1(3) N(3) by (simp add: list_next_def)
  then obtain m2 where 2: "set_next new ?n m1 = Some m2" "\<And>x. list_next x m2 = (if x = new then Some ?n else list_next x m1)"
      "\<And>x. list_prev x m2 = list_prev x m1"
    using set_next_ok [of new m1 ?n] by blast
  have "list_prev new m2 \<noteq> None" using 2(3) 1(2) N(3) d by (simp add: list_prev_def)
  then obtain m3 where 3: "set_prev new ?p m2 = Some m3" "\<And>x. list_prev x m3 = (if x = new then Some ?p else list_prev x m2)"
      "\<And>x. list_next x m3 = list_next x m2"
    using set_prev_ok [of new m2 ?p] by blast
  have "list_next ?p m3 \<noteq> None" using 3(3) 2(2) 1(3) L(1) d by simp
  then obtain m4 where 4: "set_next ?p new m3 = Some m4" "\<And>x. list_next x m4 = (if x = ?p then Some new else list_next x m3)"
      "\<And>x. list_prev x m4 = list_prev x m3"
    using set_next_ok [of ?p m3 new] by blast
  have nx: "list_next x m4 = (if x = ?p then Some new else if x = new then Some ?n else list_next x m)" for x
    using 4(2) 3(3) 2(2) 1(3) by simp
  have pv: "list_prev x m4 = (if x = new then Some ?p else if x = ?n then Some new else list_prev x m)" for x
    using 4(3) 3(2) 2(3) 1(2) by simp
  have D: "distinct (h # xs)" "distinct (h # ys)" "set xs \<inter> set ys = {}" using R by auto
  have "path m4 h xs"
  proof (rule path_frame)
    show "path m h xs" using R by blast
    show "list_next x m4 = list_next x m" if "x \<in> set (butlast (h # xs))" for x
    proof -
      have "x \<noteq> ?p" using that last_notin [OF D(1)] by auto
      moreover have "x \<noteq> new" using in_set_butlastD [OF that] new(1) by auto
      ultimately show ?thesis by (simp add: nx)
    qed
    show "list_prev x m4 = list_prev x m" if "x \<in> set xs" for x
      using that D last_in(2) [of ys h] new(1) by (auto simp: pv)
  qed
  moreover have "path m4 ?n (tl (ys @ [h]))"
  proof (rule path_frame)
    show "path m ?n (tl (ys @ [h]))" using R by blast
    show "list_next x m4 = list_next x m" if "x \<in> set (butlast (?n # tl (ys @ [h])))" for x
      using that [unfolded butlast_path] D new(1) last_in(1) [of h xs] by (auto simp: nx)
    show "list_prev x m4 = list_prev x m" if "x \<in> set (tl (ys @ [h]))" for x
      using that set_tl [of ys h] hd_notin [OF D(2)] new(1) by (auto simp: pv)
  qed
  moreover have "linked m4 ?p new" "linked m4 new ?n" using d by (simp_all add: linked_def nx pv)
  moreover from calculation have "path m4 new (ys @ [h])" by (cases ys) simp_all
  ultimately have "path m4 h (xs @ new # ys @ [h])" by (simp only: path_append [of _ _ xs] path.simps(2))
  then have "ring m4 h (xs @ new # ys)" using D new(1) by (auto simp: ring_def)
  moreover have "list_add_between new ?p ?n m = Some m4" using 1(1) 2(1) 3(1) 4(1) by (simp add: list_add_between_def)
  moreover have "m4 a = m a" if "a \<notin> set (h # new # xs @ ys)" for a
    using that last_in(1) [of h xs] last_in(2) [of ys h] 1(1) 2(1) 3(1) 4(1)
    by (auto simp: set_prev_def set_next_def split: if_splits)
  ultimately show ?thesis using that by blast
qed

lemma ring_add:
  assumes "ring m h xs" "new \<notin> set (h # xs)" "m new \<noteq> None"
  shows "\<exists>m'. list_add new h m = Some m' \<and> ring m' h (new # xs) \<and> (\<forall>a. a \<notin> set (h # new # xs) \<longrightarrow> m' a = m a)"
proof -
  obtain m' where "list_add_between new h (hd (xs @ [h])) m = Some m'" "ring m' h (new # xs)"
      "\<And>a. a \<notin> set (h # new # xs) \<Longrightarrow> m' a = m a"
    using add_between [of m h "[]" xs new] assms by auto
  then show ?thesis using ring_next [OF assms(1)] by (simp add: list_add_def)
qed

lemma ring_add_tail:
  assumes "ring m h xs" "new \<notin> set (h # xs)" "m new \<noteq> None"
  shows "\<exists>m'. list_add_tail new h m = Some m' \<and> ring m' h (xs @ [new]) \<and> (\<forall>a. a \<notin> set (h # new # xs) \<longrightarrow> m' a = m a)"
proof -
  obtain m' where "list_add_between new (last (h # xs)) h m = Some m'" "ring m' h (xs @ [new])"
      "\<And>a. a \<notin> set (h # new # xs) \<Longrightarrow> m' a = m a"
    using add_between [of m h xs "[]" new] assms by auto
  then show ?thesis using ring_prev [OF assms(1)] by (simp add: list_add_tail_def)
qed

text \<open>Linking two neighbours anew drops what was between them.\<close>

lemma relink_path:
  assumes r: "path m h xs" "path m n zs" and N: "list_next (last (h # xs)) m \<noteq> None" "list_prev n m \<noteq> None"
    and d: "last (h # xs) \<notin> set (butlast (h # xs))" "last (h # xs) \<notin> set (butlast (n # zs))" "n \<notin> set xs" "n \<notin> set zs"
  shows "\<exists>m'. (do { m \<leftarrow> set_prev n (last (h # xs)) m; set_next (last (h # xs)) n m }) = Some m' \<and>
    path m' h (xs @ n # zs) \<and> (\<forall>a. a \<noteq> n \<longrightarrow> a \<noteq> last (h # xs) \<longrightarrow> m' a = m a)"
proof -
  let ?p = "last (h # xs)"
  obtain m1 where 1: "set_prev n ?p m = Some m1" "\<forall>x. list_prev x m1 = (if x = n then Some ?p else list_prev x m)"
      "\<forall>x. list_next x m1 = list_next x m"
    using set_prev_ok [OF N(2), of ?p] by blast
  obtain m2 where 2: "set_next ?p n m1 = Some m2" "\<forall>x. list_next x m2 = (if x = ?p then Some n else list_next x m1)"
      "\<forall>x. list_prev x m2 = list_prev x m1"
    using set_next_ok [of ?p m1 n] N(1) 1(3) by auto
  have nx: "list_next x m2 = (if x = ?p then Some n else list_next x m)" and pv: "list_prev x m2 = (if x = n then Some ?p else list_prev x m)" for x
    using 1 2 by simp_all
  have "path m2 h xs" by (rule path_frame [OF r(1)]) (use d in \<open>auto simp: nx pv simp del: last.simps butlast.simps\<close>)
  moreover have "path m2 n zs" by (rule path_frame [OF r(2)]) (use d in \<open>auto simp: nx pv simp del: last.simps butlast.simps\<close>)
  moreover have "linked m2 ?p n" by (simp add: linked_def nx pv)
  ultimately have "path m2 h (xs @ n # zs)" by (simp only: path_append [of _ _ xs] path.simps(2))
  moreover have "m2 a = m a" if "a \<noteq> n" "a \<noteq> ?p" for a
    using that 1(1) 2(1) by (auto simp: set_prev_def set_next_def)
  moreover have "(do { m \<leftarrow> set_prev n ?p m; set_next ?p n m }) = Some m2" using 1(1) 2(1) by simp
  ultimately show ?thesis by blast
qed

lemma ring_del:
  assumes r: "ring m h (xs @ e # ys)"
  shows "\<exists>m'. list_del e m = Some m' \<and> ring m' h (xs @ ys) \<and> m' e = m e \<and> (\<forall>a. a \<notin> set (h # xs @ ys) \<longrightarrow> m' a = m a)"
proof -
  let ?p = "last (h # xs)" and ?n = "hd (ys @ [h])" and ?z = "tl (ys @ [h])"
  have e: "ring m h ((xs @ [e]) @ ys)" using r by simp
  note R = r [unfolded ring_split] and E = e [unfolded ring_split]
  have D: "distinct (h # xs)" "distinct (h # ys)" "set xs \<inter> set ys = {}" "e \<notin> set (h # xs @ ys)" using R by auto
  have L: "linked m ?p e" "linked m e ?n" "path m h xs" "path m ?n ?z" using R E by auto
  have z: "?z = tl (ys @ [h])" "?n # ?z = ys @ [h]" by (cases ys; simp)+
  have "\<exists>m'. (do { m \<leftarrow> set_prev ?n ?p m; set_next ?p ?n m }) = Some m' \<and>
      path m' h (xs @ ?n # ?z) \<and> (\<forall>a. a \<noteq> ?n \<longrightarrow> a \<noteq> ?p \<longrightarrow> m' a = m a)"
  proof (rule relink_path [OF L(3,4)])
    show "list_next ?p m \<noteq> None" "list_prev ?n m \<noteq> None" using L(1,2) by (simp_all add: linked_def)
    show "?p \<notin> set (butlast (h # xs))" by (rule last_notin [OF D(1)])
    show "?p \<notin> set (butlast (?n # ?z))" using last_in(1) [of h xs] D unfolding butlast_path by auto
    show "?n \<notin> set xs" using last_in(2) [of ys h] D by auto
    show "?n \<notin> set ?z" by (rule hd_notin [OF D(2)])
  qed
  then obtain m' where m': "(do { m \<leftarrow> set_prev ?n ?p m; set_next ?p ?n m }) = Some m'"
      "path m' h (xs @ ?n # ?z)" "\<forall>a. a \<noteq> ?n \<longrightarrow> a \<noteq> ?p \<longrightarrow> m' a = m a"
    by blast
  have "ring m' h (xs @ ys)" using m'(2) D unfolding z(2) by (auto simp: ring_def)
  moreover have "list_del e m = Some m'" using L(1,2) m'(1) by (simp add: list_del_def list_del_between_def linked_def)
  moreover have "m' a = m a" if "a = e \<or> a \<notin> set (h # xs @ ys)" for a
  proof -
    have "a \<notin> set (h # xs @ ys)" using that D(4) by blast
    then have "a \<noteq> ?n" "a \<noteq> ?p" using last_in(1) [of h xs] last_in(2) [of ys h] by auto
    then show ?thesis using m'(3) by blast
  qed
  ultimately show ?thesis by blast
qed

lemma splice_between:
  assumes l: "ring m l xs" "xs \<noteq> []" and h: "ring m h (ys @ zs)" and disj: "set (l # xs) \<inter> set (h # ys @ zs) = {}"
  shows "\<exists>m'. list_splice_between l (last (h # ys)) (hd (zs @ [h])) m = Some m' \<and> ring m' h (ys @ xs @ zs) \<and>
    m' l = m l \<and> (\<forall>a. a \<notin> set (h # ys @ xs @ zs) \<longrightarrow> m' a = m a)"
proof -
  let ?p = "last (h # ys)" and ?n = "hd (zs @ [h])" and ?f = "hd xs" and ?b = "last xs"
  note H = h [unfolded ring_split]
  have X: "path m l (xs @ [l])" "distinct (l # xs)" using l(1) by (simp_all add: ring_def)
  have fb: "list_next l m = Some ?f" "list_prev l m = Some ?b" using ring_next [OF l(1)] ring_prev [OF l(1)] l(2) by simp_all
  have x: "?f \<in> set xs" "?b \<in> set xs" "xs = ?f # tl xs" using l(2) by simp_all
  have px: "path m ?f (tl xs)" "list_prev ?f m \<noteq> None" "list_next ?b m \<noteq> None"
  proof -
    have "path m l (?f # (tl xs @ [l]))" using X(1) x(3) by (metis append_Cons)
    then have "linked m l ?f" "path m ?f (tl xs @ [l])" by simp_all
    moreover have "last (?f # tl xs) = ?b" using x(3) by simp
    ultimately have "path m ?f (tl xs)" "linked m ?b l" unfolding path_append by simp_all
    then show "path m ?f (tl xs)" "list_prev ?f m \<noteq> None" "list_next ?b m \<noteq> None"
      using \<open>linked m l ?f\<close> by (simp_all add: linked_def)
  qed
  have pn: "list_next ?p m \<noteq> None" "list_prev ?n m \<noteq> None" using H by (simp_all add: linked_def)
  have D: "distinct (h # ys)" "distinct (h # zs)" "set ys \<inter> set zs = {}" using H by auto
  have in_h: "?p \<in> insert h (set ys)" "?n \<in> insert h (set zs)" using last_in(1) [of h ys] last_in(2) [of zs h] by auto
  have ne: "?p \<notin> set xs" "?n \<notin> set xs" "?f \<notin> insert h (set ys \<union> set zs)" "?b \<notin> insert h (set ys \<union> set zs)"
    using in_h disj x by auto
  obtain m1 where 1: "set_prev ?f ?p m = Some m1" "\<forall>x. list_prev x m1 = (if x = ?f then Some ?p else list_prev x m)"
      "\<forall>x. list_next x m1 = list_next x m"
    using set_prev_ok [OF px(2)] by blast
  have "list_next ?p m1 \<noteq> None" using pn(1) 1(3) by simp
  then obtain m2 where 2: "set_next ?p ?f m1 = Some m2" "\<forall>x. list_next x m2 = (if x = ?p then Some ?f else list_next x m1)"
      "\<forall>x. list_prev x m2 = list_prev x m1"
    using set_next_ok by blast
  have "list_next ?b m2 \<noteq> None" using px(3) 1(3) 2(2) by simp
  then obtain m3 where 3: "set_next ?b ?n m2 = Some m3" "\<forall>x. list_next x m3 = (if x = ?b then Some ?n else list_next x m2)"
      "\<forall>x. list_prev x m3 = list_prev x m2"
    using set_next_ok by blast
  have "list_prev ?n m3 \<noteq> None" using pn(2) 1(2) 2(3) 3(3) by simp
  then obtain m4 where 4: "set_prev ?n ?b m3 = Some m4" "\<forall>x. list_prev x m4 = (if x = ?n then Some ?b else list_prev x m3)"
      "\<forall>x. list_next x m4 = list_next x m3"
    using set_prev_ok by blast
  have nx: "list_next x m4 = (if x = ?b then Some ?n else if x = ?p then Some ?f else list_next x m)"
    and pv: "list_prev x m4 = (if x = ?n then Some ?b else if x = ?f then Some ?p else list_prev x m)" for x
    using 1 2 3 4 by simp_all
  have "path m4 h ys"
  proof (rule path_frame)
    show "path m h ys" using H by blast
    show "list_next x m4 = list_next x m" if "x \<in> set (butlast (h # ys))" for x
      using that last_notin [OF D(1)] in_set_butlastD [OF that] ne(4) by (auto simp: nx simp del: last.simps butlast.simps)
    show "list_prev x m4 = list_prev x m" if "x \<in> set ys" for x using that in_h(2) D ne(3) by (auto simp: pv)
  qed
  moreover have "path m4 ?f (tl xs)"
  proof (rule path_frame [OF px(1)])
    have b: "butlast (?f # tl xs) = butlast xs" using x(3) by simp
    show "list_next x m4 = list_next x m" if "x \<in> set (butlast (?f # tl xs))" for x
    proof -
      have "x \<in> set (butlast xs)" using that b by simp
      moreover have "?b \<notin> set (butlast xs)" using X(2) l(2) by (metis append_butlast_last_id distinct.simps(2) distinct_append disjoint_insert(1) list.set(2))
      ultimately show ?thesis using ne(1) in_set_butlastD by (force simp: nx)
    qed
    show "list_prev x m4 = list_prev x m" if "x \<in> set (tl xs)" for x
      using that X(2) x(3) ne(2) by (metis distinct.simps(2) list.set_intros(2) pv)
  qed
  moreover have "path m4 ?n (tl (zs @ [h]))"
  proof (rule path_frame)
    show "path m ?n (tl (zs @ [h]))" using H by blast
    show "list_next x m4 = list_next x m" if "x \<in> set (butlast (?n # tl (zs @ [h])))" for x
      using that [unfolded butlast_path] D in_h(1) ne(4) by (auto simp: nx)
    show "list_prev x m4 = list_prev x m" if "x \<in> set (tl (zs @ [h]))" for x
      using that set_tl [of zs h] hd_notin [OF D(2)] ne(3) by (auto simp: pv)
  qed
  moreover have "linked m4 ?p ?f" "linked m4 ?b ?n" using ne x in_h by (auto simp: linked_def nx pv)
  moreover from calculation have "path m4 ?b (zs @ [h])" by (cases zs) simp_all
  ultimately have "path m4 h (ys @ ?f # tl xs)" "path m4 ?b (zs @ [h])"
    by (simp_all only: path_append [of _ _ ys] path.simps(2))
  then have "path m4 h ((ys @ xs) @ zs @ [h])"
    using x(3) l(2) unfolding path_append [of _ _ "ys @ xs"] by simp
  then have "ring m4 h (ys @ xs @ zs)" using D X(2) disj by (auto simp: ring_def)
  moreover have "list_splice_between l ?p ?n m = Some m4" using fb 1(1) 2(1) 3(1) 4(1) by (simp add: list_splice_between_def)
  moreover have "m4 a = m a" if "a = l \<or> a \<notin> set (h # ys @ xs @ zs)" for a
  proof -
    have "a \<noteq> ?p \<and> a \<noteq> ?n \<and> a \<noteq> ?f \<and> a \<noteq> ?b" using that in_h x disj X(2) by auto
    then show ?thesis using 1(1) 2(1) 3(1) 4(1) by (auto simp: set_prev_def set_next_def)
  qed
  ultimately show ?thesis by blast
qed

lemma ring_init:
  assumes "m h \<noteq> None"
  shows "\<exists>m'. INIT_LIST_HEAD h m = Some m' \<and> ring m' h [] \<and> (\<forall>a. a \<noteq> h \<longrightarrow> m' a = m a)"
  using assms
  by (auto simp: INIT_LIST_HEAD_def set_next_def set_prev_def ring_def linked_def list_next_def list_prev_def)

lemma ring_cong:
  assumes "ring m h xs" "\<And>a. a \<in> set (h # xs) \<Longrightarrow> m' a = m a"
  shows "ring m' h xs"
proof -
  have "path m' h (xs @ [h])"
  proof (rule path_frame)
    show "path m h (xs @ [h])" using assms(1) by (simp add: ring_def)
    show "list_next x m' = list_next x m" if "x \<in> set (butlast (h # xs @ [h]))" for x
      using in_set_butlastD [OF that] assms(2) by (simp add: list_next_def)
    show "list_prev x m' = list_prev x m" if "x \<in> set (xs @ [h])" for x using that assms(2) by (simp add: list_prev_def)
  qed
  then show ?thesis using assms(1) by (simp add: ring_def)
qed

lemma ring_splice:
  assumes l: "ring m l xs" and h: "ring m h (ys @ zs)" and d: "set (l # xs) \<inter> set (h # ys @ zs) = {}"
    and p: "p = last (h # ys)" "n = hd (zs @ [h])" and ne: "xs \<noteq> []"
  shows "\<exists>m'. list_splice_between l p n m = Some m' \<and> ring m' h (ys @ xs @ zs) \<and>
      (\<forall>a. a \<notin> set (h # ys @ xs @ zs) \<longrightarrow> m' a = m a)" (is ?A)
    "\<exists>m'. list_splice_between l p n m \<bind> INIT_LIST_HEAD l = Some m' \<and> ring m' h (ys @ xs @ zs) \<and> ring m' l []" (is ?B)
proof -
  obtain m1 where 1: "list_splice_between l p n m = Some m1" "ring m1 h (ys @ xs @ zs)" "m1 l = m l"
      "\<forall>a. a \<notin> set (h # ys @ xs @ zs) \<longrightarrow> m1 a = m a"
    using splice_between [OF l ne h d] p by metis
  then show ?A by blast
  have "m1 l \<noteq> None" using ring_next [OF l] 1(3) by (auto simp: list_next_def)
  then obtain m2 where 2: "INIT_LIST_HEAD l m1 = Some m2" "ring m2 l []" "\<forall>a. a \<noteq> l \<longrightarrow> m2 a = m1 a" using ring_init by blast
  have "ring m2 h (ys @ xs @ zs)"
  proof (rule ring_cong [OF 1(2)])
    fix a assume "a \<in> set (h # ys @ xs @ zs)"
    then have "a \<noteq> l" using d l by (auto simp: ring_def)
    then show "m2 a = m1 a" using 2(3) by blast
  qed
  then show ?B using 1(1) 2(1,2) by auto
qed

lemma ring_splice_init:
  assumes l: "ring m l xs" and h: "ring m h ys" and d: "set (l # xs) \<inter> set (h # ys) = {}"
  shows "\<exists>m'. list_splice_tail_init l h m = Some m' \<and> ring m' h (ys @ xs) \<and> ring m' l []"
    "\<exists>m'. list_splice_init l h m = Some m' \<and> ring m' h (xs @ ys) \<and> ring m' l []"
    "\<exists>m'. list_splice_tail l h m = Some m' \<and> ring m' h (ys @ xs)"
    "\<exists>m'. list_splice l h m = Some m' \<and> ring m' h (xs @ ys)"
proof -
  note E = ring_empty [OF l] and N = ring_next [OF h] and P = ring_prev [OF h]
  have 1: "ring m h (ys @ [])" "set (l # xs) \<inter> set (h # ys @ []) = {}" "ring m h ([] @ ys)" "set (l # xs) \<inter> set (h # [] @ ys) = {}"
    using h d by simp_all
  have T: "\<exists>m'. list_splice_between l (last (h # ys)) h m \<bind> INIT_LIST_HEAD l = Some m' \<and> ring m' h (ys @ xs) \<and> ring m' l []"
    "\<exists>m'. list_splice_between l (last (h # ys)) h m = Some m' \<and> ring m' h (ys @ xs)" if "xs \<noteq> []"
    using ring_splice(2) [OF l 1(1,2) refl refl that] ring_splice(1) [OF l 1(1,2) refl refl that]
    unfolding append_Nil append_Nil2 list.sel by blast+
  have F: "\<exists>m'. list_splice_between l h (hd (ys @ [h])) m \<bind> INIT_LIST_HEAD l = Some m' \<and> ring m' h (xs @ ys) \<and> ring m' l []"
    "\<exists>m'. list_splice_between l h (hd (ys @ [h])) m = Some m' \<and> ring m' h (xs @ ys)" if "xs \<noteq> []"
    using ring_splice(2) [OF l 1(3,4) refl refl that] ring_splice(1) [OF l 1(3,4) refl refl that]
    unfolding append_Nil last_ConsL [OF refl] by blast+
  show "\<exists>m'. list_splice_tail_init l h m = Some m' \<and> ring m' h (ys @ xs) \<and> ring m' l []"
    using E P T(1) l h by (cases "xs = []") (simp_all add: list_splice_tail_init_def del: last.simps)
  show "\<exists>m'. list_splice_init l h m = Some m' \<and> ring m' h (xs @ ys) \<and> ring m' l []"
    using E N F(1) l h by (cases "xs = []") (simp_all add: list_splice_init_def)
  show "\<exists>m'. list_splice_tail l h m = Some m' \<and> ring m' h (ys @ xs)"
    using E P T(2) h by (cases "xs = []") (simp_all add: list_splice_tail_def del: last.simps)
  show "\<exists>m'. list_splice l h m = Some m' \<and> ring m' h (xs @ ys)"
    using E N F(2) h by (cases "xs = []") (simp_all add: list_splice_def)
qed

lemma list_visit_path: "path m x (xs @ [h]) \<Longrightarrow> h \<notin> set (x # xs) \<Longrightarrow> list_visit x h m = Some (x # xs)"
proof (induction xs arbitrary: x)
  case Nil
  then show ?case by (subst list_visit.simps) (auto simp: linked_def, subst list_visit.simps, simp)
next
  case (Cons y xs)
  then show ?case by (subst list_visit.simps) (auto simp: linked_def)
qed

lemma ring_for_each:
  assumes r: "ring m h xs"
  shows "list_for_each h m = Some xs"
proof (cases xs)
  case Nil
  then show ?thesis using ring_next [OF r] by (simp add: list_for_each_def) (subst list_visit.simps, simp)
next
  case (Cons x ys)
  then have "path m x (ys @ [h])" "h \<notin> set (x # ys)" using r by (auto simp: ring_def)
  then show ?thesis using ring_next [OF r] list_visit_path [of m x ys h] by (simp add: list_for_each_def Cons)
qed

lemma list_visit_prev_path:
  "path m h (xs @ [x]) \<Longrightarrow> h \<notin> set (xs @ [x]) \<Longrightarrow> list_visit_prev x h m = Some (x # rev xs)"
proof (induction xs arbitrary: x rule: rev_induct)
  case Nil
  then show ?case by (subst list_visit_prev.simps) (auto simp: linked_def, subst list_visit_prev.simps, simp)
next
  case (snoc y xs)
  then have "path m h (xs @ [y])" "linked m y x" "h \<notin> set (xs @ [y])" "x \<noteq> h" by (auto simp: path_append)
  then show ?case using snoc.IH [of y] by (subst list_visit_prev.simps) (auto simp: linked_def)
qed

lemma ring_for_each_prev:
  assumes r: "ring m h xs"
  shows "list_for_each_prev h m = Some (rev xs)"
proof (cases xs rule: rev_cases)
  case Nil
  then show ?thesis using ring_prev [OF r] by (simp add: list_for_each_prev_def) (subst list_visit_prev.simps, simp)
next
  case (snoc ys x)
  then have "path m h (ys @ [x])" "h \<notin> set (ys @ [x])" using r by (auto simp: ring_def path_append)
  then show ?thesis
    using ring_prev [OF r] list_visit_prev_path [of m h ys x] by (simp add: list_for_each_prev_def snoc)
qed

lemma ring_tests:
  assumes r: "ring m h xs" and e: "e \<in> set xs"
  shows "list_is_first e h m = Some (e = hd xs)" "list_is_last e h m = Some (e = last xs)"
    "list_is_singular h m = Some (length xs = 1)"
proof -
  obtain ys zs where xs: "xs = ys @ e # zs" using e by (auto simp: in_set_conv_decomp)
  have "linked m (last (h # ys)) e" using r ring_split [of m h ys "e # zs"] by (simp add: xs)
  moreover have "linked m e (hd (zs @ [h]))" using r ring_split [of m h "ys @ [e]" zs] by (simp add: xs)
  moreover have "distinct (h # ys @ e # zs)" using r by (simp add: ring_def xs)
  ultimately show "list_is_first e h m = Some (e = hd xs)" "list_is_last e h m = Some (e = last xs)"
    by (cases ys; cases zs; auto simp: linked_def list_is_first_def list_is_last_def xs)+
  show "list_is_singular h m = Some (length xs = 1)"
    using ring_next [OF r] ring_prev [OF r] ring_empty [OF r] r
    by (cases xs) (auto simp: list_is_singular_def ring_def)
qed

end
