(* ===== verification/Container_Properties.thy ===== *)
theory Container_Properties
  imports Rb_Tree_Index Linked_List
begin

section \<open>Properties of the containers\<close>

text \<open>
  The red-black trees and the linked lists of \<open>src/core/misc\<close> implement what the model of the core uses
  in their place: indexes and sequences.
\<close>

subsection \<open>A sample memory\<close>

definition sample_obj :: "ptr \<Rightarrow> extent" where
  "sample_obj a = \<lparr>ext_backend = ucast a, ext_map = False, ext_pending = False, ext_file = 0, ext_error = False\<rparr>"

definition sample_cmp :: "ptr \<Rightarrow> ptr \<Rightarrow> int" where
  "sample_cmp a b = extent_compare_backend (sample_obj a) (sample_obj b)"

definition sample_key :: "ptr \<Rightarrow> bitfield30" where
  "sample_key a = ext_backend (sample_obj a)"

definition sample_rb :: rb where
  "sample_rb = \<lparr>rbh_root = 0, rb_mem = (\<lambda>a. if a = 16 \<or> a = 32 then Some \<lparr>rbe_left = 7, rbe_right = 7, rbe_parent = 7\<rparr> else None)\<rparr>"

lemma sample_order: "key_order sample_cmp sample_key"
  unfolding sample_cmp_def sample_key_def by (rule backend_extents.key_order_axioms)

lemma sample_empty_tree: "rb_holds sample_key sample_rb idx_empty"
  by (auto simp: rb_holds_def rb_tree_def rb_at_def sample_rb_def intro!: exI [of _ Leaf])

lemma sample_element: "element 16" "element 32" "rb_mem sample_rb 16 \<noteq> None" "rb_mem sample_rb 32 \<noteq> None" "members idx_empty = {}"
  by (simp_all add: element_def sample_rb_def members_def)

lemma members_put: "members (idx_put k a idx_empty) = {a}"
  by (auto simp: members_def idx_put.rep_eq)

lemma sample_one: "\<exists>s. rb_holds sample_key s (idx_put (sample_key 16) 16 idx_empty)"
proof -
  have "(16 :: ptr) \<notin> members (idx_empty :: (bitfield30, ptr) index)" by (simp add: sample_element(5))
  note I = key_order.holds_insert [OF sample_order sample_empty_tree sample_element(1) this sample_element(3)]
  have "snd (idx_insert (sample_key 16) (16 :: ptr) idx_empty) = idx_put (sample_key 16) 16 idx_empty" by simp
  then show ?thesis using I by metis
qed

subsection \<open>Red-black trees\<close>

text \<open>C32: \<open>CYANFS_RB_INSERT\<close> of an element that is not in the tree returns, without following a null pointer. If
  another element has the key, that one is returned and nothing changes; otherwise the memory holds the
  index with the new element afterwards, as a balanced tree, and no entry of any other element has
  changed.\<close>

theorem rb_insert_refines:
  assumes "key_order cmp key" "rb_holds key s ix" "element elm" "elm \<notin> members ix" "rb_mem s elm \<noteq> None"
  shows "\<exists>s'. RB_INSERT cmp elm s = Some (null_or (fst (idx_insert (key elm) elm ix)), s') \<and>
    rb_holds key s' (snd (idx_insert (key elm) elm ix)) \<and>
    (\<forall>a. a \<notin> insert elm (members ix) \<longrightarrow> rb_mem s' a = rb_mem s a)"
  using key_order.holds_insert [OF assms] by (simp add: only_def)

theorem rb_insert_refines_witness:
  "\<exists>s'. RB_INSERT sample_cmp 16 sample_rb = Some (0, s') \<and> rb_holds sample_key s' (idx_put (sample_key 16) 16 idx_empty)"
  using rb_insert_refines [OF sample_order sample_empty_tree sample_element(1) _ sample_element(3)] sample_element(5)
  by (auto simp: null_or_def)

text \<open>C33: \<open>CYANFS_RB_REMOVE\<close> of an element of the tree returns it, and the memory holds the index without it
  afterwards, as a balanced tree; no entry of an element outside the tree has changed.\<close>

theorem rb_remove_refines:
  assumes "rb_holds key s ix" "elm \<in> members ix"
  shows "\<exists>s'. RB_REMOVE elm s = Some (elm, s') \<and> rb_holds key s' (idx_remove (key elm) ix) \<and>
    (\<forall>a. a \<notin> members ix \<longrightarrow> rb_mem s' a = rb_mem s a)"
  using holds_remove [OF assms] by (simp add: only_def)

theorem rb_remove_refines_witness:
  "\<exists>s s'. RB_REMOVE 16 s = Some (16, s') \<and> rb_holds sample_key s' idx_empty"
proof -
  obtain s where "rb_holds sample_key s (idx_put (sample_key 16) 16 idx_empty)" using sample_one by blast
  from rb_remove_refines [OF this, of 16] show ?thesis by (auto simp: members_put idx_remove_absent)
qed

text \<open>C34: the searches find what the index has: \<open>CYANFS_RB_FIND\<close> the element with the key, \<open>CYANFS_RB_NFIND\<close> the
  first one with this or a larger key, \<open>CYANFS_RB_MIN\<close> the first of all and \<open>CYANFS_RB_NEXT\<close> the one
  behind an element; they return null exactly if there is none, and \<open>CYANFS_RB_EMPTY\<close> tells whether the
  index is empty.\<close>

theorem rb_search_refines:
  assumes "key_order cmp key" "rb_holds key s ix"
  shows "RB_FIND cmp elm s = Some (null_or (idx_find ix (key elm))) \<and>
    RB_NFIND cmp elm s = Some (null_or (map_option snd (idx_nfind ix (key elm)))) \<and>
    RB_MINMAX LEFT_SIDE s = Some (null_or (map_option snd (idx_min ix))) \<and> (RB_EMPTY s \<longleftrightarrow> ix = idx_empty) \<and>
    (\<forall>xs k a ys. idx_items ix = xs @ (k, a) # ys \<longrightarrow> RB_STEP RIGHT_SIDE a s = Some (front (map snd ys)))"
  using key_order.holds_find [OF assms, of elm] key_order.holds_nfind [OF assms, of elm] holds_walk(2) [OF assms(2)]
    holds_next [OF assms(2)] holds_empty(2) [OF assms(2)]
  by blast

theorem rb_search_refines_witness:
  "\<exists>s. RB_FIND sample_cmp 16 s = Some 16 \<and> RB_FIND sample_cmp 32 s = Some 0 \<and> RB_MINMAX LEFT_SIDE s = Some 16"
proof -
  obtain s where s: "rb_holds sample_key s (idx_put (sample_key 16) 16 idx_empty)" using sample_one by blast
  have "sample_key 32 \<noteq> sample_key 16" by (simp add: sample_key_def sample_obj_def)
  then show ?thesis
    using rb_search_refines [OF sample_order s, of 16] rb_search_refines [OF sample_order s, of 32]
    by (auto simp: null_or_def idx_min_def idx_put.rep_eq)
qed

text \<open>C35: a loop \<open>CYANFS_RB_FOREACH\<close> ends and visits the elements of the index once each, in the order of their
  keys, and \<open>CYANFS_RB_FOREACH_REVERSE\<close> in the opposite order.\<close>

theorem rb_foreach_order:
  assumes "rb_holds key s ix"
  shows "RB_FOREACH LEFT_SIDE s = Some (map snd (idx_items ix)) \<and>
    RB_FOREACH RIGHT_SIDE s = Some (rev (map snd (idx_items ix)))"
  using holds_walk [OF assms] by blast

theorem rb_foreach_order_witness: "\<exists>s. RB_FOREACH LEFT_SIDE s = Some [16]"
proof -
  obtain s where "rb_holds sample_key s (idx_put (sample_key 16) 16 idx_empty)" using sample_one by blast
  from rb_foreach_order [OF this] show ?thesis by (auto simp: idx_put.rep_eq)
qed



subsection \<open>Linked lists\<close>

definition sample_list :: list_mem where
  "sample_list = (\<lambda>a. if a = 8 then Some \<lparr>lh_next = 8, lh_prev = 8\<rparr> else if a = 24 then Some \<lparr>lh_next = 0, lh_prev = 0\<rparr>
     else if a = 40 then Some \<lparr>lh_next = 24, lh_prev = 24\<rparr> else None)"

lemma sample_ring: "ring sample_list 8 []" "sample_list 24 \<noteq> None"
  by (simp_all add: ring_def linked_def list_next_def list_prev_def sample_list_def)

text \<open>C37: on a list with the entries \<open>xs\<close>, \<open>cyanfs_list_add\<close> puts a new entry in front and
  \<open>cyanfs_list_add_tail\<close> at the end, \<open>cyanfs_list_del\<close> takes an entry out wherever it is,
  \<open>cyanfs_list_empty\<close> tells whether there is one, and a loop \<open>cyanfs_list_for_each\<close> visits them in order;
  no other head changes.\<close>

theorem list_refines:
  assumes "ring m h xs"
  shows "(\<forall>new. new \<notin> set (h # xs) \<and> m new \<noteq> None \<longrightarrow>
      (\<exists>m'. list_add new h m = Some m' \<and> ring m' h (new # xs) \<and> (\<forall>a. a \<notin> set (h # new # xs) \<longrightarrow> m' a = m a)) \<and>
      (\<exists>m'. list_add_tail new h m = Some m' \<and> ring m' h (xs @ [new]) \<and> (\<forall>a. a \<notin> set (h # new # xs) \<longrightarrow> m' a = m a))) \<and>
    (\<forall>ys e zs. xs = ys @ e # zs \<longrightarrow>
      (\<exists>m'. list_del e m = Some m' \<and> ring m' h (ys @ zs) \<and> m' e = m e \<and> (\<forall>a. a \<notin> set (h # ys @ zs) \<longrightarrow> m' a = m a))) \<and>
    list_empty h m = Some (xs = []) \<and> list_for_each h m = Some xs \<and> list_for_each_prev h m = Some (rev xs) \<and>
    list_next h m = Some (hd (xs @ [h])) \<and> list_prev h m = Some (last (h # xs))"
  using ring_add [OF assms] ring_add_tail [OF assms] ring_del [of m h] ring_empty [OF assms] ring_for_each [OF assms]
    ring_for_each_prev [OF assms] ring_next [OF assms] ring_prev [OF assms] assms
  by blast

theorem list_refines_witness:
  "list_empty 8 sample_list = Some True \<and> (\<exists>m'. list_add_tail 24 8 sample_list = Some m' \<and> ring m' 8 [24])"
proof -
  note L = list_refines [OF sample_ring(1)]
  have "\<exists>m'. list_add_tail 24 8 sample_list = Some m' \<and> ring m' 8 ([] @ [24])"
    using conjunct1 [OF L, rule_format, of 24] sample_ring(2) by auto
  then show ?thesis using L by simp
qed

text \<open>C38: \<open>cyanfs_list_splice_tail_init\<close>, with which a flusher takes over the journal entries of the super
  block, moves all entries of one list behind those of another in their order and leaves the first list
  empty; \<open>cyanfs_list_splice_init\<close> moves them to the front.\<close>

theorem list_splice_refines:
  assumes "ring m l xs" "ring m h ys" "set (l # xs) \<inter> set (h # ys) = {}"
  shows "(\<exists>m'. list_splice_tail_init l h m = Some m' \<and> ring m' h (ys @ xs) \<and> ring m' l []) \<and>
    (\<exists>m'. list_splice_init l h m = Some m' \<and> ring m' h (xs @ ys) \<and> ring m' l [])"
  using ring_splice_init(1,2) [OF assms] by blast

theorem list_splice_refines_witness:
  "\<exists>m m'. ring m 8 [24] \<and> ring m 40 [] \<and> list_splice_tail_init 8 40 m = Some m' \<and> ring m' 40 [24] \<and> ring m' 8 []"
proof -
  obtain m1 where 1: "list_add_tail 24 8 sample_list = Some m1" "ring m1 8 [24]" "m1 40 = sample_list 40"
    using ring_add_tail [OF sample_ring(1) _ sample_ring(2)] by force
  then have "m1 40 \<noteq> None" by (simp add: sample_list_def)
  then obtain m2 where 2: "ring m2 40 []" "\<forall>a. a \<noteq> 40 \<longrightarrow> m2 a = m1 a" using ring_init by blast
  have "ring m2 8 [24]" by (rule ring_cong [OF 1(2)]) (use 2(2) in auto)
  then show ?thesis using list_splice_refines [of m2 8 "[24]" 40 "[]"] 2(1) by auto
qed

end
