(* ===== verification/Flusher_Life.thy ===== *)
theory Flusher_Life
  imports Recovery
begin

section \<open>The life of a flusher\<close>

text \<open>
  The object of a flusher is freed by the last of its tasks, which is queued behind the others. In every
  reachable state each task of a flusher has that task behind it in the queue, which is there only once,
  and the unused extents that a flusher carries belong to one that still has it: no task works on a
  flusher that is gone, none is freed twice, and none takes extents with it.
\<close>

fun flusher_id :: "task_ref \<Rightarrow> nat option" where
  "flusher_id (Flusher_Before a) = Some a"
| "flusher_id (Flusher_After a) = Some a"
| "flusher_id (Flusher_Writer a) = Some a"
| "flusher_id _ = None"

fun flushers_ok :: "task_ref list \<Rightarrow> bool" where
  "flushers_ok [] = True"
| "flushers_ok (t # ts) \<longleftrightarrow>
     (\<forall>a. flusher_id t = Some a \<longrightarrow> Flusher_Free a \<in> set ts) \<and>
     (\<forall>a. t = Flusher_Free a \<longrightarrow> Flusher_Free a \<notin> set ts) \<and> flushers_ok ts"

definition flush_inv :: "super \<times> task_ref option \<Rightarrow> bool" where
  "flush_inv x \<longleftrightarrow> flushers_ok (task_list x) \<and>
     (\<forall>a. Flusher_Free a \<in> set (task_list x) \<longrightarrow> a < next_address (fst x)) \<and>
     (\<forall>a. trees (fst x) (Flusher_Unused a) \<noteq> idx_empty \<longrightarrow> Flusher_Free a \<in> set (task_list x))"

lemma flushers_ok_append:
  "flushers_ok xs \<Longrightarrow> flushers_ok ys \<Longrightarrow> (\<And>a. Flusher_Free a \<in> set xs \<Longrightarrow> Flusher_Free a \<notin> set ys) \<Longrightarrow>
     flushers_ok (xs @ ys)"
  by (induction xs) auto

lemma flushers_ok_heads:
  "flushers_ok ys \<Longrightarrow> \<forall>h \<in> set hs. flusher_id h = Some a \<Longrightarrow> Flusher_Free a \<in> set ys \<Longrightarrow> flushers_ok (hs @ ys)"
  by (induction hs) auto

lemma flushers_ok_behind:
  "flushers_ok (xs @ x # ys) \<Longrightarrow> flusher_id x = Some a \<Longrightarrow> Flusher_Free a \<in> set ys"
  by (induction xs) auto

lemma flushers_ok_gone:
  assumes "flushers_ok (xs @ Flusher_Free a # ys)" "y \<in> set ys"
  shows "flusher_id y \<noteq> Some a \<and> y \<noteq> Flusher_Free a"
proof -
  have ys: "flushers_ok ys" "Flusher_Free a \<notin> set ys" using assms(1) by (induction xs) auto
  obtain us vs where "ys = us @ y # vs" using assms(2) by (meson split_list)
  then show ?thesis using ys flushers_ok_behind [of us y vs a] by auto
qed

subsection \<open>Operations that add tasks behind the others\<close>

definition grow :: "super \<Rightarrow> super \<Rightarrow> bool" where
  "grow s s' \<longleftrightarrow> next_address s \<le> next_address s' \<and>
     (\<exists>ys. task_head s' = task_head s @ ys \<and> flushers_ok ys \<and>
        (\<forall>a. Flusher_Free a \<in> set ys \<longrightarrow> next_address s \<le> a \<and> a < next_address s') \<and>
        (\<forall>a. trees s' (Flusher_Unused a) \<noteq> idx_empty \<longrightarrow>
           trees s (Flusher_Unused a) \<noteq> idx_empty \<or> Flusher_Free a \<in> set ys))"

lemma growI:
  assumes "task_head s' = task_head s @ ys" "flushers_ok ys" "next_address s \<le> next_address s'"
    and "\<And>a. Flusher_Free a \<in> set ys \<Longrightarrow> next_address s \<le> a \<and> a < next_address s'"
    and "\<And>a. trees s' (Flusher_Unused a) \<noteq> idx_empty \<Longrightarrow> Flusher_Free a \<notin> set ys \<Longrightarrow>
      trees s (Flusher_Unused a) \<noteq> idx_empty"
  shows "grow s s'"
  using assms unfolding grow_def by blast

lemma grow_trans:
  assumes "grow s t" "grow t u"
  shows "grow s u"
proof -
  obtain ys zs where y: "task_head t = task_head s @ ys" "flushers_ok ys" "next_address s \<le> next_address t"
      "\<And>a. Flusher_Free a \<in> set ys \<Longrightarrow> next_address s \<le> a \<and> a < next_address t"
      "\<And>a. trees t (Flusher_Unused a) \<noteq> idx_empty \<Longrightarrow>
        trees s (Flusher_Unused a) \<noteq> idx_empty \<or> Flusher_Free a \<in> set ys"
    and z: "task_head u = task_head t @ zs" "flushers_ok zs" "next_address t \<le> next_address u"
      "\<And>a. Flusher_Free a \<in> set zs \<Longrightarrow> next_address t \<le> a \<and> a < next_address u"
      "\<And>a. trees u (Flusher_Unused a) \<noteq> idx_empty \<Longrightarrow>
        trees t (Flusher_Unused a) \<noteq> idx_empty \<or> Flusher_Free a \<in> set zs"
    using assms unfolding grow_def by blast
  have "flushers_ok (ys @ zs)" using y(2,4) z(2,4) by (intro flushers_ok_append) (auto simp: not_less [symmetric])
  moreover have "task_head u = task_head s @ ys @ zs" using y(1) z(1) by simp
  ultimately show ?thesis
    using y(3-) z(3-) by (intro growI [of u s "ys @ zs"]) (auto dest: order.strict_trans2 order.trans)
qed

definition flush_view where
  "flush_view s = (task_head s, next_address s, \<lambda>a. trees s (Flusher_Unused a))"

lemma flush_viewD:
  assumes "flush_view s' = flush_view s"
  shows "task_head s' = task_head s" "next_address s' = next_address s"
    "trees s' (Flusher_Unused a) = trees s (Flusher_Unused a)"
  using assms by (simp_all add: flush_view_def fun_eq_iff)

lemma grow_view: "flush_view s' = flush_view s \<Longrightarrow> grow s s'"
  by (rule growI [of _ _ "[]"]) (simp_all add: flush_view_def fun_eq_iff)

lemma grow_refl [simp]: "grow s s"
  by (rule grow_view) simp

lemma grow_after_view: "flush_view s' = flush_view t \<Longrightarrow> grow s t \<Longrightarrow> grow s s'"
  by (erule grow_trans) (rule grow_view)

lemma grow_fold: "(\<And>x s. grow s (g x s)) \<Longrightarrow> grow s (fold g xs s)"
  by (induction xs arbitrary: s) (auto intro: grow_trans)

lemma grow_tail:
  "flusher_id t = None \<Longrightarrow> (\<And>a. t \<noteq> Flusher_Free a) \<Longrightarrow> grow s (snd (task_add_tail t s))"
  by (rule growI [of _ _ "[t]"]) (auto simp: task_add_tail_def)

lemma view_fold: "(\<And>x s. flush_view (g x s) = flush_view s) \<Longrightarrow> flush_view (fold g xs s) = flush_view s"
  by (induction xs arbitrary: s) auto

lemma view_small [simp]:
  "flush_view (panic s) = flush_view s" "flush_view (put_file i f s) = flush_view s"
  "flush_view (add_free v s) = flush_view s" "flush_view (add_journal v s) = flush_view s"
  "flush_view (add_data v s) = flush_view s" "flush_view (super_stat_add T v s) = flush_view s"
  "flush_view (add_files v s) = flush_view s" "flush_view (journal_append j s) = flush_view s"
  "flush_view (set_flag m s) = flush_view s" "flush_view (clear_flag m s) = flush_view s"
  "flush_view (mark_error s) = flush_view s" "flush_view (task_init t ty fn s) = flush_view s"
  "flush_view (task_set_nop t s) = flush_view s" "flush_view (super_new_task s) = flush_view s"
  "flush_view (add_children p v s) = flush_view s" "flush_view (update_extent i k g s) = flush_view s"
  "flush_view (writer_dec w s) = flush_view s" "flush_view (snd (writer_inc s)) = flush_view s"
  "flush_view (super_set_new_task_callback fn' s) = flush_view s" "flush_view (task_leave s) = flush_view s"
  by (simp_all add: flush_view_def panic_def put_file_def add_free_def add_journal_def add_data_def
      super_stat_add_def add_files_def journal_append_def set_flag_def clear_flag_def mark_error_def task_init_def
      task_set_nop_def super_new_task_def add_children_def update_extent_def writer_dec_def writer_inc_def Let_def
      super_set_new_task_callback_def task_leave_def split: option.split)

lemma view_tree:
  "(\<And>a. T \<noteq> Flusher_Unused a) \<Longrightarrow> flush_view (tree_insert T n s) = flush_view s"
  "(\<And>a. T \<noteq> Flusher_Unused a) \<Longrightarrow> flush_view (tree_remove T n s) = flush_view s"
  by (auto simp: flush_view_def tree_insert_def tree_remove_def fun_eq_iff)

lemma view_update [simp]:
  "flush_view (s\<lparr>files_by_id := x1\<rparr>) = flush_view s" "flush_view (s\<lparr>files_by_name := x2\<rparr>) = flush_view s"
  "flush_view (s\<lparr>max_file_id := x3\<rparr>) = flush_view s" "flush_view (s\<lparr>journal_cursor := x4\<rparr>) = flush_view s"
  "flush_view (s\<lparr>flusher_at := x5\<rparr>) = flush_view s" "flush_view (s\<lparr>meta := x6\<rparr>) = flush_view s"
  by (simp_all add: flush_view_def)

lemma view_moves [simp]:
  "flush_view (extent_file_to_super i n Unused_Extents s) = flush_view s"
  "flush_view (extent_file_to_super i n Free_Extents s) = flush_view s"
  "flush_view (extent_super_to_file i n Free_Extents s) = flush_view s"
  "flush_view (extent_super_to_super n Free_Extents Journal_Extents s) = flush_view s"
  by (simp_all add: extent_file_to_super_def extent_super_to_file_def extent_super_to_super_def Let_def view_tree
      case_prod_unfold split: option.split)

lemma view_files [simp]:
  "flush_view (snd (file_map_extent i n k s)) = flush_view s" "flush_view (file_unmap_extent i n s) = flush_view s"
  "flush_view (snd (file_alloc_extent i f_off s)) = flush_view s"
  "flush_view (snd (init_file name i parent s)) = flush_view s" "flush_view (snd (rename_file i name s)) = flush_view s"
  by (simp_all add: file_map_extent_def file_unmap_extent_def file_alloc_extent_def init_file_def rename_file_def
      Let_def case_prod_unfold split: option.split prod.split)

lemma view_truncate [simp]:
  "flush_view (snd (file_truncate i sz s)) = flush_view s" "flush_view (snd (delete_file i s)) = flush_view s"
proof -
  show t: "flush_view (snd (file_truncate i sz s)) = flush_view s" for sz s
    by (simp add: file_truncate_def file_set_size_def Let_def view_fold case_prod_unfold split: option.split)
  show "flush_view (snd (delete_file i s)) = flush_view s"
    using t [of 0 s]
    by (cases "file_truncate i 0 s"; cases "fst (file_truncate i 0 s)")
      (simp_all add: delete_file_def Let_def split: option.split)
qed

lemma view_locked [simp]:
  "flush_view (snd (snd (create_locked name s))) = flush_view s"
  "flush_view (snd (snd (fork_locked p name s))) = flush_view s"
  "flush_view (snd (rename_locked i name s)) = flush_view s"
  "flush_view (snd (truncate_locked i sz s)) = flush_view s" "flush_view (snd (delete_locked i s)) = flush_view s"
  "flush_view (snd (snd (cyanfs_open i w s))) = flush_view s" "flush_view (cyanfs_close i s) = flush_view s"
  by (simp_all add: create_locked_def fork_locked_def rename_locked_def truncate_locked_def delete_locked_def
      cyanfs_open_def cyanfs_close_def Let_def case_prod_unfold split: option.split open_type.split)

lemma grow_flusher_start: "grow s (snd (flusher_start mem k ondisk s))"
proof -
  let ?a = "next_address s"
  define od where "od = (ondisk \<or> has_flag s FLAG_FLUSH)"
  let ?ys = "(if journal_head s = [] then [] else [Flusher_Writer ?a]) @ (if od then [Flusher_After ?a] else []) @
    (if od \<or> journal_head s \<noteq> [] then [Flusher_Free ?a] else [])"
  show ?thesis
  proof (cases "ensure_status s \<noteq> Ok \<or> journal_count s \<le> k \<and> \<not> od \<or> \<not> mem")
    case True
    then show ?thesis by (auto simp: flusher_start_def Let_def od_def)
  next
    case False
    then show ?thesis
      by (intro growI [of _ _ ?ys])
        (auto simp: flusher_start_def flusher_start_locked_def journal_writer_start_def Let_def task_add_tail_def
          task_init_def clear_flag_def super_new_task_def simp flip: od_def split: option.splits if_splits)
  qed
qed

lemma grow_new_journal: "grow s (super_flush_new_journal mem s)"
  by (simp add: super_flush_new_journal_def grow_flusher_start)

lemma grow_after_locked: "flush_view t = flush_view s \<Longrightarrow> grow s (super_flush_new_journal mem t)"
  by (rule grow_trans [OF grow_view grow_new_journal])

lemma grow_calls:
  "grow s (snd (snd (cyanfs_create mem n s)))" "grow s (snd (snd (cyanfs_fork mem i n s)))"
  "grow s (snd (cyanfs_rename mem i n s))" "grow s (snd (cyanfs_truncate mem i sz s))"
  "grow s (snd (cyanfs_delete mem i s))"
  by (auto simp: cyanfs_create_def cyanfs_fork_def cyanfs_rename_def cyanfs_truncate_def cyanfs_delete_def Let_def
      case_prod_unfold intro: grow_after_locked split: option.split)

lemma grow_requeue: "grow s (snd (cyanfs_requeue mem i ctx s))"
  by (intro growI [of _ _ "if mem then [Requeue_Task (next_address s)] else []"])
    (auto simp: cyanfs_requeue_def Let_def task_add_tail_def task_init_def super_new_task_def split: option.splits if_splits)

lemma grow_cow:
  assumes "flush_view t = flush_view s"
  shows "grow s (t\<lparr>next_address := Suc (next_address t), cow_at := c, task_at := d, task_head := task_head t @ [Cow_Task a]\<rparr>)"
  using flush_viewD [OF assms] by (intro growI [of _ _ "[Cow_Task a]"]) simp_all

lemma grow_write_alloc: "grow s (snd (snd (snd (snd (write_alloc i f_off p s)))))"
proof -
  obtain n t where t: "file_alloc_extent i f_off s = (n, t)" by fastforce
  then have v: "flush_view t = flush_view s" using view_files(3) [of i f_off s] by simp
  then have "flush_view (update_extent i k g t) = flush_view s" "flush_view (journal_append j t) = flush_view s" for k g j
    by simp_all
  then show ?thesis
    by (auto simp: write_alloc_def t v Let_def task_add_tail_def task_init_def intro: grow_cow grow_view split: option.split)
qed

lemma grow_discard_unmap: "grow s (journal_append j (file_unmap_extent i n s))"
  by (rule grow_view) simp

subsection \<open>The completions\<close>

lemma grow_move:
  assumes "\<And>a. to \<noteq> Flusher_Unused a"
  shows "grow s (extent_super_to_super n from to s)"
proof -
  have "trees (extent_super_to_super n from to s) (Flusher_Unused a) =
      (if Flusher_Unused a = from then idx_remove (ext_backend n) (trees s (Flusher_Unused a))
       else trees s (Flusher_Unused a))" for a
    using assms [of a] by (intro super_to_super_tree) simp
  then show ?thesis
    by (intro growI [of _ _ "[]"]) (auto simp: super_rest_D [OF super_rest_moves(1)] split: if_splits)
qed

lemma grow_tail_init:
  assumes "grow s t" "flusher_id x = None" "\<And>a. x \<noteq> Flusher_Free a"
  shows "grow s (snd (task_add_tail x (task_init x ty fn t)))"
  by (rule grow_trans [OF assms(1) grow_trans [OF grow_view grow_tail]]) (use assms(2,3) in simp_all)

lemma grow_discard_extent: "grow s (super_discard_extent n root s)"
  by (auto simp: super_discard_extent_def Let_def intro!: grow_move grow_tail_init grow_after_view [OF view_small(9)])

lemma grow_discard_begin: "grow s (discard_extents_begin s)"
proof -
  have "flush_view (fold (\<lambda>n s. tree_insert Discard_Extents n (tree_remove Wait_Discard_Extents n s)) ns s) = flush_view s"
    for ns s by (rule view_fold) (simp add: view_tree)
  then show ?thesis
    by (auto simp: discard_extents_begin_def Let_def grow_view grow_tail_init split: list.split)
qed

lemma grow_discard_done: "grow s (discard_extents_done s)"
  by (auto simp: discard_extents_done_def Let_def case_prod_unfold
      intro!: grow_trans [OF grow_fold grow_discard_begin] grow_move)

lemma grow_after_flush: "grow s (flusher_after_flush err s)"
  by (auto simp: flusher_after_flush_def Let_def case_prod_unfold
      grow_fold grow_discard_extent grow_view intro!: grow_after_view [OF view_update(4)])

lemma grow_copy_done: "grow s (copy_on_write_done mem a err s)"
  by (simp add: copy_on_write_done_def Let_def grow_after_locked grow_view)

lemma grow_free: "grow s (flusher_free a s)"
proof -
  have m: "grow s (set_flag FLAG_FLUSH s)" by (rule grow_view) simp
  have "grow t (fold (\<lambda>(_, n). extent_super_to_super n (Flusher_Unused a) Unused_Extents) xs t)" for t and xs :: "(bitfield30 \<times> extent) list"
    unfolding case_prod_unfold by (intro grow_fold grow_move) simp
  note grow_trans [OF m this]
  moreover have "grow s (set_flag FLAG_FLUSH s\<lparr>trees := (trees s)(Unused_Extents := trees s (Flusher_Unused a),
      Flusher_Unused a := idx_empty)\<rparr>)"
    by (rule growI [of _ _ "[]"]) (auto simp: set_flag_def split: if_splits)
  ultimately show ?thesis by (simp add: flusher_free_def Let_def)
qed

text \<open>The object of a flusher is freed with an empty tree.\<close>

lemma moved_all:
  "idx_find (trees (fold (\<lambda>(_, n). extent_super_to_super n (Flusher_Unused a) Unused_Extents) xs s) (Flusher_Unused a)) k =
     (if k \<in> (ext_backend \<circ> snd) ` set xs then None else idx_find (trees s (Flusher_Unused a)) k)"
  by (induction xs arbitrary: s) (auto simp: super_to_super_tree)

lemma flusher_free_empty:
  assumes "tree_nodes_ok s"
  shows "trees (flusher_free a s) (Flusher_Unused a) = idx_empty"
proof -
  have "k \<in> (ext_backend \<circ> snd) ` set (idx_items (trees s (Flusher_Unused a)))"
    if "idx_find (trees s (Flusher_Unused a)) k = Some n" for k n
    using assms that by (force simp: tree_nodes_ok_def idx_find_in_items)
  then have "idx_find (trees (flusher_free a s) (Flusher_Unused a)) k = None" for k
    by (cases "idx_find (trees s (Flusher_Unused a)) k")
      (auto simp: flusher_free_def Let_def moved_all)
  then show ?thesis by (simp add: idx_empty_iff)
qed

subsection \<open>The completions of a flusher's own tasks\<close>

text \<open>They may put tasks of the same flusher before the others.\<close>

definition run_on :: "nat \<Rightarrow> super \<Rightarrow> super \<Rightarrow> bool" where
  "run_on a s s' \<longleftrightarrow>
     (\<exists>hs. (\<forall>h \<in> set hs. flusher_id h = Some a) \<and> grow (s\<lparr>task_head := hs @ task_head s\<rparr>) s')"

lemma run_on_grow: "grow s s' \<Longrightarrow> run_on a s s'"
  unfolding run_on_def by (rule exI [of _ "[]"]) simp

lemma run_onI:
  assumes "grow s t" "flush_view s' = (hs @ task_head t, next_address t, \<lambda>a. trees t (Flusher_Unused a))"
    "\<forall>h \<in> set hs. flusher_id h = Some a"
  shows "run_on a s s'"
  using assms unfolding run_on_def grow_def flush_view_def
  by (intro exI [of _ hs]) (auto simp: fun_eq_iff)

lemma grow_take_flush: "grow s (flusher_take_flush a s)"
  by (rule growI [of _ _ "[]"]) (auto simp: flusher_take_flush_def split: if_splits)

lemma run_before_flush: "run_on a s (flusher_before_flush a s)"
proof (cases "has_flag s FLAG_ERROR")
  case False
  show ?thesis
    by (rule run_onI [OF grow_take_flush [of s a], of _ "[Flusher_After a]"])
      (use False in \<open>simp_all add: flusher_before_flush_def Let_def task_add_head_def task_init_def flush_view_def\<close>)
qed (simp add: flusher_before_flush_def run_on_grow)

lemma run_before_write_flush: "run_on a s (flusher_before_write_flush a s)"
proof (cases "has_flag s FLAG_ERROR")
  case False
  show ?thesis
    by (rule run_onI [OF grow_take_flush [of s a], of _ "[Flusher_Before a]"])
      (use False in \<open>simp_all add: flusher_before_write_flush_def Let_def task_add_head_def task_init_def flush_view_def\<close>)
qed (simp add: flusher_before_write_flush_def run_on_grow grow_view)

lemma grow_before_write_flush_done: "grow s (flusher_before_write_flush_done a err s)"
  by (rule grow_view) (simp add: flusher_before_write_flush_done_def Let_def)

lemma view_writer_encode: "flush_view (snd (journal_writer_encode err t s)) = flush_view s"
  by (auto simp: journal_writer_encode_def writer_next_extent_def split: option.split)

lemma grow_compact: "grow s (snd (snd (super_compact mem raw raw_file s)))"
proof -
  have start: "grow s (t\<lparr>next_address := Suc (next_address t), task_at := d, task_head := xs\<rparr>)"
    if "flush_view t = flush_view s" "xs = task_head t @ [Compact_Loader a]" for t d a xs
    using flush_viewD [OF that(1)] that(2) by (intro growI [of _ _ "[Compact_Loader a]"]) simp_all
  show ?thesis
    by (auto simp: super_compact_def super_compact_fail_def Let_def journal_loader_start_def task_add_tail_def task_init_def
        grow_view intro!: grow_after_view [OF view_small(14)] start)
qed

lemma grow_write_finish: "grow s (snd (flusher_write_finish mem raw raw_file a s))"
  by (auto simp: flusher_write_finish_def Let_def grow_view intro: grow_compact grow_trans [OF grow_view grow_compact])

lemma run_writer_done: "run_on a s (snd (flusher_writer_done env a err s))"
proof -
  obtain w t where w: "journal_writer_encode err (flusher_writer a s) s = (w, t)" by fastforce
  then have v: "flush_view t = flush_view s" using view_writer_encode [of err "flusher_writer a s" s] by simp
  show ?thesis
  proof (cases w)
    case Writer_Error
    then show ?thesis
      using v w by (auto simp: flusher_writer_done_def flusher_writer_encode_def flusher_write_error_def Let_def
          intro!: run_on_grow grow_view)
  next
    case Writer_Finish
    then show ?thesis
      using w grow_trans [OF grow_view [OF v] grow_write_finish]
      by (auto simp: flusher_writer_done_def flusher_writer_encode_def intro!: run_on_grow)
  next
    case (Writer_Write b_off len flush t')
    let ?hs = "(if flush \<and> \<not> fl_flush_before_write (flusher_at t a) then [Flusher_Before a] else []) @ [Flusher_Writer a]"
    show ?thesis
      by (rule run_onI [OF grow_view [OF v], of _ ?hs])
        (use w Writer_Write in \<open>auto simp: flusher_writer_done_def flusher_writer_encode_def flusher_writer_put_def
          flusher_flush_before_write_def task_add_head_def task_init_def flush_view_def Let_def\<close>)
  qed
qed

subsection \<open>The completions of a compaction\<close>

lemma grow_compact_discard: "grow s (snd (compact_discard ns s))"
  by (induction ns arbitrary: s) (auto intro: grow_trans [OF grow_discard_extent] split: option.split)

lemma grow_compact_error: "grow s (snd (journal_compact_error t s))"
  by (rule grow_view) (simp add: journal_compact_error_def super_compact_fail_def)

lemma grow_compact_finish: "grow s (snd (journal_compact_finish err t s))"
proof -
  let ?ns = "map snd (idx_items (trees (cp_super t) Journal_Extents))"
  have g: "grow s (snd (compact_discard ?ns s))" by (rule grow_compact_discard)
  then show ?thesis
    using grow_trans [OF g grow_compact_error] grow_after_view [OF view_small(10) g]
    by (simp add: journal_compact_finish_def Let_def case_prod_unfold grow_compact_error)
qed

lemma grow_loader_finish: "grow s (snd (journal_compact_loader_finish mem a t s))"
proof -
  have j: "grow s (extent_super_to_super m Free_Extents Journal_Extents s)" for m by (rule grow_view) simp
  show ?thesis
    by (auto simp: journal_compact_loader_finish_def journal_compact_loader_error_def Let_def journal_writer_start_def
        grow_view intro!: grow_compact_error grow_tail_init j split: sum.split option.split bool.split)
qed

lemma grow_loader_next: "grow s (snd (compact_loader_next mem a r t s))"
  by (cases r) (auto simp: compact_loader_next_def journal_compact_loader_error_def grow_view
      intro!: grow_compact_error grow_loader_finish grow_tail_init)

lemma grow_compact_writer: "grow s (snd (compact_writer_encode a err t s))"
proof -
  obtain w u where w: "journal_writer_encode err (cp_writer t) s = (w, u)" by fastforce
  then have "flush_view u = flush_view s" using view_writer_encode [of err "cp_writer t" s] by simp
  then have g: "grow s u" by (rule grow_view)
  show ?thesis
    by (cases w) (auto simp: compact_writer_encode_def w journal_compact_write_journal_error_def
        journal_compact_write_journal_finish_def intro!: grow_tail_init g grow_trans [OF g grow_compact_error])
qed

lemma grow_compact_done:
  assumes "compact_task_done env a x err t s = Some (q, s')"
  shows "grow s s'"
proof -
  have "grow s (snd (journal_compact_flush_super a err t s))" "grow s (snd (journal_compact_write_super a err t s))"
    by (auto simp: journal_compact_flush_super_def journal_compact_write_super_def Let_def case_prod_unfold
        intro!: grow_compact_error grow_tail_init)
  note G = this grow_compact_finish [of s err t] grow_compact_writer [of s a err t]
    grow_loader_next [of s "de_malloc env" a _ t]
  show ?thesis
    using assms G unfolding compact_task_done_def compact_parser_header_def compact_parser_page_def
    by (auto split: task_done.splits task_ref.splits) (metis snd_conv)+
qed

subsection \<open>Every reachable state\<close>

lemma flush_inv_grow:
  assumes "flush_inv (s, r)" "grow s s'"
  shows "flush_inv (s', r)"
proof -
  obtain ys where y: "task_head s' = task_head s @ ys" "flushers_ok ys"
      "\<And>a. Flusher_Free a \<in> set ys \<Longrightarrow> next_address s \<le> a \<and> a < next_address s'"
      "\<And>a. trees s' (Flusher_Unused a) \<noteq> idx_empty \<Longrightarrow>
        trees s (Flusher_Unused a) \<noteq> idx_empty \<or> Flusher_Free a \<in> set ys" "next_address s \<le> next_address s'"
    using assms(2) unfolding grow_def by blast
  have "task_list (s', r) = task_list (s, r) @ ys" using y(1) by (simp add: task_list_def)
  moreover have "flushers_ok (task_list (s, r) @ ys)"
    using assms(1) y(2,3) by (intro flushers_ok_append) (auto simp: flush_inv_def not_less [symmetric])
  ultimately show ?thesis
    using assms(1) y(3-) by (auto simp: flush_inv_def dest: order.strict_trans2)
qed

lemma flush_inv_get:
  assumes "flush_inv (s, None)" "super_get_task s = (r, s')"
  shows "flush_inv (s', r)"
  using assms by (auto simp: flush_inv_def super_get_task_def task_list_def split: list.splits)

text \<open>The end of a task \<open>x\<close>, which may put tasks of its own flusher before the others.\<close>

lemma flush_inv_done:
  assumes inv: "flush_inv (s, Some x)" and g: "grow (s\<lparr>task_head := hs @ task_head s\<rparr>) s'"
    and hs: "\<forall>h \<in> set hs. \<exists>a. flusher_id h = Some a \<and> flusher_id x = Some a"
    and free: "\<And>a. x = Flusher_Free a \<Longrightarrow> trees s' (Flusher_Unused a) = idx_empty"
  shows "flush_inv (s', None)"
proof -
  let ?s = "s\<lparr>task_head := hs @ task_head s\<rparr>"
  have ok: "flushers_ok (task_head s)" and behind: "\<And>a. flusher_id x = Some a \<Longrightarrow> Flusher_Free a \<in> set (task_head s)"
    using inv by (simp_all add: flush_inv_def task_list_def)
  have front: "flushers_ok (hs @ task_head s)"
  proof (cases "flusher_id x")
    case None
    then show ?thesis using ok hs by (cases hs) auto
  next
    case (Some a)
    then show ?thesis using hs behind by (intro flushers_ok_heads [OF ok, of _ a]) auto
  qed
  have nh: "Flusher_Free a \<notin> set hs" for a using hs by auto
  obtain ys where y: "task_head s' = hs @ task_head s @ ys" "flushers_ok ys"
      "\<And>a. Flusher_Free a \<in> set ys \<Longrightarrow> next_address s \<le> a \<and> a < next_address s'"
      "\<And>a. trees s' (Flusher_Unused a) \<noteq> idx_empty \<Longrightarrow>
        trees s (Flusher_Unused a) \<noteq> idx_empty \<or> Flusher_Free a \<in> set ys" "next_address s \<le> next_address s'"
    using g unfolding grow_def by auto
  have old: "Flusher_Free a \<in> set (task_head s) \<Longrightarrow> a < next_address s" for a
    using inv by (simp add: flush_inv_def task_list_def)
  have "flushers_ok ((hs @ task_head s) @ ys)"
    by (rule flushers_ok_append [OF front y(2)]) (use nh old y(3) in \<open>auto simp: not_less [symmetric]\<close>)
  moreover have "Flusher_Free a \<in> set (task_head s) \<union> set ys" if "trees s' (Flusher_Unused a) \<noteq> idx_empty" for a
    using that y(4) [OF that] free [of a] inv by (auto simp: flush_inv_def task_list_def)
  moreover have "Flusher_Free a \<in> set (task_head s) \<Longrightarrow> a < next_address s'" for a
    using order.strict_trans2 [OF old y(5)] .
  ultimately show ?thesis using y(1,3) nh by (auto simp: flush_inv_def task_list_def)
qed

lemma flush_inv_view:
  assumes "flush_inv (s, r)" "flush_view s' = flush_view s"
  shows "flush_inv (s', r)"
  by (rule flush_inv_grow [OF assms(1) grow_view [OF assms(2)]])

lemmas flush_inv_plain = flush_inv_done [where hs = "[]", simplified]

lemma flush_inv_run:
  "flush_inv (s, Some x) \<Longrightarrow> run_on a s s' \<Longrightarrow> flusher_id x = Some a \<Longrightarrow> flush_inv (s', None)"
  unfolding run_on_def by (elim exE conjE, rule flush_inv_done) auto

lemma flush_inv_plain_done:
  assumes inv: "flush_inv (s, Some x)" and ok: "tree_nodes_ok s" and d: "plain_task_done mem x err s = Some s'"
  shows "flush_inv (s', None)"
proof (cases "flusher_id x")
  case None
  show ?thesis
  proof (cases "\<exists>a. x = Flusher_Free a")
    case True
    then obtain a where x: "x = Flusher_Free a" by blast
    then have "s' = flusher_free a s" using d by (auto simp: plain_task_done_def split: task_done.splits)
    then show ?thesis using flush_inv_plain [OF inv grow_free] flusher_free_empty [OF ok, of a] x by auto
  next
    case False
    then have "grow s s'"
      using d None by (cases x) (auto simp: plain_task_done_def grow_discard_begin grow_discard_done grow_copy_done
          split: task_done.splits)
    then show ?thesis using flush_inv_plain [OF inv] False by blast
  qed
next
  case (Some a)
  then have "run_on a s s'"
    using d by (cases x) (auto simp: plain_task_done_def run_before_flush run_before_write_flush
        intro: run_on_grow grow_after_flush grow_before_write_flush_done split: task_done.splits)
  then show ?thesis by (rule flush_inv_run [OF inv _ Some])
qed

lemma flush_inv_task_done:
  assumes inv: "flush_inv (s, Some x)" and ok: "tree_nodes_ok s" and d: "super_task_done env x err (s, h) = Some (s', h')"
  shows "flush_inv (s', None)"
proof -
  have leave: "flush_inv (task_leave u, None)" if "flush_inv (u, None)" for u
    by (rule flush_inv_view [OF that]) simp
  show ?thesis
  proof (cases "comp_id x")
    case (Some a)
    then obtain t q u where u: "compact_task_done env a x err t s = Some (q, u)" "s' = task_leave u"
      using d by (auto simp: super_task_done_def split: option.splits)
    have "flush_inv (u, None)" by (rule flush_inv_plain [OF inv grow_compact_done [OF u(1)]]) (use Some in auto)
    then show ?thesis using leave u(2) by simp
  next
    case None
    show ?thesis
    proof (cases "\<exists>a. x = Flusher_Writer a")
      case True
      then obtain a q u where u: "flusher_writer_done env a err s = (q, u)" "s' = task_leave u" "x = Flusher_Writer a"
        using d by (auto simp: super_task_done_def split: if_splits prod.splits)
      then show ?thesis using flush_inv_run [OF inv run_writer_done [of a s env err]] leave by simp
    next
      case False
      then obtain u where u: "plain_task_done (de_mem env) x err s = Some u" "s' = task_leave u"
        using d None by (cases x) (auto simp: super_task_done_def)
      then show ?thesis using flush_inv_plain_done [OF inv ok] leave by simp
    qed
  qed
qed

lemma flush_inv_step:
  "step x y \<Longrightarrow> fs_inv t0 x \<Longrightarrow> flush_inv (fst x, fst (snd x)) \<Longrightarrow> flush_inv (fst y, fst (snd y))"
proof (induction rule: step.induct)
  case (Get_Task s t s' h)
  then show ?case using flush_inv_get by simp
next
  case (Task_Done env t err s h s' h')
  have "tree_nodes_ok s"
    using super_invD(1) [OF sys_invD(1) [OF fs_invD(1) [OF Task_Done(2)]]] by (simp add: extent_inv_def)
  then show ?case using flush_inv_task_done [OF _ _ Task_Done(1)] Task_Done(3) by simp
next
  case (Close s i f r h)
  then show ?case using flush_inv_view by simp
next
  case (Create n mem s err out s' r h)
  then show ?case using flush_inv_grow grow_calls(1) [of s mem n] by simp
next
  case (Fork n mem p s err out s' r h)
  then show ?case using flush_inv_grow grow_calls(2) [of s mem p n] by simp
next
  case (Rename n mem i s err s' r h)
  then show ?case using flush_inv_grow grow_calls(3) [of s mem i n] by simp
next
  case (Truncate mem i sz s err s' r h)
  then show ?case using flush_inv_grow grow_calls(4) [of s mem i sz] by simp
next
  case (Delete mem i s err s' r h)
  then show ?case using flush_inv_grow grow_calls(5) [of s mem i] by simp
next
  case (Open i w s err out s' r h)
  then show ?case using flush_inv_view view_locked(6) [of i w s] by simp
next
  case (Write_Alloc s i f_off f p err ext nj call s' r h)
  then show ?case using flush_inv_grow grow_write_alloc [of s i f_off p] by simp
next
  case (Flush mem k ondisk s err s' r h)
  then show ?case using flush_inv_grow grow_flusher_start [of s mem k ondisk] by simp
next
  case (Requeue mem i ctx s err s' r h)
  then show ?case using flush_inv_grow grow_requeue [of s mem i ctx] by simp
next
  case (Compact mem' raw raw_file s err q s' r h)
  then show ?case using flush_inv_grow grow_compact [of s mem' raw raw_file] by simp
qed (auto intro: flush_inv_view)

lemma mounted_flush_inv:
  assumes "mounted sz js s" "list_all entry_wf js"
  shows "flush_inv (s, None)"
proof -
  obtain mem locks raw rf d c r0 mem' r e u where
    o: "super_open mem locks raw rf sz d c = Some r0" and
    rep: "replay_all mem' js (loading r0) = (Ok, r)" "mem' 0" and
    s: "s = task_leave (super_open_finish e u r)"
    using assms(1) by (auto simp: mounted_def)
  note L = loading_state [OF o]
  have r: "replay_state r" using replay_all_table [OF L(1) rep(2) assms(2) rep(1)] by simp
  have "super_tail r = super_tail (loading r0)" using super_tail_replay_all [of mem' js] rep(1) by (metis snd_conv)
  from super_tail_D(6) [OF this] have tasks: "task_head r = []" using L(6) by simp
  have "flush_view s = flush_view r" by (simp add: s super_open_finish_def Let_def)
  from flush_viewD [OF this] show ?thesis
    using tasks replay_stateD(5) [OF r] by (simp add: flush_inv_def task_list_def)
qed

lemma running_flush_inv:
  assumes "mounted sz js s0" "list_all entry_wf js" "step\<^sup>*\<^sup>* (s0, None, Map.empty) (s, r, h)"
  shows "flush_inv (s, r)"
proof -
  have "fs_inv (live_table s0) y \<and> flush_inv (fst y, fst (snd y))" if "step\<^sup>*\<^sup>* (s0, None, Map.empty) y" for y
    using that
  proof (induction rule: rtranclp_induct)
    case base
    then show ?case using mounted_inv(1) [OF assms(1,2)] mounted_flush_inv [OF assms(1,2)] by simp
  next
    case (step y z)
    then show ?case using flush_inv_step step_inv by blast
  qed
  from this [OF assms(3)] show ?thesis by simp
qed

end
