(* ===== verification/Close_Inv.thy ===== *)
theory Close_Inv
  imports Sample Flusher_Life
begin

section \<open>Closing the super block\<close>

text \<open>
  \<open>cyanfs_super_close\<close> deletes the files one after the other, parents before their children, so the
  invariant of the files does not hold in between, and the invariant of the extents does. At the end
  the trees of the super block hold every extent that no flusher holds, and each node is freed once. A
  flusher holds none when there is no task.
\<close>

lemma keys_of_items: "fst ` set (idx_items t) = {k. idx_find t k \<noteq> None}"
  by (force simp: idx_find_in_items image_iff)

lemma close_file_spec:
  assumes inv: "extent_inv s" and f: "get_file s i = Some f" and np: "no_pending f"
  shows "extent_inv (close_file i s)" "panicked (close_file i s) = panicked s"
    "flags (close_file i s) = flags s" "total_extents (close_file i s) = total_extents s"
    "get_file (close_file i s) j = (if j = i then None else get_file s j)"
    "T \<noteq> unmap_target s \<Longrightarrow> trees (close_file i s) T = trees s T"
proof -
  let ?f = "f\<lparr>f_parent := None\<rparr>" and ?s = "put_file i (f\<lparr>f_parent := None\<rparr>) s"
  have einv: "extent_inv ?s"
    using extent_invD(4) [OF inv f]
    by (intro extent_inv_put [OF inv f, of _ ?f]) (simp_all add: put_file_def total_extents_def file_extents_ok_def)
  have fs: "get_file ?s i = Some ?f" by simp
  have small: "unat (0 :: u64) \<le> 2 ^ 50" by simp
  have np': "no_pending ?f" using np by (simp add: no_pending_def)
  obtain t f'
    where tr: "file_truncate i 0 ?s = (Ok, t)" and t: "extent_inv t" "super_rest t = super_rest ?s"
      "panicked t = panicked ?s" "\<And>j. j \<noteq> i \<Longrightarrow> get_file t j = get_file ?s j" "get_file t i = Some f'"
    and f': "file_rest f' = file_rest (?f\<lparr>f_meta := (f_meta ?f)\<lparr>fm_size := 0\<rparr>\<rparr>)"
      "idx_find (f_extents f') = (\<lambda>k. if fits 0 k then idx_find (f_extents ?f) k else None)"
    using file_truncate_spec [OF einv fs small np'] by blast
  have empty: "f_extents f' = idx_empty" using f'(2) by (simp add: idx_empty_iff fits_def)
  define u where "u = add_files (- 1) (t\<lparr>files_by_id := idx_remove i (files_by_id t),
      files_by_name := idx_remove (fm_name (f_meta f')) (files_by_name t)\<rparr>)"
  have "f_parent f' = None" using f'(1) by (simp add: file_rest_def)
  then have eq: "close_file i s = u"
    using f tr t(5) by (simp add: close_file_def delete_file_def Let_def u_def)
  have get: "get_file u j = (if j = i then None else get_file s j)" for j
    using t(4) by (simp add: u_def get_file_def add_files_def put_file_def)
  note R = super_rest_D [OF t(2)]
  have total: "total_extents u = total_extents t" by (simp add: u_def add_files_def total_extents_def)
  have blk: "block u j = block t j" for j
    using t(4,5) empty by (auto simp: block_def get fun_eq_iff)
  have files: "get_file u j = Some g \<Longrightarrow> file_extents_ok g" for j g
    using extent_invD(4) [OF inv] by (simp add: get split: if_splits)
  have "extent_inv u"
    using idx_sum_remove [OF get_file_files [OF t(5)], of "\<lambda>f. idx_size (f_extents f)"] empty
    by (intro extent_inv_files [OF t(1) _ total _ _ _ blk _ files]) (simp_all add: u_def add_files_def)
  then show "extent_inv (close_file i s)" by (simp add: eq)
  show "panicked (close_file i s) = panicked s" using t(3) by (simp add: eq u_def add_files_def)
  show "flags (close_file i s) = flags s" using R(10) by (simp add: eq u_def add_files_def put_file_def)
  show "total_extents (close_file i s) = total_extents s"
    using R(3) by (simp add: eq total) (simp add: total_extents_def)
  show "get_file (close_file i s) j = (if j = i then None else get_file s j)" by (simp add: eq get)
  show "trees (close_file i s) T = trees s T" if "T \<noteq> unmap_target s"
    using trees_truncate [of T ?s i 0] that tr
    by (simp add: eq u_def add_files_def unmap_target_def has_flag_def put_file_def)
qed

lemma close_files_spec:
  assumes "extent_inv s" "distinct (map fst xs)" "\<forall>(i, f) \<in> set xs. get_file s i = Some f \<and> no_pending f"
  shows "extent_inv (fold (\<lambda>(i, _). close_file i) xs s) \<and>
    panicked (fold (\<lambda>(i, _). close_file i) xs s) = panicked s \<and>
    total_extents (fold (\<lambda>(i, _). close_file i) xs s) = total_extents s \<and>
    (\<forall>j. get_file (fold (\<lambda>(i, _). close_file i) xs s) j = (if j \<in> fst ` set xs then None else get_file s j)) \<and>
    (\<forall>T. T \<noteq> unmap_target s \<longrightarrow> trees (fold (\<lambda>(i, _). close_file i) xs s) T = trees s T)"
  using assms
proof (induction xs arbitrary: s)
  case (Cons x xs)
  obtain i f where x: "x = (i, f)" by fastforce
  have f: "get_file s i = Some f" "no_pending f" using Cons.prems(3) x by auto
  note c = close_file_spec [OF Cons.prems(1) f]
  have "\<forall>(j, g) \<in> set xs. get_file (close_file i s) j = Some g \<and> no_pending g"
    using Cons.prems(2,3) x by (auto simp: c(5) rev_image_eqI)
  moreover have "unmap_target (close_file i s) = unmap_target s"
    by (simp add: unmap_target_def has_flag_def c(3))
  ultimately show ?case
    using Cons.IH [OF c(1)] Cons.prems(2) c(2,4,5,6) x by auto
qed simp

text \<open>The nodes of distinct trees are distinct nodes.\<close>

lemma tree_backends:
  assumes "extent_inv s"
  shows "map (\<lambda>x. ext_backend (snd x)) (idx_items (trees s T)) = map fst (idx_items (trees s T))"
  using assms by (auto simp: extent_inv_def tree_nodes_ok_def simp flip: idx_find_in_items)

lemma distinct_trees:
  assumes "extent_inv s" "distinct Ts"
  shows "distinct (concat (map (\<lambda>T. map fst (idx_items (trees s T))) Ts))"
  using assms(2)
proof (induction Ts)
  case (Cons T Ts)
  have "idx_find (trees s U) b = None" if "idx_find (trees s T) b = Some n" "U \<in> set Ts" for b n U
    using held_unique(1) [OF extent_invD(1) [OF assms(1)], of "In_Tree T" b "In_Tree U"] that Cons.prems by auto
  then show ?case
    using Cons idx.keys_distinct [of "trees s T"] by (simp add: keys_of_items disjoint_iff) blast
qed simp

lemma not_close_tree: "T \<notin> set close_trees \<longleftrightarrow> (\<exists>a. T = Flusher_Unused a)"
  by (cases T) (simp_all add: close_trees_def)

lemma super_close_spec:
  assumes inv: "super_inv s" and idle: "task_head s = []" "active_tasks s = 0"
    and closed: "\<And>i f. get_file s i = Some f \<Longrightarrow> f_open_type f = FILE_CLOSED"
  obtains freed s' where "super_close s = (journal_head s, freed, s')" "\<not> panicked s'" "files_by_id s' = idx_empty"
    "\<And>T. trees s' T = (if T \<in> set close_trees then idx_empty else trees s T)" "distinct (map ext_backend freed)"
    "set (map ext_backend freed) =
       {b. unat b < total_extents s \<and> (\<forall>a. idx_find (trees s (Flusher_Unused a)) b = None)}"
proof -
  let ?xs = "idx_items (files_by_id s)"
  have items: "get_file s i = Some f \<longleftrightarrow> (i, f) \<in> set ?xs" for i f
    by (simp add: get_file_def idx_find_in_items)
  define t where "t = fold (\<lambda>(i, _). close_file i) ?xs s"
  have "\<forall>(i, f) \<in> set ?xs. get_file s i = Some f \<and> no_pending f"
    using closed closed_no_pending [OF super_invD(2) [OF inv]] by (auto simp: items)
  note t = close_files_spec [OF super_invD(1) [OF inv] idx.keys_distinct this, folded t_def]
  have gone: "get_file t j = None" for j
    using t by (simp add: keys_of_items get_file_def)
  define freed where "freed = concat (map (\<lambda>T. map snd (idx_items (trees t T))) close_trees)"
  have backends: "map ext_backend freed = concat (map (\<lambda>T. map fst (idx_items (trees t T))) close_trees)"
    using tree_backends [of t] t by (simp only: freed_def map_concat map_map comp_def)
  have fl: "trees t (Flusher_Unused a) = trees s (Flusher_Unused a)" for a
    using t by (simp add: unmap_target_def)
  have place: "b \<in> set (map ext_backend freed) \<longleftrightarrow> (\<exists>T \<in> set close_trees. held_at t (In_Tree T) b)" for b
    unfolding backends by (simp add: keys_of_items)
  have "b \<in> set (map ext_backend freed) \<longleftrightarrow>
      unat b < total_extents s \<and> (\<forall>a. idx_find (trees s (Flusher_Unused a)) b = None)" for b
  proof -
    have own: "ownership t" and tot: "total_extents t = total_extents s" using t extent_invD(1) by auto
    have "\<not> held_at t (In_File i k) b" for i k by (simp add: block_def gone)
    then have tree: "held_at t p b \<Longrightarrow> \<exists>T. p = In_Tree T" for p by (cases p) auto
    have "held_at t (In_Tree T) b \<Longrightarrow> T \<in> set close_trees \<longleftrightarrow> (\<forall>a. \<not> held_at t (In_Tree (Flusher_Unused a)) b)" for T
      using held_unique(1) [OF own, of "In_Tree T" b] not_close_tree [of T] by (auto simp del: held_at.simps)
    moreover have "(\<exists>T. held_at t (In_Tree T) b) \<longleftrightarrow> unat b < total_extents s"
      using own tree unfolding ownership_def tot by metis
    ultimately show ?thesis unfolding place by (auto simp: fl)
  qed
  then have all: "set (map ext_backend freed) =
      {b. unat b < total_extents s \<and> (\<forall>a. idx_find (trees s (Flusher_Unused a)) b = None)}" by blast
  have once: "distinct (map ext_backend freed)"
    unfolding backends using t by (intro distinct_trees) (simp_all add: close_trees_def)
  have "list_all (\<lambda>(_, f). f_open_type f = FILE_CLOSED) ?xs"
    using closed by (auto simp: list_all_iff items)
  then have eq: "super_close s = (journal_head s, freed,
      t\<lparr>trees := (\<lambda>T. if T \<in> set close_trees then idx_empty else trees t T)\<rparr>)"
    using idle unfolding t_def freed_def by (simp add: super_close_def Let_def)
  have "files_by_id t = idx_empty" using gone by (simp add: idx_empty_iff get_file_def)
  moreover have "(if T \<in> set close_trees then idx_empty else trees t T) =
      (if T \<in> set close_trees then idx_empty else trees s T)" for T
    using not_close_tree [of T] fl by auto
  ultimately show ?thesis
    using super_invD(3) [OF inv] t by (intro that [OF eq _ _ _ once all]) simp_all
qed

text \<open>C40: a super block of a reachable state can be closed when it has no tasks and all files are closed.
  \<open>cyanfs_super_close\<close> does not panic, deletes all files, empties all trees, frees the entries that the
  journal still had, and frees the node of every extent of the device exactly once.\<close>

theorem super_close_frees:
  assumes "mounted sz js s0" "list_all entry_wf js" "step\<^sup>*\<^sup>* (s0, None, Map.empty) (s, None, h)"
    and "task_head s = []" "\<forall>i f. get_file s i = Some f \<longrightarrow> f_open_type f = FILE_CLOSED"
    and "super_close s = (js', freed, s')"
  shows "\<not> panicked s' \<and> files_by_id s' = idx_empty \<and> (\<forall>T. trees s' T = idx_empty) \<and> js' = journal_head s \<and>
    distinct (map ext_backend freed) \<and> set (map ext_backend freed) = {b. unat b < total_extents s}"
proof -
  have idle: "active_tasks s = 0"
    using sys_invD(4) [OF fs_invD(1) [OF running_inv(1) [OF assms(1-3)]]] by (simp add: unat_eq_0)
  have none: "trees s (Flusher_Unused a) = idx_empty" for a
    using running_flush_inv [OF assms(1-3)] assms(4) by (auto simp: flush_inv_def task_list_def)
  then have rest: "trees s T = idx_empty" if "T \<notin> set close_trees" for T using that not_close_tree [of T] by blast
  show ?thesis
    by (rule super_close_spec [OF running_inv(2) [OF assms(1-3)] assms(4) idle])
      (use assms(5,6) none rest in auto)
qed

theorem super_close_frees_witness:
  "\<exists>js freed s'. super_close sample_created = (js, freed, s') \<and> \<not> panicked s' \<and> files_by_id s' = idx_empty \<and>
     distinct (map ext_backend freed) \<and> set (map ext_backend freed) = {b. unat b < 16}"
proof -
  obtain js freed s' where e: "super_close sample_created = (js, freed, s')"
    by (cases "super_close sample_created") auto
  then show ?thesis
    using super_close_frees [OF sample_mounted _ sample_running(1) _ _ e]
    by (auto simp: sample_created_spec new_file_def)
qed

end
