(* ===== verification/Spec2Isabelle.thy ===== *)
theory Spec2Isabelle
  imports Format_Properties Data_Properties Journal_Properties Compact_Properties Container_Properties Close_Inv
begin

text \<open>
  A verification library for the core of CyanFS (\<open>src/core\<close>), a file system for disk images on a raw
  device, with snapshots by forking files.

  \<^bold>\<open>The program.\<close> A device is two copies of a super header followed by extents of 1 MiB. Each extent is
  free, belongs to the journal, to a file, or waits to be given back (unused, flush, discard). A file
  is a sequence of extents; a forked file shows its parent's extents where it has none of its own, and
  a write there copies the extent first. All changes of files are entries of a journal, which is a
  chain of records in linked extents. The core does no I/O itself: it queues tasks, which a serial
  executor of the platform takes with \<open>cyanfs_super_get_task\<close> and completes with
  \<open>cyanfs_super_task_done\<close>. A flusher writes the journal entries and gives unused extents back after
  their entries are on disk; when the journal has grown, a compaction writes an equivalent shorter one
  and lets the super header name it. A mount reads the super header, loads the journal and replays its
  entries.

  \<^bold>\<open>The theories\<close>, from the bottom up, with the files they model:

  \<^item> \<open>Prelude\<close>: words for the C integers, status codes, allocation outcomes, shared lemmas.
  \<^item> \<open>Bytes\<close> (\<open>base.h\<close>): the little-endian codecs, as instances of the locale \<open>codec\<close>, and the CRC-32.
  \<^item> \<open>Layout\<close> (\<open>core.h\<close>, \<open>internal.h\<close>): constants, the arithmetic of extents and sizes, file names.
  \<^item> \<open>Ordered_Index\<close>: the contract of the containers as the locale \<open>ordered_map\<close>, and the type \<open>index\<close>.
  \<^item> \<open>Rb_Tree\<close>, \<open>Linked_List\<close> (\<open>misc/rb_tree.h\<close>, \<open>misc/list.h\<close>): the containers on a memory of pointers.
  \<^item> \<open>Journal_Format\<close> (\<open>journal.h\<close>, \<open>journal.c\<close>): super headers, journal headers and entries on disk.
  \<^item> \<open>Super_State\<close> (\<open>internal.h\<close>, \<open>core.h\<close>): the record \<open>super\<close> of \<open>struct cyanfs_super\<close>, flags, tasks, queue.
  \<^item> \<open>Extents\<close>, \<open>Files\<close> (\<open>internal.h\<close>, \<open>super.c\<close>): the moves of extents, the indexes of files, replay.
  \<^item> \<open>Flusher\<close> (\<open>flusher.c\<close>): the discard queue and the tasks of a flusher.
  \<^item> \<open>Super_Api\<close> (\<open>super.c\<close>): the exported calls; \<open>Read_Write\<close> (\<open>readwrite.c\<close>): read, write, discard,
    seek.
  \<^item> \<open>Journal_Loader\<close>, \<open>Journal_Writer\<close> (\<open>journal.c\<close>): the two tasks that read and write the journal.
  \<^item> \<open>Compact\<close> (\<open>compact.c\<close>, \<open>flusher.c\<close>): the compaction and the end of a flusher's writer.

  A C function \<open>cyanfs_f\<close> or \<open>__cyanfs_f\<close> is the definition \<open>cyanfs_f\<close> or \<open>f\<close>; it takes the super block
  and returns it changed, with its status and results. What a lock protects is one definition, and
  where a function releases its lock in between, other threads may change the state: as a parameter of
  the loops of \<open>Read_Write\<close>, and as separate steps of \<open>System\<close>. An assertion (\<open>CYANFS_BUG_ON\<close>) and a
  null pointer that would be followed set the field \<open>panicked\<close>, or are a result of their own. Objects
  on the heap that tasks refer to are known by the number of their allocation. The argument \<open>mem\<close> says
  which allocations succeed, \<open>raw\<close> what uninitialised memory contains. Handlers, callbacks and parsers
  that the code gets as function pointers are arguments.

  \<^bold>\<open>What is shown.\<close>

  \<^item> \<open>Extent_Inv\<close>, \<open>Extent_Alloc\<close>, \<open>File_Inv\<close>, \<open>Flusher_Inv\<close>, \<open>Open_Inv\<close>: the invariant \<open>super_inv\<close>. Every
    extent is at exactly one place, the counters are right, the indexes of files agree, parents exist
    and are older. Opening establishes it and every operation keeps it.
  \<^item> \<open>Replay\<close>, \<open>Super_Refine\<close>: the abstract state is a \<open>table\<close> of files; \<open>apply_entry\<close> is the meaning of a
    journal entry. A replay refines it, and each call changes the table as the entry says that it
    appends. \<open>File_Properties\<close>, \<open>Read_Write_Inv\<close> and \<open>Data_Properties\<close> give the behaviour of each call on
    every branch, errors included.
  \<^item> \<open>System\<close>, \<open>Recovery\<close>: a mounted file system as a step relation: the calls, the taking of tasks, and
    the completion of every kind of task, those of the journal writer and of compactions included. In
    every reachable state the invariant holds, the journal recovers the table of the running system, and
    every task that was taken can be completed.
  \<^item> \<open>Flusher_Life\<close>, \<open>Close_Inv\<close>: no task works on a flusher that was freed and no flusher is freed with
    extents; closing the super block of a reachable state frees each extent exactly once.
  \<^item> \<open>Journal_Chain\<close>: what a journal is on the bytes of a device. \<open>Journal_Loader_Inv\<close> and
    \<open>Journal_Sound\<close>: the loader terminates, reads within the device and delivers only well-formed
    entries, whatever the device holds. \<open>Journal_Writer_Inv\<close> and \<open>Journal_Device\<close>: what the writer
    writes is a chain, which the loader reads back. \<open>Journal_Properties\<close> has the results.
  \<^item> \<open>Compact_Inv\<close>, \<open>Compact_Moves\<close>, \<open>Compact_Size\<close>, \<open>Compact_Device\<close>, \<open>Compact_Properties\<close>: each step of
    a compaction keeps the invariant, whatever its tasks return. The entries that a
    compaction writes mean the loaded state and are not more than those of the old journal; at every
    moment of the compaction the device holds a journal with the right meaning, also when the write of
    the super header is torn.
  \<^item> \<open>Rb_Tree_Inv\<close>, \<open>Rb_Tree_Search\<close>, \<open>Rb_Tree_Remove\<close>, \<open>Rb_Tree_Walk\<close>, \<open>Rb_Tree_Index\<close>,
    \<open>Container_Properties\<close>: the operations on the linked nodes keep the trees balanced and ordered and
    refine the operations of the type \<open>index\<close>, for every comparison that the core uses (locale
    \<open>key_order\<close>); those on linked lists refine operations on sequences.
  \<^item> \<open>Format_Properties\<close>: round trips and bounds of the formats and the arithmetic. \<open>Sample\<close>: concrete
    states at which the properties with hypotheses are applied.

  \<^bold>\<open>Loops.\<close> There is no fuel. Loops over lists and trees are structural recursions or folds; the loop
  over the records of a page and the iteration of a writer are total by a measure. The loops of
  \<open>cyanfs_read\<close>, \<open>cyanfs_write\<close> and \<open>cyanfs_discard\<close> depend on what other threads do, those over the
  parents of a file on the links between files, those of the trees and lists on the links in memory, and
  the reads of a loader on what the device answers: they are partial functions with \<open>None\<close> for a loop
  that does not end. That \<open>cyanfs_read\<close>, the loader and the operations of the containers return is part
  of their properties.

  \<^bold>\<open>Not modelled.\<close> The components of the core use the trees and lists through their contract; their
  nodes in memory are modelled in the theories of the containers only. The
  platform layers, the kernel module, the UEFI driver and the tools of user space are glue to
  interfaces outside of the repository. Releasing memory has no effect in the model, but
  for the nodes and entries that \<open>cyanfs_super_close\<close> frees. The device is
  modelled without reordering of writes: the properties about crashes are about prefixes of the journal
  and about a torn write of the super header.
\<close>

section \<open>Properties of the running file system\<close>

subsection \<open>Recovery\<close>

text \<open>C1: after any sequence of calls, tasks and completions since a mount, in any order and with any
  outcome, including those of the journal writer and of compactions, the journal of the mount together
  with the entries appended since is replayed without error on a newly opened super block of the same
  device, followed by the extents that the journal may by then consist of, and gives exactly the files,
  sizes, parents and block maps of the running system. Every prefix of that journal is replayed without
  error as well, so a crash that loses the end of the journal leaves a file system that mounts.\<close>

theorem crash_recovery:
  assumes "mounted sz (js @ map JNEXT es) s0" "list_all (\<lambda>j. entry_wf j \<and> \<not> is_link j) js"
    and "step\<^sup>*\<^sup>* (s0, None, Map.empty) (s, r, h)"
    and "super_open mem locks raw rf sz d c = Some q" "mem' 0" "js @ journal_log s = ks @ rest"
  shows "(\<exists>q'. replay_all mem' ks (loading q) = (Ok, q') \<and> super_inv q') \<and>
    (rest = [] \<and> distinct fs \<and> set fs \<subseteq> journal_ids s \<longrightarrow>
      (\<exists>q'. replay_all mem' (ks @ map JNEXT fs) (loading q) = (Ok, q') \<and> super_inv q' \<and>
        live_table q' = live_table s))"
  using recover [where mem = mem and mem' = mem', OF assms] replay_stateD(1) by blast

theorem crash_recovery_witness:
  "\<exists>q'. replay_all (\<lambda>_. True) [JCREATE sample_name 1] (loading sample_opened) = (Ok, q') \<and> super_inv q' \<and>
     live_table q' = live_table sample_created"
  using crash_recovery [of sample_size "[]" "[]", OF _ _ sample_running(1) sample_open, of "\<lambda>_. True"
      "[JCREATE sample_name 1]" "[]" "[]"] sample_created_spec(8) sample_mounted
  by simp



text \<open>C3: the executor of the tasks never gets stuck. In a reachable state, when it holds no task, it can take
  the first one of the queue; and the task that it holds can be completed, whatever status and bytes its
  execution had and whichever allocations fail: its object still exists, the completion function that is
  stored in the task is one of its kind, and the completion leads to a state without a panic.\<close>

theorem executor_progress:
  assumes "mounted sz js s0" "list_all entry_wf js" "step\<^sup>*\<^sup>* (s0, None, Map.empty) (s, r, h)"
  shows "case r of
      None \<Rightarrow> (\<forall>x xs. task_head s = x # xs \<longrightarrow>
        (\<exists>s'. super_get_task s = (Some x, s') \<and> step (s, None, h) (s', Some x, h) \<and> task_head s' = xs))
    | Some x \<Rightarrow> \<exists>s' h'. super_task_done env x err (s, h) = Some (s', h') \<and>
        step (s, Some x, h) (s', None, h') \<and> super_inv s' \<and> \<not> panicked s'"
proof (cases r)
  case None
  then show ?thesis by (auto simp: super_get_task_def intro!: step.Get_Task)
next
  case (Some x)
  obtain s' h' where d: "super_task_done env x err (s, h) = Some (s', h')"
    using task_done_defined [OF running_inv(1) [OF assms, unfolded Some], of env err] by auto
  from this have t: "step (s, Some x, h) (s', None, h')" by (rule step.Task_Done)
  have "step\<^sup>*\<^sup>* (s0, None, Map.empty) (s', None, h')"
    using assms(3) t unfolding Some by (rule rtranclp.rtrancl_into_rtrancl)
  then have "super_inv s'" by (rule running_inv(2) [OF assms(1,2)])
  then show ?thesis using d t Some by (auto simp: super_inv_def extent_inv_def)
qed

theorem executor_progress_witness:
  "\<exists>s x. step\<^sup>*\<^sup>* (sample, None, Map.empty) (s, Some x, Map.empty) \<and>
     (\<forall>env. \<exists>s' h'. super_task_done env x IO (s, Map.empty) = Some (s', h') \<and> \<not> panicked s')"
proof -
  obtain s1 where a: "cyanfs_requeue True 1 0 sample = (Ok, s1)"
    by (simp add: cyanfs_requeue_def Let_def case_prod_unfold)
  then have "task_head s1 \<noteq> []"
    by (auto simp: cyanfs_requeue_def Let_def case_prod_unfold task_add_tail_def super_new_task_def split: option.splits if_splits)
  then obtain x xs where x: "task_head s1 = x # xs" by (cases "task_head s1") auto
  note r1 = r_into_rtranclp [of step, OF step.Requeue [OF a]]
  obtain s where s: "step (s1, None, Map.empty) (s, Some x, Map.empty)"
    using executor_progress [OF sample_mounted _ r1] x by auto
  note r2 = rtranclp.rtrancl_into_rtrancl [OF r1 s]
  have "\<exists>s' h'. super_task_done env x IO (s, Map.empty) = Some (s', h') \<and> \<not> panicked s'" for env
    using executor_progress [OF sample_mounted _ r2, of env IO] by auto
  with r2 show ?thesis by blast
qed





text \<open>C14: in a reachable state the two indexes of the files agree: looking a normalized name up by
  \<open>cyanfs_lookup\<close> finds the file with that name, if there is one, and \<open>cyanfs_stat\<close> of a file reports its
  id, a name under which \<open>cyanfs_lookup\<close> finds the same file, and a parent that exists and is older.\<close>

theorem lookup_stat_agree:
  assumes "mounted sz js s0" "list_all entry_wf js" "step\<^sup>*\<^sup>* (s0, None, Map.empty) (s, r, h)" "ensure_status s = Ok"
  shows "(cyanfs_stat s i = (Ok, Some m)) = (cyanfs_lookup s (fm_name m) = (Ok, Some m) \<and> fm_id m = i) \<and>
    (\<forall>f. get_file s i = Some f \<longrightarrow>
       f_parent f = (if fm_parent_id (f_meta f) = 0 then None else Some (fm_parent_id (f_meta f))) \<and>
       (fm_parent_id (f_meta f) \<noteq> 0 \<longrightarrow>
          fm_parent_id (f_meta f) < i \<and> get_file s (fm_parent_id (f_meta f)) \<noteq> None))"
proof -
  note S = super_invD(2) [OF running_inv(2) [OF assms(1-3)]]
  have linked: "file_linked s j f" if "get_file s j = Some f" for j f by (rule file_invD(2) [OF S that])
  have stat: "cyanfs_stat s j = (Ok, Some m) \<longleftrightarrow> (\<exists>f. get_file s j = Some f \<and> f_meta f = m)" for j
    using assms(4) by (auto simp: cyanfs_stat_def Let_def lookup_file_by_id_def split: option.splits)
  have look: "cyanfs_lookup s n = (Ok, Some m) \<longleftrightarrow>
      (\<exists>j f. idx_find (files_by_name s) n = Some j \<and> get_file s j = Some f \<and> f_meta f = m)" if "name_ok n" for n
    using assms(4) that
    by (auto simp: cyanfs_lookup_def Let_def lookup_file_by_name_def name_ok_def split: option.splits)
  have "cyanfs_stat s i = (Ok, Some m) \<longleftrightarrow> cyanfs_lookup s (fm_name m) = (Ok, Some m) \<and> fm_id m = i"
  proof
    assume "cyanfs_stat s i = (Ok, Some m)"
    then obtain f where f: "get_file s i = Some f" "f_meta f = m" using stat by blast
    then have "name_ok (fm_name m)" "idx_find (files_by_name s) (fm_name m) = Some i" "fm_id m = i"
      using linked [OF f(1)] by (auto simp: file_linked_def)
    then show "cyanfs_lookup s (fm_name m) = (Ok, Some m) \<and> fm_id m = i" using look f by blast
  next
    assume a: "cyanfs_lookup s (fm_name m) = (Ok, Some m) \<and> fm_id m = i"
    then obtain j f where "get_file s j = Some f" "f_meta f = m"
      using assms(4)
      by (auto simp: cyanfs_lookup_def Let_def lookup_file_by_name_def split: option.splits if_splits)
    moreover from this have "j = i" using linked a by (auto simp: file_linked_def)
    ultimately show "cyanfs_stat s i = (Ok, Some m)" using stat by blast
  qed
  moreover have "f_parent f = (if fm_parent_id (f_meta f) = 0 then None else Some (fm_parent_id (f_meta f))) \<and>
       (fm_parent_id (f_meta f) \<noteq> 0 \<longrightarrow>
          fm_parent_id (f_meta f) < i \<and> get_file s (fm_parent_id (f_meta f)) \<noteq> None)"
    if f: "get_file s i = Some f" for f
  proof (cases "f_parent f")
    case None
    then show ?thesis using linked [OF f] by (simp add: file_linked_def)
  next
    case (Some p)
    then have "fm_parent_id (f_meta f) = p" "p < i" "get_file s p \<noteq> None"
      using linked [OF f] by (simp_all add: file_linked_def)
    moreover from this obtain g where "get_file s p = Some g" by blast
    then have "p \<noteq> 0" using linked by (auto simp: file_linked_def)
    ultimately show ?thesis using Some by simp
  qed
  ultimately show ?thesis by blast
qed

theorem lookup_stat_agree_witness:
  "\<exists>m. cyanfs_stat sample_created 1 = (Ok, Some m) \<and> cyanfs_lookup sample_created (fm_name m) = (Ok, Some m)"
proof -
  obtain m where m: "cyanfs_stat sample_created 1 = (Ok, Some m)"
    by (simp add: cyanfs_stat_def sample_created_status lookup_file_by_id_def sample_created_spec(4))
  then show ?thesis
    using lookup_stat_agree [OF sample_mounted _ sample_running(1) sample_created_status, of 1 m] by auto
qed

subsection \<open>Replay, open and the tasks\<close>

text \<open>C4: replaying one journal entry, valid or not, in a state that is being loaded refines the file table:
  a valid entry is accepted and changes the table as it says, and an entry that the table does not allow
  is refused with an error and without any change.\<close>

theorem replay_refines_table:
  assumes "replay_state r" "mem 0" "entry_wf j"
  shows "case apply_entry j (table_of r) of
      Some t \<Rightarrow> \<exists>r'. journal_replay mem j r = (Ok, r') \<and> replay_state r' \<and> table_of r' = t
    | None \<Rightarrow> fst (journal_replay mem j r) \<noteq> Ok \<and> snd (journal_replay mem j r) = r"
  using replay_refines [where mem = mem, OF assms] unfolding replay_matches_def .

theorem replay_refines_table_witness:
  "(\<exists>r'. journal_replay (\<lambda>_. True) (JCREATE sample_name 1) (loading sample_opened) = (Ok, r') \<and> replay_state r') \<and>
   fst (journal_replay (\<lambda>_. True) (JDELETE 1) (loading sample_opened)) \<noteq> Ok"
proof -
  note L = loading_state [OF sample_open]
  have e: "table_of (loading sample_opened) = empty_table 16" using L(4) sample_size_valid(2) by simp
  have "\<exists>t. apply_entry (JCREATE sample_name 1) (empty_table 16) = Some t"
    by (simp add: empty_table_def add_file_def name_used_def)
  moreover have "apply_entry (JDELETE 1) (empty_table 16) = None" by (simp add: empty_table_def)
  ultimately show ?thesis
    using replay_refines_table [OF L(1), of "\<lambda>_. True" "JCREATE sample_name 1"]
      replay_refines_table [OF L(1), of "\<lambda>_. True" "JDELETE 1"]
    unfolding e by (auto simp del: apply_entry.simps journal_replay.simps)
qed

text \<open>C16: \<open>cyanfs_super_open\<close> succeeds exactly for device sizes from one extent behind the super block up to
  2 to the 30 extents, if all allocations and locks succeed; the new super block has all extents free
  and no files, and its only task reads the super block.\<close>

theorem super_open_correct:
  "(super_open mem locks raw rf sz d c \<noteq> None) =
     (valid_device_size sz \<and> mem 0 \<and> fst locks \<and> snd locks \<and>
      (\<forall>i < (unat sz - 8192) div 2 ^ 20. mem (1 + i)) \<and>
      mem (1 + (unat sz - 8192) div 2 ^ 20) \<and> mem (2 + (unat sz - 8192) div 2 ^ 20)) \<and>
   (\<forall>s. super_open mem locks raw rf sz d c = Some s \<longrightarrow>
      super_inv s \<and> table_of s = empty_table ((unat sz - 8192) div 2 ^ 20) \<and> ensure_status s = BUSY \<and>
      (\<exists>a. task_head s = [Loader_Task a] \<and> t_type (task_at s (Loader_Task a)) = TASK_READ 0 8192))"
proof -
  have tot: "unat (sm_total_extents (meta (open_init sz d c raw rf))) = (unat sz - 8192) div 2 ^ 20"
    if "valid_device_size sz"
    using open_init_fields(5) [OF that, where d = d and c = c and raw = raw and rf = rf]
    by (simp add: total_extents_def)
  have "(super_open mem locks raw rf sz d c \<noteq> None) =
     (valid_device_size sz \<and> mem 0 \<and> fst locks \<and> snd locks \<and>
      (\<forall>i < (unat sz - 8192) div 2 ^ 20. mem (1 + i)) \<and>
      mem (1 + (unat sz - 8192) div 2 ^ 20) \<and> mem (2 + (unat sz - 8192) div 2 ^ 20))"
    using tot device_size_iff [of sz]
    by (auto simp: super_open_def Let_def case_prod_unfold list_all_iff split: if_splits)
  moreover have "super_inv s \<and> table_of s = empty_table ((unat sz - 8192) div 2 ^ 20) \<and> ensure_status s = BUSY \<and>
      (\<exists>a. task_head s = [Loader_Task a] \<and> t_type (task_at s (Loader_Task a)) = TASK_READ 0 8192)"
    if "super_open mem locks raw rf sz d c = Some s" for s
    using super_open_Some [OF that] replay_stateD(1,4) by (auto simp: ensure_status_def)
  ultimately show ?thesis by blast
qed

theorem super_open_correct_witness:
  "super_inv sample_opened \<and> table_of sample_opened = empty_table 16"
  using super_open_correct [of "\<lambda>_. True" "(True, True)" sample_raw "\<lambda>_. 0" sample_size False False]
    sample_open sample_size_valid(2)
  by simp

end
